(* ===== verification/Prelude.thy ===== *)
theory Prelude
  imports Main "HOL-Library.Word" "HOL-Library.List_Lexorder"
begin

text \<open>
  Shared vocabulary of the development: the machine types of the C++ sources, the
  reading of \<^verbatim>\<open>assert\<close>, and the generic facts on lists and machine words that the
  component theories use.

  \<^item> \<^verbatim>\<open>uint8_t\<close>, \<^verbatim>\<open>uint32_t\<close> and \<^verbatim>\<open>uint64_t\<close> are the words \<open>u8\<close>, \<open>u32\<close> and
    \<open>u64\<close>, whose arithmetic wraps as the C++ arithmetic does;
  \<^item> a \<^verbatim>\<open>std::string\<close>, and the memory a \<^verbatim>\<open>Slice\<close> or a \<^verbatim>\<open>char*\<close> range refers to, is
    a list of bytes. Every use of \<^verbatim>\<open>char\<close> in the modelled code goes through an unsigned
    cast or does not depend on the sign of \<^verbatim>\<open>char\<close>;
  \<^item> a failed \<^verbatim>\<open>assert\<close> is the value \<^term>\<open>None\<close> of an \<open>option\<close> result (\<open>asserting\<close>),
    so that a theorem that a function returns \<^term>\<open>Some\<close> also says that its assertions hold.
\<close>

unbundle bit_operations_syntax

type_synonym u8 = "8 word"
type_synonym u32 = "32 word"
type_synonym u64 = "64 word"
type_synonym bytes = "u8 list"

text \<open>The bytes of a string literal.\<close>

definition ascii :: "string \<Rightarrow> bytes" where
  "ascii s = map of_char s"

lemma ascii_simps [simp]:
  "ascii [] = []"
  "ascii (c # cs) = of_char c # ascii cs"
  by (simp_all add: ascii_def)

text \<open>\<^verbatim>\<open>assert(b); rest\<close>.\<close>

definition asserting :: "bool \<Rightarrow> 'a option \<Rightarrow> 'a option" where
  "asserting b r = (if b then r else None)"

lemma asserting_simps [simp]:
  "asserting True r = r"
  "asserting False r = None"
  by (simp_all add: asserting_def)

lemma asserting_eq_Some [simp]: "asserting b r = Some x \<longleftrightarrow> b \<and> r = Some x"
  by (simp add: asserting_def)

lemma asserting_mono [partial_function_mono]:
  "monotone ord option_ord B \<Longrightarrow> monotone ord option_ord (\<lambda>f. asserting b (B f))"
  by (cases b) (simp_all add: monotone_def flat_ord_def)

text \<open>
  A block of memory is a list of bytes: \<open>mem_write\<close> copies bytes into it and \<open>mem_read\<close> out of
  it, and both are \<^term>\<open>None\<close> outside the block. Fresh memory (\<^verbatim>\<open>new char[n]\<close>) holds arbitrary
  bytes, given by a function \<open>junk\<close> that the definitions take as an argument.
\<close>

definition mem_write :: "bytes \<Rightarrow> nat \<Rightarrow> bytes \<Rightarrow> bytes option" where
  "mem_write b off src =
     asserting (off + length src \<le> length b) (Some (take off b @ src @ drop (off + length src) b))"

definition mem_read :: "bytes \<Rightarrow> nat \<Rightarrow> nat \<Rightarrow> bytes option" where
  "mem_read b off n = asserting (off + n \<le> length b) (Some (take n (drop off b)))"

definition mem_new :: "(nat \<Rightarrow> u8) \<Rightarrow> nat \<Rightarrow> bytes" where
  "mem_new junk n = map junk [0..<n]"

lemma length_mem_new [simp]: "length (mem_new junk n) = n"
  by (simp add: mem_new_def)

text \<open>A block of \<open>n\<close> bytes whose first bytes are written.\<close>

definition filled :: "nat \<Rightarrow> bytes \<Rightarrow> bytes \<Rightarrow> bool" where
  "filled n p b \<longleftrightarrow> length b = n \<and> take (length p) b = p \<and> length p \<le> n"

lemma filled_new: "filled n [] (mem_new junk n)"
  by (simp add: filled_def)

lemma filled_write:
  assumes "filled n p b" and "off = length p" and "off + length src \<le> n"
  obtains b' where "mem_write b off src = Some b'" and "filled n (p @ src) b'"
  using assms by (auto simp: filled_def mem_write_def)

lemma filled_full: "filled n p b \<Longrightarrow> length p = n \<Longrightarrow> b = p"
  by (auto simp: filled_def)

subsection \<open>Collections of rewrite rules\<close>

named_theorems bit_facts "facts that reduce word equations to their bits"
named_theorems size_facts "lengths of encodings"

subsection \<open>Machine words\<close>

lemma unat_less_pow: "unat (w :: 'a::len word) < 2 ^ LENGTH('a)"
  by (rule unsigned_less)

lemma unat_u8_less: "unat (b :: u8) < 256"
  using unat_less_pow [of b] by simp

lemma unat_u32_less: "unat (w :: u32) < 2 ^ 32"
  using unat_less_pow [of w] by simp

lemma unat_u64_less: "unat (w :: u64) < 2 ^ 64"
  using unat_less_pow [of w] by simp

lemma word_eq_bitsI:
  fixes v w :: "'a::len word"
  assumes "\<And>n. n < LENGTH('a) \<Longrightarrow> bit v n \<longleftrightarrow> bit w n"
  shows "v = w"
  using assms by (rule bit_word_eqI)

lemma word_eq_bits_iff: "v = w \<longleftrightarrow> (\<forall>n < LENGTH('a). bit v n \<longleftrightarrow> bit w n)" for v w :: "'a::len word"
  by (auto intro: word_eq_bitsI)

lemma bit_u8_high [bit_facts]: "8 \<le> n \<Longrightarrow> \<not> bit b n" for b :: u8
  using bit_imp_le_length [of b n] by auto

lemma unat_ucast_up:
  fixes w :: "'a::len word"
  assumes "LENGTH('a) \<le> LENGTH('b::len)"
  shows "unat (ucast w :: 'b word) = unat w"
proof -
  have "unat w < 2 ^ LENGTH('b)"
    using unat_less_pow [of w] assms by (meson less_le_trans one_le_numeral power_increasing)
  then show ?thesis
    by (simp add: unsigned_ucast_eq take_bit_nat_eq_self)
qed

lemma unat_drop_bit_div: "unat (drop_bit n v) = unat v div 2 ^ n" for v :: "'a::len word"
  by (simp only: unat_drop_bit_eq) (simp only: drop_bit_eq_div)

lemma unat_drop_bit_less:
  fixes v :: "'a::len word"
  assumes "0 < n" and "v \<noteq> 0"
  shows "unat (drop_bit n v) < unat v"
proof -
  have "0 < unat v"
    using assms by (simp add: unat_gt_0)
  moreover have "(1::nat) < 2 ^ n"
    using assms(1) one_less_power [of "2::nat" n] by simp
  ultimately show ?thesis
    by (simp add: unat_drop_bit_div div_less_dividend)
qed

text \<open>The high bits of a word below a power of two are clear.\<close>

lemma not_bit_if_less_pow:
  fixes v :: "'a::len word"
  assumes "unat v < 2 ^ k" and "k \<le> n"
  shows "\<not> bit v n"
proof -
  have "unat v < 2 ^ n"
    using assms by (meson less_le_trans one_le_numeral power_increasing)
  then have "\<not> bit (unat v) n"
    by (metis bit_iff_odd div_less even_zero)
  then show ?thesis
    by (simp add: bit_unsigned_iff)
qed

lemma less_pow_iff_bits:
  fixes v :: "'a::len word"
  shows "unat v < 2 ^ k \<longleftrightarrow> (\<forall>n \<ge> k. \<not> bit v n)"
proof
  assume "unat v < 2 ^ k"
  then show "\<forall>n \<ge> k. \<not> bit v n"
    using not_bit_if_less_pow by blast
next
  assume high: "\<forall>n \<ge> k. \<not> bit v n"
  have "take_bit k v = v"
    by (rule word_eq_bitsI) (use high in \<open>auto simp: bit_take_bit_iff simp flip: not_le\<close>)
  then have "unat v = take_bit k (unat v)"
    by (metis unsigned_take_bit_eq)
  then show "unat v < 2 ^ k"
    by (metis take_bit_nat_less_exp)
qed

subsection \<open>Lists\<close>

lemma take_drop_split: "n \<le> length xs \<Longrightarrow> xs = take n xs @ drop n xs"
  by simp

lemma nth_append_prefix: "i < length xs \<Longrightarrow> (xs @ ys) ! i = xs ! i"
  by (simp add: nth_append)

end
