(* ===== verification/Slice.thy ===== *)
theory Slice
  imports Prelude
begin

text \<open>
  The slices of \<^verbatim>\<open>include/lldb/slice.h\<close>. A slice is modelled by the bytes it refers to;
  \<^verbatim>\<open>data()\<close> is those bytes and \<^verbatim>\<open>size()\<close> their number. The theory gives \<^verbatim>\<open>memcmp\<close> as the
  C standard specifies it (sign only), the members of the class, and shows that
  \<^verbatim>\<open>Slice::compare\<close> decides the lexicographic order on byte strings, which is the order
  the library's \<^theory_text>\<open>linorder\<close> instance puts on lists.
\<close>

subsection \<open>Definitions\<close>

text \<open>\<^verbatim>\<open>memcmp(a, b, n)\<close>: the first differing byte among the first \<open>n\<close>, as unsigned values.\<close>

fun memcmp :: "bytes \<Rightarrow> bytes \<Rightarrow> nat \<Rightarrow> int" where
  "memcmp (x # xs) (y # ys) (Suc n) =
     (if x < y then -1 else if y < x then 1 else memcmp xs ys n)"
| "memcmp _ _ _ = 0"

definition Slice_empty :: "bytes \<Rightarrow> bool" where
  "Slice_empty s \<longleftrightarrow> length s = 0"

definition Slice_nth :: "bytes \<Rightarrow> nat \<Rightarrow> u8 option" where
  "Slice_nth s n = asserting (n < length s) (Some (s ! n))"

definition Slice_clear :: "bytes \<Rightarrow> bytes" where
  "Slice_clear s = []"

definition Slice_remove_prefix :: "bytes \<Rightarrow> nat \<Rightarrow> bytes option" where
  "Slice_remove_prefix s n = asserting (n \<le> length s) (Some (drop n s))"

definition Slice_starts_with :: "bytes \<Rightarrow> bytes \<Rightarrow> bool" where
  "Slice_starts_with s x \<longleftrightarrow> length x \<le> length s \<and> memcmp s x (length x) = 0"

definition Slice_eq :: "bytes \<Rightarrow> bytes \<Rightarrow> bool" where
  "Slice_eq x y \<longleftrightarrow> length x = length y \<and> memcmp x y (length x) = 0"

definition Slice_compare :: "bytes \<Rightarrow> bytes \<Rightarrow> int" where
  "Slice_compare a b =
     (let min_len = (if length a < length b then length a else length b);
          r = memcmp a b min_len
      in if r = 0
         then (if length a < length b then -1 else if length b < length a then 1 else r)
         else r)"

subsection \<open>memcmp\<close>

lemma memcmp_take: "memcmp (take n xs) (take n ys) n = memcmp xs ys n"
  by (induction xs ys n rule: memcmp.induct) auto

lemma memcmp_eq_0:
  "n \<le> length xs \<Longrightarrow> n \<le> length ys \<Longrightarrow> memcmp xs ys n = 0 \<longleftrightarrow> take n xs = take n ys"
  by (induction xs ys n rule: memcmp.induct) auto

lemma memcmp_flip: "memcmp ys xs n = - memcmp xs ys n"
proof (induction xs ys n rule: memcmp.induct)
  case (1 x xs y ys n)
  then show ?case by auto
qed (auto split: nat.splits)

subsection \<open>Slice operations\<close>

lemma Slice_eq_iff [simp]: "Slice_eq x y \<longleftrightarrow> x = y"
  by (auto simp: Slice_eq_def memcmp_eq_0)

lemma Slice_starts_with_iff: "Slice_starts_with s x \<longleftrightarrow> (\<exists>r. s = x @ r)"
proof
  assume "Slice_starts_with s x"
  then have "take (length x) s = x"
    by (auto simp: Slice_starts_with_def memcmp_eq_0)
  then show "\<exists>r. s = x @ r"
    by (metis append_take_drop_id)
next
  assume "\<exists>r. s = x @ r"
  then show "Slice_starts_with s x"
    by (auto simp: Slice_starts_with_def memcmp_eq_0)
qed

text \<open>The comparison follows the strings from the left, as the lexicographic order does.\<close>

lemma Slice_compare_Cons:
  "Slice_compare (x # xs) (y # ys) =
     (if x < y then -1 else if y < x then 1 else Slice_compare xs ys)"
  by (simp add: Slice_compare_def Let_def)

lemma Slice_compare_Nil [simp]:
  "Slice_compare [] [] = 0"
  "Slice_compare [] (y # ys) = -1"
  "Slice_compare (x # xs) [] = 1"
  by (simp_all add: Slice_compare_def)

lemma Slice_compare_less: "Slice_compare a b < 0 \<longleftrightarrow> a < b"
proof (induction a arbitrary: b)
  case Nil
  then show ?case by (cases b) auto
next
  case (Cons x xs)
  then show ?case by (cases b) (auto simp: Slice_compare_Cons)
qed

lemma Slice_compare_eq: "Slice_compare a b = 0 \<longleftrightarrow> a = b"
proof (induction a arbitrary: b)
  case Nil
  then show ?case by (cases b) auto
next
  case (Cons x xs)
  then show ?case by (cases b) (auto simp: Slice_compare_Cons)
qed

lemma Slice_compare_greater: "0 < Slice_compare a b \<longleftrightarrow> b < a"
  using Slice_compare_less Slice_compare_eq by (metis linorder_less_linear order_less_imp_triv)

lemma Slice_compare_le: "Slice_compare a b \<le> 0 \<longleftrightarrow> a \<le> b"
  using Slice_compare_greater [of a b] by (auto simp: not_less [symmetric])

lemmas Slice_compare_iffs =
  Slice_compare_less Slice_compare_eq Slice_compare_greater Slice_compare_le

lemma append_less_same [simp]: "p @ a < p @ b \<longleftrightarrow> a < b" for p a b :: bytes
  by (induction p) auto

lemma append_le_same [simp]: "p @ a \<le> p @ b \<longleftrightarrow> a \<le> b" for p a b :: bytes
  by (induction p) auto

text \<open>The first difference of two byte strings, if there is one.\<close>

definition differs_below :: "bytes \<Rightarrow> bytes \<Rightarrow> bool" where
  "differs_below a b \<longleftrightarrow> (\<exists>p x y a' b'. a = p @ x # a' \<and> b = p @ y # b' \<and> x < y)"

lemma differs_below_simps [simp]:
  "\<not> differs_below [] b" "\<not> differs_below a []"
  "differs_below (c # a) (d # b) \<longleftrightarrow> c < d \<or> c = d \<and> differs_below a b"
proof -
  show "\<not> differs_below [] b" "\<not> differs_below a []"
    by (simp_all add: differs_below_def)
  show "differs_below (c # a) (d # b) \<longleftrightarrow> c < d \<or> c = d \<and> differs_below a b"
  proof
    assume "differs_below (c # a) (d # b)"
    then show "c < d \<or> c = d \<and> differs_below a b"
      unfolding differs_below_def by (auto simp: Cons_eq_append_conv)
  next
    assume "c < d \<or> c = d \<and> differs_below a b"
    then show "differs_below (c # a) (d # b)"
      unfolding differs_below_def by (metis append_Cons append_Nil)
  qed
qed

lemma less_bytes_iff: "a < b \<longleftrightarrow> differs_below a b \<or> (\<exists>y b'. b = a @ y # b')"
proof (induction a arbitrary: b)
  case Nil
  then show ?case by (cases b) auto
next
  case (Cons c a)
  then show ?case by (cases b) auto
qed

subsection \<open>Properties\<close>

text \<open>The sign of \<^verbatim>\<open>Slice::compare\<close> is the lexicographic order on unsigned bytes: negative
  exactly if the slices first differ at a smaller byte or the first is a proper prefix of the
  second, zero exactly if they are equal, and it changes sign when the arguments are exchanged.\<close>

theorem Slice_compare_lexicographic:
  "(Slice_compare a b < 0 \<longleftrightarrow> differs_below a b \<or> (\<exists>y b'. b = a @ y # b')) \<and>
   (Slice_compare a b = 0 \<longleftrightarrow> a = b) \<and>
   (Slice_compare b a > 0 \<longleftrightarrow> Slice_compare a b < 0)"
  by (simp add: Slice_compare_iffs flip: less_bytes_iff)

end
