(* ===== verification/Comparator.thy ===== *)
theory Comparator
  imports Slice
begin

text \<open>
  Key orders: the abstract class \<^verbatim>\<open>Comparator\<close> of \<^verbatim>\<open>include/lldb/comparator.h\<close> and the
  bytewise comparator of \<^verbatim>\<open>util/comparator.cpp\<close>.

  The contract of a three-way comparison is the locale \<open>key_order\<close>, over the keys that
  satisfy a predicate \<open>ok\<close> (a comparator may be meaningful on well-formed keys only); the
  skip list, the merging iterator and the internal-key comparator rely on it. The locale
  \<open>comparator\<close> adds the two key-shortening functions with what the header promises of
  them. Both are interpreted on the bytewise comparator here, and on the internal-key
  comparator in the theory of \<^verbatim>\<open>db/dbformat\<close>.
\<close>

subsection \<open>The abstract class\<close>

record Comparator =
  Name :: string
  Compare :: "bytes \<Rightarrow> bytes \<Rightarrow> int"
  FindShortestSeparator :: "bytes \<Rightarrow> bytes \<Rightarrow> bytes option"
  FindShortSuccessor :: "bytes \<Rightarrow> bytes option"

subsection \<open>The bytewise comparator\<close>

text \<open>The \<^verbatim>\<open>while\<close> loop that finds the length of the common prefix.\<close>

fun common_prefix_length :: "bytes \<Rightarrow> bytes \<Rightarrow> nat" where
  "common_prefix_length (x # xs) (y # ys) =
     (if x = y then Suc (common_prefix_length xs ys) else 0)"
| "common_prefix_length _ _ = 0"

definition Bytewise_FindShortestSeparator :: "bytes \<Rightarrow> bytes \<Rightarrow> bytes option" where
  "Bytewise_FindShortestSeparator start limit =
     (let min_length = min (length start) (length limit);
          diff_index = common_prefix_length start limit
      in if min_length \<le> diff_index then Some start
         else let diff_byte = start ! diff_index in
           if diff_byte < 0xff \<and> unat diff_byte + 1 < unat (limit ! diff_index)
           then let start' = take (diff_index + 1) (start[diff_index := diff_byte + 1])
                in asserting (Slice_compare start' limit < 0) (Some start')
           else Some start)"

text \<open>The \<^verbatim>\<open>for\<close> loop increments the first byte that is not \<^verbatim>\<open>0xff\<close> and cuts after it.\<close>

fun Bytewise_FindShortSuccessor :: "bytes \<Rightarrow> bytes" where
  "Bytewise_FindShortSuccessor [] = []"
| "Bytewise_FindShortSuccessor (byte # rest) =
     (if byte \<noteq> 0xff then [byte + 1] else byte # Bytewise_FindShortSuccessor rest)"

definition BytewiseComparator :: Comparator where
  "BytewiseComparator =
     \<lparr> Name = ''lldb.BytewiseComparator'',
       Compare = Slice_compare,
       FindShortestSeparator = Bytewise_FindShortestSeparator,
       FindShortSuccessor = (\<lambda>key. Some (Bytewise_FindShortSuccessor key)) \<rparr>"

subsection \<open>The contract of a three-way comparison\<close>

locale key_order =
  fixes ok :: "'k \<Rightarrow> bool"
    and cmp :: "'k \<Rightarrow> 'k \<Rightarrow> int"
  assumes cmp_refl: "ok a \<Longrightarrow> cmp a a = 0"
    and cmp_flip: "ok a \<Longrightarrow> ok b \<Longrightarrow> cmp a b < 0 \<longleftrightarrow> 0 < cmp b a"
    and cmp_trans: "ok a \<Longrightarrow> ok b \<Longrightarrow> ok c \<Longrightarrow> cmp a b \<le> 0 \<Longrightarrow> cmp b c \<le> 0 \<Longrightarrow> cmp a c \<le> 0"
begin

lemma cmp_eq_sym: "ok a \<Longrightarrow> ok b \<Longrightarrow> cmp a b = 0 \<longleftrightarrow> cmp b a = 0"
  using cmp_flip [of a b] cmp_flip [of b a] by linarith

lemma cmp_le_flip: "ok a \<Longrightarrow> ok b \<Longrightarrow> cmp a b \<le> 0 \<longleftrightarrow> 0 \<le> cmp b a"
  using cmp_flip [of b a] by linarith

lemma cmp_less_le_trans:
  assumes "ok a" "ok b" "ok c" "cmp a b < 0" "cmp b c \<le> 0"
  shows "cmp a c < 0"
proof (rule ccontr)
  assume "\<not> cmp a c < 0"
  then have "cmp c a \<le> 0"
    using assms cmp_le_flip [of c a] by simp
  then have "cmp b a \<le> 0"
    using assms cmp_trans [of b c a] by simp
  then show False
    using assms cmp_flip [of a b] by simp
qed

lemma cmp_le_less_trans:
  assumes "ok a" "ok b" "ok c" "cmp a b \<le> 0" "cmp b c < 0"
  shows "cmp a c < 0"
proof (rule ccontr)
  assume "\<not> cmp a c < 0"
  then have "cmp c a \<le> 0"
    using assms cmp_le_flip [of c a] by simp
  then have "cmp c b \<le> 0"
    using assms cmp_trans [of c a b] by simp
  then show False
    using assms cmp_flip [of b c] by simp
qed

lemma cmp_less_trans:
  "ok a \<Longrightarrow> ok b \<Longrightarrow> ok c \<Longrightarrow> cmp a b < 0 \<Longrightarrow> cmp b c < 0 \<Longrightarrow> cmp a c < 0"
  by (rule cmp_less_le_trans) auto

lemma cmp_total: "ok a \<Longrightarrow> ok b \<Longrightarrow> cmp a b < 0 \<or> cmp a b = 0 \<or> cmp b a < 0"
  using cmp_flip [of b a] by linarith

end

text \<open>
  The whole class: the header's promises on the key-shortening functions. It says that
  \<^verbatim>\<open>FindShortestSeparator\<close> changes the key if it lies below the limit, and so not otherwise.
\<close>

locale comparator = key_order ok "Compare C" for ok and C :: Comparator +
  assumes separator:
    "ok s \<Longrightarrow> ok l \<Longrightarrow> Compare C s l < 0 \<Longrightarrow>
     \<exists>r. FindShortestSeparator C s l = Some r \<and> ok r \<and> Compare C s r \<le> 0 \<and> Compare C r l < 0"
    and separator_only_below:
    "ok s \<Longrightarrow> ok l \<Longrightarrow> \<not> Compare C s l < 0 \<Longrightarrow> FindShortestSeparator C s l = Some s"
    and successor:
    "ok k \<Longrightarrow> \<exists>r. FindShortSuccessor C k = Some r \<and> ok r \<and> Compare C k r \<le> 0"

subsection \<open>Correctness of the bytewise comparator\<close>

interpretation bytewise_order: key_order "\<lambda>_. True" Slice_compare
  by unfold_locales (auto simp: Slice_compare_iffs)

lemma common_prefix_lengthE:
  assumes "common_prefix_length s l < min (length s) (length l)"
  obtains p x s' y l' where
    "s = p @ x # s'" and "l = p @ y # l'" and "x \<noteq> y" and "common_prefix_length s l = length p"
proof -
  have "\<exists>p x s' y l'. s = p @ x # s' \<and> l = p @ y # l' \<and> x \<noteq> y \<and> common_prefix_length s l = length p"
    using assms
  proof (induction s l rule: common_prefix_length.induct)
    case (1 x xs y ys)
    show ?case
    proof (cases "x = y")
      case True
      with 1 obtain p x' s' y' l' where
        "xs = p @ x' # s'" "ys = p @ y' # l'" "x' \<noteq> y'" "common_prefix_length xs ys = length p"
        by auto
      with True show ?thesis
        by (intro exI [of _ "x # p"] exI [of _ x'] exI [of _ s'] exI [of _ y'] exI [of _ l']) simp
    next
      case False
      then show ?thesis
        by (intro exI [of _ "[]"]) auto
    qed
  qed auto
  then show ?thesis
    using that by blast
qed

lemma byte_increment:
  fixes x y :: u8
  assumes "x < 0xff" and "unat x + 1 < unat y"
  shows "x < x + 1" and "x + 1 < y"
proof -
  have "unat (x + 1) = unat x + 1"
    using assms by (simp add: unat_word_ariths word_less_nat_alt)
  then show "x < x + 1" and "x + 1 < y"
    using assms by (simp_all add: word_less_nat_alt)
qed

lemma Bytewise_FindShortestSeparator_spec:
  obtains r where "Bytewise_FindShortestSeparator s l = Some r"
    and "s \<le> r" and "length r \<le> length s" and "s < l \<Longrightarrow> r < l"
proof (cases "min (length s) (length l) \<le> common_prefix_length s l")
  case True
  then show ?thesis
    using that [of s] by (simp add: Bytewise_FindShortestSeparator_def)
next
  case False
  then have "common_prefix_length s l < min (length s) (length l)"
    by linarith
  then obtain p x s' y l' where
    s: "s = p @ x # s'" and l: "l = p @ y # l'" and n: "common_prefix_length s l = length p"
    by (rule common_prefix_lengthE)
  have nth: "s ! length p = x" "l ! length p = y"
    by (simp_all add: s l)
  let ?inc = "x < 0xff \<and> unat x + 1 < unat y"
  show ?thesis
  proof (cases ?inc)
    case True
    let ?r = "p @ [x + 1]"
    have less: "s < ?r" "?r < l"
      using byte_increment [of x y] True by (simp_all add: s l)
    have "take (length p + 1) (s[length p := x + 1]) = ?r"
      by (simp add: s)
    then have "Bytewise_FindShortestSeparator s l = Some ?r"
      using True False less
      by (simp add: Bytewise_FindShortestSeparator_def n nth Slice_compare_iffs)
    then show ?thesis
      using that [of ?r] less by (simp add: s)
  next
    case incF: False
    then have "Bytewise_FindShortestSeparator s l = Some s"
      using False by (auto simp: Bytewise_FindShortestSeparator_def n nth Let_def)
    then show ?thesis
      using that [of s] by simp
  qed
qed

lemma Bytewise_FindShortestSeparator_not_below:
  assumes "\<not> s < l"
  shows "Bytewise_FindShortestSeparator s l = Some s"
proof (cases "min (length s) (length l) \<le> common_prefix_length s l")
  case True
  then show ?thesis
    by (simp add: Bytewise_FindShortestSeparator_def)
next
  case False
  then have "common_prefix_length s l < min (length s) (length l)"
    by linarith
  then obtain p x s' y l' where
    s: "s = p @ x # s'" and l: "l = p @ y # l'" and n: "common_prefix_length s l = length p"
    by (rule common_prefix_lengthE)
  have nth: "s ! length p = x" "l ! length p = y"
    by (simp_all add: s l)
  have "\<not> x < y"
    using assms by (simp add: s l)
  then have "\<not> unat x + 1 < unat y"
    by (simp add: word_less_nat_alt)
  then show ?thesis
    by (simp add: Bytewise_FindShortestSeparator_def n nth Let_def)
qed

lemma Bytewise_FindShortSuccessor_ge: "k \<le> Bytewise_FindShortSuccessor k"
proof (induction k)
  case (Cons b k)
  have "b < b + 1" if "b \<noteq> 0xff"
  proof -
    have "unat b + 1 < 256"
      using that unat_u8_less [of b] by (simp add: word_unat_eq_iff)
    then show ?thesis
      by (simp add: word_less_nat_alt unat_word_ariths)
  qed
  with Cons show ?case by auto
qed simp

lemma Bytewise_FindShortSuccessor_length: "length (Bytewise_FindShortSuccessor k) \<le> length k"
  by (induction k) auto

interpretation bytewise: comparator "\<lambda>_. True" BytewiseComparator
proof unfold_locales
  fix s l :: bytes
  assume "Compare BytewiseComparator s l < 0"
  then have "s < l"
    by (simp add: BytewiseComparator_def Slice_compare_iffs)
  obtain r where "Bytewise_FindShortestSeparator s l = Some r" "s \<le> r" "s < l \<Longrightarrow> r < l"
    by (rule Bytewise_FindShortestSeparator_spec [of s l]) blast
  with \<open>s < l\<close> show "\<exists>r. FindShortestSeparator BytewiseComparator s l = Some r \<and> True \<and>
      Compare BytewiseComparator s r \<le> 0 \<and> Compare BytewiseComparator r l < 0"
    by (simp add: BytewiseComparator_def Slice_compare_iffs)
qed (auto simp: BytewiseComparator_def Slice_compare_iffs Bytewise_FindShortSuccessor_ge
    Bytewise_FindShortestSeparator_not_below)

subsection \<open>Properties\<close>

text \<open>The bytewise separator never fails its assertion; it is no longer than the start key, lies
  between the start key and a limit above it, and is the start key itself for any other limit.
  The short successor is no longer than the key and not below it.\<close>

theorem Bytewise_shortening:
  "(\<exists>r. FindShortestSeparator BytewiseComparator s l = Some r \<and> length r \<le> length s \<and>
      (if Compare BytewiseComparator s l < 0
       then Compare BytewiseComparator s r \<le> 0 \<and> Compare BytewiseComparator r l < 0
       else r = s)) \<and>
   (\<exists>r. FindShortSuccessor BytewiseComparator s = Some r \<and> length r \<le> length s \<and>
      Compare BytewiseComparator s r \<le> 0)"
proof -
  obtain r where r: "Bytewise_FindShortestSeparator s l = Some r" "s \<le> r" "length r \<le> length s"
    "s < l \<Longrightarrow> r < l"
    by (rule Bytewise_FindShortestSeparator_spec [of s l]) blast
  moreover have "\<not> s < l \<Longrightarrow> r = s"
    using r(1) Bytewise_FindShortestSeparator_not_below [of s l] by simp
  ultimately show ?thesis
    using Bytewise_FindShortSuccessor_ge [of s] Bytewise_FindShortSuccessor_length [of s]
    by (simp add: BytewiseComparator_def Slice_compare_iffs)
qed

end
