(* ===== verification/Coding.thy ===== *)
theory Coding
  imports Slice
begin

text \<open>
  The byte encodings of \<^verbatim>\<open>util/coding.h\<close> and \<^verbatim>\<open>util/coding.cpp\<close>: little-endian fixed-width
  integers, varints and length-prefixed slices.

  A routine that writes to a buffer and returns the pointer past its last byte is modelled
  by the list of bytes it writes. A routine that parses between \<^verbatim>\<open>p\<close> and \<^verbatim>\<open>limit\<close> takes
  the bytes of that range and returns, on success, the value and the bytes from the returned
  pointer to \<^verbatim>\<open>limit\<close>; \<^term>\<open>None\<close> is the null pointer. The \<^verbatim>\<open>Get\<close> routines on a
  \<^verbatim>\<open>Slice*\<close> return the value, if any, and the new contents of the slice. Reading a
  fixed-width integer from fewer bytes than it needs, which the C++ code leaves undefined,
  is \<^term>\<open>None\<close>.
\<close>

subsection \<open>Fixed-width integers\<close>

definition EncodeFixed32 :: "u32 \<Rightarrow> bytes" where
  "EncodeFixed32 value =
     [ucast value, ucast (drop_bit 8 value), ucast (drop_bit 16 value), ucast (drop_bit 24 value)]"

definition EncodeFixed64 :: "u64 \<Rightarrow> bytes" where
  "EncodeFixed64 value =
     [ucast value, ucast (drop_bit 8 value), ucast (drop_bit 16 value), ucast (drop_bit 24 value),
      ucast (drop_bit 32 value), ucast (drop_bit 40 value), ucast (drop_bit 48 value),
      ucast (drop_bit 56 value)]"

fun DecodeFixed32 :: "bytes \<Rightarrow> u32 option" where
  "DecodeFixed32 (b0 # b1 # b2 # b3 # _) =
     Some (ucast b0 OR push_bit 8 (ucast b1) OR push_bit 16 (ucast b2) OR push_bit 24 (ucast b3))"
| "DecodeFixed32 _ = None"

fun DecodeFixed64 :: "bytes \<Rightarrow> u64 option" where
  "DecodeFixed64 (b0 # b1 # b2 # b3 # b4 # b5 # b6 # b7 # _) =
     Some (ucast b0 OR push_bit 8 (ucast b1) OR push_bit 16 (ucast b2) OR push_bit 24 (ucast b3)
       OR push_bit 32 (ucast b4) OR push_bit 40 (ucast b5) OR push_bit 48 (ucast b6)
       OR push_bit 56 (ucast b7))"
| "DecodeFixed64 _ = None"

definition PutFixed32 :: "bytes \<Rightarrow> u32 \<Rightarrow> bytes" where
  "PutFixed32 dst value = dst @ EncodeFixed32 value"

definition PutFixed64 :: "bytes \<Rightarrow> u64 \<Rightarrow> bytes" where
  "PutFixed64 dst value = dst @ EncodeFixed64 value"

subsection \<open>Writing varints\<close>

definition EncodeVarint32 :: "u32 \<Rightarrow> bytes" where
  "EncodeVarint32 v =
     (let B = 128 in
      if v < 2 ^ 7 then [ucast v]
      else if v < 2 ^ 14 then [ucast (v OR B), ucast (drop_bit 7 v)]
      else if v < 2 ^ 21 then
        [ucast (v OR B), ucast (drop_bit 7 v OR B), ucast (drop_bit 14 v)]
      else if v < 2 ^ 28 then
        [ucast (v OR B), ucast (drop_bit 7 v OR B), ucast (drop_bit 14 v OR B),
         ucast (drop_bit 21 v)]
      else
        [ucast (v OR B), ucast (drop_bit 7 v OR B), ucast (drop_bit 14 v OR B),
         ucast (drop_bit 21 v OR B), ucast (drop_bit 28 v)])"

definition PutVarint32 :: "bytes \<Rightarrow> u32 \<Rightarrow> bytes" where
  "PutVarint32 dst v = dst @ EncodeVarint32 v"

text \<open>The loop ends because a shift right by seven lowers a value of at least 128.\<close>

lemma drop_bit_7_less:
  fixes v :: "'a::len word"
  assumes "unat v \<ge> 128"
  shows "unat (drop_bit 7 v) < unat v"
  by (rule unat_drop_bit_less) (use assms in auto)

function EncodeVarint64 :: "u64 \<Rightarrow> bytes" where
  "EncodeVarint64 v =
     (if 128 \<le> v then ucast (v OR 128) # EncodeVarint64 (drop_bit 7 v) else [ucast v])"
  by pat_completeness auto
termination
  by (relation "measure unat") (auto simp: word_le_nat_alt intro!: drop_bit_7_less)

declare EncodeVarint64.simps [simp del]

definition PutVarint64 :: "bytes \<Rightarrow> u64 \<Rightarrow> bytes" where
  "PutVarint64 dst v = dst @ EncodeVarint64 v"

definition PutLengthPrefixedSlice :: "bytes \<Rightarrow> bytes \<Rightarrow> bytes" where
  "PutLengthPrefixedSlice dst value = PutVarint32 dst (word_of_nat (length value)) @ value"

function VarintLength_loop :: "u64 \<Rightarrow> nat \<Rightarrow> nat" where
  "VarintLength_loop v len =
     (if 128 \<le> v then VarintLength_loop (drop_bit 7 v) (len + 1) else len)"
  by pat_completeness auto
termination
  by (relation "measure (\<lambda>(v, _). unat v)") (auto simp: word_le_nat_alt intro!: drop_bit_7_less)

declare VarintLength_loop.simps [simp del]

definition VarintLength :: "u64 \<Rightarrow> nat" where
  "VarintLength v = VarintLength_loop v 1"

subsection \<open>Reading varints\<close>

fun GetVarint32PtrFallback_loop :: "nat \<Rightarrow> u32 \<Rightarrow> bytes \<Rightarrow> (u32 \<times> bytes) option" where
  "GetVarint32PtrFallback_loop shift result [] = None"
| "GetVarint32PtrFallback_loop shift result (b # p) =
     (if shift \<le> 28
      then let byte = ucast b in
        if byte AND 128 \<noteq> 0
        then GetVarint32PtrFallback_loop (shift + 7) (result OR push_bit shift (byte AND 127)) p
        else Some (result OR push_bit shift byte, p)
      else None)"

definition GetVarint32PtrFallback :: "bytes \<Rightarrow> (u32 \<times> bytes) option" where
  "GetVarint32PtrFallback p = GetVarint32PtrFallback_loop 0 0 p"

definition GetVarint32Ptr :: "bytes \<Rightarrow> (u32 \<times> bytes) option" where
  "GetVarint32Ptr p =
     (case p of
        b # p' \<Rightarrow> (let result = ucast b in
                    if result AND 128 = 0 then Some (result, p') else GetVarint32PtrFallback p)
      | [] \<Rightarrow> GetVarint32PtrFallback p)"

definition GetVarint32 :: "bytes \<Rightarrow> u32 option \<times> bytes" where
  "GetVarint32 input =
     (case GetVarint32Ptr input of None \<Rightarrow> (None, input) | Some (value, q) \<Rightarrow> (Some value, q))"

fun GetVarint64Ptr_loop :: "nat \<Rightarrow> u64 \<Rightarrow> bytes \<Rightarrow> (u64 \<times> bytes) option" where
  "GetVarint64Ptr_loop shift result [] = None"
| "GetVarint64Ptr_loop shift result (b # p) =
     (if shift \<le> 63
      then let byte = ucast b in
        if byte AND 128 \<noteq> 0
        then GetVarint64Ptr_loop (shift + 7) (result OR push_bit shift (byte AND 127)) p
        else Some (result OR push_bit shift byte, p)
      else None)"

definition GetVarint64Ptr :: "bytes \<Rightarrow> (u64 \<times> bytes) option" where
  "GetVarint64Ptr p = GetVarint64Ptr_loop 0 0 p"

definition GetVarint64 :: "bytes \<Rightarrow> u64 option \<times> bytes" where
  "GetVarint64 input =
     (case GetVarint64Ptr input of None \<Rightarrow> (None, input) | Some (value, q) \<Rightarrow> (Some value, q))"

text \<open>On a length that exceeds the rest of the slice, the slice has already moved past the length.\<close>

definition GetLengthPrefixedSlice :: "bytes \<Rightarrow> bytes option \<times> bytes" where
  "GetLengthPrefixedSlice input =
     (case GetVarint32 input of
        (Some len, input') \<Rightarrow>
          (if unat len \<le> length input'
           then (Some (take (unat len) input'), drop (unat len) input')
           else (None, input'))
      | (None, input') \<Rightarrow> (None, input'))"

subsection \<open>Fixed-width round trips\<close>

lemma EncodeFixed_length [simp, size_facts]:
  "length (EncodeFixed32 w) = 4"
  "length (EncodeFixed64 v) = 8"
  by (simp_all add: EncodeFixed32_def EncodeFixed64_def)

text \<open>One byte of a word, moved back to its place.\<close>

lemma bit_byte_of:
  fixes v :: "'a::len word"
  shows "bit (push_bit k (ucast (ucast (drop_bit k v) :: u8) :: 'a word)) n \<longleftrightarrow>
    k \<le> n \<and> n < k + 8 \<and> bit v n"
  using bit_imp_le_length [of v n] by (auto simp: bit_simps less_diff_conv2)

lemma bit_low_byte_of:
  fixes v :: "'a::len word"
  shows "bit (ucast (ucast v :: u8) :: 'a word) n \<longleftrightarrow> n < 8 \<and> bit v n"
  using bit_byte_of [of 0 v n] by simp

lemma le_bytes_32:
  fixes v :: u32
  shows "(ucast (ucast v :: u8) :: u32) OR push_bit 8 (ucast (ucast (drop_bit 8 v) :: u8))
     OR push_bit 16 (ucast (ucast (drop_bit 16 v) :: u8))
     OR push_bit 24 (ucast (ucast (drop_bit 24 v) :: u8)) = v" (is "?l = v")
proof (rule word_eq_bitsI)
  fix n assume "n < LENGTH(32)"
  then have "n < 32" by simp
  then show "bit ?l n = bit v n"
    by (simp only: bit_or_iff bit_byte_of bit_low_byte_of) linarith
qed

lemma le_bytes_64:
  fixes v :: u64
  shows "(ucast (ucast v :: u8) :: u64) OR push_bit 8 (ucast (ucast (drop_bit 8 v) :: u8))
     OR push_bit 16 (ucast (ucast (drop_bit 16 v) :: u8))
     OR push_bit 24 (ucast (ucast (drop_bit 24 v) :: u8))
     OR push_bit 32 (ucast (ucast (drop_bit 32 v) :: u8))
     OR push_bit 40 (ucast (ucast (drop_bit 40 v) :: u8))
     OR push_bit 48 (ucast (ucast (drop_bit 48 v) :: u8))
     OR push_bit 56 (ucast (ucast (drop_bit 56 v) :: u8)) = v" (is "?l = v")
proof (rule word_eq_bitsI)
  fix n assume "n < LENGTH(64)"
  then have "n < 64" by simp
  then show "bit ?l n = bit v n"
    by (simp only: bit_or_iff bit_byte_of bit_low_byte_of) linarith
qed

lemma byte_of_le_32:
  fixes b0 b1 b2 b3 :: u8
  defines "w \<equiv> (ucast b0 OR push_bit 8 (ucast b1) OR push_bit 16 (ucast b2) OR push_bit 24 (ucast b3)) :: u32"
  shows "EncodeFixed32 w = [b0, b1, b2, b3]"
  unfolding EncodeFixed32_def w_def by (auto intro!: word_eq_bitsI simp: bit_simps bit_u8_high)

lemma byte_of_le_64:
  fixes b0 b1 b2 b3 b4 b5 b6 b7 :: u8
  defines "w \<equiv> (ucast b0 OR push_bit 8 (ucast b1) OR push_bit 16 (ucast b2) OR push_bit 24 (ucast b3)
    OR push_bit 32 (ucast b4) OR push_bit 40 (ucast b5) OR push_bit 48 (ucast b6)
    OR push_bit 56 (ucast b7)) :: u64"
  shows "EncodeFixed64 w = [b0, b1, b2, b3, b4, b5, b6, b7]"
  unfolding EncodeFixed64_def w_def by (auto intro!: word_eq_bitsI simp: bit_simps bit_u8_high)

lemma DecodeFixed32_Encode [simp]: "DecodeFixed32 (EncodeFixed32 v @ rest) = Some v"
  by (simp add: EncodeFixed32_def le_bytes_32)

lemma DecodeFixed64_Encode [simp]: "DecodeFixed64 (EncodeFixed64 v @ rest) = Some v"
  by (simp add: EncodeFixed64_def le_bytes_64)

subsection \<open>Seven-bit groups\<close>

lemma bit_128 [bit_facts]: "bit (128 :: int) n \<longleftrightarrow> n = 7"
proof -
  have "(128 :: int) = 2 ^ 7" by simp
  then show ?thesis by (simp only: bit_exp_iff) auto
qed

lemma bit_127 [bit_facts]: "bit (127 :: int) n \<longleftrightarrow> n < 7"
proof -
  have "(127 :: int) = mask 7" by (simp add: mask_eq_exp_minus_1)
  then show ?thesis by (simp only: bit_mask_iff) auto
qed

lemma and_128_iff_bit:
  fixes b :: u8
  assumes "8 \<le> LENGTH('a::len)"
  shows "(ucast b :: 'a word) AND 128 = 0 \<longleftrightarrow> \<not> bit b 7"
  using assms by (auto simp: word_eq_bits_iff bit_simps bit_128 dest: spec [of _ 7])

lemma group_continues:
  fixes v :: "'a::len word"
  shows "bit (ucast (v OR 128) :: u8) 7 \<longleftrightarrow> 7 < LENGTH('a)"
  by (auto simp: bit_simps bit_128 dest: bit_imp_le_length)

lemma below_128: "\<not> 128 \<le> v \<longleftrightarrow> unat v < 2 ^ 7" for v :: u64
  by (simp add: word_le_nat_alt not_le)

text \<open>The group a writer emits for a value and the group that remains make up the value.\<close>

lemma group_join:
  fixes v :: "'a::len word"
  shows "push_bit k ((ucast (ucast (v OR 128) :: u8) :: 'a word) AND 127)
     OR push_bit (k + 7) (drop_bit 7 v) = push_bit k v"
proof (rule word_eq_bitsI)
  fix n assume "n < LENGTH('a)"
  then show "bit (push_bit k ((ucast (ucast (v OR 128) :: u8) :: 'a word) AND 127)
     OR push_bit (k + 7) (drop_bit 7 v)) n = bit (push_bit k v) n"
    by (cases "n < k + 7") (auto simp: bit_simps bit_127 bit_128)
qed

lemma ucast_u8_below_128:
  fixes v :: u64
  assumes "\<not> 128 \<le> v"
  shows "ucast (ucast v :: u8) = v" and "\<not> bit (ucast v :: u8) 7"
proof -
  have "unat v < 2 ^ 7"
    using assms by (simp add: below_128)
  then have high: "\<not> bit v n" if "7 \<le> n" for n
    using not_bit_if_less_pow that by blast
  show "ucast (ucast v :: u8) = v"
    by (rule word_eq_bitsI) (use high in \<open>auto simp: bit_simps simp flip: not_le\<close>)
  show "\<not> bit (ucast v :: u8) 7"
    using high by (simp add: bit_simps)
qed

subsection \<open>Varint round trips\<close>

lemma GetVarint64Ptr_loop_Encode:
  assumes "shift \<le> 63" and "unat v < 2 ^ (64 - shift)"
  shows "GetVarint64Ptr_loop shift r (EncodeVarint64 v @ rest) = Some (r OR push_bit shift v, rest)"
  using assms
proof (induction v arbitrary: shift r rule: EncodeVarint64.induct)
  case (1 v)
  show ?case
  proof (cases "128 \<le> v")
    case True
    have shift: "shift + 7 \<le> 63"
    proof (rule ccontr)
      assume "\<not> shift + 7 \<le> 63"
      then have "(2::nat) ^ (64 - shift) \<le> 2 ^ 7"
        by (intro power_increasing) auto
      then show False
        using True 1(3) by (simp add: word_le_nat_alt)
    qed
    have "unat (drop_bit 7 v) < 2 ^ (64 - (shift + 7))"
    proof -
      define k where "k = 57 - shift"
      have "64 - shift = k + 7" and k: "64 - (shift + 7) = k"
        using shift by (simp_all add: k_def)
      with 1(3) have "unat v < 2 ^ k * 2 ^ 7"
        by (simp add: power_add)
      then show ?thesis
        unfolding unat_drop_bit_div k by (rule less_mult_imp_div_less)
    qed
    from 1(1) [OF True shift this]
    show ?thesis
      using True 1(2)
      by (simp add: EncodeVarint64.simps [of v] and_128_iff_bit group_continues or.assoc group_join
          del: push_bit_and)
  next
    case False
    note small = ucast_u8_below_128 [OF False]
    then have "v AND 128 = 0"
      using and_128_iff_bit [where 'a = 64, of "ucast v"] by simp
    with False small show ?thesis
      using 1(2) by (simp add: EncodeVarint64.simps [of v])
  qed
qed

text \<open>The unrolled 32-bit writer emits what the loop of the 64-bit writer emits.\<close>

lemma EncodeVarint64_step:
  "128 \<le> v \<Longrightarrow> EncodeVarint64 v = ucast (v OR 128) # EncodeVarint64 (drop_bit 7 v)"
  "\<not> 128 \<le> v \<Longrightarrow> EncodeVarint64 v = [ucast v]"
  by (simp_all add: EncodeVarint64.simps [of v])

lemma ucast_group:
  "(ucast (ucast (v :: u32) :: u64) :: u8) = ucast v"
  "(ucast (ucast v OR 128 :: u64) :: u8) = ucast (v OR 128)"
  by (auto intro!: word_eq_bitsI simp: bit_simps bit_128)

lemma drop_bit_ucast_up: "drop_bit n (ucast v :: u64) = ucast (drop_bit n v)" for v :: u32
proof (rule word_eq_bitsI)
  fix i
  show "bit (drop_bit n (ucast v :: u64)) i = bit (ucast (drop_bit n v) :: u64) i"
    if "i < LENGTH(64)"
    using that bit_imp_le_length [of v "n + i"] by (auto simp: bit_simps)
qed

lemma ucast_128_le: "128 \<le> (ucast (drop_bit n v) :: u64) \<longleftrightarrow> 2 ^ (n + 7) \<le> unat v" for v :: u32
  by (simp add: word_le_nat_alt unat_drop_bit_div power_add unat_ucast_up
      less_eq_div_iff_mult_less_eq mult.commute)

lemma EncodeVarint64_ucast:
  "EncodeVarint64 (ucast (drop_bit n v)) =
     (if 2 ^ (n + 7) \<le> unat v
      then ucast (drop_bit n v OR 128) # EncodeVarint64 (ucast (drop_bit (n + 7) v))
      else [ucast (drop_bit n v)])" for v :: u32
  by (subst EncodeVarint64.simps)
    (simp add: ucast_128_le ucast_group drop_bit_ucast_up drop_bit_drop_bit add.commute)

lemma EncodeVarint32_eq_64: "EncodeVarint32 v = EncodeVarint64 (ucast v)"
proof -
  have "\<not> (2::nat) ^ 35 \<le> unat v"
    using unat_u32_less [of v] by simp
  then have "EncodeVarint64 (ucast (drop_bit 0 v)) = EncodeVarint32 v"
    unfolding EncodeVarint32_def Let_def word_less_nat_alt
    by (simp add: EncodeVarint64_ucast [of 0 v, simplified] EncodeVarint64_ucast [of 7 v]
        EncodeVarint64_ucast [of 14 v] EncodeVarint64_ucast [of 21 v] EncodeVarint64_ucast [of 28 v])
  then show ?thesis by simp
qed

lemma GetVarint32PtrFallback_loop_Encode:
  fixes v :: u32
  assumes "shift \<le> 28" and "7 dvd shift" and "unat v < 2 ^ (32 - shift)"
  shows "GetVarint32PtrFallback_loop shift r (EncodeVarint64 (ucast v) @ rest) =
    Some (r OR push_bit shift v, rest)"
  using assms
proof (induction "unat v" arbitrary: v shift r rule: less_induct)
  case less
  show ?case
  proof (cases "128 \<le> unat v")
    case True
    have shift: "shift + 7 \<le> 28"
    proof (rule ccontr)
      assume "\<not> shift + 7 \<le> 28"
      with less.prems have "shift = 28"
        by (auto simp: dvd_def)
      then show False
        using True less.prems by simp
    qed
    have "unat (drop_bit 7 v) < 2 ^ (32 - (shift + 7))"
    proof -
      define k where "k = 25 - shift"
      have "32 - shift = k + 7" and k: "32 - (shift + 7) = k"
        using shift by (simp_all add: k_def)
      with less.prems have "unat v < 2 ^ k * 2 ^ 7"
        by (simp add: power_add)
      then show ?thesis
        unfolding unat_drop_bit_div k by (rule less_mult_imp_div_less)
    qed
    then have IH: "GetVarint32PtrFallback_loop (shift + 7) r'
        (EncodeVarint64 (ucast (drop_bit 7 v)) @ rest) =
      Some (r' OR push_bit (shift + 7) (drop_bit 7 v), rest)" for r'
      using True less.hyps [of "drop_bit 7 v"] less.prems shift by (simp add: drop_bit_7_less)
    show ?thesis
      using True less.prems EncodeVarint64_ucast [of 0 v]
      by (simp add: IH and_128_iff_bit group_continues or.assoc group_join del: push_bit_and)
  next
    case False
    then have "\<not> 128 \<le> (ucast v :: u64)"
      by (simp add: word_le_nat_alt unat_ucast_up)
    note small = ucast_u8_below_128 [OF this]
    have "ucast (ucast v :: u8) = v"
      by (rule word_eq_bitsI)
        (use False not_bit_if_less_pow [of v 7] in \<open>auto simp: bit_simps simp flip: not_le\<close>)
    moreover from this have "v AND 128 = 0"
      using small and_128_iff_bit [where 'a = 32, of "ucast v"] by (simp add: ucast_group)
    ultimately show ?thesis
      using False less.prems EncodeVarint64_ucast [of 0 v] by simp
  qed
qed

lemma EncodeVarint64_neq_Nil [simp]: "EncodeVarint64 v \<noteq> []"
  by (subst EncodeVarint64.simps) simp

lemma GetVarint32Ptr_Encode [simp]: "GetVarint32Ptr (EncodeVarint32 v @ rest) = Some (v, rest)"
proof -
  have loop: "GetVarint32PtrFallback (EncodeVarint32 v @ rest) = Some (v, rest)"
    using GetVarint32PtrFallback_loop_Encode [of 0 v 0 rest] unat_u32_less [of v]
    by (simp add: GetVarint32PtrFallback_def EncodeVarint32_eq_64)
  have "GetVarint32PtrFallback (b # p) = Some (ucast b, p)" if "(ucast b :: u32) AND 128 = 0" for b p
    using that by (simp add: GetVarint32PtrFallback_def)
  with loop show ?thesis
    by (auto simp: GetVarint32Ptr_def Let_def split: list.split)
qed

lemma GetVarint64Ptr_Encode [simp]: "GetVarint64Ptr (EncodeVarint64 v @ rest) = Some (v, rest)"
  using GetVarint64Ptr_loop_Encode [of 0 v 0 rest] unat_u64_less [of v]
  by (simp add: GetVarint64Ptr_def)

subsection \<open>Which byte strings a varint reader accepts\<close>

text \<open>The number of continuation bytes at the front.\<close>

definition continuation_run :: "bytes \<Rightarrow> nat" where
  "continuation_run p = length (takeWhile (\<lambda>b. bit b 7) p)"

lemma continuation_run_simps [simp]:
  "continuation_run [] = 0"
  "continuation_run (b # p) = (if bit b 7 then Suc (continuation_run p) else 0)"
  by (simp_all add: continuation_run_def)

lemma GetVarint64Ptr_loop_accepts:
  "GetVarint64Ptr_loop shift r p = None \<longleftrightarrow>
     continuation_run p = length p \<or> 63 < shift + 7 * continuation_run p"
  by (induction shift r p rule: GetVarint64Ptr_loop.induct) (auto simp: and_128_iff_bit Let_def)

lemma GetVarint64Ptr_loop_rest:
  "GetVarint64Ptr_loop shift r p = Some (v, q) \<Longrightarrow> q = drop (Suc (continuation_run p)) p"
  by (induction shift r p rule: GetVarint64Ptr_loop.induct)
    (auto simp: and_128_iff_bit Let_def split: if_splits)

lemma GetVarint32Ptr_loop_accepts:
  "GetVarint32PtrFallback_loop shift r p = None \<longleftrightarrow>
     continuation_run p = length p \<or> 28 < shift + 7 * continuation_run p"
  by (induction shift r p rule: GetVarint32PtrFallback_loop.induct)
    (auto simp: and_128_iff_bit Let_def)

lemma GetVarint32Ptr_loop_rest:
  "GetVarint32PtrFallback_loop shift r p = Some (v, q) \<Longrightarrow> q = drop (Suc (continuation_run p)) p"
  by (induction shift r p rule: GetVarint32PtrFallback_loop.induct)
    (auto simp: and_128_iff_bit Let_def split: if_splits)

text \<open>The inline fast path of \<^verbatim>\<open>GetVarint32Ptr\<close> changes nothing.\<close>

lemma GetVarint32Ptr_eq_Fallback: "GetVarint32Ptr p = GetVarint32PtrFallback p"
  by (auto simp: GetVarint32Ptr_def GetVarint32PtrFallback_def Let_def split: list.split)

subsection \<open>Sizes\<close>

lemma VarintLength_loop_eq: "VarintLength_loop v len = len + length (EncodeVarint64 v) - 1"
proof (induction v len rule: VarintLength_loop.induct)
  case (1 v len)
  then show ?case
    using length_greater_0_conv [of "EncodeVarint64 (drop_bit 7 v)"]
    by (auto simp: VarintLength_loop.simps [of v] EncodeVarint64.simps [of v] simp del: length_greater_0_conv)
qed

lemma EncodeVarint64_length_le:
  "unat v < 2 ^ (7 * n) \<Longrightarrow> 0 < n \<Longrightarrow> length (EncodeVarint64 v) \<le> n"
proof (induction v arbitrary: n rule: EncodeVarint64.induct)
  case (1 v)
  show ?case
  proof (cases "128 \<le> v")
    case True
    then obtain m where n: "n = Suc m" and "0 < m"
      using 1(2,3) by (cases n; cases "n = 1") (auto simp: word_le_nat_alt)
    then have "unat v < 2 ^ (7 * m) * 2 ^ 7"
      using 1(2) by (simp add: power_add)
    then have "unat (drop_bit 7 v) < 2 ^ (7 * m)"
      unfolding unat_drop_bit_div by (rule less_mult_imp_div_less)
    with 1(1) True \<open>0 < m\<close> n show ?thesis
      by (simp add: EncodeVarint64.simps [of v])
  qed (use 1 in \<open>simp add: EncodeVarint64.simps [of v]\<close>)
qed

lemma EncodeVarint_length [size_facts]:
  "length (EncodeVarint64 v) \<le> 10"
  "length (EncodeVarint32 w) \<le> 5"
  using EncodeVarint64_length_le [of v 10] unat_u64_less [of v]
    EncodeVarint64_length_le [of "ucast w" 5] unat_u32_less [of w]
  by (simp_all add: EncodeVarint32_eq_64 unat_ucast_up)

subsection \<open>Length-prefixed slices\<close>

lemma length_prefixed_read:
  assumes "length v < 2 ^ 32"
  shows "GetLengthPrefixedSlice (EncodeVarint32 (word_of_nat (length v)) @ v @ rest) = (Some v, rest)"
proof -
  have "unat (word_of_nat (length v) :: u32) = length v"
    using assms by (simp add: unsigned_of_nat take_bit_nat_eq_self)
  then show ?thesis
    by (simp add: GetLengthPrefixedSlice_def GetVarint32_def)
qed

subsection \<open>Properties\<close>

text \<open>C38: a varint written with \<^verbatim>\<open>PutVarint32\<close> or \<^verbatim>\<open>PutVarint64\<close> after any contents of the
  destination is read back by the matching \<^verbatim>\<open>Get\<close> routine, whatever bytes follow it, and the
  slice is left at exactly those bytes.\<close>

theorem varint_roundtrip:
  "GetVarint32 (drop (length dst) (PutVarint32 dst v) @ rest) = (Some v, rest) \<and>
   GetVarint64 (drop (length dst) (PutVarint64 dst w) @ rest) = (Some w, rest)"
  by (simp add: GetVarint32_def GetVarint64_def PutVarint32_def PutVarint64_def)

text \<open>The unrolled 32-bit writer emits the same bytes as the 64-bit loop, \<^verbatim>\<open>VarintLength\<close>
  is the number of bytes the loop writes, and no encoding exceeds the 5 and 10 byte buffers of
  \<^verbatim>\<open>PutVarint32\<close> and \<^verbatim>\<open>PutVarint64\<close>.\<close>

theorem varint_writers_agree:
  "EncodeVarint32 v = EncodeVarint64 (ucast v) \<and>
   VarintLength w = length (EncodeVarint64 w) \<and>
   length (EncodeVarint32 v) \<le> 5 \<and> length (EncodeVarint64 w) \<le> 10"
  by (simp add: EncodeVarint32_eq_64 [symmetric] VarintLength_def VarintLength_loop_eq EncodeVarint_length)

text \<open>The readers fail exactly on input with no terminating byte or with more than four
  (32 bits) or nine (64 bits) continuation bytes; they then leave the slice unchanged, and on
  success they consume the continuation bytes and the terminator and nothing else.\<close>

theorem varint_readers_total:
  "GetVarint32 p =
     (if continuation_run p < length p \<and> continuation_run p \<le> 4
      then (Some (fst (the (GetVarint32Ptr p))), drop (continuation_run p + 1) p)
      else (None, p)) \<and>
   GetVarint64 p =
     (if continuation_run p < length p \<and> continuation_run p \<le> 9
      then (Some (fst (the (GetVarint64Ptr p))), drop (continuation_run p + 1) p)
      else (None, p))"
proof -
  have run: "continuation_run p \<le> length p"
    by (simp add: continuation_run_def length_takeWhile_le)
  have "GetVarint32Ptr p = None \<longleftrightarrow> \<not> (continuation_run p < length p \<and> continuation_run p \<le> 4)"
    using run
    by (auto simp: GetVarint32Ptr_eq_Fallback GetVarint32PtrFallback_def GetVarint32Ptr_loop_accepts)
  moreover have "GetVarint64Ptr p = None \<longleftrightarrow> \<not> (continuation_run p < length p \<and> continuation_run p \<le> 9)"
    using run by (auto simp: GetVarint64Ptr_def GetVarint64Ptr_loop_accepts)
  moreover have "q = drop (continuation_run p + 1) p" if "GetVarint32Ptr p = Some (v, q)" for v q
    using that GetVarint32Ptr_loop_rest
    by (auto simp: GetVarint32Ptr_eq_Fallback GetVarint32PtrFallback_def)
  moreover have "q = drop (continuation_run p + 1) p" if "GetVarint64Ptr p = Some (v, q)" for v q
    using that GetVarint64Ptr_loop_rest by (auto simp: GetVarint64Ptr_def)
  ultimately show ?thesis
    by (auto simp: GetVarint32_def GetVarint64_def split: option.split prod.split)
qed

text \<open>The fixed-width routines are inverse to each other in both directions: decoding an
  encoding gives the value, and every 4 or 8 byte string is the encoding of what it decodes to.\<close>

theorem fixed_roundtrip:
  "DecodeFixed32 (drop (length dst) (PutFixed32 dst v) @ rest) = Some v \<and>
   DecodeFixed64 (drop (length dst) (PutFixed64 dst w) @ rest) = Some w \<and>
   map_option EncodeFixed32 (DecodeFixed32 [b0, b1, b2, b3]) = Some [b0, b1, b2, b3] \<and>
   map_option EncodeFixed64 (DecodeFixed64 [b0, b1, b2, b3, b4, b5, b6, b7]) =
     Some [b0, b1, b2, b3, b4, b5, b6, b7]"
  by (simp add: PutFixed32_def PutFixed64_def byte_of_le_32 byte_of_le_64)

text \<open>A slice of less than \<open>2\<^sup>3\<^sup>2\<close> bytes written with its length is read back, and the
  input is left at the bytes that follow it.\<close>

theorem length_prefixed_roundtrip:
  assumes "length value < 2 ^ 32"
  shows "GetLengthPrefixedSlice (drop (length dst) (PutLengthPrefixedSlice dst value) @ rest) =
    (Some value, rest)"
  using length_prefixed_read [OF assms, of rest] by (simp add: PutLengthPrefixedSlice_def PutVarint32_def)

theorem length_prefixed_roundtrip_witness:
  "length [7, 8, 9 :: u8] < 2 ^ 32 \<and>
   GetLengthPrefixedSlice (drop (length [1]) (PutLengthPrefixedSlice [1] [7, 8, 9]) @ [5]) =
     (Some [7, 8, 9], [5])"
  using length_prefixed_roundtrip [of "[7, 8, 9]" "[1]" "[5]"] by simp

end
