(* ===== verification/Logging.thy ===== *)
theory Logging
  imports Slice
begin

text \<open>
  Printing and parsing of numbers and the escaping of strings, \<^verbatim>\<open>util/logging.cpp\<close>. The
  conversions \<^verbatim>\<open>%llu\<close> and \<^verbatim>\<open>%02x\<close> of \<^verbatim>\<open>snprintf\<close> that the file uses are written out
  as digit functions; text is a list of bytes.
\<close>

subsection \<open>Definitions\<close>

text \<open>The decimal digits of \<^verbatim>\<open>%llu\<close>, most significant first.\<close>

fun decimal :: "nat \<Rightarrow> bytes" where
  "decimal n = (if n < 10 then [48 + word_of_nat n]
                else decimal (n div 10) @ [48 + word_of_nat (n mod 10)])"

declare decimal.simps [simp del]

text \<open>One digit of \<^verbatim>\<open>%02x\<close>.\<close>

definition hex_digit :: "nat \<Rightarrow> u8" where
  "hex_digit d = word_of_nat (if d < 10 then 48 + d else 87 + d)"

definition AppendNumberTo :: "bytes \<Rightarrow> u64 \<Rightarrow> bytes" where
  "AppendNumberTo str num = str @ decimal (unat num)"

fun AppendEscapedStringTo :: "bytes \<Rightarrow> bytes \<Rightarrow> bytes" where
  "AppendEscapedStringTo str [] = str"
| "AppendEscapedStringTo str (c # value) =
     AppendEscapedStringTo
       (if 32 \<le> c \<and> c \<le> 126 then str @ [c]
        else str @ [92, 120, hex_digit (unat c div 16), hex_digit (unat c mod 16)])
       value"

definition NumberToString :: "u64 \<Rightarrow> bytes" where
  "NumberToString num = AppendNumberTo [] num"

definition EscapeString :: "bytes \<Rightarrow> bytes" where
  "EscapeString value = AppendEscapedStringTo [] value"

definition kMaxUint64 :: u64 where
  "kMaxUint64 = 0xffffffffffffffff"

definition kLastDigitOfMaxUint64 :: u8 where
  "kLastDigitOfMaxUint64 = 48 + ucast (kMaxUint64 mod 10)"

text \<open>
  The loop over the digits: \<^term>\<open>None\<close> is the early \<^verbatim>\<open>return false\<close> on overflow, otherwise the
  value and the position of the first byte that is not a digit, as the bytes from there on.
\<close>

fun ConsumeDecimalNumber_loop :: "u64 \<Rightarrow> bytes \<Rightarrow> (u64 \<times> bytes) option" where
  "ConsumeDecimalNumber_loop value [] = Some (value, [])"
| "ConsumeDecimalNumber_loop value (ch # current) =
     (if ch < 48 \<or> 57 < ch then Some (value, ch # current)
      else if kMaxUint64 div 10 < value \<or>
              value = kMaxUint64 div 10 \<and> kLastDigitOfMaxUint64 < ch
      then None
      else ConsumeDecimalNumber_loop (value * 10 + ucast (ch - 48)) current)"

text \<open>The result, what is stored in \<^verbatim>\<open>*val\<close> (if anything), and the new \<^verbatim>\<open>*in\<close>.\<close>

definition ConsumeDecimalNumber :: "bytes \<Rightarrow> bool \<times> u64 option \<times> bytes" where
  "ConsumeDecimalNumber inp =
     (case ConsumeDecimalNumber_loop 0 inp of
        None \<Rightarrow> (False, None, inp)
      | Some (value, current) \<Rightarrow>
          (let digits_consumed = length inp - length current
           in (digits_consumed \<noteq> 0, Some value, drop digits_consumed inp)))"

subsection \<open>Decimal numerals\<close>

definition is_digit :: "u8 \<Rightarrow> bool" where
  "is_digit ch \<longleftrightarrow> 48 \<le> ch \<and> ch \<le> 57"

text \<open>The number a digit string stands for, continuing from a number already read.\<close>

fun numeral_value :: "nat \<Rightarrow> bytes \<Rightarrow> nat" where
  "numeral_value acc [] = acc"
| "numeral_value acc (ch # ds) = numeral_value (acc * 10 + (unat ch - 48)) ds"

lemma numeral_value_append: "numeral_value acc (xs @ ys) = numeral_value (numeral_value acc xs) ys"
  by (induction acc xs rule: numeral_value.induct) auto

lemma numeral_value_ge: "acc \<le> numeral_value acc ds"
proof (induction acc ds rule: numeral_value.induct)
  case (2 acc ch ds)
  then show ?case by (simp add: algebra_simps)
qed simp

lemma unat_digit: "n < 10 \<Longrightarrow> unat (48 + word_of_nat n :: u8) = 48 + n"
  by (simp add: unat_word_ariths unsigned_of_nat take_bit_nat_eq_self)

lemma is_digit_word: "n < 10 \<Longrightarrow> is_digit (48 + word_of_nat n)"
  using unat_digit [of n] by (simp add: is_digit_def word_le_nat_alt)

lemma decimal_digits: "set (decimal n) \<subseteq> Collect is_digit"
proof (induction n rule: decimal.induct)
  case (1 n)
  then show ?case
    by (subst decimal.simps) (auto simp: is_digit_word)
qed

lemma decimal_neq_Nil [simp]: "decimal n \<noteq> []"
  by (subst decimal.simps) simp

lemma numeral_value_decimal: "numeral_value 0 (decimal n) = n"
proof (induction n rule: decimal.induct)
  case (1 n)
  then show ?case
    by (subst decimal.simps) (auto simp: numeral_value_append unat_digit)
qed

text \<open>The overflow test of the parser is exact.\<close>

lemma digit_overflow:
  fixes v :: u64
  assumes "is_digit ch"
  shows "(kMaxUint64 div 10 < v \<or> v = kMaxUint64 div 10 \<and> kLastDigitOfMaxUint64 < ch) \<longleftrightarrow>
    2 ^ 64 \<le> unat v * 10 + (unat ch - 48)"
proof -
  have last: "kLastDigitOfMaxUint64 = 53" and tenth: "kMaxUint64 div 10 = 1844674407370955161"
    by (simp_all add: kLastDigitOfMaxUint64_def kMaxUint64_def)
  have "48 \<le> unat ch" "unat ch \<le> 57"
    using assms by (simp_all add: is_digit_def word_le_nat_alt)
  then show ?thesis
    unfolding last tenth word_less_nat_alt word_unat_eq_iff by simp linarith
qed

lemma digit_value:
  fixes v :: u64
  assumes "is_digit ch" and "unat v * 10 + (unat ch - 48) < 2 ^ 64"
  shows "unat (v * 10 + ucast (ch - 48)) = unat v * 10 + (unat ch - 48)"
proof -
  have "48 \<le> unat ch"
    using assms by (simp add: is_digit_def word_le_nat_alt)
  then have "unat (ch - 48) = unat ch - 48"
    by (simp add: unat_sub_if')
  then have "unat (ucast (ch - 48) :: u64) = unat ch - 48"
    by (simp add: unat_ucast_up)
  then show ?thesis
    using assms(2) by (simp add: unat_word_ariths)
qed

lemma ConsumeDecimalNumber_loop_digits:
  assumes "set ds \<subseteq> Collect is_digit" and "rest = [] \<or> \<not> is_digit (hd rest)"
  shows "ConsumeDecimalNumber_loop v (ds @ rest) =
    (if numeral_value (unat v) ds < 2 ^ 64
     then Some (word_of_nat (numeral_value (unat v) ds), rest) else None)"
  using assms(1)
proof (induction ds arbitrary: v)
  case Nil
  then show ?case
    using assms(2) unat_u64_less [of v] by (cases rest) (auto simp: is_digit_def not_le)
next
  case (Cons ch ds)
  then have ch: "is_digit ch" by simp
  then have range: "\<not> (ch < 48 \<or> 57 < ch)"
    by (auto simp: is_digit_def not_less)
  let ?w = "unat v * 10 + (unat ch - 48)"
  show ?case
  proof (cases "?w < 2 ^ 64")
    case True
    then show ?thesis
      using Cons range digit_overflow [OF ch, of v] digit_value [OF ch True] by auto
  next
    case False
    then show ?thesis
      using range digit_overflow [OF ch, of v] numeral_value_ge [of ?w ds] by auto
  qed
qed

text \<open>The leading digits of the input are all of the string the parser looks at.\<close>

lemma takeWhile_digits: "set (takeWhile is_digit inp) \<subseteq> Collect is_digit"
  by (auto dest: set_takeWhileD)

lemma dropWhile_digits: "dropWhile is_digit inp = [] \<or> \<not> is_digit (hd (dropWhile is_digit inp))"
  using hd_dropWhile [of is_digit inp] by blast

lemma ConsumeDecimalNumber_eq:
  "ConsumeDecimalNumber inp =
     (if numeral_value 0 (takeWhile is_digit inp) < 2 ^ 64
      then (takeWhile is_digit inp \<noteq> [], Some (word_of_nat (numeral_value 0 (takeWhile is_digit inp))),
            dropWhile is_digit inp)
      else (False, None, inp))"
proof -
  have loop: "ConsumeDecimalNumber_loop 0 inp =
      (if numeral_value 0 (takeWhile is_digit inp) < 2 ^ 64
       then Some (word_of_nat (numeral_value 0 (takeWhile is_digit inp)), dropWhile is_digit inp)
       else None)"
    using ConsumeDecimalNumber_loop_digits [OF takeWhile_digits [of inp] dropWhile_digits [of inp], of 0]
    by simp
  have sum: "length (takeWhile is_digit inp) + length (dropWhile is_digit inp) = length inp"
    by (metis length_append takeWhile_dropWhile_id)
  then have len: "length inp - length (dropWhile is_digit inp) = length (takeWhile is_digit inp)"
    by linarith
  have "length (dropWhile is_digit inp) < length inp \<longleftrightarrow> takeWhile is_digit inp \<noteq> []"
    by (simp flip: sum)
  then show ?thesis
    unfolding ConsumeDecimalNumber_def loop
    by (simp add: Let_def len flip: dropWhile_eq_drop)
qed

definition escaped_char :: "u8 \<Rightarrow> bytes" where
  "escaped_char c = (if 32 \<le> c \<and> c \<le> 126 then [c]
     else [92, 120, hex_digit (unat c div 16), hex_digit (unat c mod 16)])"

lemma AppendEscapedStringTo_eq:
  "AppendEscapedStringTo str cs = str @ concat (map escaped_char cs)"
  by (induction str cs rule: AppendEscapedStringTo.induct) (auto simp: escaped_char_def)

lemma EscapeString_eq: "EscapeString cs = concat (map escaped_char cs)"
  by (simp add: EscapeString_def AppendEscapedStringTo_eq)

lemma hex_digit_printable: "d < 16 \<Longrightarrow> 32 \<le> hex_digit d \<and> hex_digit d \<le> 126"
proof -
  assume d: "d < 16"
  then have "unat (hex_digit d) = (if d < 10 then 48 + d else 87 + d)"
    by (simp add: hex_digit_def unat_word_ariths unsigned_of_nat take_bit_nat_eq_self)
  with d show ?thesis
    by (simp add: word_le_nat_alt)
qed

subsection \<open>Properties\<close>

text \<open>\<^verbatim>\<open>ConsumeDecimalNumber\<close> reads exactly the leading decimal digits of its input. It
  fails with \<^verbatim>\<open>*val\<close> and \<^verbatim>\<open>*in\<close> untouched exactly when the number they stand for does not
  fit in 64 bits; otherwise it stores that number, moves past the digits, and reports whether
  there was at least one.\<close>

theorem ConsumeDecimalNumber_exact:
  "ConsumeDecimalNumber inp =
     (let n = numeral_value 0 (takeWhile is_digit inp)
      in if n < 2 ^ 64
         then (takeWhile is_digit inp \<noteq> [], Some (word_of_nat n), dropWhile is_digit inp)
         else (False, None, inp))"
  by (simp add: ConsumeDecimalNumber_eq Let_def)

text \<open>A number printed by \<^verbatim>\<open>NumberToString\<close> is parsed back, whatever text without a
  leading digit follows it.\<close>

theorem number_roundtrip:
  assumes "rest = [] \<or> \<not> is_digit (hd rest)"
  shows "ConsumeDecimalNumber (NumberToString num @ rest) = (True, Some num, rest)"
proof -
  let ?s = "NumberToString num @ rest"
  have digits: "\<forall>d \<in> set (decimal (unat num)). is_digit d"
    using decimal_digits by blast
  have "takeWhile is_digit rest = []" and "dropWhile is_digit rest = rest"
    using assms by (cases rest; simp)+
  then have "takeWhile is_digit ?s = decimal (unat num)" and "dropWhile is_digit ?s = rest"
    using digits by (simp_all add: NumberToString_def AppendNumberTo_def)
  then show ?thesis
    using unat_u64_less [of num] by (simp add: ConsumeDecimalNumber_eq numeral_value_decimal)
qed

theorem number_roundtrip_witness:
  "ConsumeDecimalNumber (NumberToString 18446744073709551615 @ ascii '' MB'') =
     (True, Some 18446744073709551615, ascii '' MB'')"
  by (rule number_roundtrip) (simp add: is_digit_def)

text \<open>An escaped string consists of printable ASCII characters, whatever the bytes.\<close>

theorem EscapeString_printable: "list_all (\<lambda>c. 32 \<le> c \<and> c \<le> 126) (EscapeString cs)"
proof -
  have "list_all (\<lambda>c. 32 \<le> c \<and> c \<le> 126) (escaped_char c)" for c
  proof -
    have "unat c div 16 < 16" "unat c mod 16 < 16"
      using unat_u8_less [of c] by auto
    then show ?thesis
      by (simp add: escaped_char_def hex_digit_printable)
  qed
  then show ?thesis
    by (induction cs) (simp_all add: EscapeString_eq)
qed

end
