(* ===== verification/FilterPolicy.thy ===== *)
theory FilterPolicy
  imports Slice
begin

text \<open>
  The abstract class \<^verbatim>\<open>FilterPolicy\<close> of \<^verbatim>\<open>include/lldb/filter_policy.h\<close> and its contract as a
  locale: creating a filter appends to the destination, and a key that was given to
  \<^verbatim>\<open>CreateFilter\<close> is never reported absent. The predicate \<open>admissible\<close> bounds the key lists a
  policy accepts (their number is an \<^verbatim>\<open>int\<close>). \<^verbatim>\<open>CreateFilter\<close> returns the new destination and
  \<^verbatim>\<open>KeyMayMatch\<close> its verdict; \<^term>\<open>None\<close> is a failed assertion of the policy.
\<close>

record FilterPolicy =
  FilterPolicy_Name :: string
  CreateFilter :: "bytes list \<Rightarrow> bytes \<Rightarrow> bytes option"
  KeyMayMatch :: "bytes \<Rightarrow> bytes \<Rightarrow> bool option"

locale filter_policy =
  fixes admissible :: "bytes list \<Rightarrow> bool"
    and F :: FilterPolicy
  assumes create_matches:
    "admissible keys \<Longrightarrow>
     \<exists>f. CreateFilter F keys dst = Some (dst @ f) \<and>
         (\<forall>key \<in> set keys. KeyMayMatch F key f = Some True)"

end
