(* ===== verification/DBFormat.thy ===== *)
theory DBFormat
  imports Comparator Coding Logging FilterPolicy "HOL-Library.Monad_Syntax"
begin

text \<open>
  Internal keys, \<^verbatim>\<open>db/dbformat.h\<close> and \<^verbatim>\<open>db/dbformat.cpp\<close>: a user key followed by eight bytes
  that pack a 56-bit sequence number and a value type. The theory has the encoding, the
  comparator on encoded keys, the wrapper around a user filter policy and the lookup keys.
  Assertions are part of the model: a function that asserts returns an \<open>option\<close>.

  Results: parsing inverts printing, the comparator orders encoded keys by user key and then
  by decreasing sequence number and type, its key-shortening functions never fail an
  assertion and keep their contract (so it is again a \<open>comparator\<close>), and a lookup key sorts
  exactly between the versions of its user key that are newer than its snapshot and the rest.
\<close>

subsection \<open>Value types, sequence numbers and parsed keys\<close>

datatype ValueType = kTypeDeletion | kTypeValue

fun ValueType_code :: "ValueType \<Rightarrow> u64" where
  "ValueType_code kTypeDeletion = 0x0"
| "ValueType_code kTypeValue = 0x1"

definition kValueTypeForSeek :: ValueType where
  "kValueTypeForSeek = kTypeValue"

definition kMaxSequenceNumber :: u64 where
  "kMaxSequenceNumber = push_bit 56 1 - 1"

record ParsedInternalKey =
  user_key :: bytes
  sequence :: u64
  vtype :: ValueType

definition InternalKeyEncodingLength :: "ParsedInternalKey \<Rightarrow> nat" where
  "InternalKeyEncodingLength key = length (user_key key) + 8"

definition PackSequenceAndType :: "u64 \<Rightarrow> ValueType \<Rightarrow> u64 option" where
  "PackSequenceAndType seq t =
     asserting (seq \<le> kMaxSequenceNumber)
       (asserting (ValueType_code t \<le> ValueType_code kValueTypeForSeek)
         (Some (push_bit 8 seq OR ValueType_code t)))"

definition AppendInternalKey :: "bytes \<Rightarrow> ParsedInternalKey \<Rightarrow> bytes option" where
  "AppendInternalKey result key = do {
     tag \<leftarrow> PackSequenceAndType (sequence key) (vtype key);
     Some (PutFixed64 (result @ user_key key) tag)
   }"

definition ParseInternalKey :: "bytes \<Rightarrow> ParsedInternalKey option" where
  "ParseInternalKey internal_key =
     (let n = length internal_key in
      if n < 8 then None
      else do {
        num \<leftarrow> DecodeFixed64 (drop (n - 8) internal_key);
        let c = (ucast (num AND 0xff) :: u8);
        if c \<le> ucast (ValueType_code kTypeValue)
        then Some \<lparr> user_key = take (n - 8) internal_key, sequence = drop_bit 8 num,
                    vtype = (if c = 0 then kTypeDeletion else kTypeValue) \<rparr>
        else None
      })"

definition ExtractUserKey :: "bytes \<Rightarrow> bytes option" where
  "ExtractUserKey internal_key =
     asserting (8 \<le> length internal_key) (Some (take (length internal_key - 8) internal_key))"

text \<open>\<^verbatim>\<open>operator<<\<close> of a number and of an \<^verbatim>\<open>int\<close> print its decimal digits.\<close>

definition ParsedInternalKey_DebugString :: "ParsedInternalKey \<Rightarrow> bytes" where
  "ParsedInternalKey_DebugString key =
     [39] @ EscapeString (user_key key) @ ascii ''' @ '' @ decimal (unat (sequence key)) @
     ascii '' : '' @ decimal (unat (ValueType_code (vtype key)))"

subsection \<open>The class InternalKey\<close>

text \<open>An \<^verbatim>\<open>InternalKey\<close> is its \<^verbatim>\<open>rep_\<close> string; the empty string is the invalid key.\<close>

definition InternalKey :: "bytes \<Rightarrow> u64 \<Rightarrow> ValueType \<Rightarrow> bytes option" where
  "InternalKey ukey s t = AppendInternalKey [] \<lparr> user_key = ukey, sequence = s, vtype = t \<rparr>"

definition InternalKey_DecodeFrom :: "bytes \<Rightarrow> bytes \<times> bool" where
  "InternalKey_DecodeFrom s = (s, s \<noteq> [])"

definition InternalKey_Encode :: "bytes \<Rightarrow> bytes option" where
  "InternalKey_Encode rep = asserting (rep \<noteq> []) (Some rep)"

definition InternalKey_user_key :: "bytes \<Rightarrow> bytes option" where
  "InternalKey_user_key rep = ExtractUserKey rep"

definition InternalKey_SetFrom :: "ParsedInternalKey \<Rightarrow> bytes option" where
  "InternalKey_SetFrom p = AppendInternalKey [] p"

definition InternalKey_Clear :: bytes where
  "InternalKey_Clear = []"

definition InternalKey_DebugString :: "bytes \<Rightarrow> bytes" where
  "InternalKey_DebugString rep =
     (case ParseInternalKey rep of
        Some parsed \<Rightarrow> ParsedInternalKey_DebugString parsed
      | None \<Rightarrow> ascii ''(bad)'' @ EscapeString rep)"

subsection \<open>The comparator\<close>

definition InternalKeyComparator_Compare :: "Comparator \<Rightarrow> bytes \<Rightarrow> bytes \<Rightarrow> int option" where
  "InternalKeyComparator_Compare user_comparator akey bkey = do {
     a \<leftarrow> ExtractUserKey akey;
     b \<leftarrow> ExtractUserKey bkey;
     let r = Compare user_comparator a b;
     if r = 0 then do {
       anum \<leftarrow> DecodeFixed64 (drop (length akey - 8) akey);
       bnum \<leftarrow> DecodeFixed64 (drop (length bkey - 8) bkey);
       Some (if bnum < anum then -1 else if anum < bnum then 1 else r)
     } else Some r
   }"

text \<open>The overload on two \<^verbatim>\<open>InternalKey\<close> objects.\<close>

definition InternalKeyComparator_Compare_keys :: "Comparator \<Rightarrow> bytes \<Rightarrow> bytes \<Rightarrow> int option" where
  "InternalKeyComparator_Compare_keys user_comparator a b = do {
     ka \<leftarrow> InternalKey_Encode a;
     kb \<leftarrow> InternalKey_Encode b;
     InternalKeyComparator_Compare user_comparator ka kb
   }"

definition InternalKeyComparator_FindShortestSeparator ::
    "Comparator \<Rightarrow> bytes \<Rightarrow> bytes \<Rightarrow> bytes option" where
  "InternalKeyComparator_FindShortestSeparator user_comparator start limit = do {
     user_start \<leftarrow> ExtractUserKey start;
     user_limit \<leftarrow> ExtractUserKey limit;
     tmp \<leftarrow> FindShortestSeparator user_comparator user_start user_limit;
     if length tmp < length user_start \<and> Compare user_comparator user_start tmp < 0 then do {
       tag \<leftarrow> PackSequenceAndType kMaxSequenceNumber kValueTypeForSeek;
       let tmp = PutFixed64 tmp tag;
       c1 \<leftarrow> InternalKeyComparator_Compare user_comparator start tmp;
       c2 \<leftarrow> InternalKeyComparator_Compare user_comparator tmp limit;
       asserting (c1 < 0) (asserting (c2 < 0) (Some tmp))
     } else Some start
   }"

definition InternalKeyComparator_FindShortSuccessor :: "Comparator \<Rightarrow> bytes \<Rightarrow> bytes option" where
  "InternalKeyComparator_FindShortSuccessor user_comparator key = do {
     ukey \<leftarrow> ExtractUserKey key;
     tmp \<leftarrow> FindShortSuccessor user_comparator ukey;
     if length tmp < length ukey \<and> Compare user_comparator ukey tmp < 0 then do {
       tag \<leftarrow> PackSequenceAndType kMaxSequenceNumber kValueTypeForSeek;
       let tmp = PutFixed64 tmp tag;
       c \<leftarrow> InternalKeyComparator_Compare user_comparator key tmp;
       asserting (c < 0) (Some tmp)
     } else Some key
   }"

text \<open>The comparator as an object of the class \<^verbatim>\<open>Comparator\<close>, whose \<^verbatim>\<open>Compare\<close> returns a number.\<close>

definition InternalKeyComparator :: "Comparator \<Rightarrow> Comparator" where
  "InternalKeyComparator user_comparator =
     \<lparr> Name = ''lldb.InternalKeyComparator'',
       Compare = (\<lambda>a b. the (InternalKeyComparator_Compare user_comparator a b)),
       FindShortestSeparator = InternalKeyComparator_FindShortestSeparator user_comparator,
       FindShortSuccessor = InternalKeyComparator_FindShortSuccessor user_comparator \<rparr>"

subsection \<open>The filter policy wrapper\<close>

text \<open>The loop overwrites \<^verbatim>\<open>keys[0..n-1]\<close> with their user keys.\<close>

fun ExtractUserKeys :: "bytes list \<Rightarrow> bytes list option" where
  "ExtractUserKeys [] = Some []"
| "ExtractUserKeys (key # keys) = do {
     ukey \<leftarrow> ExtractUserKey key;
     ukeys \<leftarrow> ExtractUserKeys keys;
     Some (ukey # ukeys)
   }"

definition InternalFilterPolicy_CreateFilter ::
    "FilterPolicy \<Rightarrow> bytes list \<Rightarrow> bytes \<Rightarrow> (bytes list \<times> bytes) option" where
  "InternalFilterPolicy_CreateFilter user_policy keys dst = do {
     mkey \<leftarrow> ExtractUserKeys keys;
     dst \<leftarrow> CreateFilter user_policy mkey dst;
     Some (mkey, dst)
   }"

definition InternalFilterPolicy_KeyMayMatch :: "FilterPolicy \<Rightarrow> bytes \<Rightarrow> bytes \<Rightarrow> bool option" where
  "InternalFilterPolicy_KeyMayMatch user_policy key f = do {
     ukey \<leftarrow> ExtractUserKey key;
     KeyMayMatch user_policy ukey f
   }"

definition InternalFilterPolicy :: "FilterPolicy \<Rightarrow> FilterPolicy" where
  "InternalFilterPolicy user_policy =
     \<lparr> FilterPolicy_Name = FilterPolicy_Name user_policy,
       CreateFilter = (\<lambda>keys dst. map_option snd (InternalFilterPolicy_CreateFilter user_policy keys dst)),
       KeyMayMatch = InternalFilterPolicy_KeyMayMatch user_policy \<rparr>"

subsection \<open>Lookup keys\<close>

text \<open>
  The bytes between \<^verbatim>\<open>start_\<close> and \<^verbatim>\<open>end_\<close>, the offset of \<^verbatim>\<open>kstart_\<close> from \<^verbatim>\<open>start_\<close>, the
  size of the buffer \<^verbatim>\<open>start_\<close> points to, and whether that buffer is the member \<^verbatim>\<open>space_\<close>.
\<close>

record lookup_key =
  lk_buf :: bytes
  lk_kstart :: nat
  lk_capacity :: nat
  lk_in_space :: bool

definition LookupKey :: "bytes \<Rightarrow> u64 \<Rightarrow> lookup_key option" where
  "LookupKey ukey s = do {
     let usize = length ukey;
     let needed = usize + 13;
     let klength = EncodeVarint32 (word_of_nat (usize + 8));
     tag \<leftarrow> PackSequenceAndType s kValueTypeForSeek;
     Some \<lparr> lk_buf = klength @ ukey @ EncodeFixed64 tag,
            lk_kstart = length klength,
            lk_capacity = (if needed \<le> 200 then 200 else needed),
            lk_in_space = (needed \<le> 200) \<rparr>
   }"

definition LookupKey_memtable_key :: "lookup_key \<Rightarrow> bytes" where
  "LookupKey_memtable_key k = lk_buf k"

definition LookupKey_internal_key :: "lookup_key \<Rightarrow> bytes" where
  "LookupKey_internal_key k = drop (lk_kstart k) (lk_buf k)"

definition LookupKey_user_key :: "lookup_key \<Rightarrow> bytes" where
  "LookupKey_user_key k = take (length (lk_buf k) - lk_kstart k - 8) (drop (lk_kstart k) (lk_buf k))"

subsection \<open>Tags\<close>

lemma and_255: "w AND 0xff = take_bit 8 w" for w :: u64
  using take_bit_eq_mask [of 8 w] by (simp add: mask_eq_exp_minus_1)

lemma kMaxSequenceNumber_eq: "kMaxSequenceNumber = 0xffffffffffffff"
  by (simp add: kMaxSequenceNumber_def push_bit_eq_mult)

lemma unat_ValueType_code: "unat (ValueType_code t) < 256"
  by (cases t) auto

lemma ValueType_code_seek: "ValueType_code t \<le> ValueType_code kValueTypeForSeek"
  by (cases t) (simp_all add: kValueTypeForSeek_def)

lemma unat_pack:
  assumes "seq \<le> kMaxSequenceNumber"
  shows "unat (push_bit 8 seq OR ValueType_code t) = unat seq * 256 + unat (ValueType_code t)"
proof -
  have seq: "unat seq < 2 ^ 56"
    using assms by (simp add: kMaxSequenceNumber_eq word_le_nat_alt)
  have disj: "\<not> bit (push_bit 8 seq) n \<or> \<not> bit (ValueType_code t) n" for n
    using not_bit_if_less_pow [of "ValueType_code t" 8 n] unat_ValueType_code [of t]
    by (auto simp: bit_simps)
  have "push_bit 8 seq OR ValueType_code t = push_bit 8 seq + ValueType_code t"
    by (rule disjunctive_add [symmetric]) (rule disj)
  moreover have "unat (push_bit 8 seq) = unat seq * 256"
    using seq by (simp add: push_bit_eq_mult unat_word_ariths)
  ultimately show ?thesis
    using seq unat_ValueType_code [of t] by (simp add: unat_word_ariths)
qed

lemma pack_parts:
  assumes "seq \<le> kMaxSequenceNumber"
  shows "drop_bit 8 (push_bit 8 seq OR ValueType_code t) = seq"
    and "(push_bit 8 seq OR ValueType_code t) AND 0xff = ValueType_code t"
proof -
  have "unat (drop_bit 8 (push_bit 8 seq OR ValueType_code t)) = unat seq"
    using unat_ValueType_code [of t] by (simp only: unat_drop_bit_div unat_pack [OF assms]) simp
  then show "drop_bit 8 (push_bit 8 seq OR ValueType_code t) = seq"
    by (simp add: word_unat_eq_iff)
  have "unat (take_bit 8 (push_bit 8 seq OR ValueType_code t)) = unat (ValueType_code t)"
  proof -
    have "unat (take_bit 8 (push_bit 8 seq OR ValueType_code t)) =
        take_bit 8 (unat seq * 256 + unat (ValueType_code t))"
      by (simp only: unsigned_take_bit_eq unat_pack [OF assms])
    also have "\<dots> = unat (ValueType_code t)"
      using unat_ValueType_code [of t] by (simp add: take_bit_eq_mod)
    finally show ?thesis .
  qed
  then show "(push_bit 8 seq OR ValueType_code t) AND 0xff = ValueType_code t"
    by (simp only: and_255 word_unat_eq_iff)
qed

lemma PackSequenceAndType_eq:
  "PackSequenceAndType seq t =
     (if seq \<le> kMaxSequenceNumber then Some (push_bit 8 seq OR ValueType_code t) else None)"
  by (simp add: PackSequenceAndType_def ValueType_code_seek)

text \<open>The order of packed tags is the lexicographic order of sequence number and type.\<close>

lemma pack_less_iff:
  assumes "s1 \<le> kMaxSequenceNumber" and "s2 \<le> kMaxSequenceNumber"
  shows "push_bit 8 s1 OR ValueType_code t1 < push_bit 8 s2 OR ValueType_code t2 \<longleftrightarrow>
    s1 < s2 \<or> s1 = s2 \<and> ValueType_code t1 < ValueType_code t2"
  using unat_ValueType_code [of t1] unat_ValueType_code [of t2]
  unfolding word_less_nat_alt word_unat_eq_iff unat_pack [OF assms(1)] unat_pack [OF assms(2)]
  by linarith

subsection \<open>Encoded keys\<close>

definition wf_ikey :: "bytes \<Rightarrow> bool" where
  "wf_ikey k \<longleftrightarrow> 8 \<le> length k"

definition ikey_user :: "bytes \<Rightarrow> bytes" where
  "ikey_user k = take (length k - 8) k"

definition ikey_tag :: "bytes \<Rightarrow> u64" where
  "ikey_tag k = the (DecodeFixed64 (drop (length k - 8) k))"

lemma DecodeFixed64_Some: "8 \<le> length b \<Longrightarrow> \<exists>v. DecodeFixed64 b = Some v"
proof -
  assume "8 \<le> length b"
  then have "\<exists>b0 b1 b2 b3 b4 b5 b6 b7 r. b = b0 # b1 # b2 # b3 # b4 # b5 # b6 # b7 # r"
    by (auto simp: numeral_eq_Suc Suc_le_length_iff)
  then show ?thesis by auto
qed

lemma DecodeFixed64_ikey: "wf_ikey k \<Longrightarrow> DecodeFixed64 (drop (length k - 8) k) = Some (ikey_tag k)"
  using DecodeFixed64_Some [of "drop (length k - 8) k"] by (auto simp: wf_ikey_def ikey_tag_def)

lemma ExtractUserKey_eq: "ExtractUserKey k = (if wf_ikey k then Some (ikey_user k) else None)"
  by (simp add: ExtractUserKey_def wf_ikey_def ikey_user_def)

lemma PutFixed64_ikey [simp]:
  "wf_ikey (PutFixed64 u tag)" "ikey_user (PutFixed64 u tag) = u" "ikey_tag (PutFixed64 u tag) = tag"
  using DecodeFixed64_Encode [of tag "[]"]
  by (simp_all add: wf_ikey_def ikey_user_def ikey_tag_def PutFixed64_def)

lemma AppendInternalKey_eq:
  "AppendInternalKey result key =
     (if sequence key \<le> kMaxSequenceNumber
      then Some (PutFixed64 (result @ user_key key) (push_bit 8 (sequence key) OR ValueType_code (vtype key)))
      else None)"
  by (simp add: AppendInternalKey_def PackSequenceAndType_eq)

lemma ParseInternalKey_PutFixed64:
  "ParseInternalKey (PutFixed64 u tag) =
     (if tag AND 0xff \<le> 1
      then Some \<lparr> user_key = u, sequence = drop_bit 8 tag,
                  vtype = (if tag AND 0xff = 0 then kTypeDeletion else kTypeValue) \<rparr>
      else None)"
proof -
  have c: "unat (ucast (tag AND 0xff) :: u8) = unat (tag AND 0xff)"
  proof -
    have "unat (tag AND 0xff) \<le> unat (0xff :: u64)"
      by (rule word_and_le1 [THEN word_le_nat_alt [THEN iffD1]])
    then show ?thesis
      by (simp only: unsigned_ucast_eq) (simp add: take_bit_nat_eq_self)
  qed
  have le: "(ucast (tag AND 0xff) :: u8) \<le> 1 \<longleftrightarrow> tag AND 0xff \<le> 1"
    and eq: "(ucast (tag AND 0xff) :: u8) = 0 \<longleftrightarrow> tag AND 0xff = 0"
    using c by (simp_all only: word_le_nat_alt word_unat_eq_iff) simp_all
  have dec: "DecodeFixed64 (drop (length (PutFixed64 u tag) - 8) (PutFixed64 u tag)) = Some tag"
    using DecodeFixed64_ikey [of "PutFixed64 u tag"] by simp
  have len: "\<not> length (PutFixed64 u tag) < 8"
    by (simp add: PutFixed64_def)
  have usr: "take (length (PutFixed64 u tag) - 8) (PutFixed64 u tag) = u"
    using PutFixed64_ikey(2) [of u tag] by (simp add: ikey_user_def)
  show ?thesis
    using le eq by (simp add: ParseInternalKey_def Let_def dec len usr)
qed

lemma list_length_8:
  "length xs = 8 \<Longrightarrow> \<exists>b0 b1 b2 b3 b4 b5 b6 b7. xs = [b0, b1, b2, b3, b4, b5, b6, b7]"
  by (auto simp: numeral_eq_Suc length_Suc_conv)

lemma ikey_split: "wf_ikey k \<Longrightarrow> PutFixed64 (ikey_user k) (ikey_tag k) = k"
proof -
  assume wf: "wf_ikey k"
  let ?t = "drop (length k - 8) k"
  have "length ?t = 8"
    using wf by (simp add: wf_ikey_def)
  then obtain b0 b1 b2 b3 b4 b5 b6 b7 where t: "?t = [b0, b1, b2, b3, b4, b5, b6, b7]"
    using list_length_8 by blast
  have "EncodeFixed64 (ikey_tag k) = ?t"
    using byte_of_le_64 [of b0 b1 b2 b3 b4 b5 b6 b7] by (simp add: ikey_tag_def t)
  then show ?thesis
    by (simp add: PutFixed64_def ikey_user_def)
qed

subsection \<open>The comparator on encoded keys\<close>

definition ikey_compare :: "Comparator \<Rightarrow> bytes \<Rightarrow> bytes \<Rightarrow> int" where
  "ikey_compare C a b =
     (let r = Compare C (ikey_user a) (ikey_user b)
      in if r \<noteq> 0 then r else if ikey_tag b < ikey_tag a then -1
         else if ikey_tag a < ikey_tag b then 1 else 0)"

lemma InternalKeyComparator_Compare_eq:
  "wf_ikey a \<Longrightarrow> wf_ikey b \<Longrightarrow>
   InternalKeyComparator_Compare C a b = Some (ikey_compare C a b)"
  by (simp add: InternalKeyComparator_Compare_def ExtractUserKey_eq DecodeFixed64_ikey ikey_compare_def Let_def)

locale user_comparator = comparator "\<lambda>_. True" C for C
begin

lemma ikey_order: "key_order wf_ikey (ikey_compare C)"
proof
  fix a b c
  let ?ab = "Compare C (ikey_user a) (ikey_user b)" and ?ba = "Compare C (ikey_user b) (ikey_user a)"
    and ?bc = "Compare C (ikey_user b) (ikey_user c)" and ?ac = "Compare C (ikey_user a) (ikey_user c)"
  show "ikey_compare C a a = 0"
    by (simp add: ikey_compare_def Let_def cmp_refl)
  show "ikey_compare C a b < 0 \<longleftrightarrow> 0 < ikey_compare C b a"
    using cmp_flip [of "ikey_user a" "ikey_user b"] cmp_eq_sym [of "ikey_user a" "ikey_user b"]
    by (auto simp: ikey_compare_def Let_def)
  assume "ikey_compare C a b \<le> 0" and "ikey_compare C b c \<le> 0"
  then have ab: "?ab < 0 \<or> ?ab = 0 \<and> ikey_tag b \<le> ikey_tag a"
    and bc: "?bc < 0 \<or> ?bc = 0 \<and> ikey_tag c \<le> ikey_tag b"
    by (auto simp: ikey_compare_def Let_def split: if_splits)
  then have "?ac < 0 \<or> ?ac \<le> 0 \<and> ikey_tag c \<le> ikey_tag a"
    using cmp_less_le_trans [of "ikey_user a" "ikey_user b" "ikey_user c"]
      cmp_le_less_trans [of "ikey_user a" "ikey_user b" "ikey_user c"]
      cmp_trans [of "ikey_user a" "ikey_user b" "ikey_user c"] by auto
  then show "ikey_compare C a c \<le> 0"
    by (auto simp: ikey_compare_def Let_def)
qed

lemma seek_tag: "PackSequenceAndType kMaxSequenceNumber kValueTypeForSeek = Some 0xffffffffffffff01"
  by (simp add: PackSequenceAndType_eq kMaxSequenceNumber_eq kValueTypeForSeek_def push_bit_eq_mult)

lemma shortened_separator:
  assumes wf: "wf_ikey start" "wf_ikey limit" and below: "ikey_compare C start limit < 0"
  obtains r where "InternalKeyComparator_FindShortestSeparator C start limit = Some r"
    and "wf_ikey r" and "ikey_compare C start r \<le> 0" and "ikey_compare C r limit < 0"
    and "length r \<le> length start"
proof -
  let ?us = "ikey_user start" and ?ul = "ikey_user limit"
  have refl: "ikey_compare C start start = 0"
    using wf(1) by (rule key_order.cmp_refl [OF ikey_order])
  obtain tmp where tmp: "FindShortestSeparator C ?us ?ul = Some tmp"
    and sep: "Compare C ?us tmp < 0 \<Longrightarrow> Compare C tmp ?ul < 0"
    using separator [of ?us ?ul] separator_only_below [of ?us ?ul] cmp_refl [of ?us]
    by (cases "Compare C ?us ?ul < 0") auto
  let ?shorter = "length tmp < length ?us \<and> Compare C ?us tmp < 0"
  show ?thesis
  proof (cases ?shorter)
    case True
    let ?r = "PutFixed64 tmp 0xffffffffffffff01"
    have less: "ikey_compare C start ?r < 0" "ikey_compare C ?r limit < 0"
      using True sep by (auto simp: ikey_compare_def Let_def)
    have "InternalKeyComparator_FindShortestSeparator C start limit = Some ?r"
      using True wf tmp less
      by (simp add: InternalKeyComparator_FindShortestSeparator_def ExtractUserKey_eq seek_tag
          InternalKeyComparator_Compare_eq)
    moreover have "length ?r \<le> length start"
      using True wf by (auto simp: PutFixed64_def ikey_user_def wf_ikey_def)
    ultimately show ?thesis
      using that [of ?r] less by simp
  next
    case False
    then have "InternalKeyComparator_FindShortestSeparator C start limit = Some start"
      using wf tmp by (auto simp: InternalKeyComparator_FindShortestSeparator_def ExtractUserKey_eq)
    then show ?thesis
      using that [of start] wf below refl by simp
  qed
qed

lemma separator_unchanged:
  assumes wf: "wf_ikey start" "wf_ikey limit" and "\<not> ikey_compare C start limit < 0"
  shows "InternalKeyComparator_FindShortestSeparator C start limit = Some start"
proof -
  have "\<not> Compare C (ikey_user start) (ikey_user limit) < 0"
    using assms(3) by (auto simp: ikey_compare_def Let_def)
  then show ?thesis
    using wf separator_only_below [of "ikey_user start" "ikey_user limit"]
    by (simp add: InternalKeyComparator_FindShortestSeparator_def ExtractUserKey_eq)
qed

lemma shortened_successor:
  assumes wf: "wf_ikey key"
  obtains r where "InternalKeyComparator_FindShortSuccessor C key = Some r"
    and "wf_ikey r" and "ikey_compare C key r \<le> 0" and "length r \<le> length key"
proof -
  let ?u = "ikey_user key"
  have refl: "ikey_compare C key key = 0"
    using wf by (rule key_order.cmp_refl [OF ikey_order])
  obtain tmp where tmp: "FindShortSuccessor C ?u = Some tmp"
    using successor [of ?u] by auto
  show ?thesis
  proof (cases "length tmp < length ?u \<and> Compare C ?u tmp < 0")
    case True
    let ?r = "PutFixed64 tmp 0xffffffffffffff01"
    have less: "ikey_compare C key ?r < 0"
      using True by (auto simp: ikey_compare_def Let_def)
    have "InternalKeyComparator_FindShortSuccessor C key = Some ?r"
      using True wf tmp less
      by (simp add: InternalKeyComparator_FindShortSuccessor_def ExtractUserKey_eq seek_tag
          InternalKeyComparator_Compare_eq)
    moreover have "length ?r \<le> length key"
      using True wf by (auto simp: PutFixed64_def ikey_user_def wf_ikey_def)
    ultimately show ?thesis
      using that [of ?r] less by simp
  next
    case False
    then have "InternalKeyComparator_FindShortSuccessor C key = Some key"
      using wf tmp by (auto simp: InternalKeyComparator_FindShortSuccessor_def ExtractUserKey_eq)
    then show ?thesis
      using that [of key] wf refl by simp
  qed
qed

lemma Compare_internal:
  "wf_ikey a \<Longrightarrow> wf_ikey b \<Longrightarrow> Compare (InternalKeyComparator C) a b = ikey_compare C a b"
  by (simp add: InternalKeyComparator_def InternalKeyComparator_Compare_eq)

end

text \<open>An internal-key comparator over a comparator is a comparator on well-formed internal keys.\<close>

sublocale user_comparator \<subseteq> internal: comparator wf_ikey "InternalKeyComparator C"
proof
  fix a b c
  assume a: "wf_ikey a" then show "Compare (InternalKeyComparator C) a a = 0"
    by (simp add: Compare_internal key_order.cmp_refl [OF ikey_order])
  assume b: "wf_ikey b"
  show "Compare (InternalKeyComparator C) a b < 0 \<longleftrightarrow> 0 < Compare (InternalKeyComparator C) b a"
    using a b by (simp add: Compare_internal key_order.cmp_flip [OF ikey_order])
  assume c: "wf_ikey c" and "Compare (InternalKeyComparator C) a b \<le> 0"
    "Compare (InternalKeyComparator C) b c \<le> 0"
  then show "Compare (InternalKeyComparator C) a c \<le> 0"
    using a b key_order.cmp_trans [OF ikey_order, of a b c] by (simp add: Compare_internal)
next
  fix s l
  assume wf: "wf_ikey s" "wf_ikey l" and "Compare (InternalKeyComparator C) s l < 0"
  then have "ikey_compare C s l < 0"
    by (simp add: Compare_internal)
  from shortened_separator [OF wf this] obtain r where
    "InternalKeyComparator_FindShortestSeparator C s l = Some r" "wf_ikey r"
    "ikey_compare C s r \<le> 0" "ikey_compare C r l < 0" by blast
  then show "\<exists>r. FindShortestSeparator (InternalKeyComparator C) s l = Some r \<and> wf_ikey r \<and>
      Compare (InternalKeyComparator C) s r \<le> 0 \<and> Compare (InternalKeyComparator C) r l < 0"
    using wf Compare_internal by (auto simp: InternalKeyComparator_def)
next
  fix s l
  assume wf: "wf_ikey s" "wf_ikey l" and "\<not> Compare (InternalKeyComparator C) s l < 0"
  then show "FindShortestSeparator (InternalKeyComparator C) s l = Some s"
    using separator_unchanged by (simp add: Compare_internal) (simp add: InternalKeyComparator_def)
next
  fix k
  assume wf: "wf_ikey k"
  from shortened_successor [OF wf] obtain r where
    "InternalKeyComparator_FindShortSuccessor C k = Some r" "wf_ikey r" "ikey_compare C k r \<le> 0"
    by blast
  then show "\<exists>r. FindShortSuccessor (InternalKeyComparator C) k = Some r \<and> wf_ikey r \<and>
      Compare (InternalKeyComparator C) k r \<le> 0"
    using wf Compare_internal by (auto simp: InternalKeyComparator_def)
qed

interpretation bytewise_internal: user_comparator BytewiseComparator
  by unfold_locales

subsection \<open>The filter policy wrapper keeps the filter contract\<close>

lemma ExtractUserKeys_eq:
  "ExtractUserKeys keys = (if \<forall>k \<in> set keys. wf_ikey k then Some (map ikey_user keys) else None)"
  by (induction keys) (auto simp: ExtractUserKey_eq)

locale user_filter_policy = filter_policy admissible F for admissible F

sublocale user_filter_policy \<subseteq> internal:  filter_policy
  "\<lambda>keys. (\<forall>k \<in> set keys. wf_ikey k) \<and> admissible (map ikey_user keys)" "InternalFilterPolicy F"
proof
  fix keys dst
  assume adm: "(\<forall>k \<in> set keys. wf_ikey k) \<and> admissible (map ikey_user keys)"
  then obtain f where
    "CreateFilter F (map ikey_user keys) dst = Some (dst @ f)"
    "\<forall>key \<in> set (map ikey_user keys). KeyMayMatch F key f = Some True"
    using create_matches by blast
  with adm show "\<exists>f. CreateFilter (InternalFilterPolicy F) keys dst = Some (dst @ f) \<and>
      (\<forall>key \<in> set keys. KeyMayMatch (InternalFilterPolicy F) key f = Some True)"
    by (intro exI [of _ f])
      (simp add: InternalFilterPolicy_def InternalFilterPolicy_CreateFilter_def
        InternalFilterPolicy_KeyMayMatch_def ExtractUserKeys_eq ExtractUserKey_eq)
qed

subsection \<open>Keys built from their parts\<close>

definition ikey :: "bytes \<Rightarrow> u64 \<Rightarrow> ValueType \<Rightarrow> bytes" where
  "ikey u s t = PutFixed64 u (push_bit 8 s OR ValueType_code t)"

lemma ikey_simps [simp]:
  "wf_ikey (ikey u s t)" "ikey_user (ikey u s t) = u"
  "ikey_tag (ikey u s t) = push_bit 8 s OR ValueType_code t"
  by (simp_all add: ikey_def)

lemma InternalKey_Encode_eq: "wf_ikey k \<Longrightarrow> InternalKey_Encode k = Some k"
  by (auto simp: InternalKey_Encode_def wf_ikey_def)

lemma InternalKey_eq: "InternalKey u s t = (if s \<le> kMaxSequenceNumber then Some (ikey u s t) else None)"
  by (simp add: InternalKey_def AppendInternalKey_eq ikey_def)

lemma ikey_compare_less:
  assumes "s1 \<le> kMaxSequenceNumber" and "s2 \<le> kMaxSequenceNumber"
  shows "ikey_compare C (ikey u1 s1 t1) (ikey u2 s2 t2) < 0 \<longleftrightarrow>
    Compare C u1 u2 < 0 \<or> Compare C u1 u2 = 0 \<and>
      (s2 < s1 \<or> s1 = s2 \<and> ValueType_code t2 < ValueType_code t1)"
  using assms by (auto simp: ikey_compare_def Let_def pack_less_iff)

lemma ikey_compare_greater:
  assumes "s1 \<le> kMaxSequenceNumber" and "s2 \<le> kMaxSequenceNumber"
  shows "0 < ikey_compare C (ikey u1 s1 t1) (ikey u2 s2 t2) \<longleftrightarrow>
    0 < Compare C u1 u2 \<or> Compare C u1 u2 = 0 \<and>
      (s1 < s2 \<or> s1 = s2 \<and> ValueType_code t1 < ValueType_code t2)"
  using assms by (auto simp: ikey_compare_def Let_def pack_less_iff)

lemma LookupKey_SomeE:
  assumes "LookupKey u s = Some lk"
  obtains "s \<le> kMaxSequenceNumber" and "LookupKey_internal_key lk = ikey u s kValueTypeForSeek"
    and "LookupKey_user_key lk = u"
    and "LookupKey_memtable_key lk =
      EncodeVarint32 (word_of_nat (length u + 8)) @ ikey u s kValueTypeForSeek"
    and "lk_capacity lk = max 200 (length u + 13)"
  using assms that
  by (auto simp: LookupKey_def Let_def PackSequenceAndType_eq LookupKey_internal_key_def LookupKey_user_key_def
      LookupKey_memtable_key_def ikey_def PutFixed64_def split: if_splits)

subsection \<open>Properties\<close>

text \<open>C30: parsing inverts the encoding of internal keys in both directions: an appended key parses
  back to its parts, and a string that parses is the encoding of the parsed parts.\<close>

theorem InternalKey_parse_append:
  "(AppendInternalKey [] p = Some k) = (ParseInternalKey k = Some p)"
proof
  assume "AppendInternalKey [] p = Some k"
  then have k: "k = PutFixed64 (user_key p) (push_bit 8 (sequence p) OR ValueType_code (vtype p))"
    and s: "sequence p \<le> kMaxSequenceNumber"
    by (auto simp: AppendInternalKey_eq split: if_splits)
  show "ParseInternalKey k = Some p"
    unfolding k ParseInternalKey_PutFixed64 pack_parts [OF s] by (cases "vtype p") simp_all
next
  assume parse: "ParseInternalKey k = Some p"
  then have wf: "wf_ikey k"
    by (auto simp: ParseInternalKey_def wf_ikey_def Let_def split: if_splits)
  let ?u = "ikey_user k" and ?tag = "ikey_tag k"
  have k: "k = PutFixed64 ?u ?tag"
    using ikey_split [OF wf] by simp
  with parse have p: "?tag AND 0xff \<le> 1" "user_key p = ?u" "sequence p = drop_bit 8 ?tag"
    "vtype p = (if ?tag AND 0xff = 0 then kTypeDeletion else kTypeValue)"
    using ParseInternalKey_PutFixed64 [of ?u ?tag] by (auto split: if_splits)
  have "?tag AND 0xff = 0 \<or> ?tag AND 0xff = 1"
    using p(1) by (metis word_le_nat_alt word_unat_eq_iff unat_0 unat_1 le_Suc_eq One_nat_def le_zero_eq)
  then have code: "ValueType_code (vtype p) = ?tag AND 0xff"
    using p(4) by auto
  have "push_bit 8 (drop_bit 8 ?tag) OR (?tag AND 0xff) = ?tag"
    by (rule word_eq_bitsI) (auto simp: and_255 bit_simps simp flip: not_le)
  moreover have "sequence p \<le> kMaxSequenceNumber"
    using unat_u64_less [of ?tag]
    by (simp add: p(3) kMaxSequenceNumber_eq word_le_nat_alt unat_drop_bit_div)
  ultimately show "AppendInternalKey [] p = Some k"
    using k by (simp add: AppendInternalKey_eq p(2,3) code)
qed

text \<open>C29: encoded internal keys are ordered by increasing user key, then by decreasing sequence
  number, then by decreasing value type, and the comparator never fails an assertion on them.\<close>

theorem InternalKey_order:
  assumes "InternalKey u1 s1 t1 = Some a" and "InternalKey u2 s2 t2 = Some b"
  shows "\<exists>r. InternalKeyComparator_Compare_keys C a b = Some r \<and>
    (r < 0 \<longleftrightarrow> Compare C u1 u2 < 0 \<or> Compare C u1 u2 = 0 \<and>
       (s2 < s1 \<or> s1 = s2 \<and> ValueType_code t2 < ValueType_code t1)) \<and>
    (r > 0 \<longleftrightarrow> Compare C u1 u2 > 0 \<or> Compare C u1 u2 = 0 \<and>
       (s1 < s2 \<or> s1 = s2 \<and> ValueType_code t1 < ValueType_code t2))"
proof -
  have s: "s1 \<le> kMaxSequenceNumber" "s2 \<le> kMaxSequenceNumber"
    and ab: "a = ikey u1 s1 t1" "b = ikey u2 s2 t2"
    using assms by (auto simp: InternalKey_eq split: if_splits)
  have "InternalKeyComparator_Compare_keys C a b = Some (ikey_compare C a b)"
    by (simp add: InternalKeyComparator_Compare_keys_def InternalKey_Encode_eq ab
        InternalKeyComparator_Compare_eq)
  then show ?thesis
    using ikey_compare_less [OF s] ikey_compare_greater [OF s] ab by simp
qed

theorem InternalKey_order_witness:
  "\<exists>a b r. InternalKey (ascii ''foo'') 100 kTypeValue = Some a \<and> InternalKey (ascii ''foo'') 99 kTypeValue = Some b \<and>
     InternalKeyComparator_Compare_keys BytewiseComparator a b = Some r \<and> r < 0"
proof -
  obtain a b where ab: "InternalKey (ascii ''foo'') 100 kTypeValue = Some a"
    "InternalKey (ascii ''foo'') 99 kTypeValue = Some b"
    by (simp add: InternalKey_eq kMaxSequenceNumber_eq)
  have "Compare BytewiseComparator (ascii ''foo'') (ascii ''foo'') = 0"
    by (simp add: BytewiseComparator_def Slice_compare_eq)
  then show ?thesis
    using InternalKey_order [OF ab, of BytewiseComparator] ab by auto
qed

text \<open>C31: over any user comparator that keeps the comparator contract, shortening internal keys
  never fails an assertion: the separator is no longer than the start key and, when the start
  key is below the limit, lies in the half-open interval from the start key to the limit; the
  short successor is no longer than the key and not below it.\<close>

theorem InternalKey_shortening:
  assumes "user_comparator C" and "8 \<le> length start" and "8 \<le> length limit"
  shows "(\<exists>r. InternalKeyComparator_FindShortestSeparator C start limit = Some r \<and> length r \<le> length start \<and>
      (Compare (InternalKeyComparator C) start limit < 0 \<longrightarrow>
         Compare (InternalKeyComparator C) start r \<le> 0 \<and> Compare (InternalKeyComparator C) r limit < 0) \<and>
      (Compare (InternalKeyComparator C) start limit \<ge> 0 \<longrightarrow> r = start)) \<and>
    (\<exists>r. InternalKeyComparator_FindShortSuccessor C start = Some r \<and> length r \<le> length start \<and>
      Compare (InternalKeyComparator C) start r \<le> 0)"
proof -
  have wf: "wf_ikey start" "wf_ikey limit"
    using assms(2,3) by (simp_all add: wf_ikey_def)
  note cmp = user_comparator.Compare_internal [OF assms(1)]
  have "\<exists>r. InternalKeyComparator_FindShortestSeparator C start limit = Some r \<and> length r \<le> length start \<and>
      (ikey_compare C start limit < 0 \<longrightarrow>
         wf_ikey r \<and> ikey_compare C start r \<le> 0 \<and> ikey_compare C r limit < 0) \<and>
      (ikey_compare C start limit \<ge> 0 \<longrightarrow> r = start)"
  proof (cases "ikey_compare C start limit < 0")
    case True
    from user_comparator.shortened_separator [OF assms(1) wf True] show ?thesis
      using True by (metis not_less)
  next
    case False
    then show ?thesis
      using user_comparator.separator_unchanged [OF assms(1) wf] by auto
  qed
  moreover have "\<exists>r. InternalKeyComparator_FindShortSuccessor C start = Some r \<and> length r \<le> length start \<and>
      wf_ikey r \<and> ikey_compare C start r \<le> 0"
    using user_comparator.shortened_successor [OF assms(1) wf(1)] by metis
  ultimately show ?thesis
    using wf cmp by auto
qed

theorem InternalKey_shortening_witness:
  "\<exists>r. InternalKeyComparator_FindShortestSeparator BytewiseComparator
         (ikey (ascii ''foo'') 100 kTypeValue) (ikey (ascii ''hello'') 200 kTypeValue) = Some r"
  using InternalKey_shortening [OF bytewise_internal.user_comparator_axioms,
      of "ikey (ascii ''foo'') 100 kTypeValue" "ikey (ascii ''hello'') 200 kTypeValue"]
    ikey_simps(1) wf_ikey_def by blast

text \<open>C32: a lookup key sorts at or before exactly those entries that a read at its snapshot may
  see first: the entries of larger user keys, and the entries of its user key whose sequence
  number is not above the snapshot.\<close>

theorem LookupKey_seeks_snapshot:
  assumes "LookupKey u s = Some lk" and "InternalKey u' s' t' = Some e"
  shows "\<exists>r. InternalKeyComparator_Compare C (LookupKey_internal_key lk) e = Some r \<and>
    (r \<le> 0 \<longleftrightarrow> Compare C u u' < 0 \<or> Compare C u u' = 0 \<and> s' \<le> s)"
proof -
  have e: "e = ikey u' s' t'" "s' \<le> kMaxSequenceNumber"
    using assms(2) by (auto simp: InternalKey_eq split: if_splits)
  obtain s: "s \<le> kMaxSequenceNumber" "LookupKey_internal_key lk = ikey u s kValueTypeForSeek"
    using assms(1) by (rule LookupKey_SomeE)
  have "\<not> ValueType_code kValueTypeForSeek < ValueType_code t'"
    using ValueType_code_seek [of t'] by simp
  then have "ikey_compare C (ikey u s kValueTypeForSeek) e \<le> 0 \<longleftrightarrow>
      Compare C u u' < 0 \<or> Compare C u u' = 0 \<and> s' \<le> s"
    using ikey_compare_greater [OF s(1) e(2), of C u kValueTypeForSeek u' t']
    by (auto simp: e(1) not_less [symmetric])
  then show ?thesis
    using s e by (simp add: InternalKeyComparator_Compare_eq)
qed

theorem LookupKey_seeks_snapshot_witness:
  "\<exists>lk e r. LookupKey (ascii ''foo'') 100 = Some lk \<and> InternalKey (ascii ''foo'') 101 kTypeValue = Some e \<and>
     InternalKeyComparator_Compare BytewiseComparator (LookupKey_internal_key lk) e = Some r \<and> \<not> r \<le> 0"
proof -
  obtain lk e where lk: "LookupKey (ascii ''foo'') 100 = Some lk"
    "InternalKey (ascii ''foo'') 101 kTypeValue = Some e"
    by (simp add: InternalKey_eq kMaxSequenceNumber_eq LookupKey_def Let_def PackSequenceAndType_eq)
  have "Compare BytewiseComparator (ascii ''foo'') (ascii ''foo'') = 0"
    by (simp add: BytewiseComparator_def Slice_compare_eq)
  then show ?thesis
    using LookupKey_seeks_snapshot [OF lk, of BytewiseComparator] lk by simp
qed

text \<open>The memtable key of a lookup key is its internal key with a length prefix that the slice
  reader undoes, its three views agree, and what is written fits the buffer that was chosen.\<close>

theorem LookupKey_memtable_layout:
  assumes "LookupKey u s = Some lk" and "length u + 8 < 2 ^ 32"
  shows "GetLengthPrefixedSlice (LookupKey_memtable_key lk @ rest) = (Some (LookupKey_internal_key lk), rest) \<and>
    ParseInternalKey (LookupKey_internal_key lk) =
      Some \<lparr> user_key = u, sequence = s, vtype = kValueTypeForSeek \<rparr> \<and>
    LookupKey_user_key lk = u \<and>
    length (LookupKey_memtable_key lk) \<le> lk_capacity lk"
proof -
  obtain s: "s \<le> kMaxSequenceNumber" and ik: "LookupKey_internal_key lk = ikey u s kValueTypeForSeek"
    and uk: "LookupKey_user_key lk = u"
    and mk: "LookupKey_memtable_key lk =
      EncodeVarint32 (word_of_nat (length u + 8)) @ ikey u s kValueTypeForSeek"
    and cap: "lk_capacity lk = max 200 (length u + 13)"
    using assms(1) by (rule LookupKey_SomeE)
  have len: "length (ikey u s kValueTypeForSeek) = length u + 8"
    by (simp add: ikey_def PutFixed64_def)
  have "GetLengthPrefixedSlice (LookupKey_memtable_key lk @ rest) = (Some (LookupKey_internal_key lk), rest)"
    using assms(2) length_prefixed_read [of "ikey u s kValueTypeForSeek" rest] by (simp add: mk ik len)
  moreover have "ParseInternalKey (ikey u s kValueTypeForSeek) =
      Some \<lparr> user_key = u, sequence = s, vtype = kValueTypeForSeek \<rparr>"
    unfolding ikey_def ParseInternalKey_PutFixed64 pack_parts [OF s] by (simp add: kValueTypeForSeek_def)
  moreover have "length (LookupKey_memtable_key lk) \<le> lk_capacity lk"
    using EncodeVarint_length [of "word_of_nat (length u + 8)"] by (simp add: mk len cap)
  ultimately show ?thesis
    using uk ik by simp
qed

theorem LookupKey_memtable_layout_witness:
  "\<exists>lk. LookupKey (ascii ''foo'') 100 = Some lk \<and>
     GetLengthPrefixedSlice (LookupKey_memtable_key lk) = (Some (LookupKey_internal_key lk), [])"
proof -
  obtain lk where lk: "LookupKey (ascii ''foo'') 100 = Some lk"
    by (simp add: kMaxSequenceNumber_eq LookupKey_def Let_def PackSequenceAndType_eq)
  show ?thesis
    using LookupKey_memtable_layout [OF lk, of "[]"] lk by simp
qed

end
