(* ===== verification/Hash.thy ===== *)
theory Hash
  imports Coding
begin

text \<open>
  The Murmur-like hash of \<^verbatim>\<open>util/hash.cpp\<close>, used to pick cache shards, hash-table buckets and
  Bloom-filter probes. The \<^verbatim>\<open>while\<close> loop over four-byte words and the \<^verbatim>\<open>switch\<close> with its
  fall-through on the remaining bytes are one recursion over the bytes.
\<close>

subsection \<open>Definitions\<close>

definition Hash_m :: u32 where "Hash_m = 0xc6a4a793"

definition Hash_r :: nat where "Hash_r = 24"

text \<open>One pass of the loop body.\<close>

definition Hash_word :: "u32 \<Rightarrow> u32 \<Rightarrow> u32" where
  "Hash_word h w = (let h = (h + w) * Hash_m in h XOR drop_bit 16 h)"

text \<open>The end of the \<^verbatim>\<open>switch\<close>, shared by its three cases.\<close>

definition Hash_tail :: "u32 \<Rightarrow> u32" where
  "Hash_tail h = (let h = h * Hash_m in h XOR drop_bit Hash_r h)"

fun Hash_data :: "u32 \<Rightarrow> bytes \<Rightarrow> u32" where
  "Hash_data h (b0 # b1 # b2 # b3 # data) =
     Hash_data (Hash_word h (the (DecodeFixed32 [b0, b1, b2, b3]))) data"
| "Hash_data h [d0, d1, d2] =
     Hash_tail (h + push_bit 16 (ucast d2) + push_bit 8 (ucast d1) + ucast d0)"
| "Hash_data h [d0, d1] = Hash_tail (h + push_bit 8 (ucast d1) + ucast d0)"
| "Hash_data h [d0] = Hash_tail (h + ucast d0)"
| "Hash_data h [] = h"

definition Hash :: "bytes \<Rightarrow> u32 \<Rightarrow> u32" where
  "Hash data seed = Hash_data (seed XOR (word_of_nat (length data) * Hash_m)) data"

subsection \<open>The mixing steps lose nothing\<close>

lemma xor_shift_involution:
  fixes x :: u32
  assumes "16 \<le> k"
  shows "(x XOR drop_bit k x) XOR drop_bit k (x XOR drop_bit k x) = x"
proof -
  have "\<not> bit x (k + k + n)" for n
    using assms bit_imp_le_length [of x "k + k + n"] by auto
  then show ?thesis
    by (intro word_eq_bitsI) (auto simp: bit_simps)
qed

lemma xor_shift_inj: "16 \<le> k \<Longrightarrow> x XOR drop_bit k x = y XOR drop_bit k y \<Longrightarrow> x = y" for x y :: u32
  by (metis xor_shift_involution)

lemma mult_Hash_m_inj: "x * Hash_m = y * Hash_m \<Longrightarrow> x = y"
proof -
  assume "x * Hash_m = y * Hash_m"
  then have "x * (Hash_m * 0xd8198e9b) = y * (Hash_m * 0xd8198e9b)"
    by (simp only: mult.assoc [symmetric])
  moreover have "Hash_m * 0xd8198e9b = 1"
    by (simp add: Hash_m_def)
  ultimately show "x = y"
    by simp
qed

lemma Hash_word_inj:
  "Hash_word h w = Hash_word h' w' \<Longrightarrow> h + w = h' + w'"
  unfolding Hash_word_def Let_def by (drule xor_shift_inj [rotated]) (auto dest: mult_Hash_m_inj)

lemma Hash_tail_inj: "Hash_tail h = Hash_tail h' \<Longrightarrow> h = h'"
  unfolding Hash_tail_def Let_def Hash_r_def
  by (drule xor_shift_inj [rotated]) (auto dest: mult_Hash_m_inj)

text \<open>For fixed data the hash is a bijection of the running state.\<close>

lemma Hash_data_inj: "Hash_data h data = Hash_data h' data \<Longrightarrow> h = h'"
proof (induction h data arbitrary: h' rule: Hash_data.induct)
  case (1 h b0 b1 b2 b3 data)
  then have "Hash_word h (the (DecodeFixed32 [b0, b1, b2, b3])) =
      Hash_word h' (the (DecodeFixed32 [b0, b1, b2, b3]))"
    by simp
  then show ?case
    by (auto dest: Hash_word_inj)
qed (auto dest: Hash_tail_inj)

lemma DecodeFixed32_inj:
  "DecodeFixed32 [a0, a1, a2, a3] = DecodeFixed32 [b0, b1, b2, b3] \<Longrightarrow>
   [a0, a1, a2, a3] = [b0, b1, b2, b3]"
  by (metis DecodeFixed32.simps(1) byte_of_le_32 option.inject)

lemma Hash_data_same_prefix:
  assumes "length p mod 4 = 0"
  shows "\<exists>h'. \<forall>data. Hash_data h (p @ data) = Hash_data h' data"
  using assms
proof (induction h p rule: Hash_data.induct)
  case (1 h b0 b1 b2 b3 p)
  then show ?case by simp
qed auto

subsection \<open>Properties\<close>

text \<open>Two keys of the same length that differ only within one aligned four-byte word never
  have the same hash, for any seed; in particular the hash is injective on four-byte keys.\<close>

theorem Hash_differs_on_one_word:
  assumes "length p mod 4 = 0" and "length w = 4" and "length w' = 4" and "w \<noteq> w'"
  shows "Hash (p @ w @ s) seed \<noteq> Hash (p @ w' @ s) seed"
proof
  assume eq: "Hash (p @ w @ s) seed = Hash (p @ w' @ s) seed"
  obtain a0 a1 a2 a3 b0 b1 b2 b3 where w: "w = [a0, a1, a2, a3]" "w' = [b0, b1, b2, b3]"
    using assms(2,3) by (auto simp: numeral_eq_Suc length_Suc_conv)
  obtain h where "\<forall>data. Hash_data (seed XOR word_of_nat (length (p @ w @ s)) * Hash_m) (p @ data) =
      Hash_data h data"
    using Hash_data_same_prefix [OF assms(1)] by blast
  with eq have "Hash_data h (w @ s) = Hash_data h (w' @ s)"
    using assms(2,3) by (simp add: Hash_def)
  then have "Hash_word h (the (DecodeFixed32 [a0, a1, a2, a3])) =
      Hash_word h (the (DecodeFixed32 [b0, b1, b2, b3]))"
    by (auto simp: w simp del: DecodeFixed32.simps dest: Hash_data_inj)
  then have "DecodeFixed32 [a0, a1, a2, a3] = DecodeFixed32 [b0, b1, b2, b3]"
    using Hash_word_inj by fastforce
  then show False
    using DecodeFixed32_inj assms(4) w by simp
qed

theorem Hash_differs_on_one_word_witness:
  "Hash ([] @ ascii ''key1'' @ ascii ''x'') 0 \<noteq> Hash ([] @ ascii ''key2'' @ ascii ''x'') 0"
  by (rule Hash_differs_on_one_word) simp_all

end
