(* ===== verification/Bloom.thy ===== *)
theory Bloom
  imports FilterPolicy Hash "HOL-Library.Monad_Syntax"
begin

text \<open>
  The Bloom filter policy of \<^verbatim>\<open>util/bloom.cpp\<close>. Sizes are \<^verbatim>\<open>size_t\<close>: natural numbers with the
  reduction modulo \<open>2\<^sup>6\<^sup>4\<close> written out. An access outside the array and a remainder by zero are
  \<^term>\<open>None\<close>, so the theorems also say that \<^verbatim>\<open>CreateFilter\<close> and \<^verbatim>\<open>KeyMayMatch\<close> stay inside the
  filter they work on.

  The filter is related to a reference: the set of bits at the probe positions of its keys.
  From that characterisation the policy is an instance of the contract \<open>filter_policy\<close>.
\<close>

subsection \<open>Definitions\<close>

definition BloomHash :: "bytes \<Rightarrow> u32" where
  "BloomHash key = Hash key 0xbc9f1d34"

record BloomFilterPolicy =
  bits_per_key :: nat
  bloom_k :: nat

text \<open>
  The constructor, for a non-negative argument. The product with the \<^verbatim>\<open>double\<close> 0.69 is exact
  enough: below the cap of 30, \<open>69 b / 100\<close> is an integer only for \<open>b = 0\<close>, and otherwise at
  least a hundredth away from one.
\<close>

definition new_BloomFilterPolicy :: "nat \<Rightarrow> BloomFilterPolicy" where
  "new_BloomFilterPolicy b =
     (let k = b * 69 div 100;
          k = (if k < 1 then 1 else k);
          k = (if 30 < k then 30 else k)
      in \<lparr> bits_per_key = b, bloom_k = k \<rparr>)"

text \<open>\<^verbatim>\<open>(h >> 17) | (h << 15)\<close>.\<close>

definition bloom_delta :: "u32 \<Rightarrow> u32" where
  "bloom_delta h = drop_bit 17 h OR push_bit 15 h"

text \<open>\<^verbatim>\<open>const uint32_t bitpos = h % bits\<close>, a 64-bit remainder cut to 32 bits.\<close>

definition bloom_bitpos :: "u32 \<Rightarrow> nat \<Rightarrow> nat option" where
  "bloom_bitpos h bits = asserting (bits \<noteq> 0) (Some (unat h mod bits mod 2 ^ 32))"

fun bloom_set_probes :: "nat \<Rightarrow> u32 \<Rightarrow> u32 \<Rightarrow> nat \<Rightarrow> bytes \<Rightarrow> bytes option" where
  "bloom_set_probes 0 h delta bits array = Some array"
| "bloom_set_probes (Suc j) h delta bits array = do {
     bitpos \<leftarrow> bloom_bitpos h bits;
     asserting (bitpos div 8 < length array)
       (bloom_set_probes j (h + delta) delta bits
         (array[bitpos div 8 := array ! (bitpos div 8) OR push_bit (bitpos mod 8) 1]))
   }"

fun bloom_add_keys :: "nat \<Rightarrow> nat \<Rightarrow> bytes list \<Rightarrow> bytes \<Rightarrow> bytes option" where
  "bloom_add_keys k bits [] array = Some array"
| "bloom_add_keys k bits (key # keys) array = do {
     let h = BloomHash key;
     array \<leftarrow> bloom_set_probes k h (bloom_delta h) bits array;
     bloom_add_keys k bits keys array
   }"

definition Bloom_CreateFilter :: "BloomFilterPolicy \<Rightarrow> bytes list \<Rightarrow> bytes \<Rightarrow> bytes option" where
  "Bloom_CreateFilter P keys dst = do {
     let bits = length keys * bits_per_key P mod 2 ^ 64;
     let bits = (if bits < 64 then 64 else bits);
     let nbytes = (bits + 7) mod 2 ^ 64 div 8;
     let bits = nbytes * 8;
     let array = replicate nbytes 0 @ [word_of_nat (bloom_k P)];
     array \<leftarrow> bloom_add_keys (bloom_k P) bits keys array;
     Some (dst @ array)
   }"

fun bloom_test_probes :: "nat \<Rightarrow> u32 \<Rightarrow> u32 \<Rightarrow> nat \<Rightarrow> bytes \<Rightarrow> bool option" where
  "bloom_test_probes 0 h delta bits array = Some True"
| "bloom_test_probes (Suc j) h delta bits array = do {
     bitpos \<leftarrow> bloom_bitpos h bits;
     asserting (bitpos div 8 < length array)
       (if array ! (bitpos div 8) AND push_bit (bitpos mod 8) 1 = 0 then Some False
        else bloom_test_probes j (h + delta) delta bits array)
   }"

definition Bloom_KeyMayMatch :: "bytes \<Rightarrow> bytes \<Rightarrow> bool option" where
  "Bloom_KeyMayMatch key bloom_filter =
     (let len = length bloom_filter in
      if len < 2 then Some False
      else let bits = (len - 1) * 8 mod 2 ^ 64;
               k = unat (bloom_filter ! (len - 1))
        in if 30 < k then Some True
           else let h = BloomHash key in bloom_test_probes k h (bloom_delta h) bits bloom_filter)"

definition NewBloomFilterPolicy :: "nat \<Rightarrow> FilterPolicy" where
  "NewBloomFilterPolicy b =
     \<lparr> FilterPolicy_Name = ''lldb.BuiltinBloomFilter2'',
       CreateFilter = Bloom_CreateFilter (new_BloomFilterPolicy b),
       KeyMayMatch = Bloom_KeyMayMatch \<rparr>"

subsection \<open>The reference: bit positions\<close>

definition bit_at :: "bytes \<Rightarrow> nat \<Rightarrow> bool" where
  "bit_at array p \<longleftrightarrow> bit (array ! (p div 8)) (p mod 8)"

text \<open>The \<open>j\<close>-th probe of the double-hashing sequence, in a filter of \<open>bits\<close> bits.\<close>

definition probe :: "nat \<Rightarrow> u32 \<Rightarrow> nat \<Rightarrow> nat" where
  "probe bits h j = unat (h + word_of_nat j * bloom_delta h) mod bits"

definition probes :: "nat \<Rightarrow> nat \<Rightarrow> bytes \<Rightarrow> nat set" where
  "probes bits k key = probe bits (BloomHash key) ` {..<k}"

definition walk :: "nat \<Rightarrow> nat \<Rightarrow> u32 \<Rightarrow> u32 \<Rightarrow> nat set" where
  "walk bits k h delta = (\<lambda>j. unat (h + word_of_nat j * delta) mod bits) ` {..<k}"

lemma probes_walk: "probes bits k key = walk bits k (BloomHash key) (bloom_delta (BloomHash key))"
  by (simp add: probes_def walk_def probe_def)

lemma walk_0 [simp]: "walk bits 0 h delta = {}"
  by (simp add: walk_def)

lemma walk_Suc: "walk bits (Suc k) h delta = insert (unat h mod bits) (walk bits k (h + delta) delta)"
  by (auto simp: walk_def lessThan_Suc_eq_insert_0 image_image algebra_simps)

lemma bloom_bitpos_eq: "0 < bits \<Longrightarrow> bloom_bitpos h bits = Some (unat h mod bits)"
proof -
  assume "0 < bits"
  have "unat h mod bits \<le> unat h"
    by simp
  then have "unat h mod bits < 2 ^ 32"
    using unat_u32_less [of h] by linarith
  with \<open>0 < bits\<close> show ?thesis
    by (simp add: bloom_bitpos_def)
qed

lemma bit_at_update:
  assumes "p div 8 < length a"
  shows "bit_at (a[p div 8 := a ! (p div 8) OR push_bit (p mod 8) 1]) q \<longleftrightarrow> bit_at a q \<or> q = p"
proof (cases "q div 8 = p div 8")
  case True
  have "q = p \<longleftrightarrow> q mod 8 = p mod 8"
    using True by (metis mod_mult_div_eq)
  with True assms show ?thesis
    by (auto simp: bit_at_def bit_simps)
next
  case False
  then show ?thesis
    by (auto simp: bit_at_def)
qed

lemma and_bit_eq_0: "p < 8 \<Longrightarrow> x AND push_bit p 1 = 0 \<longleftrightarrow> \<not> bit x p" for x :: u8
  by (auto simp: word_eq_bits_iff bit_simps)

subsection \<open>Setting and testing bits\<close>

text \<open>The bits of an array of \<open>m\<close> filter bytes and the byte that holds \<^verbatim>\<open>k_\<close>.\<close>

lemma bloom_set_probes_spec:
  assumes "length a = m + 1" and "0 < m"
  shows "\<exists>a'. bloom_set_probes k h delta (m * 8) a = Some a' \<and> length a' = m + 1 \<and> a' ! m = a ! m \<and>
    (\<forall>q. bit_at a' q \<longleftrightarrow> bit_at a q \<or> q \<in> walk (m * 8) k h delta)"
  using assms(1)
proof (induction k arbitrary: h a)
  case (Suc k)
  let ?p = "unat h mod (m * 8)"
  let ?a = "a[?p div 8 := a ! (?p div 8) OR push_bit (?p mod 8) 1]"
  have p: "?p div 8 < m"
    using assms(2) by (intro less_mult_imp_div_less) (simp add: mult.commute)
  have "length ?a = m + 1"
    using Suc.prems by simp
  from Suc.IH [OF this, of "h + delta"] obtain a' where
    a': "bloom_set_probes k (h + delta) delta (m * 8) ?a = Some a'" "length a' = m + 1" "a' ! m = ?a ! m"
      "\<forall>q. bit_at a' q \<longleftrightarrow> bit_at ?a q \<or> q \<in> walk (m * 8) k (h + delta) delta"
    by blast
  have "bloom_set_probes (Suc k) h delta (m * 8) a = Some a'"
    using a'(1) p assms(2) Suc.prems by (simp add: bloom_bitpos_eq)
  moreover have "?a ! m = a ! m"
    using p by simp
  moreover have "bit_at ?a q \<longleftrightarrow> bit_at a q \<or> q = ?p" for q
    using p Suc.prems by (intro bit_at_update) simp
  ultimately show ?case
    using a' by (auto simp: walk_Suc)
qed simp

lemma bloom_add_keys_spec:
  assumes "length a = m + 1" and "0 < m"
  shows "\<exists>a'. bloom_add_keys k (m * 8) keys a = Some a' \<and> length a' = m + 1 \<and> a' ! m = a ! m \<and>
    (\<forall>q. bit_at a' q \<longleftrightarrow> bit_at a q \<or> (\<exists>key \<in> set keys. q \<in> probes (m * 8) k key))"
  using assms(1)
proof (induction keys arbitrary: a)
  case (Cons key keys)
  obtain b where b: "bloom_set_probes k (BloomHash key) (bloom_delta (BloomHash key)) (m * 8) a = Some b"
      "length b = m + 1" "b ! m = a ! m"
      "\<And>q. bit_at b q \<longleftrightarrow> bit_at a q \<or> q \<in> probes (m * 8) k key"
    using bloom_set_probes_spec [OF Cons.prems assms(2)] by (metis probes_walk)
  from Cons.IH [OF b(2)] obtain a' where
    "bloom_add_keys k (m * 8) keys b = Some a'" "length a' = m + 1" "a' ! m = b ! m"
    "\<And>q. bit_at a' q \<longleftrightarrow> bit_at b q \<or> (\<exists>key \<in> set keys. q \<in> probes (m * 8) k key)"
    by blast
  with b show ?case
    by (intro exI [of _ a']) auto
qed simp

lemma bloom_test_probes_spec:
  assumes "length a = m + 1" and "0 < m"
  shows "bloom_test_probes k h delta (m * 8) a = Some (\<forall>q \<in> walk (m * 8) k h delta. bit_at a q)"
proof (induction k arbitrary: h)
  case (Suc k)
  have "unat h mod (m * 8) div 8 < m"
    using assms(2) by (intro less_mult_imp_div_less) (simp add: mult.commute)
  then have "unat h mod (m * 8) div 8 < length a"
    using assms(1) by simp
  then show ?case
    using Suc [of "h + delta"] assms(2)
    by (auto simp: bloom_bitpos_eq walk_Suc bit_at_def and_bit_eq_0 simp del: push_bit_of_1)
qed simp

subsection \<open>The policy\<close>

lemma bloom_k_bounds: "1 \<le> bloom_k (new_BloomFilterPolicy b)" "bloom_k (new_BloomFilterPolicy b) \<le> 30"
  by (auto simp: new_BloomFilterPolicy_def Let_def)

text \<open>The number of filter bytes for \<open>n\<close> keys.\<close>

definition filter_bytes :: "nat \<Rightarrow> nat \<Rightarrow> nat" where
  "filter_bytes b n = (max 64 (n * b) + 7) div 8"

lemma filter_bytes_bounds: "8 \<le> filter_bytes b n" "n * b \<le> 8 * filter_bytes b n"
  by (auto simp: filter_bytes_def)

definition bloom_admissible :: "nat \<Rightarrow> bytes list \<Rightarrow> bool" where
  "bloom_admissible b keys \<longleftrightarrow> length keys < 2 ^ 31 \<and> b < 2 ^ 31"

lemma admissible_product: "bloom_admissible b keys \<Longrightarrow> length keys * b < 2 ^ 62"
proof -
  assume "bloom_admissible b keys"
  then have "length keys * b \<le> 2 ^ 31 * b" and "(2 ^ 31 :: nat) * b < 2 ^ 31 * 2 ^ 31"
    by (simp_all add: bloom_admissible_def)
  then have "length keys * b < 2 ^ 31 * 2 ^ 31"
    by (rule le_less_trans)
  then show ?thesis
    by simp
qed

lemma Bloom_CreateFilter_spec:
  fixes b keys dst
  defines "k \<equiv> bloom_k (new_BloomFilterPolicy b)" and "m \<equiv> filter_bytes b (length keys)"
  assumes adm: "bloom_admissible b keys"
  obtains f where "Bloom_CreateFilter (new_BloomFilterPolicy b) keys dst = Some (dst @ f)"
    and "length f = m + 1" and "unat (f ! m) = k"
    and "\<And>q. q < m * 8 \<Longrightarrow> bit_at f q \<longleftrightarrow> (\<exists>key \<in> set keys. q \<in> probes (m * 8) k key)"
proof -
  note prod = admissible_product [OF adm]
  let ?bits = "length keys * b"
  have bpk: "bits_per_key (new_BloomFilterPolicy b) = b"
    by (simp add: new_BloomFilterPolicy_def Let_def)
  have nb: "((if ?bits mod 2 ^ 64 < 64 then 64 else ?bits mod 2 ^ 64) + 7) mod 2 ^ 64 div 8 = m"
    using prod by (simp add: m_def filter_bytes_def max_def)
  have m: "0 < m"
    using filter_bytes_bounds [of b "length keys"] by (simp add: m_def)
  let ?a = "replicate m (0::u8) @ [word_of_nat k]"
  have zero: "\<not> bit_at ?a q" if "q < m * 8" for q
  proof -
    have "q div 8 < m"
      using that by (intro less_mult_imp_div_less)
    then show ?thesis
      by (simp add: bit_at_def nth_append)
  qed
  obtain f where f: "bloom_add_keys k (m * 8) keys ?a = Some f" "length f = m + 1" "f ! m = ?a ! m"
      "\<And>q. bit_at f q \<longleftrightarrow> bit_at ?a q \<or> (\<exists>key \<in> set keys. q \<in> probes (m * 8) k key)"
    using bloom_add_keys_spec [of ?a m k keys] m by auto
  have "unat (f ! m) = k"
  proof -
    have "k \<le> 30"
      unfolding k_def by (rule bloom_k_bounds)
    with f(3) show ?thesis
      by (simp add: nth_append unsigned_of_nat take_bit_nat_eq_self)
  qed
  moreover have "Bloom_CreateFilter (new_BloomFilterPolicy b) keys dst = Some (dst @ f)"
    unfolding Bloom_CreateFilter_def Let_def bpk nb using f(1) by (simp add: k_def)
  ultimately show ?thesis
    using that f zero by blast
qed

lemma Bloom_KeyMayMatch_spec:
  assumes "length f = m + 1" and "0 < m" and "m < 2 ^ 60" and "unat (f ! m) \<le> 30"
  shows "Bloom_KeyMayMatch key f = Some (\<forall>q \<in> probes (m * 8) (unat (f ! m)) key. bit_at f q)"
proof -
  have "m * 8 mod 2 ^ 64 = m * 8"
    using assms(3) by simp
  then show ?thesis
    using assms bloom_test_probes_spec [of f m "unat (f ! m)" "BloomHash key" "bloom_delta (BloomHash key)"]
    by (simp add: Bloom_KeyMayMatch_def Let_def probes_walk)
qed

lemma probes_less: "0 < bits \<Longrightarrow> q \<in> probes bits k key \<Longrightarrow> q < bits"
  by (auto simp: probes_def probe_def)

lemma filter_bytes_less: "bloom_admissible b keys \<Longrightarrow> filter_bytes b (length keys) < 2 ^ 60"
  using admissible_product [of b keys] by (simp add: filter_bytes_def)

text \<open>What a filter built from \<open>keys\<close> answers, for any key.\<close>

lemma Bloom_answer:
  fixes b keys dst
  defines "k \<equiv> bloom_k (new_BloomFilterPolicy b)" and "m \<equiv> filter_bytes b (length keys)"
  assumes adm: "bloom_admissible b keys"
  obtains f where "Bloom_CreateFilter (new_BloomFilterPolicy b) keys dst = Some (dst @ f)"
    and "length f = m + 1"
    and "\<And>key. Bloom_KeyMayMatch key f =
      Some (probes (m * 8) k key \<subseteq> (\<Union>key' \<in> set keys. probes (m * 8) k key'))"
proof -
  obtain f where f: "Bloom_CreateFilter (new_BloomFilterPolicy b) keys dst = Some (dst @ f)"
    "length f = m + 1" "unat (f ! m) = k"
    "\<And>q. q < m * 8 \<Longrightarrow> bit_at f q \<longleftrightarrow> (\<exists>key \<in> set keys. q \<in> probes (m * 8) k key)"
    using Bloom_CreateFilter_spec [OF adm, of dst] unfolding k_def m_def by blast
  have m: "0 < m" "m < 2 ^ 60"
    using filter_bytes_bounds(1) [of b "length keys"] filter_bytes_less [OF adm] by (simp_all add: m_def)
  have k: "k \<le> 30"
    unfolding k_def by (rule bloom_k_bounds)
  have "Bloom_KeyMayMatch key f =
      Some (probes (m * 8) k key \<subseteq> (\<Union>key' \<in> set keys. probes (m * 8) k key'))" for key
  proof -
    have "(\<forall>q \<in> probes (m * 8) k key. bit_at f q) \<longleftrightarrow>
        probes (m * 8) k key \<subseteq> (\<Union>key' \<in> set keys. probes (m * 8) k key')"
      using f(4) probes_less [of "m * 8" _ k key] m(1) by fastforce
    then show ?thesis
      using Bloom_KeyMayMatch_spec [of f m key] f m k by simp
  qed
  with f show ?thesis
    using that by blast
qed

interpretation bloom: filter_policy "bloom_admissible b" "NewBloomFilterPolicy b" for b
proof
  fix keys dst
  assume adm: "bloom_admissible b keys"
  from Bloom_answer [OF this, of dst] obtain f where
    "Bloom_CreateFilter (new_BloomFilterPolicy b) keys dst = Some (dst @ f)"
    "\<And>key. key \<in> set keys \<Longrightarrow> Bloom_KeyMayMatch key f = Some True"
    by (metis UN_upper)
  then show "\<exists>f. CreateFilter (NewBloomFilterPolicy b) keys dst = Some (dst @ f) \<and>
      (\<forall>key \<in> set keys. KeyMayMatch (NewBloomFilterPolicy b) key f = Some True)"
    by (auto simp: NewBloomFilterPolicy_def)
qed

subsection \<open>Properties\<close>

text \<open>C33: for fewer than \<open>2\<^sup>3\<^sup>1\<close> keys and bits per key, \<^verbatim>\<open>CreateFilter\<close> appends a filter of
  \<open>max 64 (n * bits_per_key)\<close> bits, rounded up to bytes, and one byte to the destination, and
  \<^verbatim>\<open>KeyMayMatch\<close> on it answers true exactly for the keys all of whose \<^verbatim>\<open>k_\<close> double-hashing probes
  are probes of the inserted keys; no access leaves the filter.\<close>

theorem Bloom_filter_exact:
  assumes "length keys < 2 ^ 31" and "b < 2 ^ 31"
  shows "\<exists>f. CreateFilter (NewBloomFilterPolicy b) keys dst = Some (dst @ f) \<and>
    length f = (max 64 (length keys * b) + 7) div 8 + 1 \<and>
    (\<forall>key. KeyMayMatch (NewBloomFilterPolicy b) key f =
       Some (\<forall>j < bloom_k (new_BloomFilterPolicy b).
         \<exists>key' \<in> set keys. \<exists>j' < bloom_k (new_BloomFilterPolicy b).
           probe ((length f - 1) * 8) (BloomHash key) j = probe ((length f - 1) * 8) (BloomHash key') j'))"
proof -
  let ?k = "bloom_k (new_BloomFilterPolicy b)" and ?m = "filter_bytes b (length keys)"
  have "bloom_admissible b keys"
    using assms by (simp add: bloom_admissible_def)
  then obtain f where f: "Bloom_CreateFilter (new_BloomFilterPolicy b) keys dst = Some (dst @ f)"
    "length f = ?m + 1"
    "\<And>key. Bloom_KeyMayMatch key f =
      Some (probes (?m * 8) ?k key \<subseteq> (\<Union>key' \<in> set keys. probes (?m * 8) ?k key'))"
    by (rule Bloom_answer [of b keys dst]) blast
  have "probes (?m * 8) ?k key \<subseteq> (\<Union>key' \<in> set keys. probes (?m * 8) ?k key') \<longleftrightarrow>
      (\<forall>j < ?k. \<exists>key' \<in> set keys. \<exists>j' < ?k.
         probe (?m * 8) (BloomHash key) j = probe (?m * 8) (BloomHash key') j')" for key
    by (auto simp: probes_def image_subset_iff image_iff)
  with f show ?thesis
    by (intro exI [of _ f]) (simp add: NewBloomFilterPolicy_def filter_bytes_def)
qed

theorem Bloom_filter_exact_witness:
  "\<exists>f. CreateFilter (NewBloomFilterPolicy 10) [ascii ''hello'', ascii ''world''] [] = Some f \<and> length f = 9"
  using Bloom_filter_exact [of "[ascii ''hello'', ascii ''world'']" 10 "[]"] by auto

text \<open>A Bloom filter has no false negatives: every key it was created from may match, and the
  earlier contents of the destination are kept.\<close>

theorem Bloom_no_false_negatives:
  assumes "length keys < 2 ^ 31" and "b < 2 ^ 31" and "key \<in> set keys"
  shows "\<exists>f. CreateFilter (NewBloomFilterPolicy b) keys dst = Some (dst @ f) \<and>
    KeyMayMatch (NewBloomFilterPolicy b) key f = Some True"
  using bloom.create_matches [of b keys dst] assms by (auto simp: bloom_admissible_def)

theorem Bloom_no_false_negatives_witness:
  "\<exists>f. CreateFilter (NewBloomFilterPolicy 10) [ascii ''hello'', ascii ''world''] [7] = Some (7 # f) \<and>
    KeyMayMatch (NewBloomFilterPolicy 10) (ascii ''world'') f = Some True"
  using Bloom_no_false_negatives [of "[ascii ''hello'', ascii ''world'']" 10 "ascii ''world''" "[7]"] by auto

end
