(* ===== verification/Status.thy ===== *)
theory Status
  imports Coding Logging "HOL-Library.Monad_Syntax"
begin

text \<open>
  The class \<^verbatim>\<open>Status\<close> (\<^verbatim>\<open>include/lldb/status.h\<close>, \<^verbatim>\<open>util/status.cpp\<close>) with its in-memory
  representation: the pointer \<^verbatim>\<open>state_\<close> is \<^term>\<open>None\<close> (null, success) or the block it points to,
  which holds the message length (a host-order, that is little-endian, \<^verbatim>\<open>uint32_t\<close>), the code
  byte and the message. Every copy into and out of the block is checked against its size.
\<close>

subsection \<open>Definitions\<close>

datatype Code = kOk | kNotFound | kCorruption | kNotSupported | kInvalidArgument | kIOError

fun Code_num :: "Code \<Rightarrow> u8" where
  "Code_num kOk = 0"
| "Code_num kNotFound = 1"
| "Code_num kCorruption = 2"
| "Code_num kNotSupported = 3"
| "Code_num kInvalidArgument = 4"
| "Code_num kIOError = 5"

type_synonym status = "bytes option"

definition Status_OK :: status where
  "Status_OK = None"

definition new_Status :: "(nat \<Rightarrow> u8) \<Rightarrow> Code \<Rightarrow> bytes \<Rightarrow> bytes \<Rightarrow> status option" where
  "new_Status junk code msg msg2 = asserting (code \<noteq> kOk) (do {
     let len1 = (word_of_nat (length msg) :: u32);
     let len2 = (word_of_nat (length msg2) :: u32);
     let size = len1 + (if len2 \<noteq> 0 then 2 + len2 else 0);
     let result = mem_new junk (unat (size + 5));
     result \<leftarrow> mem_write result 0 (EncodeFixed32 size);
     result \<leftarrow> mem_write result 4 [Code_num code];
     result \<leftarrow> mem_write result 5 (take (unat len1) msg);
     if len2 \<noteq> 0 then do {
       result \<leftarrow> mem_write result (5 + unat len1) (ascii '':'');
       result \<leftarrow> mem_write result (6 + unat len1) (ascii '' '');
       result \<leftarrow> mem_write result (7 + unat len1) (take (unat len2) msg2);
       Some (Some result)
     } else Some (Some result)
   })"

definition Status_NotFound :: "(nat \<Rightarrow> u8) \<Rightarrow> bytes \<Rightarrow> bytes \<Rightarrow> status option" where
  "Status_NotFound junk msg msg2 = new_Status junk kNotFound msg msg2"

definition Status_Corruption :: "(nat \<Rightarrow> u8) \<Rightarrow> bytes \<Rightarrow> bytes \<Rightarrow> status option" where
  "Status_Corruption junk msg msg2 = new_Status junk kCorruption msg msg2"

definition Status_NotSupported :: "(nat \<Rightarrow> u8) \<Rightarrow> bytes \<Rightarrow> bytes \<Rightarrow> status option" where
  "Status_NotSupported junk msg msg2 = new_Status junk kNotSupported msg msg2"

definition Status_InvalidArgument :: "(nat \<Rightarrow> u8) \<Rightarrow> bytes \<Rightarrow> bytes \<Rightarrow> status option" where
  "Status_InvalidArgument junk msg msg2 = new_Status junk kInvalidArgument msg msg2"

definition Status_IOError :: "(nat \<Rightarrow> u8) \<Rightarrow> bytes \<Rightarrow> bytes \<Rightarrow> status option" where
  "Status_IOError junk msg msg2 = new_Status junk kIOError msg msg2"

definition Status_ok :: "status \<Rightarrow> bool" where
  "Status_ok s \<longleftrightarrow> s = None"

text \<open>\<^verbatim>\<open>code()\<close>, as the number the enumeration value has.\<close>

definition Status_code :: "status \<Rightarrow> u8 option" where
  "Status_code s =
     (case s of None \<Rightarrow> Some (Code_num kOk)
      | Some state \<Rightarrow> asserting (4 < length state) (Some (state ! 4)))"

definition Status_is :: "Code \<Rightarrow> status \<Rightarrow> bool option" where
  "Status_is c s = map_option (\<lambda>code. code = Code_num c) (Status_code s)"

definition CopyState :: "(nat \<Rightarrow> u8) \<Rightarrow> bytes \<Rightarrow> bytes option" where
  "CopyState junk state = do {
     sz \<leftarrow> mem_read state 0 4;
     size \<leftarrow> DecodeFixed32 sz;
     let result = mem_new junk (unat (size + 5));
     src \<leftarrow> mem_read state 0 (unat (size + 5));
     mem_write result 0 src
   }"

text \<open>The copy constructor and, given that source and target differ, copy assignment.\<close>

definition Status_copy :: "(nat \<Rightarrow> u8) \<Rightarrow> status \<Rightarrow> status option" where
  "Status_copy junk rhs =
     (case rhs of None \<Rightarrow> Some None | Some state \<Rightarrow> map_option Some (CopyState junk state))"

text \<open>The move constructor leaves the source null; move assignment swaps the two pointers.\<close>

definition Status_move :: "status \<Rightarrow> status \<times> status" where
  "Status_move rhs = (rhs, None)"

definition Status_move_assign :: "status \<Rightarrow> status \<Rightarrow> status \<times> status" where
  "Status_move_assign this rhs = (rhs, this)"

text \<open>\<^verbatim>\<open>%d\<close> of the code byte, a signed \<^verbatim>\<open>char\<close>.\<close>

definition snprintf_d :: "u8 \<Rightarrow> bytes" where
  "snprintf_d c = (if c < 128 then decimal (unat c) else ascii ''-'' @ decimal (256 - unat c))"

definition Code_prefix :: "u8 \<Rightarrow> bytes" where
  "Code_prefix c =
     (if c = 0 then ascii ''OK''
      else if c = 1 then ascii ''NotFound: ''
      else if c = 2 then ascii ''Corruption: ''
      else if c = 3 then ascii ''Not implemented: ''
      else if c = 4 then ascii ''Invalid argument: ''
      else if c = 5 then ascii ''IO error: ''
      else ascii ''Unknown code('' @ snprintf_d c @ ascii ''): '')"

definition Status_ToString :: "status \<Rightarrow> bytes option" where
  "Status_ToString s =
     (case s of None \<Rightarrow> Some (ascii ''OK'')
      | Some state \<Rightarrow> do {
          code \<leftarrow> Status_code s;
          sz \<leftarrow> mem_read state 0 4;
          len \<leftarrow> DecodeFixed32 sz;
          msg \<leftarrow> mem_read state 5 (unat len);
          Some (Code_prefix code @ msg)
        })"

subsection \<open>The representation\<close>

text \<open>The message a status carries and the block that represents it.\<close>

definition status_message :: "bytes \<Rightarrow> bytes \<Rightarrow> bytes" where
  "status_message msg msg2 = msg @ (if msg2 = [] then [] else ascii '': '' @ msg2)"

definition status_block :: "Code \<Rightarrow> bytes \<Rightarrow> bytes" where
  "status_block c m = EncodeFixed32 (word_of_nat (length m)) @ [Code_num c] @ m"

lemma unat_of_length: "length xs < 2 ^ 32 \<Longrightarrow> unat (word_of_nat (length xs) :: u32) = length xs"
  by (simp add: unsigned_of_nat take_bit_nat_eq_self)

lemma new_Status_eq:
  assumes "c \<noteq> kOk" and "length msg + length msg2 + 7 < 2 ^ 32"
  shows "new_Status junk c msg msg2 = Some (Some (status_block c (status_message msg msg2)))"
proof -
  let ?m = "status_message msg msg2"
  let ?s1 = "word_of_nat (length msg) :: u32" and ?s2 = "word_of_nat (length msg2) :: u32"
  let ?size = "?s1 + (if ?s2 \<noteq> 0 then 2 + ?s2 else 0)"
  have u: "unat ?s1 = length msg" "unat ?s2 = length msg2"
    using assms(2) by (auto intro: unat_of_length)
  then have z: "?s2 = 0 \<longleftrightarrow> msg2 = []"
    by (metis length_0_conv unat_eq_zero)
  have size: "?size = word_of_nat (length ?m)"
    using z by (simp add: status_message_def)
  have lm: "length ?m + 5 < 2 ^ 32"
    using assms(2) by (simp add: status_message_def)
  have usize: "unat (?size + 5) = length ?m + 5"
    unfolding size using lm by (simp add: unat_word_ariths unsigned_of_nat take_bit_nat_eq_self)
  obtain b1 where b1: "mem_write (mem_new junk (length ?m + 5)) 0 (EncodeFixed32 ?size) = Some b1"
    and f1: "filled (length ?m + 5) ([] @ EncodeFixed32 ?size) b1"
    by (rule filled_write [OF filled_new [of "length ?m + 5" junk], of 0 "EncodeFixed32 ?size"]) auto
  obtain b2 where b2: "mem_write b1 4 [Code_num c] = Some b2"
    and f2: "filled (length ?m + 5) (([] @ EncodeFixed32 ?size) @ [Code_num c]) b2"
    by (rule filled_write [OF f1, of 4 "[Code_num c]"]) auto
  let ?h = "(([] @ EncodeFixed32 ?size) @ [Code_num c])"
  obtain b3 where b3: "mem_write b2 5 msg = Some b3" and f3: "filled (length ?m + 5) (?h @ msg) b3"
    by (rule filled_write [OF f2, of 5 msg]) (simp_all add: status_message_def)
  show ?thesis
  proof (cases "msg2 = []")
    case True
    have "b3 = ?h @ msg"
      by (rule filled_full [OF f3]) (simp add: True status_message_def)
    then have "b3 = status_block c ?m"
      by (simp only: size status_block_def) (simp add: True status_message_def)
    with True z show ?thesis
      unfolding new_Status_def Let_def usize u using assms(1) b1 b2 b3 by simp
  next
    case False
    obtain b4 where b4: "mem_write b3 (5 + length msg) (ascii '':'') = Some b4"
      and f4: "filled (length ?m + 5) ((?h @ msg) @ ascii '':'') b4"
      by (rule filled_write [OF f3, of "5 + length msg" "ascii '':''"])
        (simp_all add: False status_message_def)
    obtain b5 where b5: "mem_write b4 (6 + length msg) (ascii '' '') = Some b5"
      and f5: "filled (length ?m + 5) (((?h @ msg) @ ascii '':'') @ ascii '' '') b5"
      by (rule filled_write [OF f4, of "6 + length msg" "ascii '' ''"])
        (simp_all add: False status_message_def)
    obtain b6 where b6: "mem_write b5 (7 + length msg) msg2 = Some b6"
      and f6: "filled (length ?m + 5) ((((?h @ msg) @ ascii '':'') @ ascii '' '') @ msg2) b6"
      by (rule filled_write [OF f5, of "7 + length msg" msg2])
        (simp_all add: False status_message_def)
    have "b6 = (((?h @ msg) @ ascii '':'') @ ascii '' '') @ msg2"
      by (rule filled_full [OF f6]) (simp add: False status_message_def)
    then have "b6 = status_block c ?m"
      by (simp only: size status_block_def) (simp add: False status_message_def)
    with False z show ?thesis
      unfolding new_Status_def Let_def usize u using assms(1) b1 b2 b3 b4 b5 b6
      by (simp del: ascii_simps)
  qed
qed

lemma status_block_parts:
  assumes "length m + 5 < 2 ^ 32"
  shows "Status_code (Some (status_block c m)) = Some (Code_num c)"
    and "mem_read (status_block c m) 0 4 = Some (EncodeFixed32 (word_of_nat (length m)))"
    and "mem_read (status_block c m) 5 (length m) = Some m"
  by (simp_all add: Status_code_def mem_read_def status_block_def nth_append)

lemma Status_ToString_eq:
  assumes "length m + 5 < 2 ^ 32"
  shows "Status_ToString (Some (status_block c m)) = Some (Code_prefix (Code_num c) @ m)"
proof -
  have "DecodeFixed32 (EncodeFixed32 v) = Some v" for v
    using DecodeFixed32_Encode [of v "[]"] by simp
  moreover have "unat (word_of_nat (length m) :: u32) = length m"
    using assms by (intro unat_of_length) simp
  ultimately show ?thesis
    by (simp add: Status_ToString_def status_block_parts [OF assms])
qed

lemma Status_copy_eq:
  assumes "length m + 5 < 2 ^ 32"
  shows "Status_copy junk (Some (status_block c m)) = Some (Some (status_block c m))"
proof -
  have dec: "DecodeFixed32 (EncodeFixed32 v) = Some v" for v
    using DecodeFixed32_Encode [of v "[]"] by simp
  have len: "unat (word_of_nat (length m) + 5 :: u32) = length m + 5"
    using assms by (simp add: unat_word_ariths unsigned_of_nat take_bit_nat_eq_self)
  have lb: "length (status_block c m) = length m + 5"
    by (simp add: status_block_def)
  have "CopyState junk (status_block c m) = Some (status_block c m)"
    unfolding CopyState_def status_block_parts(2) [OF assms] Let_def
    using lb by (simp add: dec len mem_read_def mem_write_def)
  then show ?thesis
    by (simp add: Status_copy_def)
qed

lemma Code_num_inj: "Code_num c = Code_num c' \<longleftrightarrow> c = c'"
  by (cases c; cases c') auto

subsection \<open>Properties\<close>

text \<open>C39: an error status keeps its code and message: whatever the fresh memory holds, building it
  stays inside its block, it is not ok, it answers exactly its own \<^verbatim>\<open>Is...\<close> query with true,
  prints as the prefix of its code and the two messages joined by a colon and a space, and a
  copy of it is the same status.\<close>

theorem Status_roundtrip:
  assumes "c \<noteq> kOk" and "length msg + length msg2 + 7 < 2 ^ 32"
  shows "\<exists>s. new_Status junk c msg msg2 = Some s \<and> \<not> Status_ok s \<and>
    (\<forall>c'. Status_is c' s = Some (c' = c)) \<and>
    Status_ToString s =
      Some (Code_prefix (Code_num c) @ msg @ (if msg2 = [] then [] else ascii '': '' @ msg2)) \<and>
    Status_copy junk' s = Some s"
proof -
  let ?m = "status_message msg msg2"
  have m: "length ?m + 5 < 2 ^ 32"
    using assms(2) by (simp add: status_message_def)
  have "Status_is c' (Some (status_block c ?m)) = Some (c' = c)" for c'
    by (auto simp: Status_is_def status_block_parts [OF m] Code_num_inj)
  then show ?thesis
    using new_Status_eq [OF assms, of junk] Status_ToString_eq [OF m, of c] Status_copy_eq [OF m]
    by (auto simp: Status_ok_def status_message_def)
qed

theorem Status_roundtrip_witness:
  "\<exists>s. Status_NotFound (\<lambda>_. 0) (ascii ''a'') (ascii ''b'') = Some s \<and>
     Status_ToString s = Some (ascii ''NotFound: a: b'')"
  using Status_roundtrip [of kNotFound "ascii ''a''" "ascii ''b''" "\<lambda>_. 0" "\<lambda>_. 0"]
  by (auto simp: Status_NotFound_def Code_prefix_def)

end
