(* ===== verification/Arena.thy ===== *)
theory Arena
  imports Prelude "HOL-Library.Monad_Syntax"
begin

text \<open>
  The arena of \<^verbatim>\<open>util/arena.h\<close> and \<^verbatim>\<open>util/arena.cpp\<close>. Addresses and sizes are natural numbers
  with the 64-bit wrap-around of \<^verbatim>\<open>size_t\<close> written out. The list of blocks records, next to
  the address that the code keeps, the size of the block, which the code needs for nothing.
  The mutex makes every operation atomic, so an execution is a sequence of operations.

  \<^verbatim>\<open>new char[n]\<close> is a parameter \<open>new_char\<close> of the operations: the address it returns for each
  size. The hypothesis \<open>new_ok\<close> says what the language promises of that address: it is not
  null, it is aligned, and the \<open>n\<close> bytes it stands for overlap no block that is still in use.
\<close>

subsection \<open>Definitions\<close>

record Arena =
  alloc_ptr :: nat
  alloc_bytes_remaining :: nat
  blocks :: "(nat \<times> nat) list"
  memory_usage :: nat

definition kBlockSize :: nat where "kBlockSize = 4096"

definition new_Arena :: Arena where
  "new_Arena = \<lparr> alloc_ptr = 0, alloc_bytes_remaining = 0, blocks = [], memory_usage = 0 \<rparr>"

text \<open>The addresses the destructor deletes, in order.\<close>

definition Arena_destructor :: "Arena \<Rightarrow> nat list" where
  "Arena_destructor a = map fst (blocks a)"

definition Arena_MemoryUsage :: "Arena \<Rightarrow> nat" where
  "Arena_MemoryUsage a = memory_usage a"

definition AllocateNewBlock :: "(nat \<Rightarrow> nat) \<Rightarrow> nat \<Rightarrow> Arena \<Rightarrow> nat \<times> Arena" where
  "AllocateNewBlock new_char block_bytes a =
     (let result = new_char block_bytes
      in (result, a \<lparr> blocks := blocks a @ [(result, block_bytes)],
                     memory_usage := (memory_usage a + (block_bytes + 8)) mod 2 ^ 64 \<rparr>))"

definition AllocateFallback :: "(nat \<Rightarrow> nat) \<Rightarrow> nat \<Rightarrow> Arena \<Rightarrow> nat \<times> Arena" where
  "AllocateFallback new_char bytes a =
     (if kBlockSize div 4 < bytes then AllocateNewBlock new_char bytes a
      else let (p, a) = AllocateNewBlock new_char kBlockSize a;
               a = a \<lparr> alloc_ptr := p, alloc_bytes_remaining := kBlockSize \<rparr>;
               result = alloc_ptr a
        in (result, a \<lparr> alloc_ptr := alloc_ptr a + bytes,
                       alloc_bytes_remaining := alloc_bytes_remaining a - bytes \<rparr>))"

definition Arena_Allocate :: "(nat \<Rightarrow> nat) \<Rightarrow> nat \<Rightarrow> Arena \<Rightarrow> (nat \<times> Arena) option" where
  "Arena_Allocate new_char bytes a = asserting (0 < bytes) (Some
     (if bytes \<le> alloc_bytes_remaining a
      then (alloc_ptr a, a \<lparr> alloc_ptr := alloc_ptr a + bytes,
                            alloc_bytes_remaining := alloc_bytes_remaining a - bytes \<rparr>)
      else AllocateFallback new_char bytes a))"

definition AllocateAligned :: "(nat \<Rightarrow> nat) \<Rightarrow> nat \<Rightarrow> Arena \<Rightarrow> nat \<times> Arena" where
  "AllocateAligned new_char bytes a =
     (let align = 8;
          misalign = alloc_ptr a mod align;
          padding = (if misalign \<noteq> 0 then align - misalign else 0);
          needed = (bytes + padding) mod 2 ^ 64
      in if alloc_bytes_remaining a < needed then AllocateFallback new_char bytes a
         else (alloc_ptr a + padding,
               a \<lparr> alloc_ptr := alloc_ptr a + needed,
                   alloc_bytes_remaining := alloc_bytes_remaining a - needed \<rparr>))"

text \<open>A sequence of calls, each with the behaviour of \<^verbatim>\<open>new\<close> during it, and the regions returned.\<close>

datatype arena_call = CallAllocate nat | CallAligned nat

fun arena_step :: "(nat \<Rightarrow> nat) \<Rightarrow> arena_call \<Rightarrow> Arena \<Rightarrow> ((nat \<times> nat) \<times> Arena) option" where
  "arena_step new_char (CallAllocate n) a =
     map_option (\<lambda>(p, a). ((p, n), a)) (Arena_Allocate new_char n a)"
| "arena_step new_char (CallAligned n) a = (let (p, a) = AllocateAligned new_char n a in Some ((p, n), a))"

fun arena_run :: "((nat \<Rightarrow> nat) \<times> arena_call) list \<Rightarrow> Arena \<Rightarrow> ((nat \<times> nat) list \<times> Arena) option" where
  "arena_run [] a = Some ([], a)"
| "arena_run ((new_char, c) # cs) a = do {
     (r, a) \<leftarrow> arena_step new_char c a;
     (rs, a) \<leftarrow> arena_run cs a;
     Some (r # rs, a)
   }"

subsection \<open>Regions\<close>

fun span :: "nat \<times> nat \<Rightarrow> nat set" where
  "span (p, n) = {p..<p + n}"

definition owned :: "Arena \<Rightarrow> nat set" where
  "owned a = (\<Union>b \<in> set (blocks a). span b)"

definition free_region :: "Arena \<Rightarrow> nat set" where
  "free_region a = span (alloc_ptr a, alloc_bytes_remaining a)"

definition new_ok :: "Arena \<Rightarrow> nat \<Rightarrow> nat \<Rightarrow> bool" where
  "new_ok a n p \<longleftrightarrow> 0 < p \<and> p mod 8 = 0 \<and> p + n \<le> 2 ^ 64 \<and> span (p, n) \<inter> owned a = {}"

fun call_size :: "arena_call \<Rightarrow> nat" where
  "call_size (CallAllocate n) = n"
| "call_size (CallAligned n) = n"

text \<open>What a call needs: a size that exists, and a working allocator for the sizes it may ask for.\<close>

fun call_ok :: "Arena \<Rightarrow> (nat \<Rightarrow> nat) \<times> arena_call \<Rightarrow> bool" where
  "call_ok a (new_char, c) \<longleftrightarrow>
     call_size c < 2 ^ 63 \<and> (case c of CallAllocate n \<Rightarrow> 0 < n | CallAligned n \<Rightarrow> True) \<and>
     (\<forall>n \<in> {call_size c, kBlockSize}. new_ok a n (new_char n))"

text \<open>The invariant: \<open>live\<close> are the regions handed out so far.\<close>

definition arena_inv :: "(nat \<times> nat) list \<Rightarrow> Arena \<Rightarrow> bool" where
  "arena_inv live a \<longleftrightarrow>
     0 \<notin> owned a \<and> free_region a \<subseteq> owned a \<and> alloc_bytes_remaining a \<le> kBlockSize \<and>
     sorted_wrt (\<lambda>r s. span r \<inter> span s = {}) (blocks a) \<and> (\<forall>b \<in> set (blocks a). 0 < snd b) \<and>
     (\<forall>r \<in> set live. span r \<subseteq> owned a \<and> span r \<inter> free_region a = {}) \<and>
     sorted_wrt (\<lambda>r s. span r \<inter> span s = {}) live \<and>
     memory_usage a = (\<Sum>(p, n) \<leftarrow> blocks a. n + 8) mod 2 ^ 64"

lemma arena_inv_new: "arena_inv [] new_Arena"
  by (simp add: arena_inv_def new_Arena_def free_region_def owned_def)

text \<open>Two ways to hand out a region: from the free region, or from a block that was just added.\<close>

lemma arena_inv_carve:
  assumes inv: "arena_inv live a" and le: "pad + n \<le> alloc_bytes_remaining a"
  shows "arena_inv ((alloc_ptr a + pad, n) # live)
    (a \<lparr> alloc_ptr := alloc_ptr a + (n + pad), alloc_bytes_remaining := alloc_bytes_remaining a - (n + pad) \<rparr>)"
proof -
  let ?a = "a \<lparr> alloc_ptr := alloc_ptr a + (n + pad), alloc_bytes_remaining := alloc_bytes_remaining a - (n + pad) \<rparr>"
  let ?r = "(alloc_ptr a + pad, n)"
  have sub: "free_region ?a \<subseteq> free_region a" "span ?r \<subseteq> free_region a" "span ?r \<inter> free_region ?a = {}"
    using le by (auto simp: free_region_def)
  have own: "owned ?a = owned a"
    by (simp add: owned_def)
  have free: "free_region a \<subseteq> owned a"
    and live: "\<forall>r \<in> set live. span r \<subseteq> owned a \<and> span r \<inter> free_region a = {}"
    using inv by (simp_all add: arena_inv_def)
  have "\<forall>s \<in> set (?r # live). span s \<subseteq> owned a \<and> span s \<inter> free_region ?a = {}"
    using sub free live by (simp del: span.simps) blast
  moreover have "\<forall>s \<in> set live. span ?r \<inter> span s = {}"
    using sub live by blast
  ultimately show ?thesis
    using inv sub free unfolding arena_inv_def own by auto
qed

lemma arena_inv_new_block:
  assumes inv: "arena_inv live a" and ok: "new_ok a n (new_char n)" and n: "0 < n"
    and a': "AllocateNewBlock new_char n a = (p, a')"
  shows "arena_inv live a'" and "p = new_char n" and "span (p, n) \<subseteq> owned a'" and "free_region a' = free_region a"
    and "owned a \<inter> span (p, n) = {}"
proof -
  have own: "owned a' = owned a \<union> span (p, n)" and free: "free_region a' = free_region a"
    and p: "p = new_char n"
    and blk: "blocks a' = blocks a @ [(p, n)]" "alloc_bytes_remaining a' = alloc_bytes_remaining a"
      "memory_usage a' = (memory_usage a + (n + 8)) mod 2 ^ 64"
    using a' by (auto simp: AllocateNewBlock_def Let_def owned_def free_region_def)
  show "p = new_char n" "span (p, n) \<subseteq> owned a'" "free_region a' = free_region a"
    using p own free by simp_all
  show disj: "owned a \<inter> span (p, n) = {}"
    using ok p by (auto simp: new_ok_def)
  then have "sorted_wrt (\<lambda>r s. span r \<inter> span s = {}) (blocks a')"
    using inv unfolding arena_inv_def blk owned_def sorted_wrt_append by auto
  moreover have "memory_usage a' = (\<Sum>(p, n) \<leftarrow> blocks a'. n + 8) mod 2 ^ 64"
    using inv unfolding arena_inv_def blk by (simp add: mod_add_left_eq)
  moreover have "\<forall>b \<in> set (blocks a'). 0 < snd b"
    using inv n unfolding arena_inv_def blk by auto
  moreover have "0 \<notin> owned a'"
    using inv ok unfolding arena_inv_def own p new_ok_def by auto
  ultimately show "arena_inv live a'"
    using inv unfolding arena_inv_def own free blk(2) by blast
qed

text \<open>A block of its own for a large request.\<close>

lemma arena_inv_large:
  assumes inv: "arena_inv live a" and ok: "new_ok a n (new_char n)" and n: "0 < n"
    and a': "AllocateNewBlock new_char n a = (p, a')"
  shows "arena_inv ((p, n) # live) a'"
proof -
  note facts = arena_inv_new_block [OF assms]
  have "free_region a \<subseteq> owned a" and "\<forall>r \<in> set live. span r \<subseteq> owned a"
    using inv by (auto simp: arena_inv_def)
  then have "span (p, n) \<inter> free_region a' = {}" "\<forall>s \<in> set live. span (p, n) \<inter> span s = {}"
    using facts(4,5) by blast+
  then show ?thesis
    using facts(1,3) unfolding arena_inv_def by simp
qed

text \<open>Switching to a fresh block abandons the rest of the old one.\<close>

lemma arena_inv_switch:
  assumes inv: "arena_inv live a" and ok: "new_ok a kBlockSize (new_char kBlockSize)"
    and a': "AllocateNewBlock new_char kBlockSize a = (p, a')"
  shows "arena_inv live (a' \<lparr> alloc_ptr := p, alloc_bytes_remaining := kBlockSize \<rparr>)"
proof -
  let ?b = "a' \<lparr> alloc_ptr := p, alloc_bytes_remaining := kBlockSize \<rparr>"
  have pos: "0 < kBlockSize"
    by (simp add: kBlockSize_def)
  note facts = arena_inv_new_block [OF inv ok pos a']
  have free: "free_region ?b = span (p, kBlockSize)" and own: "owned ?b = owned a'"
    by (simp_all add: free_region_def owned_def)
  have "\<forall>r \<in> set live. span r \<subseteq> owned a"
    using inv by (auto simp: arena_inv_def)
  then have "\<forall>r \<in> set live. span r \<inter> free_region ?b = {}"
    unfolding free using facts(5) by blast
  then show ?thesis
    using facts(1,3) unfolding arena_inv_def own free by simp
qed

subsection \<open>Every operation keeps the invariant\<close>

lemma AllocateFallback_inv:
  assumes inv: "arena_inv live a" and ok: "new_ok a n (new_char n)" "new_ok a kBlockSize (new_char kBlockSize)"
    and a': "AllocateFallback new_char n a = (p, a')"
  shows "arena_inv ((p, n) # live) a'" and "p mod 8 = 0"
proof -
  have "arena_inv ((p, n) # live) a' \<and> p mod 8 = 0"
  proof (cases "kBlockSize div 4 < n")
    case True
    then have new: "AllocateNewBlock new_char n a = (p, a')"
      using a' by (simp add: AllocateFallback_def)
    moreover have "0 < n"
      using True by simp
    ultimately show ?thesis
      using arena_inv_large [where new_char = new_char, OF inv ok(1)]
        arena_inv_new_block(2) [where new_char = new_char, OF inv ok(1)] ok(1)
      by (auto simp: new_ok_def)
  next
    case False
    obtain q b where new: "AllocateNewBlock new_char kBlockSize a = (q, b)"
      by (cases "AllocateNewBlock new_char kBlockSize a")
    let ?b = "b \<lparr> alloc_ptr := q, alloc_bytes_remaining := kBlockSize \<rparr>"
    have "n \<le> kBlockSize"
      using False by (simp add: kBlockSize_def)
    then have "arena_inv ((q, n) # live) (?b \<lparr> alloc_ptr := q + n, alloc_bytes_remaining := kBlockSize - n \<rparr>)"
      using arena_inv_carve [OF arena_inv_switch [OF inv ok(2) new], of 0 n] by simp
    then show ?thesis
      using a' False new arena_inv_new_block(2) [OF inv ok(2) _ new] ok(2)
      by (auto simp: AllocateFallback_def new_ok_def kBlockSize_def)
  qed
  then show "arena_inv ((p, n) # live) a'" and "p mod 8 = 0"
    by simp_all
qed

lemma Allocate_inv:
  assumes "arena_inv live a" and "0 < n" and "new_ok a n (new_char n)" "new_ok a kBlockSize (new_char kBlockSize)"
  obtains p a' where "Arena_Allocate new_char n a = Some (p, a')" and "arena_inv ((p, n) # live) a'"
proof (cases "n \<le> alloc_bytes_remaining a")
  case True
  then show ?thesis
    using that arena_inv_carve [OF assms(1), of 0 n] assms(2) by (simp add: Arena_Allocate_def)
next
  case False
  obtain p a' where new: "AllocateFallback new_char n a = (p, a')"
    by (cases "AllocateFallback new_char n a")
  then show ?thesis
    using that False AllocateFallback_inv [OF assms(1,3,4) new] assms(2) by (simp add: Arena_Allocate_def)
qed

lemma AllocateAligned_inv:
  assumes "arena_inv live a" and "n < 2 ^ 63" and "new_ok a n (new_char n)" "new_ok a kBlockSize (new_char kBlockSize)"
    and a': "AllocateAligned new_char n a = (p, a')"
  shows "arena_inv ((p, n) # live) a' \<and> p mod 8 = 0"
proof -
  define pad where "pad = (if alloc_ptr a mod 8 \<noteq> 0 then 8 - alloc_ptr a mod 8 else 0)"
  have "pad < 8"
    by (simp add: pad_def)
  then have nowrap: "(n + pad) mod 2 ^ 64 = n + pad"
    using assms(2) by simp
  have eq: "AllocateAligned new_char n a =
      (if alloc_bytes_remaining a < n + pad then AllocateFallback new_char n a
       else (alloc_ptr a + pad, a \<lparr> alloc_ptr := alloc_ptr a + (n + pad),
               alloc_bytes_remaining := alloc_bytes_remaining a - (n + pad) \<rparr>))"
    unfolding AllocateAligned_def Let_def pad_def [symmetric] nowrap ..
  have aligned: "(alloc_ptr a + pad) mod 8 = 0"
    unfolding pad_def by (simp split: if_split) presburger
  show ?thesis
  proof (cases "alloc_bytes_remaining a < n + pad")
    case True
    then show ?thesis
      using AllocateFallback_inv [OF assms(1,3,4)] a' eq by simp
  next
    case False
    then show ?thesis
      using arena_inv_carve [OF assms(1), of pad n] a' eq aligned by auto
  qed
qed

lemma arena_step_inv:
  assumes inv: "arena_inv live a" and ok: "call_ok a (new_char, c)"
  obtains r a' where "arena_step new_char c a = Some (r, a')" and "arena_inv (r # live) a'"
    and "snd r = call_size c" and "\<And>n. c = CallAligned n \<Longrightarrow> fst r mod 8 = 0"
proof (cases c)
  case (CallAllocate n)
  then have "0 < n" "new_ok a n (new_char n)" "new_ok a kBlockSize (new_char kBlockSize)"
    using ok by simp_all
  then obtain p a' where "Arena_Allocate new_char n a = Some (p, a')" "arena_inv ((p, n) # live) a'"
    using Allocate_inv [OF inv] by blast
  then show ?thesis
    using that CallAllocate by simp
next
  case (CallAligned n)
  obtain p a' where "AllocateAligned new_char n a = (p, a')"
    by (cases "AllocateAligned new_char n a")
  moreover from this have "arena_inv ((p, n) # live) a' \<and> p mod 8 = 0"
    using AllocateAligned_inv [OF inv, of n new_char p a'] ok CallAligned by simp
  ultimately show ?thesis
    using that CallAligned by simp
qed

text \<open>A run all of whose calls find a working allocator.\<close>

fun run_ok :: "Arena \<Rightarrow> ((nat \<Rightarrow> nat) \<times> arena_call) list \<Rightarrow> bool" where
  "run_ok a [] = True"
| "run_ok a ((new_char, c) # cs) =
     (call_ok a (new_char, c) \<and>
      (case arena_step new_char c a of None \<Rightarrow> True | Some (r, a') \<Rightarrow> run_ok a' cs))"

lemma arena_run_inv:
  assumes "arena_inv live a" and "run_ok a cs"
  shows "\<exists>rs a'. arena_run cs a = Some (rs, a') \<and> arena_inv (rev rs @ live) a' \<and>
    list_all2 (\<lambda>r (_, c). snd r = call_size c \<and> (\<forall>n. c = CallAligned n \<longrightarrow> fst r mod 8 = 0)) rs cs"
  using assms
proof (induction cs arbitrary: a live)
  case (Cons call cs)
  obtain new_char c where call: "call = (new_char, c)"
    by (cases call)
  have "call_ok a (new_char, c)"
    using Cons.prems(2) call by simp
  then obtain r a1 where step: "arena_step new_char c a = Some (r, a1)" "arena_inv (r # live) a1"
    "snd r = call_size c" "\<And>n. c = CallAligned n \<Longrightarrow> fst r mod 8 = 0"
    by (rule arena_step_inv [OF Cons.prems(1)]) blast
  then have "run_ok a1 cs"
    using Cons.prems(2) call by simp
  from Cons.IH [OF step(2) this] obtain rs a' where "arena_run cs a1 = Some (rs, a')"
    "arena_inv (rev rs @ r # live) a'"
    "list_all2 (\<lambda>r (_, c). snd r = call_size c \<and> (\<forall>n. c = CallAligned n \<longrightarrow> fst r mod 8 = 0)) rs cs"
    by blast
  then show ?case
    using step call by auto
qed auto

text \<open>A new region is apart from every earlier one and not at the null address.\<close>

lemma arena_inv_fresh:
  assumes "arena_inv ((p, n) # live) a" and "0 < n"
  shows "p \<noteq> 0" and "(q, m) \<in> set live \<Longrightarrow> 0 < m \<Longrightarrow> p \<noteq> q"
proof -
  have "p \<in> span (p, n)"
    using assms(2) by simp
  then show "p \<noteq> 0"
    using assms(1) unfolding arena_inv_def by (metis list.set_intros(1) subsetD)
  have "span (p, n) \<inter> span (q, m) = {}" if "(q, m) \<in> set live"
    using assms(1) that by (auto simp: arena_inv_def)
  then show "(q, m) \<in> set live \<Longrightarrow> 0 < m \<Longrightarrow> p \<noteq> q"
    using \<open>p \<in> span (p, n)\<close> by auto
qed

lemma distinct_blocks:
  assumes "sorted_wrt (\<lambda>r s. span r \<inter> span s = {}) bs" and "\<forall>b \<in> set bs. 0 < snd b"
  shows "distinct (map fst bs)"
  using assms
proof (induction bs)
  case (Cons b bs)
  have "fst b \<noteq> fst c" if "c \<in> set bs" for c
  proof
    assume "fst b = fst c"
    then have "fst b \<in> span b \<inter> span c"
      using Cons.prems(2) that by (cases b; cases c) auto
    then show False
      using Cons.prems(1) that by auto
  qed
  with Cons show ?case by auto
qed simp

subsection \<open>Properties\<close>

text \<open>C6: in any sequence of allocations from a fresh arena, with requests below \<open>2\<^sup>6\<^sup>3\<close> bytes and a
  working \<^verbatim>\<open>new\<close>, every call succeeds; the returned regions have the requested sizes, are
  pairwise disjoint and lie inside the blocks, each of which the destructor frees once; aligned requests get
  addresses divisible by eight; and \<^verbatim>\<open>MemoryUsage\<close> is the sum of the block sizes and one pointer
  per block.\<close>

theorem Arena_allocations_disjoint:
  assumes "run_ok new_Arena cs"
  shows "\<exists>rs a. arena_run cs new_Arena = Some (rs, a) \<and>
    list_all2 (\<lambda>r (_, c). snd r = call_size c \<and> (\<forall>n. c = CallAligned n \<longrightarrow> fst r mod 8 = 0)) rs cs \<and>
    (\<forall>i < length rs. \<forall>j < length rs. i \<noteq> j \<longrightarrow> span (rs ! i) \<inter> span (rs ! j) = {}) \<and>
    (\<forall>r \<in> set rs. span r \<subseteq> (\<Union>b \<in> set (blocks a). span b)) \<and>
    distinct (Arena_destructor a) \<and>
    Arena_MemoryUsage a = (\<Sum>(p, n) \<leftarrow> blocks a. n + 8) mod 2 ^ 64"
proof -
  obtain rs a where run: "arena_run cs new_Arena = Some (rs, a)" "arena_inv (rev rs) a"
    "list_all2 (\<lambda>r (_, c). snd r = call_size c \<and> (\<forall>n. c = CallAligned n \<longrightarrow> fst r mod 8 = 0)) rs cs"
    using arena_run_inv [OF arena_inv_new assms] by auto
  have "sorted_wrt (\<lambda>r s. span s \<inter> span r = {}) rs"
    using run(2) by (simp add: arena_inv_def sorted_wrt_rev)
  then have less: "span (rs ! j) \<inter> span (rs ! i) = {}" if "i < j" "j < length rs" for i j
    using that by (simp add: sorted_wrt_iff_nth_less)
  have "span (rs ! i) \<inter> span (rs ! j) = {}" if "i < length rs" "j < length rs" "i \<noteq> j" for i j
    using less [of i j] less [of j i] that by (cases "i < j") auto
  moreover have "distinct (Arena_destructor a)"
    using run(2) unfolding Arena_destructor_def by (intro distinct_blocks) (simp_all add: arena_inv_def)
  ultimately show ?thesis
    using run unfolding arena_inv_def owned_def
    by (intro exI [of _ rs] exI [of _ a]) (simp add: Arena_MemoryUsage_def)
qed

theorem Arena_allocations_disjoint_witness:
  "\<exists>rs a. arena_run [(\<lambda>n. 4096, CallAllocate 10), (\<lambda>n. 16384, CallAligned 100), (\<lambda>n. 16384, CallAligned 5000)]
     new_Arena = Some (rs, a) \<and> length rs = 3 \<and> Arena_MemoryUsage a = 4096 + 8 + (5000 + 8) \<and>
     span (rs ! 0) \<inter> span (rs ! 2) = {}"
proof -
  let ?cs = "[(\<lambda>n. 4096, CallAllocate 10), (\<lambda>n. 16384, CallAligned 100), (\<lambda>n. 16384, CallAligned 5000)]"
  have "run_ok new_Arena ?cs"
    by (simp add: new_Arena_def Arena_Allocate_def AllocateFallback_def AllocateNewBlock_def
        AllocateAligned_def kBlockSize_def new_ok_def owned_def ivl_disj_int Let_def)
  from Arena_allocations_disjoint [OF this] show ?thesis
    by (auto simp: new_Arena_def Arena_Allocate_def AllocateFallback_def AllocateNewBlock_def
        AllocateAligned_def kBlockSize_def Let_def Arena_MemoryUsage_def)
qed

end
