(* ===== verification/RandomGen.thy ===== *)
theory RandomGen
  imports Prelude "HOL-Library.Monad_Syntax"
begin

text \<open>
  The random number generator of \<^verbatim>\<open>util/random.h\<close>. Its state is the 32-bit \<^verbatim>\<open>seed_\<close>; every
  operation returns its result and the new state. A remainder by zero and an out-of-range shift
  are \<^term>\<open>None\<close>. The comment in the source claims that the division-free step computes
  \<open>seed * 16807 mod (2\<^sup>3\<^sup>1 - 1)\<close> and that the seed cycles through every number from 1 to
  \<open>2\<^sup>3\<^sup>1 - 2\<close>; the first is proved here and the second in \<open>RandomPeriod\<close>.
\<close>

subsection \<open>Definitions\<close>

definition new_Random :: "u32 \<Rightarrow> u32" where
  "new_Random s =
     (let seed = s AND 0x7fffffff
      in if seed = 0 \<or> seed = 2147483647 then 1 else seed)"

definition Random_M :: u32 where "Random_M = 2147483647"

definition Random_A :: u64 where "Random_A = 16807"

definition Random_Next :: "u32 \<Rightarrow> u32 \<times> u32" where
  "Random_Next seed =
     (let product = ucast seed * Random_A;
          seed = ucast (drop_bit 31 product + (product AND ucast Random_M)) :: u32;
          seed = (if Random_M < seed then seed - Random_M else seed)
      in (seed, seed))"

definition Random_Uniform :: "int \<Rightarrow> u32 \<Rightarrow> (u32 \<times> u32) option" where
  "Random_Uniform n seed =
     (let (r, seed) = Random_Next seed
      in asserting ((word_of_int n :: u32) \<noteq> 0) (Some (r mod word_of_int n, seed)))"

definition Random_OneIn :: "int \<Rightarrow> u32 \<Rightarrow> (bool \<times> u32) option" where
  "Random_OneIn n seed =
     (let (r, seed) = Random_Next seed
      in asserting ((word_of_int n :: u32) \<noteq> 0) (Some (r mod word_of_int n = 0, seed)))"

definition Random_Skewed :: "int \<Rightarrow> u32 \<Rightarrow> (u32 \<times> u32) option" where
  "Random_Skewed max_log seed = do {
     (base, seed) \<leftarrow> Random_Uniform (max_log + 1) seed;
     asserting (unat base < 32) (Random_Uniform (2 ^ unat base) seed)
   }"

subsection \<open>One step is a multiplication modulo a Mersenne number\<close>

abbreviation Mersenne31 :: nat where
  "Mersenne31 \<equiv> 2147483647"

definition valid_seed :: "u32 \<Rightarrow> bool" where
  "valid_seed s \<longleftrightarrow> 0 < unat s \<and> unat s < Mersenne31"

lemma mod_Mersenne31: "(x div 2 ^ 31 + x mod 2 ^ 31) mod Mersenne31 = x mod Mersenne31" for x :: nat
proof -
  have "x = x div 2 ^ 31 * Mersenne31 + (x div 2 ^ 31 + x mod 2 ^ 31)"
    using div_mult_mod_eq [of x "2 ^ 31"] by simp
  then show ?thesis
    by (metis mod_mult_self3)
qed

lemma mod_eq_minus: "m \<le> f \<Longrightarrow> f < m + m \<Longrightarrow> f mod m = f - m" for f m :: nat
  by (simp add: le_mod_geq)

lemma and_Mersenne31: "unat (w AND 2147483647) = unat w mod 2 ^ 31" for w :: u64
proof -
  have "w AND 2147483647 = take_bit 31 w"
    using take_bit_eq_mask [of 31 w] by (simp add: mask_eq_exp_minus_1)
  then have "unat (w AND 2147483647) = take_bit 31 (unat w)"
    by (simp only: unsigned_take_bit_eq)
  then show ?thesis
    by (simp only: take_bit_eq_mod)
qed

text \<open>\<open>16807 x\<close> is not a multiple of \<open>2\<^sup>3\<^sup>1 - 1\<close>, so the reduced seed is never zero.\<close>

lemma product_not_multiple:
  assumes "0 < x" and "x < Mersenne31"
  shows "x * 16807 mod Mersenne31 \<noteq> 0"
proof
  assume "x * 16807 mod Mersenne31 = 0"
  then have "Mersenne31 dvd x * 16807"
    by (rule mod_0_imp_dvd)
  then have "Mersenne31 dvd x * 16807 * 1407677000"
    by (rule dvd_mult2)
  also have "x * 16807 * 1407677000 = Mersenne31 * (x * 11017) + x"
    by simp
  finally have "Mersenne31 dvd x"
    by (metis dvd_add_right_iff dvd_triv_left)
  with assms show False
    by (auto dest: dvd_imp_le)
qed

lemma unat_ucast_32_64: "unat (ucast s :: u64) = unat s" for s :: u32
  by (rule unat_ucast_up) simp

lemma unat_eq_of_nat: "unat w = n \<Longrightarrow> w = word_of_nat n"
  by auto

lemma Random_Next_eq:
  assumes "valid_seed s"
  shows "Random_Next s = (word_of_nat (unat s * 16807 mod Mersenne31), word_of_nat (unat s * 16807 mod Mersenne31))"
proof -
  let ?x = "unat s * 16807"
  let ?p = "ucast s * Random_A" and ?f = "?x div 2 ^ 31 + ?x mod 2 ^ 31"
  have s: "0 < unat s" "unat s < Mersenne31"
    using assms by (simp_all add: valid_seed_def)
  have p: "unat ?p = ?x"
    using s by (simp add: Random_A_def unat_word_ariths unat_ucast_32_64)
  have hi: "?x div 2 ^ 31 < 16807"
    using s(2) by (intro less_mult_imp_div_less) simp
  have lo: "?x mod 2 ^ 31 < 2 ^ 31"
    by simp
  have fb: "?f < Mersenne31 + Mersenne31"
    using add_strict_mono [OF hi lo] by simp
  have M: "(ucast Random_M :: u64) = 2147483647"
    by (simp add: Random_M_def)
  have "unat (drop_bit 31 ?p + (?p AND ucast Random_M)) = ?f"
    using hi lo by (simp only: unat_word_ariths(1) M and_Mersenne31 unat_drop_bit_div p) simp
  then have f: "unat (ucast (drop_bit 31 ?p + (?p AND ucast Random_M)) :: u32) = ?f"
    using hi lo by (simp only: unsigned_ucast_eq) (simp add: take_bit_nat_eq_self)
  let ?w = "ucast (drop_bit 31 ?p + (?p AND ucast Random_M)) :: u32"
  have nz: "?f mod Mersenne31 \<noteq> 0"
    unfolding mod_Mersenne31 by (rule product_not_multiple [OF s])
  have "unat (if Random_M < ?w then ?w - Random_M else ?w) = ?f mod Mersenne31"
  proof (cases "Mersenne31 < ?f")
    case True
    then have "Random_M < ?w"
      using f by (simp add: word_less_nat_alt Random_M_def)
    moreover from this have "unat (?w - Random_M) = ?f - Mersenne31"
      using f by (simp add: unat_sub_if' Random_M_def word_less_nat_alt)
    moreover have "?f mod Mersenne31 = ?f - Mersenne31"
      by (rule mod_eq_minus [OF less_imp_le [OF True] fb])
    ultimately show ?thesis by simp
  next
    case False
    then have "\<not> Random_M < ?w"
      using f by (simp add: word_less_nat_alt Random_M_def)
    moreover have "?f \<noteq> Mersenne31"
      using nz by auto
    ultimately show ?thesis
      using f False by simp
  qed
  then have "(if Random_M < ?w then ?w - Random_M else ?w) = word_of_nat (?f mod Mersenne31)"
    by (rule unat_eq_of_nat)
  then show ?thesis
    unfolding Random_Next_def Let_def mod_Mersenne31 by simp
qed

lemma Random_Next_valid:
  assumes "valid_seed s" and "Random_Next s = (r, s')"
  shows "r = s'" and "unat s' = unat s * 16807 mod Mersenne31" and "valid_seed s'"
proof -
  let ?v = "unat s * 16807 mod Mersenne31"
  have "?v < Mersenne31" "?v \<noteq> 0"
    using assms(1) product_not_multiple [of "unat s"] by (simp_all add: valid_seed_def)
  moreover have "r = word_of_nat ?v" "s' = word_of_nat ?v"
    using assms Random_Next_eq by auto
  ultimately show "r = s'" and "unat s' = ?v" and "valid_seed s'"
    by (simp_all add: valid_seed_def unsigned_of_nat take_bit_nat_eq_self)
qed

lemma new_Random_valid: "valid_seed (new_Random s)"
proof -
  have "s AND 0x7fffffff = take_bit 31 s"
    using take_bit_eq_mask [of 31 s] by (simp add: mask_eq_exp_minus_1)
  then have "unat (s AND 0x7fffffff) = take_bit 31 (unat s)"
    by (simp only: unsigned_take_bit_eq)
  then have "unat (s AND 0x7fffffff) < 2 ^ 31"
    by (simp only: take_bit_nat_less_exp)
  then show ?thesis
    by (auto simp: new_Random_def valid_seed_def Let_def word_unat_eq_iff)
qed

subsection \<open>Ranges\<close>

lemma Random_Uniform_bound:
  assumes "valid_seed s" and "0 < n" and "n < 2 ^ 32"
  obtains r s' where "Random_Uniform n s = Some (r, s')" and "valid_seed s'" and "int (unat r) < n"
proof -
  obtain r s' where ns: "Random_Next s = (r, s')"
    by (cases "Random_Next s")
  have n: "uint (word_of_int n :: u32) = n"
    using assms(2,3) by (simp add: unsigned_of_int take_bit_int_eq_self)
  then have un: "unat (word_of_int n :: u32) = nat n"
    by (metis nat_uint_eq)
  then have "(word_of_int n :: u32) \<noteq> 0"
    using assms(2) by (metis unat_0 zero_less_nat_eq less_irrefl)
  then have "Random_Uniform n s = Some (r mod word_of_int n, s')"
    by (simp add: Random_Uniform_def ns)
  moreover have um: "unat (r mod word_of_int n) = unat r mod nat n"
    by (simp add: unat_mod_distrib un)
  moreover have "unat r mod nat n < nat n"
    using assms(2) by simp
  ultimately show ?thesis
    using that Random_Next_valid [OF assms(1) ns] assms(2) by (metis zless_nat_conj nat_int)
qed

subsection \<open>Properties\<close>

text \<open>\<^verbatim>\<open>Skewed(max_log)\<close> for \<open>max_log\<close> from 0 to 31 divides by no zero, shifts in range and returns
  a number below \<open>2 ^ max_log\<close>; \<^verbatim>\<open>Uniform(n)\<close> returns a number below \<open>n\<close>. Both leave the
  generator in a valid state.\<close>

theorem Random_ranges:
  assumes "valid_seed s" and "0 < n" and "n < 2 ^ 31" and "0 \<le> max_log" and "max_log \<le> 31"
  shows "(\<exists>r s'. Random_Uniform n s = Some (r, s') \<and> valid_seed s' \<and> int (unat r) < n) \<and>
    (\<exists>r s'. Random_Skewed max_log s = Some (r, s') \<and> valid_seed s' \<and> unat r < 2 ^ nat max_log)"
proof
  show "\<exists>r s'. Random_Uniform n s = Some (r, s') \<and> valid_seed s' \<and> int (unat r) < n"
    by (rule Random_Uniform_bound [OF assms(1,2)]) (use assms(3) in auto)
  obtain b s1 where b: "Random_Uniform (max_log + 1) s = Some (b, s1)" "valid_seed s1"
    "int (unat b) < max_log + 1"
    by (rule Random_Uniform_bound [OF assms(1), of "max_log + 1"]) (use assms(4,5) in auto)
  have "unat b \<le> 31"
    using b(3) assms(5) by linarith
  then have small: "(2::int) ^ unat b < 2 ^ 32"
    by (intro power_strict_increasing) simp_all
  obtain r s2 where r: "Random_Uniform (2 ^ unat b) s1 = Some (r, s2)" "valid_seed s2"
    "int (unat r) < 2 ^ unat b"
    by (rule Random_Uniform_bound [OF b(2) _ small]) auto
  have "unat r < 2 ^ unat b"
    using r(3) by (metis of_nat_less_iff of_nat_numeral of_nat_power)
  also have "\<dots> \<le> 2 ^ nat max_log"
    by (rule power_increasing) (use b(3) in linarith)+
  finally show "\<exists>r s'. Random_Skewed max_log s = Some (r, s') \<and> valid_seed s' \<and> unat r < 2 ^ nat max_log"
    using b r \<open>unat b \<le> 31\<close> by (simp add: Random_Skewed_def)
qed

theorem Random_ranges_witness:
  "\<exists>r s'. Random_Skewed 10 (new_Random 301) = Some (r, s') \<and> unat r < 2 ^ 10"
  using Random_ranges [OF new_Random_valid [of 301], of 1 10] by auto

end
