(* ===== verification/SkipList.thy ===== *)
theory SkipList
  imports Comparator Arena RandomGen "HOL-Library.Multiset"
begin

text \<open>
  The skip list of \<^verbatim>\<open>memtable/skiplist.h\<close>, node by node on an explicit heap. A pointer is an
  address, with 0 for \<^verbatim>\<open>nullptr\<close>; the heap maps the address of a node to its key and its array
  \<^verbatim>\<open>next_\<close>, whose entries are \<^term>\<open>None\<close> until they are first stored to. Nodes come from the
  arena of theory \<open>Arena\<close>. A dereference of a pointer to no node, an access outside an array, a
  read of an uninitialised entry and a failed assertion all give \<^term>\<open>None\<close>; the search loops are
  \<^theory_text>\<open>partial_function (option)\<close>, so a loop that does not end is \<^term>\<open>None\<close> too. The theorems show
  that none of this happens and that the list refines a sorted list of keys.

  The parameters are the comparator \<open>cmp\<close> (\<^verbatim>\<open>compare_\<close>) and \<open>node_size\<close> (\<^verbatim>\<open>sizeof(Node)\<close>).
  Operations are modelled one at a time here, and theory \<open>SkipListConc\<close> interleaves them; the
  barrier-free accessors behave as the others do.
\<close>

subsection \<open>Nodes\<close>

record 'k Node =
  nkey :: 'k
  nexts :: "nat option list"

type_synonym 'k heap = "nat \<rightharpoonup> 'k Node"

definition kMaxHeight :: nat where "kMaxHeight = 12"

definition Node_Next :: "'k heap \<Rightarrow> nat \<Rightarrow> nat \<Rightarrow> nat option" where
  "Node_Next h x n = do {
     nd \<leftarrow> h x;
     asserting (n < length (nexts nd)) (nexts nd ! n)
   }"

definition Node_SetNext :: "'k heap \<Rightarrow> nat \<Rightarrow> nat \<Rightarrow> nat \<Rightarrow> 'k heap option" where
  "Node_SetNext h x n y = do {
     nd \<leftarrow> h x;
     asserting (n < length (nexts nd)) (Some (h(x \<mapsto> nd \<lparr> nexts := (nexts nd)[n := Some y] \<rparr>)))
   }"

definition NoBarrier_Next :: "'k heap \<Rightarrow> nat \<Rightarrow> nat \<Rightarrow> nat option" where
  "NoBarrier_Next h x n = Node_Next h x n"

definition NoBarrier_SetNext :: "'k heap \<Rightarrow> nat \<Rightarrow> nat \<Rightarrow> nat \<Rightarrow> 'k heap option" where
  "NoBarrier_SetNext h x n y = Node_SetNext h x n y"

definition Node_key :: "'k heap \<Rightarrow> nat \<Rightarrow> 'k option" where
  "Node_key h x = map_option nkey (h x)"

subsection \<open>The list\<close>

record 'k SkipList =
  heap :: "'k heap"
  arena :: Arena
  head :: nat
  max_height :: nat
  rnd :: u32

definition GetMaxHeight :: "'k SkipList \<Rightarrow> nat" where
  "GetMaxHeight s = max_height s"

definition NewNode ::
    "nat \<Rightarrow> (nat \<Rightarrow> nat) \<Rightarrow> 'k \<Rightarrow> nat \<Rightarrow> 'k heap \<Rightarrow> Arena \<Rightarrow> nat \<times> 'k heap \<times> Arena" where
  "NewNode node_size new_char key height h a =
     (let (node_memory, a) = AllocateAligned new_char (node_size + 8 * (height - 1)) a
      in (node_memory, h(node_memory \<mapsto> \<lparr> nkey = key, nexts = replicate height None \<rparr>), a))"

function RandomHeight_loop :: "nat \<Rightarrow> u32 \<Rightarrow> (nat \<times> u32) option" where
  "RandomHeight_loop height r =
     (if height < kMaxHeight then do {
        (b, r) \<leftarrow> Random_OneIn 4 r;
        if b then RandomHeight_loop (height + 1) r else Some (height, r)
      } else Some (height, r))"
  by pat_completeness auto
termination
  by (relation "measure (\<lambda>(height, r). kMaxHeight - height)") auto

declare RandomHeight_loop.simps [simp del]

definition RandomHeight :: "u32 \<Rightarrow> (nat \<times> u32) option" where
  "RandomHeight r = do {
     (height, r) \<leftarrow> RandomHeight_loop 1 r;
     asserting (0 < height) (asserting (height \<le> kMaxHeight) (Some (height, r)))
   }"

definition Equal :: "('k \<Rightarrow> 'k \<Rightarrow> int) \<Rightarrow> 'k \<Rightarrow> 'k \<Rightarrow> bool" where
  "Equal cmp a b \<longleftrightarrow> cmp a b = 0"

definition KeyIsAfterNode :: "('k \<Rightarrow> 'k \<Rightarrow> int) \<Rightarrow> 'k heap \<Rightarrow> 'k \<Rightarrow> nat \<Rightarrow> bool option" where
  "KeyIsAfterNode cmp h key n =
     (if n \<noteq> 0 then map_option (\<lambda>k. cmp k key < 0) (Node_key h n) else Some False)"

text \<open>\<^verbatim>\<open>if (prev != nullptr) prev[level] = x\<close>; \<open>prev\<close> is \<^term>\<open>None\<close> for a null pointer.\<close>

definition set_prev :: "nat option list option \<Rightarrow> nat \<Rightarrow> nat \<Rightarrow> nat option list option option" where
  "set_prev prev level x =
     (case prev of None \<Rightarrow> Some None
      | Some ps \<Rightarrow> asserting (level < length ps) (Some (Some (ps[level := Some x]))))"

partial_function (option) FindGreaterOrEqual_loop ::
    "('k \<Rightarrow> 'k \<Rightarrow> int) \<Rightarrow> 'k heap \<Rightarrow> 'k \<Rightarrow> nat option list option \<Rightarrow> nat \<Rightarrow> nat \<Rightarrow>
     (nat \<times> nat option list option) option" where
  [code]: "FindGreaterOrEqual_loop cmp h key prev x level = do {
     nxt \<leftarrow> Node_Next h x level;
     after \<leftarrow> KeyIsAfterNode cmp h key nxt;
     if after then FindGreaterOrEqual_loop cmp h key prev nxt level
     else do {
       prev \<leftarrow> set_prev prev level x;
       if level = 0 then Some (nxt, prev)
       else FindGreaterOrEqual_loop cmp h key prev x (level - 1)
     }
   }"

definition FindGreaterOrEqual ::
    "('k \<Rightarrow> 'k \<Rightarrow> int) \<Rightarrow> 'k SkipList \<Rightarrow> 'k \<Rightarrow> nat option list option \<Rightarrow>
     (nat \<times> nat option list option) option" where
  "FindGreaterOrEqual cmp s key prev =
     FindGreaterOrEqual_loop cmp (heap s) key prev (head s) (GetMaxHeight s - 1)"

partial_function (option) FindLessThan_loop ::
    "('k \<Rightarrow> 'k \<Rightarrow> int) \<Rightarrow> 'k heap \<Rightarrow> nat \<Rightarrow> 'k \<Rightarrow> nat \<Rightarrow> nat \<Rightarrow> nat option" where
  [code]: "FindLessThan_loop cmp h hd0 key x level = do {
     before \<leftarrow> (if x = hd0 then Some True else map_option (\<lambda>k. cmp k key < 0) (Node_key h x));
     asserting before (do {
       nxt \<leftarrow> Node_Next h x level;
       stop \<leftarrow> (if nxt = 0 then Some True else map_option (\<lambda>k. cmp k key \<ge> 0) (Node_key h nxt));
       if stop then
         (if level = 0 then Some x else FindLessThan_loop cmp h hd0 key x (level - 1))
       else FindLessThan_loop cmp h hd0 key nxt level
     })
   }"

definition FindLessThan :: "('k \<Rightarrow> 'k \<Rightarrow> int) \<Rightarrow> 'k SkipList \<Rightarrow> 'k \<Rightarrow> nat option" where
  "FindLessThan cmp s key = FindLessThan_loop cmp (heap s) (head s) key (head s) (GetMaxHeight s - 1)"

partial_function (option) FindLast_loop :: "'k heap \<Rightarrow> nat \<Rightarrow> nat \<Rightarrow> nat option" where
  [code]: "FindLast_loop h x level = do {
     nxt \<leftarrow> Node_Next h x level;
     if nxt = 0 then (if level = 0 then Some x else FindLast_loop h x (level - 1))
     else FindLast_loop h nxt level
   }"

definition FindLast :: "'k SkipList \<Rightarrow> nat option" where
  "FindLast s = FindLast_loop (heap s) (head s) (GetMaxHeight s - 1)"

text \<open>The constructor: \<open>key0\<close> is the value \<^verbatim>\<open>Key(0)\<close> that \<^verbatim>\<open>head_\<close> is given.\<close>

fun SetNext_range :: "'k heap \<Rightarrow> nat \<Rightarrow> nat list \<Rightarrow> nat \<Rightarrow> 'k heap option" where
  "SetNext_range h x [] y = Some h"
| "SetNext_range h x (i # is) y = do {
     h \<leftarrow> Node_SetNext h x i y;
     SetNext_range h x is y
   }"

definition new_SkipList :: "nat \<Rightarrow> (nat \<Rightarrow> nat) \<Rightarrow> 'k \<Rightarrow> Arena \<Rightarrow> 'k SkipList option" where
  "new_SkipList node_size new_char key0 a = do {
     let (hd0, h, a) = NewNode node_size new_char key0 kMaxHeight Map.empty a;
     h \<leftarrow> SetNext_range h hd0 [0..<kMaxHeight] 0;
     Some \<lparr> heap = h, arena = a, head = hd0, max_height = 1, rnd = new_Random 0xdeadbeef \<rparr>
   }"

text \<open>The last loop of \<^verbatim>\<open>Insert\<close>.\<close>

fun Insert_links :: "nat option list \<Rightarrow> nat \<Rightarrow> 'k heap \<Rightarrow> nat list \<Rightarrow> 'k heap option" where
  "Insert_links prev x h [] = Some h"
| "Insert_links prev x h (i # is) = do {
     p \<leftarrow> asserting (i < length prev) (prev ! i);
     nxt \<leftarrow> NoBarrier_Next h p i;
     h \<leftarrow> NoBarrier_SetNext h x i nxt;
     h \<leftarrow> Node_SetNext h p i x;
     Insert_links prev x h is
   }"

text \<open>\<^verbatim>\<open>for (int i = GetMaxHeight(); i < height; i++) prev[i] = head_\<close>.\<close>

fun fill_prev :: "nat option list \<Rightarrow> nat list \<Rightarrow> nat \<Rightarrow> nat option list option" where
  "fill_prev prev [] x = Some prev"
| "fill_prev prev (i # is) x = asserting (i < length prev) (fill_prev (prev[i := Some x]) is x)"

definition SkipList_Insert ::
    "('k \<Rightarrow> 'k \<Rightarrow> int) \<Rightarrow> nat \<Rightarrow> (nat \<Rightarrow> nat) \<Rightarrow> 'k \<Rightarrow> 'k SkipList \<Rightarrow> 'k SkipList option" where
  "SkipList_Insert cmp node_size new_char key s = do {
     (x, prev) \<leftarrow> FindGreaterOrEqual cmp s key (Some (replicate kMaxHeight None));
     prev \<leftarrow> prev;
     dup \<leftarrow> (if x = 0 then Some False else map_option (\<lambda>k. Equal cmp key k) (Node_key (heap s) x));
     asserting (\<not> dup) (do {
       (height, r) \<leftarrow> RandomHeight (rnd s);
       (prev, mh) \<leftarrow>
         (if GetMaxHeight s < height
          then map_option (\<lambda>p. (p, height)) (fill_prev prev [GetMaxHeight s..<height] (head s))
          else Some (prev, max_height s));
       let (x, h, a) = NewNode node_size new_char key height (heap s) (arena s);
       h \<leftarrow> Insert_links prev x h [0..<height];
       Some (s \<lparr> heap := h, arena := a, max_height := mh, rnd := r \<rparr>)
     })
   }"

definition SkipList_Contains :: "('k \<Rightarrow> 'k \<Rightarrow> int) \<Rightarrow> 'k SkipList \<Rightarrow> 'k \<Rightarrow> bool option" where
  "SkipList_Contains cmp s key = do {
     (x, _) \<leftarrow> FindGreaterOrEqual cmp s key None;
     if x \<noteq> 0 then map_option (\<lambda>k. Equal cmp key k) (Node_key (heap s) x) else Some False
   }"

subsection \<open>Iterators\<close>

text \<open>An iterator is its \<^verbatim>\<open>node_\<close>; \<^verbatim>\<open>list_\<close> is the argument \<open>s\<close>.\<close>

definition new_SkipList_Iterator :: nat where
  "new_SkipList_Iterator = 0"

definition SLIter_Valid :: "nat \<Rightarrow> bool" where
  "SLIter_Valid n \<longleftrightarrow> n \<noteq> 0"

definition SLIter_key :: "'k SkipList \<Rightarrow> nat \<Rightarrow> 'k option" where
  "SLIter_key s n = asserting (SLIter_Valid n) (Node_key (heap s) n)"

definition SLIter_Next :: "'k SkipList \<Rightarrow> nat \<Rightarrow> nat option" where
  "SLIter_Next s n = asserting (SLIter_Valid n) (Node_Next (heap s) n 0)"

definition SLIter_Prev :: "('k \<Rightarrow> 'k \<Rightarrow> int) \<Rightarrow> 'k SkipList \<Rightarrow> nat \<Rightarrow> nat option" where
  "SLIter_Prev cmp s n = asserting (SLIter_Valid n) (do {
     k \<leftarrow> Node_key (heap s) n;
     m \<leftarrow> FindLessThan cmp s k;
     Some (if m = head s then 0 else m)
   })"

definition SLIter_Seek :: "('k \<Rightarrow> 'k \<Rightarrow> int) \<Rightarrow> 'k SkipList \<Rightarrow> 'k \<Rightarrow> nat option" where
  "SLIter_Seek cmp s target = map_option fst (FindGreaterOrEqual cmp s target None)"

definition SLIter_SeekToFirst :: "'k SkipList \<Rightarrow> nat option" where
  "SLIter_SeekToFirst s = Node_Next (heap s) (head s) 0"

definition SLIter_SeekToLast :: "'k SkipList \<Rightarrow> nat option" where
  "SLIter_SeekToLast s = do {
     m \<leftarrow> FindLast s;
     Some (if m = head s then 0 else m)
   }"

subsection \<open>Chains\<close>

definition height :: "'k heap \<Rightarrow> nat \<Rightarrow> nat" where
  "height h x = (case h x of None \<Rightarrow> 0 | Some nd \<Rightarrow> length (nexts nd))"

definition key_at :: "'k heap \<Rightarrow> nat \<Rightarrow> 'k" where
  "key_at h x = nkey (the (h x))"

text \<open>The chain of level \<open>l\<close> from \<open>x\<close> runs through the given nodes and ends with a null pointer.\<close>

fun path :: "'k heap \<Rightarrow> nat \<Rightarrow> nat \<Rightarrow> nat list \<Rightarrow> bool" where
  "path h l x [] \<longleftrightarrow> Node_Next h x l = Some 0"
| "path h l x (y # ys) \<longleftrightarrow> Node_Next h x l = Some y \<and> path h l y ys"

definition first :: "nat list \<Rightarrow> nat" where
  "first xs = (case xs of [] \<Rightarrow> 0 | x # _ \<Rightarrow> x)"

lemma first_simps [simp]: "first [] = 0" "first (x # xs) = x"
  by (simp_all add: first_def)

lemma path_first: "path h l x ys \<Longrightarrow> Node_Next h x l = Some (first ys)"
  by (cases ys) auto

lemma path_suffix: "path h l x (as @ y # bs) \<Longrightarrow> path h l y bs"
  by (induction as arbitrary: x) auto

lemma path_append: "path h l x (as @ bs) \<Longrightarrow> path h l (last (x # as)) bs"
  by (induction as arbitrary: x) auto

lemma path_cong: "(\<And>y. Node_Next h' y l = Node_Next h y l) \<Longrightarrow> path h' l x ys = path h l x ys"
  by (induction ys arbitrary: x) auto

text \<open>From the head or from any node of the chain, the rest of the chain.\<close>

lemma path_from:
  assumes "path h l hd0 (filter Q ps @ rest)" and "x = hd0 \<or> x \<in> set ps \<and> Q x"
  obtains bs where "path h l x (bs @ rest)" and "set bs \<subseteq> set ps" and "\<forall>b \<in> set bs. Q b"
    and "last (x # bs) = last (hd0 # filter Q ps)"
proof (cases "x = hd0")
  case True
  show ?thesis
    by (rule that [of "filter Q ps"]) (use True assms(1) filter_is_subset in simp_all)
next
  case False
  then have "x \<in> set (filter Q ps)"
    using assms(2) by simp
  then obtain as bs where f: "filter Q ps = as @ x # bs"
    by (meson split_list)
  then have "set bs \<subseteq> set ps"
    by (metis (no_types, lifting) filter_is_subset insertCI set_append list.simps(15) subset_trans subsetI UnI2)
  moreover have "path h l x (bs @ rest)"
    using assms(1) path_suffix [of h l hd0 as x "bs @ rest"] by (simp add: f)
  moreover have "\<forall>b \<in> set bs. Q b"
  proof
    fix b
    assume "b \<in> set bs"
    then have "b \<in> set (filter Q ps)"
      unfolding f by simp
    then show "Q b" by simp
  qed
  ultimately show ?thesis
    using f by (intro that [of bs]) simp_all
qed

subsection \<open>The searches\<close>

definition tall :: "(nat \<Rightarrow> nat) \<Rightarrow> nat \<Rightarrow> nat list \<Rightarrow> nat list" where
  "tall H l xs = filter (\<lambda>a. l < H a) xs"

lemma tall_simps [simp]:
  "tall H l [] = []"
  "tall H l (xs @ ys) = tall H l xs @ tall H l ys"
  "tall H l (x # xs) = (if l < H x then x # tall H l xs else tall H l xs)"
  by (simp_all add: tall_def)

lemma set_tall: "set (tall H l xs) \<subseteq> set xs"
  by (auto simp: tall_def)

lemma last_tall:
  "last (x # tall H l xs) = x \<or> last (x # tall H l xs) \<in> set xs \<and> l < H (last (x # tall H l xs))"
proof (cases "tall H l xs = []")
  case False
  then have "last (tall H l xs) \<in> set (tall H l xs)"
    by (rule last_in_set)
  with False show ?thesis
    by (simp add: tall_def)
qed simp

lemma tall_0: "\<forall>a \<in> set xs. 0 < H a \<Longrightarrow> tall H 0 xs = xs"
  by (simp add: tall_def)

text \<open>The entries of \<^verbatim>\<open>prev\<close> from \<open>level\<close> down, as the search stores them.\<close>

fun fill_down :: "(nat \<Rightarrow> nat) \<Rightarrow> nat option list option \<Rightarrow> nat \<Rightarrow> nat option list option" where
  "fill_down f prev 0 = map_option (\<lambda>ps. ps[0 := Some (f 0)]) prev"
| "fill_down f prev (Suc l) = fill_down f (map_option (\<lambda>ps. ps[Suc l := Some (f (Suc l))]) prev) l"

lemma fill_down_None [simp]: "fill_down f None l = None"
  by (induction l) auto

lemma fill_down_Some:
  assumes "l < length ps"
  obtains ps' where "fill_down f (Some ps) l = Some ps'" and "length ps' = length ps"
    and "\<And>i. i \<le> l \<Longrightarrow> ps' ! i = Some (f i)" and "\<And>i. l < i \<Longrightarrow> ps' ! i = ps ! i"
  using assms
proof (induction l arbitrary: ps thesis)
  case 0
  then show ?case
    using "0.prems"(1) [of "ps[0 := Some (f 0)]"] by simp
next
  case (Suc l)
  let ?ps = "ps[Suc l := Some (f (Suc l))]"
  obtain ps' where ps': "fill_down f (Some ?ps) l = Some ps'" "length ps' = length ?ps"
    "\<And>i. i \<le> l \<Longrightarrow> ps' ! i = Some (f i)" "\<And>i. l < i \<Longrightarrow> ps' ! i = ?ps ! i"
    using Suc.IH [of ?ps] Suc.prems(2) by auto
  show ?case
  proof (rule Suc.prems(1) [of ps'])
    show "ps' ! i = Some (f i)" if "i \<le> Suc l" for i
      using that ps'(3,4) Suc.prems(2) by (cases "i = Suc l") auto
    show "ps' ! i = ps ! i" if "Suc l < i" for i
      using that ps'(4) [of i] by simp
  qed (use ps' in auto)
qed

text \<open>
  A list of nodes split at a search key: the chains of the levels up to \<open>level\<close> run through the
  nodes of \<open>ps\<close>, which lie before the key, and then through those of \<open>rs\<close>, which do not.
\<close>

definition chains :: "(nat \<Rightarrow> nat) \<Rightarrow> 'k heap \<Rightarrow> nat \<Rightarrow> nat list \<Rightarrow> nat \<Rightarrow> bool" where
  "chains H h hd0 xs m \<longleftrightarrow> (\<forall>l < m. path h l hd0 (tall H l xs)) \<and> 0 \<notin> set xs \<and>
     (\<forall>a \<in> set xs. 0 < H a \<and> H a \<le> height h a)"

lemma chains_in_heap: "chains H h hd0 xs m \<Longrightarrow> a \<in> set xs \<Longrightarrow> Node_key h a = Some (key_at h a)"
  by (fastforce simp: chains_def height_def Node_key_def key_at_def split: option.splits)

lemma FindGreaterOrEqual_walk:
  assumes "path h l x (bs @ rest)" and "\<forall>b \<in> set bs. KeyIsAfterNode cmp h key b = Some True"
  shows "FindGreaterOrEqual_loop cmp h key prev x l =
    FindGreaterOrEqual_loop cmp h key prev (last (x # bs)) l"
  using assms
proof (induction bs arbitrary: x)
  case (Cons b bs)
  have "FindGreaterOrEqual_loop cmp h key prev x l = FindGreaterOrEqual_loop cmp h key prev b l"
    using Cons.prems by (subst FindGreaterOrEqual_loop.simps) simp
  then show ?case
    using Cons.IH [of b] Cons.prems by simp
qed simp

lemma FindGreaterOrEqual_loop_eq:
  assumes ch: "chains H h hd0 (ps @ rs) m" and level: "level < m"
    and ps: "\<forall>a \<in> set ps. cmp (key_at h a) key < 0" and rs: "\<forall>a \<in> set rs. \<not> cmp (key_at h a) key < 0"
    and x: "x = hd0 \<or> x \<in> set ps \<and> level < H x"
    and prev: "prev = None \<or> (\<exists>p. prev = Some p \<and> level < length p)"
  shows "FindGreaterOrEqual_loop cmp h key prev x level =
    Some (first rs, fill_down (\<lambda>l. last (hd0 # tall H l ps)) prev level)"
  using level x prev
proof (induction level arbitrary: x prev)
  have after: "KeyIsAfterNode cmp h key a = Some (cmp (key_at h a) key < 0)" if "a \<in> set (ps @ rs)" for a
    using chains_in_heap [OF ch that] ch that by (auto simp: KeyIsAfterNode_def chains_def)
  have stop: "KeyIsAfterNode cmp h key (first (tall H l rs)) = Some False" for l
    using after rs set_tall [of H l rs] by (cases "tall H l rs") (auto simp: KeyIsAfterNode_def)
  have here: "\<exists>y. last (hd0 # tall H l ps) = y \<and> (y = hd0 \<or> y \<in> set ps \<and> l < H y) \<and>
      FindGreaterOrEqual_loop cmp h key prev x l = FindGreaterOrEqual_loop cmp h key prev y l \<and>
      Node_Next h y l = Some (first (tall H l rs))"
    if l: "l < m" and x: "x = hd0 \<or> x \<in> set ps \<and> l < H x" for l x prev
  proof -
    have "path h l hd0 (filter (\<lambda>a. l < H a) ps @ tall H l rs)"
      using ch l by (simp add: chains_def tall_def)
    from path_from [OF this x] obtain bs where bs: "path h l x (bs @ tall H l rs)" "set bs \<subseteq> set ps"
      "last (x # bs) = last (hd0 # tall H l ps)"
      unfolding tall_def by blast
    have "\<forall>b \<in> set bs. KeyIsAfterNode cmp h key b = Some True"
      using bs(2) ps after by auto
    from FindGreaterOrEqual_walk [OF bs(1) this] path_first [OF path_append [OF bs(1)]] bs(3)
    show ?thesis
      using last_tall [of hd0 H l ps] by simp
  qed
  {
    case 0
    from here [OF 0(1,2)] obtain y where y: "last (hd0 # tall H 0 ps) = y"
      "FindGreaterOrEqual_loop cmp h key prev x 0 = FindGreaterOrEqual_loop cmp h key prev y 0"
      "Node_Next h y 0 = Some (first (tall H 0 rs))"
      by blast
    have "tall H 0 rs = rs"
      using ch by (intro tall_0) (simp add: chains_def)
    moreover have "FindGreaterOrEqual_loop cmp h key prev y 0 =
        Some (first (tall H 0 rs), map_option (\<lambda>ps. ps[0 := Some y]) prev)"
      using 0(3) y(3) stop [of 0] by (subst FindGreaterOrEqual_loop.simps) (auto simp: set_prev_def)
    ultimately show ?case
      using y by simp
  next
    case (Suc l)
    from here [OF Suc(2,3)] obtain y where y: "last (hd0 # tall H (Suc l) ps) = y"
      "y = hd0 \<or> y \<in> set ps \<and> Suc l < H y"
      "FindGreaterOrEqual_loop cmp h key prev x (Suc l) = FindGreaterOrEqual_loop cmp h key prev y (Suc l)"
      "Node_Next h y (Suc l) = Some (first (tall H (Suc l) rs))"
      by blast
    let ?prev = "map_option (\<lambda>ps. ps[Suc l := Some y]) prev"
    have "FindGreaterOrEqual_loop cmp h key prev y (Suc l) = FindGreaterOrEqual_loop cmp h key ?prev y l"
      using Suc(4) y(4) stop [of "Suc l"] by (subst FindGreaterOrEqual_loop.simps) (auto simp: set_prev_def)
    moreover have "FindGreaterOrEqual_loop cmp h key ?prev y l =
        Some (first rs, fill_down (\<lambda>l. last (hd0 # tall H l ps)) ?prev l)"
      using Suc(2,4) y(2) by (intro Suc.IH) auto
    ultimately show ?case
      using y by simp
  }
qed

lemma FindLessThan_walk:
  assumes "path h l x (bs @ rest)" and "\<forall>b \<in> set bs. b \<noteq> 0 \<and> Node_key h b = Some (key_at h b) \<and> cmp (key_at h b) key < 0"
    and "x = hd0 \<or> Node_key h x = Some (key_at h x) \<and> cmp (key_at h x) key < 0"
  shows "FindLessThan_loop cmp h hd0 key x l = FindLessThan_loop cmp h hd0 key (last (x # bs)) l"
  using assms
proof (induction bs arbitrary: x)
  case (Cons b bs)
  have "FindLessThan_loop cmp h hd0 key x l = FindLessThan_loop cmp h hd0 key b l"
    using Cons.prems by (subst FindLessThan_loop.simps) auto
  then show ?case
    using Cons.IH [of b] Cons.prems by simp
qed simp

lemma FindLessThan_turn:
  assumes "x = hd0 \<or> Node_key h x = Some kx \<and> cmp kx key < 0" and "Node_Next h x l = Some n"
    and "n = 0 \<or> Node_key h n = Some kn \<and> \<not> cmp kn key < 0"
  shows "FindLessThan_loop cmp h hd0 key x l =
    (if l = 0 then Some x else FindLessThan_loop cmp h hd0 key x (l - 1))"
  using assms by (subst FindLessThan_loop.simps) auto

lemma FindLessThan_loop_eq:
  assumes ch: "chains H h hd0 (ps @ rs) m" and level: "level < m"
    and ps: "\<forall>a \<in> set ps. cmp (key_at h a) key < 0" and rs: "\<forall>a \<in> set rs. \<not> cmp (key_at h a) key < 0"
    and x: "x = hd0 \<or> x \<in> set ps \<and> level < H x"
  shows "FindLessThan_loop cmp h hd0 key x level = Some (last (hd0 # ps))"
  using level x
proof (induction level arbitrary: x)
  have mem: "a \<noteq> 0" "Node_key h a = Some (key_at h a)" if "a \<in> set (ps @ rs)" for a
    using chains_in_heap [OF ch that] ch that unfolding chains_def by metis+
  have step: "FindLessThan_loop cmp h hd0 key x l =
      (if l = 0 then Some (last (hd0 # tall H l ps))
       else FindLessThan_loop cmp h hd0 key (last (hd0 # tall H l ps)) (l - 1))"
    if l: "l < m" and x: "x = hd0 \<or> x \<in> set ps \<and> l < H x" for l x
  proof -
    have "path h l hd0 (filter (\<lambda>a. l < H a) ps @ tall H l rs)"
      using ch l by (simp add: chains_def tall_def)
    from path_from [OF this x] obtain bs where bs: "path h l x (bs @ tall H l rs)" "set bs \<subseteq> set ps"
      "last (x # bs) = last (hd0 # tall H l ps)"
      unfolding tall_def by blast
    let ?y = "last (hd0 # tall H l ps)"
    have ok: "a = hd0 \<or> Node_key h a = Some (key_at h a) \<and> cmp (key_at h a) key < 0"
      if "a \<in> set (hd0 # ps)" for a
      using mem(2) [of a] ps that by auto
    have "set bs \<subseteq> set (ps @ rs)"
      using bs(2) by auto
    then have "FindLessThan_loop cmp h hd0 key x l = FindLessThan_loop cmp h hd0 key ?y l"
      using FindLessThan_walk [OF bs(1), of cmp key hd0] ok [of x] mem ps bs(2,3) x by (metis list.set_intros subsetD)
    moreover have "Node_Next h ?y l = Some (first (tall H l rs))"
      using path_first [OF path_append [OF bs(1)]] bs(3) by simp
    moreover have "?y \<in> set (hd0 # ps)"
      using last_in_set [of "hd0 # tall H l ps"] set_tall [of H l ps] by auto
    moreover have "first (tall H l rs) = 0 \<or>
        Node_key h (first (tall H l rs)) = Some (key_at h (first (tall H l rs))) \<and>
        \<not> cmp (key_at h (first (tall H l rs))) key < 0"
      using mem rs set_tall [of H l rs] by (cases "tall H l rs") auto
    ultimately show ?thesis
      using FindLessThan_turn [of ?y hd0 h "key_at h ?y" cmp key l "first (tall H l rs)"
          "key_at h (first (tall H l rs))"] ok [of ?y] by simp
  qed
  {
    case 0
    have "tall H 0 ps = ps"
      using ch by (intro tall_0) (simp add: chains_def)
    then show ?case
      using step [OF 0] by simp
  next
    case (Suc l)
    let ?y = "last (hd0 # tall H (Suc l) ps)"
    have "?y = hd0 \<or> ?y \<in> set ps \<and> l < H ?y"
      using last_tall [of hd0 H "Suc l" ps] by auto
    then show ?case
      using step [OF Suc(2,3)] Suc.IH [of ?y] Suc(2) by simp
  }
qed

lemma FindLast_walk:
  assumes "path h l x (bs @ rest)" and "\<forall>b \<in> set bs. b \<noteq> 0"
  shows "FindLast_loop h x l = FindLast_loop h (last (x # bs)) l"
  using assms
proof (induction bs arbitrary: x)
  case (Cons b bs)
  have "FindLast_loop h x l = FindLast_loop h b l"
    using Cons.prems by (subst FindLast_loop.simps) simp
  then show ?case
    using Cons.IH [of b] Cons.prems by simp
qed simp

lemma FindLast_turn:
  "Node_Next h x l = Some 0 \<Longrightarrow> FindLast_loop h x l = (if l = 0 then Some x else FindLast_loop h x (l - 1))"
  by (subst FindLast_loop.simps) simp

lemma FindLast_loop_eq:
  assumes ch: "chains H h hd0 ps m" and level: "level < m"
    and x: "x = hd0 \<or> x \<in> set ps \<and> level < H x"
  shows "FindLast_loop h x level = Some (last (hd0 # ps))"
  using level x
proof (induction level arbitrary: x)
  have step: "FindLast_loop h x l =
      (if l = 0 then Some (last (hd0 # tall H l ps)) else FindLast_loop h (last (hd0 # tall H l ps)) (l - 1))"
    if l: "l < m" and x: "x = hd0 \<or> x \<in> set ps \<and> l < H x" for l x
  proof -
    have "path h l hd0 (filter (\<lambda>a. l < H a) ps @ [])"
      using ch l by (simp add: chains_def tall_def)
    from path_from [OF this x] obtain bs where bs: "path h l x (bs @ [])" "set bs \<subseteq> set ps"
      "last (x # bs) = last (hd0 # tall H l ps)"
      unfolding tall_def by blast
    have "\<forall>b \<in> set bs. b \<noteq> 0"
      using bs(2) ch unfolding chains_def by (metis subsetD)
    from FindLast_walk [OF bs(1) this] path_first [OF path_append [OF bs(1)]] bs(3) show ?thesis
      using FindLast_turn [of h "last (hd0 # tall H l ps)" l] by simp
  qed
  {
    case 0
    have "tall H 0 ps = ps"
      using ch by (intro tall_0) (simp add: chains_def)
    then show ?case
      using step [OF 0] by simp
  next
    case (Suc l)
    let ?y = "last (hd0 # tall H (Suc l) ps)"
    have "?y = hd0 \<or> ?y \<in> set ps \<and> l < H ?y"
      using last_tall [of hd0 H "Suc l" ps] by auto
    then show ?case
      using step [OF Suc(2,3)] Suc.IH [of ?y] Suc(2) by simp
  }
qed

subsection \<open>Linking a node into the chains\<close>

text \<open>Stores to \<^verbatim>\<open>next_\<close> arrays change neither keys nor heights.\<close>

definition same_shape :: "'k heap \<Rightarrow> 'k heap \<Rightarrow> bool" where
  "same_shape h h' \<longleftrightarrow> height h' = height h \<and> Node_key h' = Node_key h"

lemma same_shape_trans: "same_shape h h' \<Longrightarrow> same_shape h' h'' \<Longrightarrow> same_shape h h''"
  by (simp add: same_shape_def)

lemma same_shape_dom: "same_shape h h' \<Longrightarrow> dom h' = dom h"
  by (auto simp: same_shape_def Node_key_def dom_def fun_eq_iff map_option_eq_Some)
    (metis map_option_is_None option.distinct(1) option.exhaust)+

lemma same_shape_key_at: "same_shape h h' \<Longrightarrow> a \<in> dom h \<Longrightarrow> key_at h' a = key_at h a"
  by (auto simp: same_shape_def Node_key_def key_at_def fun_eq_iff)
    (metis map_option_eq_Some option.sel)

lemma SetNext_spec:
  assumes "n < height h x"
  obtains h' where "Node_SetNext h x n y = Some h'" and "same_shape h h'"
    and "\<And>z l. Node_Next h' z l = (if z = x \<and> l = n then Some y else Node_Next h z l)"
proof -
  obtain nd where nd: "h x = Some nd" "n < length (nexts nd)"
    using assms by (auto simp: height_def split: option.splits)
  let ?h' = "h(x \<mapsto> nd \<lparr> nexts := (nexts nd)[n := Some y] \<rparr>)"
  show ?thesis
  proof (rule that [of ?h'])
    show "Node_SetNext h x n y = Some ?h'"
      using nd by (simp add: Node_SetNext_def)
    show "same_shape h ?h'"
      using nd by (auto simp: same_shape_def height_def Node_key_def fun_eq_iff)
    show "Node_Next ?h' z l = (if z = x \<and> l = n then Some y else Node_Next h z l)" for z l
      using nd by (auto simp: Node_Next_def asserting_def)
  qed
qed

lemma path_cong_on:
  "(\<And>y. y \<in> set (x # ys) \<Longrightarrow> Node_Next h' y l = Node_Next h y l) \<Longrightarrow> path h' l x ys = path h l x ys"
  by (induction ys arbitrary: x) auto

lemma path_insert:
  assumes "path h l x (as @ bs)" and "distinct (x # as @ bs)" and "n \<notin> set (x # as @ bs)"
    and "\<And>z. Node_Next h' z l =
      (if z = last (x # as) then Some n else if z = n then Some (first bs) else Node_Next h z l)"
  shows "path h' l x (as @ n # bs)"
  using assms
proof (induction as arbitrary: x)
  case Nil
  have "path h' l n bs"
  proof (cases bs)
    case Nil
    with Nil.prems show ?thesis by simp
  next
    case (Cons b bs')
    have "path h' l b bs' = path h l b bs'"
      by (rule path_cong_on) (use Nil.prems Cons in auto)
    with Nil.prems Cons show ?thesis by auto
  qed
  with Nil.prems show ?case by simp
next
  case (Cons a as)
  have "last (a # as) \<in> set (a # as)"
    by (rule last_in_set) simp
  then have "last (x # a # as) \<noteq> x"
    using Cons.prems(2) by auto
  then have "Node_Next h' x l = Some a"
    using Cons.prems by auto
  moreover have "path h' l a (as @ n # bs)"
    using Cons.prems by (intro Cons.IH) auto
  ultimately show ?case by simp
qed

lemma Insert_links_eq:
  assumes H: "H \<le> length prev" "H \<le> height h hd0" "H \<le> height h x"
    and prev: "\<And>l. l < H \<Longrightarrow> prev ! l = Some (last (hd0 # tall (height h) l ps))"
    and x: "x \<notin> set (hd0 # ps @ rs)" and dist: "distinct (hd0 # ps @ rs)"
    and i: "i \<le> H" and below: "\<And>l. l < i \<Longrightarrow> path h l hd0 (tall (height h) l ps @ x # tall (height h) l rs)"
    and above: "\<And>l. i \<le> l \<Longrightarrow> l < m \<Longrightarrow> path h l hd0 (tall (height h) l ps @ tall (height h) l rs)" and m: "H \<le> m"
  shows "\<exists>h'. Insert_links prev x h [i..<H] = Some h' \<and> same_shape h h' \<and>
    (\<forall>l < H. path h' l hd0 (tall (height h) l ps @ x # tall (height h) l rs)) \<and>
    (\<forall>l. H \<le> l \<and> l < m \<longrightarrow> path h' l hd0 (tall (height h) l ps @ tall (height h) l rs))"
  using assms
proof (induction "H - i" arbitrary: i h)
  case 0
  then show ?case by (auto simp: same_shape_def)
next
  case (Suc n)
  then have iH: "i < H" by simp
  let ?p = "last (hd0 # tall (height h) i ps)" and ?bs = "tall (height h) i rs"
  have path_i: "path h i hd0 (tall (height h) i ps @ ?bs)"
    using Suc.prems(9,10) iH by simp
  have p: "i < height h ?p"
    using last_tall [of hd0 "height h" i ps] Suc.prems(2) iH by auto
  have px: "?p \<noteq> x"
    using last_tall [of hd0 "height h" i ps] Suc.prems(5) by auto
  have nxt: "Node_Next h ?p i = Some (first ?bs)"
    using path_first [OF path_append [OF path_i]] .
  obtain h1 where h1: "Node_SetNext h x i (first ?bs) = Some h1" "same_shape h h1"
    "\<And>z l. Node_Next h1 z l = (if z = x \<and> l = i then Some (first ?bs) else Node_Next h z l)"
    using SetNext_spec [of i h x] Suc.prems(3) iH by (metis less_le_trans)
  have "i < height h1 ?p"
    using p h1(2) by (simp add: same_shape_def)
  then obtain h2 where h2: "Node_SetNext h1 ?p i x = Some h2" "same_shape h1 h2"
    "\<And>z l. Node_Next h2 z l = (if z = ?p \<and> l = i then Some x else Node_Next h1 z l)"
    using SetNext_spec [of i h1 ?p] by blast
  have shape: "same_shape h h2"
    using h1(2) h2(2) by (rule same_shape_trans)
  then have tall: "tall (height h2) = tall (height h)" and ht: "height h2 = height h"
    by (auto simp: tall_def same_shape_def fun_eq_iff)
  have next2: "Node_Next h2 z l = (if z = ?p \<and> l = i then Some x
      else if z = x \<and> l = i then Some (first ?bs) else Node_Next h z l)" for z l
    using h1(3) h2(3) by simp
  have "path h2 i hd0 (tall (height h) i ps @ x # ?bs)"
  proof (rule path_insert [OF path_i])
    show "distinct (hd0 # tall (height h) i ps @ ?bs)"
      using Suc.prems(6) set_tall [of "height h" i ps] set_tall [of "height h" i rs] by (auto simp: tall_def)
    show "x \<notin> set (hd0 # tall (height h) i ps @ ?bs)"
      using Suc.prems(5) set_tall [of "height h" i ps] set_tall [of "height h" i rs] by auto
  qed (simp add: next2)
  moreover have other: "path h2 l hd0 ys = path h l hd0 ys" if "l \<noteq> i" for l ys
    using that next2 by (intro path_cong) simp
  ultimately have below: "path h2 l hd0 (tall (height h2) l ps @ x # tall (height h2) l rs)" if "l < Suc i" for l
    using that Suc.prems(8) [of l] unfolding tall by (cases "l = i") auto
  have above: "path h2 l hd0 (tall (height h2) l ps @ tall (height h2) l rs)" if "Suc i \<le> l" "l < m" for l
    using that Suc.prems(9) [of l] other [of l] unfolding tall by simp
  have prev_h2: "prev ! l = Some (last (hd0 # tall (height h2) l ps))" if "l < H" for l
    using that Suc.prems(4) unfolding tall by simp
  have "\<exists>h'. Insert_links prev x h2 [Suc i..<H] = Some h' \<and> same_shape h2 h' \<and>
    (\<forall>l < H. path h' l hd0 (tall (height h2) l ps @ x # tall (height h2) l rs)) \<and>
    (\<forall>l. H \<le> l \<and> l < m \<longrightarrow> path h' l hd0 (tall (height h2) l ps @ tall (height h2) l rs))"
    by (rule Suc.hyps(1)) (use Suc.hyps(2) Suc.prems iH ht below above prev_h2 in auto)
  moreover have "Insert_links prev x h [i..<H] = Insert_links prev x h2 [Suc i..<H]"
    using iH Suc.prems(1,4) nxt h1(1) h2(1)
    by (simp add: upt_conv_Cons NoBarrier_Next_def NoBarrier_SetNext_def)
  ultimately show ?case
    using same_shape_trans [OF shape] unfolding tall by auto
qed

subsection \<open>Heights and allocation\<close>

lemma Random_OneIn_eq:
  assumes "valid_seed r"
  obtains b r' where "Random_OneIn 4 r = Some (b, r')" and "valid_seed r'"
proof -
  obtain v r' where "Random_Next r = (v, r')"
    by (cases "Random_Next r")
  then show ?thesis
    using that Random_Next_valid [OF assms] by (simp add: Random_OneIn_def)
qed

lemma RandomHeight_loop_eq:
  assumes "valid_seed r" and "0 < n" and "n \<le> kMaxHeight"
  shows "\<exists>n' r'. RandomHeight_loop n r = Some (n', r') \<and> n \<le> n' \<and> n' \<le> kMaxHeight \<and> valid_seed r'"
  using assms
proof (induction n r rule: RandomHeight_loop.induct)
  case (1 n r)
  obtain b r' where one: "Random_OneIn 4 r = Some (b, r')" "valid_seed r'"
    using Random_OneIn_eq [OF 1(2)] by blast
  show ?case
  proof (cases "n < kMaxHeight \<and> b")
    case True
    then have "\<exists>n' r''. RandomHeight_loop (n + 1) r' = Some (n', r'') \<and> n + 1 \<le> n' \<and> n' \<le> kMaxHeight \<and>
        valid_seed r''"
      using one by (intro 1(1)) auto
    then show ?thesis
      using True one by (subst RandomHeight_loop.simps) auto
  next
    case False
    then show ?thesis
      using one 1(2,4) by (subst RandomHeight_loop.simps) auto
  qed
qed

lemma RandomHeight_eq:
  assumes "valid_seed r"
  obtains n r' where "RandomHeight r = Some (n, r')" and "0 < n" and "n \<le> kMaxHeight" and "valid_seed r'"
  using RandomHeight_loop_eq [OF assms, of 1] that by (auto simp: RandomHeight_def kMaxHeight_def)

lemma fill_prev_eq:
  "j \<le> length prev \<Longrightarrow> \<exists>p. fill_prev prev [i..<j] x = Some p \<and> length p = length prev \<and>
     (\<forall>l < length prev. p ! l = (if i \<le> l \<and> l < j then Some x else prev ! l))"
proof (induction "j - i" arbitrary: i prev)
  case (Suc n)
  then have "i < j" by simp
  then have "[i..<j] = i # [Suc i..<j]"
    by (rule upt_conv_Cons)
  moreover have "\<exists>p. fill_prev (prev[i := Some x]) [Suc i..<j] x = Some p \<and> length p = length (prev[i := Some x]) \<and>
      (\<forall>l < length (prev[i := Some x]). p ! l = (if Suc i \<le> l \<and> l < j then Some x else prev[i := Some x] ! l))"
    using Suc.prems Suc.hyps(2) by (intro Suc.hyps(1)) auto
  ultimately show ?case
    using Suc.prems \<open>i < j\<close> by (auto simp: nth_list_update)
qed auto

text \<open>The nodes of a list have apart addresses because they are apart regions of the arena.\<close>

definition nodes_in_arena :: "'k SkipList \<Rightarrow> bool" where
  "nodes_in_arena s \<longleftrightarrow>
     (\<exists>live. arena_inv live (arena s) \<and> (\<forall>a \<in> dom (heap s). \<exists>n > 0. (a, n) \<in> set live))"

text \<open>What an insertion needs of \<^verbatim>\<open>new char[]\<close>: it works for the sizes a node may have.\<close>

definition node_alloc_ok :: "nat \<Rightarrow> (nat \<Rightarrow> nat) \<Rightarrow> Arena \<Rightarrow> bool" where
  "node_alloc_ok node_size new_char a \<longleftrightarrow>
     0 < node_size \<and> node_size < 2 ^ 62 \<and> new_ok a kBlockSize (new_char kBlockSize) \<and>
     (\<forall>i < kMaxHeight. new_ok a (node_size + 8 * i) (new_char (node_size + 8 * i)))"

lemma NewNode_eq:
  assumes live: "arena_inv live a" "\<forall>b \<in> dom h. \<exists>n > 0. (b, n) \<in> set live"
    and ok: "node_alloc_ok node_size new_char a" and n: "0 < n" "n \<le> kMaxHeight"
  obtains x a' live' where "NewNode node_size new_char key n h a =
      (x, h(x \<mapsto> \<lparr> nkey = key, nexts = replicate n None \<rparr>), a')"
    and "x \<noteq> 0" and "x \<notin> dom h" and "arena_inv live' a'"
    and "\<forall>b \<in> insert x (dom h). \<exists>n > 0. (b, n) \<in> set live'"
proof -
  let ?size = "node_size + 8 * (n - 1)"
  obtain x a' where alloc: "AllocateAligned new_char ?size a = (x, a')"
    by (cases "AllocateAligned new_char ?size a")
  have "n - 1 < 12"
    using n by (simp add: kMaxHeight_def)
  moreover have "0 < node_size" "node_size < 2 ^ 62"
    using ok by (simp_all add: node_alloc_ok_def)
  ultimately have "?size < 2 ^ 62 + 96"
    by linarith
  then have size: "0 < ?size" "?size < 2 ^ 63"
    using \<open>0 < node_size\<close> by simp_all
  have "n - 1 < kMaxHeight"
    using n by simp
  then have "new_ok a ?size (new_char ?size)" "new_ok a kBlockSize (new_char kBlockSize)"
    using ok unfolding node_alloc_ok_def by blast+
  then have inv: "arena_inv ((x, ?size) # live) a'"
    using AllocateAligned_inv [OF live(1) size(2) _ _ alloc] by blast
  have x: "x \<noteq> 0" "x \<notin> dom h"
    using arena_inv_fresh [OF inv size(1)] live(2) by blast+
  have "\<forall>b \<in> insert x (dom h). \<exists>n > 0. (b, n) \<in> set ((x, ?size) # live)"
    using live(2) size(1) by (metis insert_iff list.set(2))
  with x inv alloc that show ?thesis
    by (simp add: NewNode_def)
qed

subsection \<open>The representation of a sorted list\<close>

text \<open>
  \<open>H\<close> is the number of levels at which a node is linked. It is the height of the node but for
  one that is being inserted.
\<close>

definition sl_view ::
    "(nat \<Rightarrow> nat) \<Rightarrow> ('k \<Rightarrow> bool) \<Rightarrow> ('k \<Rightarrow> 'k \<Rightarrow> int) \<Rightarrow> 'k SkipList \<Rightarrow> nat list \<Rightarrow> bool" where
  "sl_view H ok cmp s xs \<longleftrightarrow>
     chains H (heap s) (head s) xs kMaxHeight \<and> height (heap s) (head s) = kMaxHeight \<and>
     distinct (head s # xs) \<and>
     1 \<le> max_height s \<and> max_height s \<le> kMaxHeight \<and> (\<forall>a \<in> set xs. H a \<le> max_height s) \<and>
     sorted_wrt (\<lambda>a b. cmp (key_at (heap s) a) (key_at (heap s) b) < 0) xs \<and>
     (\<forall>a \<in> set xs. ok (key_at (heap s) a)) \<and> valid_seed (rnd s) \<and> nodes_in_arena s"

abbreviation sl_rep :: "('k \<Rightarrow> bool) \<Rightarrow> ('k \<Rightarrow> 'k \<Rightarrow> int) \<Rightarrow> 'k SkipList \<Rightarrow> nat list \<Rightarrow> bool" where
  "sl_rep ok cmp s xs \<equiv> sl_view (height (heap s)) ok cmp s xs"

definition sl_keys :: "'k SkipList \<Rightarrow> nat list \<Rightarrow> 'k list" where
  "sl_keys s xs = map (key_at (heap s)) xs"

lemma length_sl_keys [simp]: "length (sl_keys s xs) = length xs"
  by (simp add: sl_keys_def)

lemma SetNext_range_eq:
  assumes "\<forall>i \<in> set is. i < height h x"
  shows "\<exists>h'. SetNext_range h x is y = Some h' \<and> same_shape h h' \<and>
    (\<forall>l \<in> set is. Node_Next h' x l = Some y)"
  using assms
proof (induction "is" arbitrary: h)
  case (Cons i "is")
  obtain h1 where h1: "Node_SetNext h x i y = Some h1" "same_shape h h1"
    "\<And>z l. Node_Next h1 z l = (if z = x \<and> l = i then Some y else Node_Next h z l)"
    using SetNext_spec [of i h x y] Cons.prems by auto
  have kept: "Node_Next h' x i = Some y" if "SetNext_range h1 x js y = Some h'"
    "Node_Next h1 x i = Some y" for h1 js h'
    using that
  proof (induction js arbitrary: h1)
    case (Cons j js)
    then obtain h2 where h2: "Node_SetNext h1 x j y = Some h2" "SetNext_range h2 x js y = Some h'"
      by (auto simp: bind_eq_Some_conv)
    then have "Node_Next h2 x i = Some y"
      using Cons.prems(2) by (auto simp: Node_SetNext_def Node_Next_def bind_eq_Some_conv nth_list_update)
    with Cons.IH h2 show ?case by blast
  qed simp
  have "\<exists>h'. SetNext_range h1 x is y = Some h' \<and> same_shape h1 h' \<and> (\<forall>l \<in> set is. Node_Next h' x l = Some y)"
    using Cons.prems h1(2) by (intro Cons.IH) (simp add: same_shape_def)
  then obtain h' where h': "SetNext_range h1 x is y = Some h'" "same_shape h1 h'"
    "\<forall>l \<in> set is. Node_Next h' x l = Some y"
    by blast
  have "Node_Next h' x i = Some y"
    using kept [OF h'(1)] h1(3) by simp
  then show ?case
    using h1 h' same_shape_trans [OF h1(2) h'(2)] by simp
qed (simp add: same_shape_def)

lemma new_SkipList_eq:
  assumes "arena_inv live a" and "node_alloc_ok node_size new_char a"
  obtains s where "new_SkipList node_size new_char key0 a = Some s" and "sl_rep ok cmp s []"
proof -
  obtain x a' live' where new: "NewNode node_size new_char key0 kMaxHeight Map.empty a =
      (x, Map.empty(x \<mapsto> \<lparr> nkey = key0, nexts = replicate kMaxHeight None \<rparr>), a')"
    and x: "x \<noteq> 0" and live: "arena_inv live' a'" "\<exists>n > 0. (x, n) \<in> set live'"
    by (rule NewNode_eq [OF assms(1) _ assms(2), of Map.empty kMaxHeight key0]) (auto simp: kMaxHeight_def)
  let ?h = "[x \<mapsto> \<lparr> nkey = key0, nexts = replicate kMaxHeight None \<rparr>]"
  have "height ?h x = kMaxHeight"
    by (simp add: height_def)
  then obtain h where h: "SetNext_range ?h x [0..<kMaxHeight] 0 = Some h" "same_shape ?h h"
    "\<forall>l < kMaxHeight. Node_Next h x l = Some 0"
    using SetNext_range_eq [of "[0..<kMaxHeight]" ?h x 0] by auto
  let ?s = "\<lparr> heap = h, arena = a', head = x, max_height = 1, rnd = new_Random 0xdeadbeef \<rparr>"
  have "dom h = {x}"
    using same_shape_dom [OF h(2)] by simp
  then have "sl_rep ok cmp ?s []"
    using h(2,3) \<open>height ?h x = kMaxHeight\<close> x live new_Random_valid
    by (auto simp: sl_view_def chains_def same_shape_def nodes_in_arena_def kMaxHeight_def)
  then show ?thesis
    using that new h(1) by (simp add: new_SkipList_def)
qed

subsection \<open>Operations on a represented list\<close>

lemma sl_rep_search:
  assumes "sl_view H ok cmp s xs"
  shows "chains H (heap s) (head s) xs kMaxHeight" and "GetMaxHeight s - 1 < kMaxHeight"
  using assms by (auto simp: sl_view_def GetMaxHeight_def kMaxHeight_def)

lemma sl_rep_node:
  assumes rep: "sl_view H ok cmp s xs" and "a \<in> set xs"
  shows "a \<noteq> 0" and "Node_key (heap s) a = Some (key_at (heap s) a)"
  using chains_in_heap [OF sl_rep_search(1) [OF rep]] sl_rep_search(1) [OF rep] assms(2)
  unfolding chains_def by metis+

lemma sorted_wrt_cong_keys:
  "\<forall>a \<in> set zs. f a = g a \<Longrightarrow> sorted_wrt (\<lambda>a b. R (f a) (f b)) zs = sorted_wrt (\<lambda>a b. R (g a) (g b)) zs"
  by (induction zs) auto

text \<open>A predicate that holds downwards in a list fails after its first failure.\<close>

lemma dropWhile_downward:
  "sorted_wrt (\<lambda>a b. Q b \<longrightarrow> Q a) ys \<Longrightarrow> a \<in> set (dropWhile Q ys) \<Longrightarrow> \<not> Q a"
proof (induction ys)
  case (Cons y ys)
  show ?case
  proof (cases "Q y")
    case True
    with Cons show ?thesis by simp
  next
    case False
    with Cons.prems show ?thesis by auto
  qed
qed simp

text \<open>The array \<^verbatim>\<open>prev\<close> of \<^verbatim>\<open>Insert\<close> below the height of the new node.\<close>

lemma Insert_prev:
  assumes "\<forall>a \<in> set xs. height h a \<le> max_height s" and "length prev = kMaxHeight"
    and "\<And>l. l \<le> max_height s - 1 \<Longrightarrow> prev ! l = Some (last (hd0 # tall (height h) l ps))"
    and "H \<le> kMaxHeight" and "set ps \<subseteq> set xs" and "1 \<le> max_height s"
  obtains p where "(if GetMaxHeight s < H
      then map_option (\<lambda>p. (p, H)) (fill_prev prev [GetMaxHeight s..<H] hd0)
      else Some (prev, max_height s)) = Some (p, max (max_height s) H)"
    and "length p = kMaxHeight" and "\<And>l. l < H \<Longrightarrow> p ! l = Some (last (hd0 # tall (height h) l ps))"
proof (cases "max_height s < H")
  case True
  have none: "tall (height h) l ps = []" if "max_height s \<le> l" for l
    using that assms(1,5) by (force simp: tall_def filter_empty_conv)
  obtain p where p: "fill_prev prev [max_height s..<H] hd0 = Some p" "length p = kMaxHeight"
    "\<And>l. l < kMaxHeight \<Longrightarrow> p ! l = (if max_height s \<le> l \<and> l < H then Some hd0 else prev ! l)"
    using fill_prev_eq [of H prev "max_height s" hd0] assms(2,4) by auto
  show ?thesis
  proof (rule that [of p])
    show "p ! l = Some (last (hd0 # tall (height h) l ps))" if "l < H" for l
      using that p(3) [of l] assms(3) [of l] assms(4,6) none [of l] by (cases "max_height s \<le> l") auto
  qed (use True p in \<open>simp_all add: GetMaxHeight_def max_def\<close>)
next
  case False
  show ?thesis
    by (rule that [of prev]) (use False assms in \<open>simp_all add: GetMaxHeight_def max_def\<close>)
qed

lemma Insert_chains:
  fixes h :: "'k heap"
  assumes ch: "chains (height h) h hd0 (ps @ rs) kMaxHeight" and hd0: "height h hd0 = kMaxHeight"
    and dist: "distinct (hd0 # ps @ rs)" and H: "0 < H" "H \<le> kMaxHeight"
    and p: "length p = kMaxHeight" "\<And>l. l < H \<Longrightarrow> p ! l = Some (last (hd0 # tall (height h) l ps))"
    and x: "x \<noteq> 0" "x \<notin> dom h"
  obtains h' where "Insert_links p x (h(x \<mapsto> \<lparr> nkey = key, nexts = replicate H None \<rparr>)) [0..<H] = Some h'"
    and "same_shape (h(x \<mapsto> \<lparr> nkey = key, nexts = replicate H None \<rparr>)) h'"
    and "chains (height h') h' hd0 (ps @ x # rs) kMaxHeight" and "x \<notin> set (hd0 # ps @ rs)"
    and "\<forall>a \<in> set (hd0 # ps @ rs). height h' a = height h a \<and> key_at h' a = key_at h a"
    and "height h' x = H" and "key_at h' x = key"
proof -
  let ?h1 = "h(x \<mapsto> \<lparr> nkey = key, nexts = replicate H None \<rparr>)"
  have in_dom: "a \<in> dom h" if "a \<in> set (hd0 # ps @ rs)" for a
  proof -
    have "0 < height h a"
      using that ch hd0 by (auto simp: chains_def kMaxHeight_def)
    then show ?thesis
      by (auto simp: height_def split: option.splits)
  qed
  then have xnew: "x \<notin> set (hd0 # ps @ rs)"
    using x(2) by blast
  have ht: "height ?h1 a = (if a = x then H else height h a)" for a
    by (simp add: height_def)
  have tall: "tall (height ?h1) l ps = tall (height h) l ps" "tall (height ?h1) l rs = tall (height h) l rs" for l
    using xnew unfolding tall_def ht by (auto intro: filter_cong)
  have "path ?h1 l hd0 (tall (height ?h1) l ps @ tall (height ?h1) l rs)" if "l < kMaxHeight" for l
  proof -
    have "path ?h1 l hd0 (tall (height h) l ps @ tall (height h) l rs) = path h l hd0 (tall (height h) l ps @ tall (height h) l rs)"
      using xnew set_tall [of "height h" l ps] set_tall [of "height h" l rs]
      by (intro path_cong_on) (auto simp: Node_Next_def)
    then show ?thesis
      using ch that by (simp add: tall chains_def)
  qed
  then obtain h' where h': "Insert_links p x ?h1 [0..<H] = Some h'" "same_shape ?h1 h'"
    "\<forall>l < H. path h' l hd0 (tall (height ?h1) l ps @ x # tall (height ?h1) l rs)"
    "\<forall>l. H \<le> l \<and> l < kMaxHeight \<longrightarrow> path h' l hd0 (tall (height ?h1) l ps @ tall (height ?h1) l rs)"
    using Insert_links_eq [of H p ?h1 hd0 x ps rs 0 kMaxHeight] p H hd0 xnew dist
    by (auto simp: ht tall)
  have ht': "height h' = height ?h1"
    using h'(2) by (simp add: same_shape_def)
  then have tall': "tall (height h') = tall (height ?h1)"
    by (auto simp: tall_def fun_eq_iff)
  have "path h' l hd0 (tall (height h') l (ps @ x # rs))" if "l < kMaxHeight" for l
    using h'(3,4) that unfolding tall' by (cases "l < H") (auto simp: ht)
  then have "chains (height h') h' hd0 (ps @ x # rs) kMaxHeight"
    using ch x(1) H(1) unfolding chains_def ht' ht by auto
  moreover have "height h' a = height h a \<and> key_at h' a = key_at h a" if "a \<in> set (hd0 # ps @ rs)" for a
  proof -
    have "a \<noteq> x"
      using xnew that by blast
    then show ?thesis
      using same_shape_key_at [OF h'(2), of a] in_dom [OF that] by (simp add: ht' ht key_at_def)
  qed
  moreover have "height h' x = H" "key_at h' x = key"
    using same_shape_key_at [OF h'(2), of x] by (simp_all add: ht' ht key_at_def)
  ultimately show ?thesis
    using that h' xnew by blast
qed

context key_order
begin

text \<open>The nodes before a key form a prefix of the list.\<close>

lemma split_at_key:
  assumes rep: "sl_view H ok cmp s xs" and "ok key"
  obtains ps rs where "xs = ps @ rs" and "\<forall>a \<in> set ps. cmp (key_at (heap s) a) key < 0"
    and "\<forall>a \<in> set rs. \<not> cmp (key_at (heap s) a) key < 0"
proof -
  let ?Q = "\<lambda>a. cmp (key_at (heap s) a) key < 0"
  have after: "\<not> ?Q a" if "a \<in> set (dropWhile ?Q xs)" for a
  proof (rule dropWhile_downward [OF _ that])
    show "sorted_wrt (\<lambda>a b. ?Q b \<longrightarrow> ?Q a) xs"
    proof (rule sorted_wrt_mono_rel)
      show "sorted_wrt (\<lambda>a b. cmp (key_at (heap s) a) (key_at (heap s) b) < 0) xs"
        using rep by (simp add: sl_view_def)
      show "?Q b \<longrightarrow> ?Q a" if "a \<in> set xs" "b \<in> set xs"
        "cmp (key_at (heap s) a) (key_at (heap s) b) < 0" for a b
        using cmp_less_trans [of "key_at (heap s) a" "key_at (heap s) b" key] that rep \<open>ok key\<close>
        by (simp add: sl_view_def)
    qed
  qed
  show ?thesis
  proof (rule that)
    show "xs = takeWhile ?Q xs @ dropWhile ?Q xs"
      by (rule takeWhile_dropWhile_id [symmetric])
    show "\<forall>a \<in> set (takeWhile ?Q xs). ?Q a"
      using set_takeWhileD by metis
    show "\<forall>a \<in> set (dropWhile ?Q xs). \<not> ?Q a"
      using after by blast
  qed
qed

lemma FindGreaterOrEqual_eq:
  assumes rep: "sl_view H ok cmp s (ps @ rs)"
    and split: "\<forall>a \<in> set ps. cmp (key_at (heap s) a) key < 0" "\<forall>a \<in> set rs. \<not> cmp (key_at (heap s) a) key < 0"
    and prev: "prev = None \<or> (\<exists>p. prev = Some p \<and> length p = kMaxHeight)"
  shows "FindGreaterOrEqual cmp s key prev =
    Some (first rs, fill_down (\<lambda>l. last (head s # tall H l ps)) prev (max_height s - 1))"
  unfolding FindGreaterOrEqual_def GetMaxHeight_def
  using sl_rep_search [OF rep] prev split
  by (intro FindGreaterOrEqual_loop_eq) (auto simp: GetMaxHeight_def)

lemma Contains_eq:
  assumes rep: "sl_view H ok cmp s xs" and "ok key"
  shows "SkipList_Contains cmp s key = Some (\<exists>a \<in> set xs. cmp key (key_at (heap s) a) = 0)"
proof -
  obtain ps rs where xs: "xs = ps @ rs" and split: "\<forall>a \<in> set ps. cmp (key_at (heap s) a) key < 0"
    "\<forall>a \<in> set rs. \<not> cmp (key_at (heap s) a) key < 0"
    by (rule split_at_key [OF assms])
  have ok: "ok (key_at (heap s) a)" if "a \<in> set xs" for a
    using rep that by (simp add: sl_view_def)
  have ne: "cmp key (key_at (heap s) a) \<noteq> 0" if "a \<in> set ps" for a
    using split(1) that ok [of a] \<open>ok key\<close> cmp_eq_sym xs by force
  have find: "FindGreaterOrEqual cmp s key None = Some (first rs, None)"
    using FindGreaterOrEqual_eq [of H s ps rs key None] rep split xs by simp
  show ?thesis
  proof (cases rs)
    case Nil
    then show ?thesis
      using find ne xs by (auto simp: SkipList_Contains_def)
  next
    case (Cons r rs')
    then have "r \<in> set xs"
      using xs by simp
    then have r: "r \<noteq> 0" "Node_key (heap s) r = Some (key_at (heap s) r)"
      by (rule sl_rep_node [OF rep])+
    have "cmp key (key_at (heap s) a) \<noteq> 0" if a: "a \<in> set rs'" for a
    proof -
      have "cmp (key_at (heap s) r) (key_at (heap s) a) < 0"
        using rep a xs Cons by (simp add: sl_view_def sorted_wrt_append)
      moreover have "cmp key (key_at (heap s) r) \<le> 0"
        using split(2) Cons ok [of r] xs \<open>ok key\<close> cmp_le_flip by force
      ultimately have "cmp key (key_at (heap s) a) < 0"
        using cmp_le_less_trans [of key "key_at (heap s) r" "key_at (heap s) a"]
          ok [of r] ok [of a] xs Cons a \<open>ok key\<close> by simp
      then show ?thesis by simp
    qed
    then have "(\<exists>a \<in> set xs. cmp key (key_at (heap s) a) = 0) \<longleftrightarrow> cmp key (key_at (heap s) r) = 0"
      using ne xs Cons by auto
    then show ?thesis
      using find r Cons by (simp add: SkipList_Contains_def Equal_def)
  qed
qed

text \<open>Insertion puts one node between those before the key and those after it.\<close>

lemma Insert_eq:
  assumes rep: "sl_rep ok cmp s xs" and key: "ok key"
    and new: "\<forall>a \<in> set xs. cmp key (key_at (heap s) a) \<noteq> 0"
    and alloc: "node_alloc_ok node_size new_char (arena s)"
  obtains s' ps rs x where "SkipList_Insert cmp node_size new_char key s = Some s'"
    and "xs = ps @ rs" and "\<forall>a \<in> set ps. cmp (key_at (heap s) a) key < 0"
    and "\<forall>a \<in> set rs. \<not> cmp (key_at (heap s) a) key < 0"
    and "sl_rep ok cmp s' (ps @ x # rs)"
    and "key_at (heap s') x = key" and "\<forall>a \<in> set xs. key_at (heap s') a = key_at (heap s) a"
proof -
  obtain ps rs where xs: "xs = ps @ rs" and split: "\<forall>a \<in> set ps. cmp (key_at (heap s) a) key < 0"
    "\<forall>a \<in> set rs. \<not> cmp (key_at (heap s) a) key < 0"
    by (rule split_at_key [OF rep key])
  let ?h = "heap s" and ?hd = "head s" and ?mh = "max_height s"
  note ch = sl_rep_search(1) [OF rep]
  have facts: "height ?h ?hd = kMaxHeight" "distinct (?hd # ps @ rs)" "1 \<le> ?mh" "?mh \<le> kMaxHeight"
    "\<forall>a \<in> set xs. height ?h a \<le> ?mh" "valid_seed (rnd s)" "nodes_in_arena s"
    using rep xs by (auto simp: sl_view_def)
  let ?f = "\<lambda>l. last (?hd # tall (height ?h) l ps)"
  \<comment> \<open>the search\<close>
  obtain prev where down: "fill_down ?f (Some (replicate kMaxHeight None)) (?mh - 1) = Some prev"
    "length prev = kMaxHeight" "\<And>l. l \<le> ?mh - 1 \<Longrightarrow> prev ! l = Some (?f l)"
    by (rule fill_down_Some [of "?mh - 1" "replicate kMaxHeight None" ?f]) (use facts(3,4) in auto)
  have find: "FindGreaterOrEqual cmp s key (Some (replicate kMaxHeight None)) = Some (first rs, Some prev)"
    using FindGreaterOrEqual_eq [of "height ?h" s ps rs key "Some (replicate kMaxHeight None)"] rep xs split down(1)
    by simp
  have dup: "(if first rs = 0 then Some False
      else map_option (\<lambda>k. Equal cmp key k) (Node_key ?h (first rs))) = Some False"
  proof (cases rs)
    case (Cons r rs')
    then show ?thesis
      using sl_rep_node [OF rep, of r] new xs by (simp add: Equal_def)
  qed simp
  \<comment> \<open>the height and the \<^verbatim>\<open>prev\<close> array above the old height\<close>
  obtain H r where H: "RandomHeight (rnd s) = Some (H, r)" "0 < H" "H \<le> kMaxHeight" "valid_seed r"
    by (rule RandomHeight_eq [OF facts(6)])
  obtain p where p: "(if GetMaxHeight s < H
      then map_option (\<lambda>p. (p, H)) (fill_prev prev [GetMaxHeight s..<H] ?hd)
      else Some (prev, ?mh)) = Some (p, max ?mh H)" "length p = kMaxHeight"
    "\<And>l. l < H \<Longrightarrow> p ! l = Some (?f l)"
    by (rule Insert_prev [OF facts(5) down(2,3) H(3)]) (use xs facts(3) in auto)
  \<comment> \<open>the node\<close>
  obtain live where live: "arena_inv live (arena s)" "\<forall>a \<in> dom ?h. \<exists>n > 0. (a, n) \<in> set live"
    using facts(7) by (auto simp: nodes_in_arena_def)
  obtain x a' live' where x: "NewNode node_size new_char key H ?h (arena s) =
      (x, ?h(x \<mapsto> \<lparr> nkey = key, nexts = replicate H None \<rparr>), a')" "x \<noteq> 0" "x \<notin> dom ?h"
    "arena_inv live' a'" "\<forall>b \<in> insert x (dom ?h). \<exists>n > 0. (b, n) \<in> set live'"
    by (rule NewNode_eq [OF live alloc H(2,3)])
  let ?h1 = "?h(x \<mapsto> \<lparr> nkey = key, nexts = replicate H None \<rparr>)"
  obtain h' where h': "Insert_links p x ?h1 [0..<H] = Some h'" "same_shape ?h1 h'"
    "chains (height h') h' ?hd (ps @ x # rs) kMaxHeight" "x \<notin> set (?hd # ps @ rs)"
    "\<forall>a \<in> set (?hd # xs). height h' a = height ?h a \<and> key_at h' a = key_at ?h a"
    "height h' x = H" "key_at h' x = key"
    by (rule Insert_chains [OF ch [unfolded xs] facts(1,2) H(2,3) p(2,3) x(2,3)]) (use xs in auto)
  let ?s' = "s \<lparr> heap := h', arena := a', max_height := max ?mh H, rnd := r \<rparr>"
  have ins: "SkipList_Insert cmp node_size new_char key s = Some ?s'"
    unfolding SkipList_Insert_def find bind.bind_lunit
    using dup H(1) p(1) x(1) h'(1) by simp
  have "dom h' = insert x (dom ?h)"
    using same_shape_dom [OF h'(2)] by simp
  then have nodes: "nodes_in_arena ?s'"
    using x(4,5) by (auto simp: nodes_in_arena_def)
  have okx: "\<forall>a \<in> set xs. ok (key_at ?h a)"
    using rep by (simp add: sl_view_def)
  have gt: "cmp key (key_at ?h a) < 0" if "a \<in> set rs" for a
    using that split(2) new xs okx key cmp_total [of key "key_at ?h a"] by auto
  have sorted: "sorted_wrt (\<lambda>a b. cmp (key_at h' a) (key_at h' b) < 0) (ps @ x # rs)"
  proof -
    have "sorted_wrt (\<lambda>a b. cmp (key_at ?h a) (key_at ?h b) < 0) (ps @ rs)"
      using rep xs by (simp add: sl_view_def)
    moreover have "\<forall>a \<in> set (ps @ rs). key_at h' a = key_at ?h a"
      using h'(5) xs by simp
    moreover from this have "sorted_wrt (\<lambda>a b. cmp (key_at h' a) (key_at h' b) < 0) (ps @ rs) =
        sorted_wrt (\<lambda>a b. cmp (key_at ?h a) (key_at ?h b) < 0) (ps @ rs)"
      by (intro sorted_wrt_cong_keys)
    ultimately show ?thesis
      using split(1) gt h'(7) by (simp add: sorted_wrt_append)
  qed
  have "sl_rep ok cmp ?s' (ps @ x # rs)"
    unfolding sl_view_def
    using h'(3-7) facts H(2-4) nodes sorted xs okx key by (auto simp: le_max_iff_disj)
  then show ?thesis
    using that ins xs split h'(5,7) by auto
qed

lemma split_keys:
  assumes "xs = ps @ rs" and "\<forall>a \<in> set ps. cmp (key_at (heap s) a) key < 0"
    and "\<forall>a \<in> set rs. \<not> cmp (key_at (heap s) a) key < 0"
  shows "takeWhile (\<lambda>k. cmp k key < 0) (sl_keys s xs) = sl_keys s ps"
    and "dropWhile (\<lambda>k. cmp k key < 0) (sl_keys s xs) = sl_keys s rs"
proof -
  have "takeWhile (\<lambda>k. cmp k key < 0) (sl_keys s rs) = []" "dropWhile (\<lambda>k. cmp k key < 0) (sl_keys s rs) = sl_keys s rs"
    using assms(3) by (cases rs; simp add: sl_keys_def)+
  then show "takeWhile (\<lambda>k. cmp k key < 0) (sl_keys s xs) = sl_keys s ps"
    and "dropWhile (\<lambda>k. cmp k key < 0) (sl_keys s xs) = sl_keys s rs"
    using assms(1,2) takeWhile_append2 [of "sl_keys s ps" "\<lambda>k. cmp k key < 0" "sl_keys s rs"]
      dropWhile_append2 [of "sl_keys s ps" "\<lambda>k. cmp k key < 0" "sl_keys s rs"]
    by (auto simp: sl_keys_def)
qed

lemma Insert_keys:
  assumes rep: "sl_rep ok cmp s xs" and key: "ok key"
    and new: "\<forall>k \<in> set (sl_keys s xs). cmp key k \<noteq> 0"
    and alloc: "node_alloc_ok node_size new_char (arena s)"
  obtains s' xs' where "SkipList_Insert cmp node_size new_char key s = Some s'" and "sl_rep ok cmp s' xs'"
    and "sl_keys s' xs' = takeWhile (\<lambda>k. cmp k key < 0) (sl_keys s xs) @
      key # dropWhile (\<lambda>k. cmp k key < 0) (sl_keys s xs)"
proof -
  have "\<forall>a \<in> set xs. cmp key (key_at (heap s) a) \<noteq> 0"
    using new by (simp add: sl_keys_def)
  from Insert_eq [OF rep key this alloc] obtain s' ps rs x where
    ins: "SkipList_Insert cmp node_size new_char key s = Some s'" "xs = ps @ rs"
    "\<forall>a \<in> set ps. cmp (key_at (heap s) a) key < 0" "\<forall>a \<in> set rs. \<not> cmp (key_at (heap s) a) key < 0"
    "sl_rep ok cmp s' (ps @ x # rs)" "key_at (heap s') x = key"
    "\<forall>a \<in> set xs. key_at (heap s') a = key_at (heap s) a"
    by metis
  have "sl_keys s' (ps @ x # rs) = sl_keys s ps @ key # sl_keys s rs"
    using ins(2,6,7) by (auto simp: sl_keys_def)
  then show ?thesis
    using that [OF ins(1,5)] split_keys [OF ins(2-4)] by simp
qed

lemma sl_rep_keys:
  assumes "sl_view H ok cmp s xs"
  shows "sorted_wrt (\<lambda>a b. cmp a b < 0) (sl_keys s xs)" and "\<forall>k \<in> set (sl_keys s xs). ok k"
  using assms by (simp_all add: sl_view_def sl_keys_def sorted_wrt_map)

text \<open>Iterator movements, by index into the list of nodes.\<close>

lemma iterator_eqs:
  assumes rep: "sl_view H ok cmp s xs"
  shows "SLIter_SeekToFirst s = Some (first xs)"
    and "SLIter_SeekToLast s = Some (if xs = [] then 0 else last xs)"
    and "i < length xs \<Longrightarrow> SLIter_Next s (xs ! i) = Some (first (drop (Suc i) xs))"
    and "i < length xs \<Longrightarrow> SLIter_Prev cmp s (xs ! i) = Some (if i = 0 then 0 else xs ! (i - 1))"
proof -
  note ch = sl_rep_search [OF rep]
  have path0: "path (heap s) 0 (head s) xs"
    using ch(1) tall_0 [of xs H] unfolding chains_def kMaxHeight_def by (metis zero_less_numeral)
  have hd0: "head s \<notin> set xs"
    using rep by (simp add: sl_view_def)
  show "SLIter_SeekToFirst s = Some (first xs)"
    using path_first [OF path0] by (simp add: SLIter_SeekToFirst_def)
  have "FindLast s = Some (last (head s # xs))"
    unfolding FindLast_def using ch by (intro FindLast_loop_eq) auto
  moreover have "xs \<noteq> [] \<Longrightarrow> last xs \<noteq> head s"
    using hd0 last_in_set [of xs] by metis
  ultimately show "SLIter_SeekToLast s = Some (if xs = [] then 0 else last xs)"
    by (simp add: SLIter_SeekToLast_def)
  assume i: "i < length xs"
  then have node: "xs ! i \<noteq> 0" "Node_key (heap s) (xs ! i) = Some (key_at (heap s) (xs ! i))"
    using sl_rep_node [OF rep] by simp_all
  have split: "xs = take i xs @ xs ! i # drop (Suc i) xs"
    using i by (rule id_take_nth_drop)
  have "path (heap s) 0 (xs ! i) (drop (Suc i) xs)"
    using path0 split path_suffix by metis
  then show "SLIter_Next s (xs ! i) = Some (first (drop (Suc i) xs))"
    using node path_first by (simp add: SLIter_Next_def SLIter_Valid_def)
  let ?key = "key_at (heap s) (xs ! i)"
  have sorted: "sorted_wrt (\<lambda>a b. cmp (key_at (heap s) a) (key_at (heap s) b) < 0) (take i xs @ xs ! i # drop (Suc i) xs)"
    using rep split by (simp add: sl_view_def)
  have ok: "\<forall>a \<in> set (take i xs @ xs ! i # drop (Suc i) xs). ok (key_at (heap s) a)"
    using rep split by (simp add: sl_view_def)
  have before: "\<forall>a \<in> set (take i xs). cmp (key_at (heap s) a) ?key < 0"
    using sorted by (simp add: sorted_wrt_append)
  have after: "\<forall>a \<in> set (xs ! i # drop (Suc i) xs). \<not> cmp (key_at (heap s) a) ?key < 0"
    using sorted ok cmp_refl cmp_flip by (fastforce simp: sorted_wrt_append)
  have "FindLessThan cmp s ?key = Some (last (head s # take i xs))"
    unfolding FindLessThan_def using ch split before after
    by (intro FindLessThan_loop_eq [where rs = "xs ! i # drop (Suc i) xs"]) auto
  moreover have "last (head s # take i xs) = (if i = 0 then head s else xs ! (i - 1))"
    using i by (auto simp: last_conv_nth)
  moreover have "i \<noteq> 0 \<Longrightarrow> xs ! (i - 1) \<noteq> head s"
    using hd0 i nth_mem [of "i - 1" xs] by (metis less_imp_diff_less)
  ultimately show "SLIter_Prev cmp s (xs ! i) = Some (if i = 0 then 0 else xs ! (i - 1))"
    using node by (simp add: SLIter_Prev_def SLIter_Valid_def)
qed

lemma Seek_eq:
  assumes rep: "sl_view H ok cmp s xs" and "ok key"
  shows "SLIter_Seek cmp s key = Some (first (drop (length (takeWhile (\<lambda>k. cmp k key < 0) (sl_keys s xs))) xs))"
proof -
  obtain ps rs where xs: "xs = ps @ rs" and split: "\<forall>a \<in> set ps. cmp (key_at (heap s) a) key < 0"
    "\<forall>a \<in> set rs. \<not> cmp (key_at (heap s) a) key < 0"
    by (rule split_at_key [OF assms])
  have "FindGreaterOrEqual cmp s key None = Some (first rs, None)"
    using FindGreaterOrEqual_eq [of H s ps rs key None] rep split xs by simp
  then show ?thesis
    using split_keys [OF xs split] xs by (simp add: SLIter_Seek_def sl_keys_def)
qed

end

subsection \<open>Sequences of insertions\<close>

text \<open>Each insertion comes with the behaviour of \<^verbatim>\<open>new char[]\<close> during it.\<close>

fun insert_all :: "('k \<Rightarrow> 'k \<Rightarrow> int) \<Rightarrow> nat \<Rightarrow> ((nat \<Rightarrow> nat) \<times> 'k) list \<Rightarrow> 'k SkipList \<Rightarrow> 'k SkipList option" where
  "insert_all cmp node_size [] s = Some s"
| "insert_all cmp node_size ((new_char, k) # ins) s = do {
     s \<leftarrow> SkipList_Insert cmp node_size new_char k s;
     insert_all cmp node_size ins s
   }"

fun inserts_alloc_ok :: "('k \<Rightarrow> 'k \<Rightarrow> int) \<Rightarrow> nat \<Rightarrow> ((nat \<Rightarrow> nat) \<times> 'k) list \<Rightarrow> 'k SkipList \<Rightarrow> bool" where
  "inserts_alloc_ok cmp node_size [] s = True"
| "inserts_alloc_ok cmp node_size ((new_char, k) # ins) s =
     (node_alloc_ok node_size new_char (arena s) \<and>
      (case SkipList_Insert cmp node_size new_char k s of
         None \<Rightarrow> True | Some s' \<Rightarrow> inserts_alloc_ok cmp node_size ins s'))"

context key_order
begin

lemma insert_all_keys:
  assumes "sl_rep ok cmp s xs" and "inserts_alloc_ok cmp node_size ins s"
    and "\<forall>k \<in> snd ` set ins. ok k" and "sorted_wrt (\<lambda>a b. cmp b a \<noteq> 0) (sl_keys s xs @ map snd ins)"
  shows "\<exists>s' xs'. insert_all cmp node_size ins s = Some s' \<and> sl_rep ok cmp s' xs' \<and>
    mset (sl_keys s' xs') = mset (sl_keys s xs) + mset (map snd ins)"
  using assms
proof (induction ins arbitrary: s xs)
  case (Cons i ins)
  obtain new_char key where i: "i = (new_char, key)"
    by (cases i)
  have new: "\<forall>k \<in> set (sl_keys s xs). cmp key k \<noteq> 0"
    using Cons.prems(4) i by (simp add: sorted_wrt_append)
  obtain s1 xs1 where ins: "SkipList_Insert cmp node_size new_char key s = Some s1" "sl_rep ok cmp s1 xs1"
    "sl_keys s1 xs1 = takeWhile (\<lambda>k. cmp k key < 0) (sl_keys s xs) @
      key # dropWhile (\<lambda>k. cmp k key < 0) (sl_keys s xs)"
    by (rule Insert_keys [OF Cons.prems(1) _ new, of node_size new_char]) (use Cons.prems(2,3) i in auto)
  have "mset (takeWhile (\<lambda>k. cmp k key < 0) (sl_keys s xs)) + mset (dropWhile (\<lambda>k. cmp k key < 0) (sl_keys s xs)) =
      mset (sl_keys s xs)"
    by (metis mset_append takeWhile_dropWhile_id)
  then have m: "mset (sl_keys s1 xs1) = mset (sl_keys s xs) + {#key#}"
    unfolding ins(3) by simp
  then have "set (sl_keys s1 xs1) = insert key (set (sl_keys s xs))"
    by (metis add_mset_add_single set_mset_add_mset_insert set_mset_mset)
  moreover have "sorted_wrt (\<lambda>a b. cmp b a \<noteq> 0) (sl_keys s1 xs1)"
  proof (rule sorted_wrt_mono_rel [OF _ sl_rep_keys(1) [OF ins(2)]])
    show "cmp b a \<noteq> 0" if "a \<in> set (sl_keys s1 xs1)" "b \<in> set (sl_keys s1 xs1)" "cmp a b < 0" for a b
      using that sl_rep_keys(2) [OF ins(2)] cmp_flip [of a b] by simp
  qed
  ultimately have "sorted_wrt (\<lambda>a b. cmp b a \<noteq> 0) (sl_keys s1 xs1 @ map snd ins)"
    using Cons.prems(4) i by (auto simp: sorted_wrt_append)
  then have "\<exists>s' xs'. insert_all cmp node_size ins s1 = Some s' \<and> sl_rep ok cmp s' xs' \<and>
      mset (sl_keys s' xs') = mset (sl_keys s1 xs1) + mset (map snd ins)"
    using Cons.prems(2,3) i ins by (intro Cons.IH) auto
  then show ?case
    using i ins(1) m by auto
qed auto

end

text \<open>A list on a fresh arena, for examples.\<close>

lemma example_alloc: "node_alloc_ok 16 (\<lambda>_. 4096) new_Arena"
  by (simp add: node_alloc_ok_def new_ok_def owned_def new_Arena_def kBlockSize_def kMaxHeight_def)

lemma new_SkipList_arena:
  "new_SkipList node_size new_char key0 a = Some s \<Longrightarrow>
   arena s = snd (AllocateAligned new_char (node_size + 8 * (kMaxHeight - 1)) a)"
  by (auto simp: new_SkipList_def NewNode_def bind_eq_Some_conv split: prod.splits)

lemma example_list:
  obtains s0 where "new_SkipList 16 (\<lambda>_. 4096) ([] :: bytes) new_Arena = Some s0"
    and "node_alloc_ok 16 (\<lambda>_. 16384) (arena s0)"
    and "sl_rep (\<lambda>_. True) (Compare BytewiseComparator) s0 []"
proof -
  obtain s0 where s0: "new_SkipList 16 (\<lambda>_. 4096) ([] :: bytes) new_Arena = Some s0"
    "sl_rep (\<lambda>_. True) (Compare BytewiseComparator) s0 []"
    by (rule new_SkipList_eq [OF arena_inv_new example_alloc])
  have "blocks (arena s0) = [(4096, 4096)]"
    unfolding new_SkipList_arena [OF s0(1)]
    by (simp add: AllocateAligned_def AllocateFallback_def AllocateNewBlock_def new_Arena_def
        kMaxHeight_def kBlockSize_def Let_def)
  then have "node_alloc_ok 16 (\<lambda>_. 16384) (arena s0)"
    by (auto simp: node_alloc_ok_def new_ok_def owned_def kBlockSize_def kMaxHeight_def)
  then show ?thesis
    using that s0 by blast
qed

subsection \<open>Properties\<close>

text \<open>C1: over any comparison that is an order, inserting keys that compare unequal to each other
  into a new skip list never fails an assertion, never dereferences a bad pointer and
  terminates; the chain of level 0 then holds exactly those keys in strictly increasing order,
  and \<^verbatim>\<open>Contains\<close> answers exactly whether a key that compares equal was inserted.\<close>

theorem SkipList_sorts_and_finds:
  assumes "key_order ok cmp" and "arena_inv live a" and "node_alloc_ok node_size new_char a"
    and "new_SkipList node_size new_char key0 a = Some s0" and "inserts_alloc_ok cmp node_size ins s0"
    and "\<forall>k \<in> snd ` set ins. ok k" and "sorted_wrt (\<lambda>a b. cmp b a \<noteq> 0) (map snd ins)"
  shows "\<exists>s xs. insert_all cmp node_size ins s0 = Some s \<and> sl_rep ok cmp s xs \<and>
    sorted_wrt (\<lambda>a b. cmp a b < 0) (sl_keys s xs) \<and> mset (sl_keys s xs) = mset (map snd ins) \<and>
    (\<forall>key. ok key \<longrightarrow> SkipList_Contains cmp s key = Some (\<exists>k \<in> snd ` set ins. cmp key k = 0))"
proof -
  have rep0: "sl_rep ok cmp s0 []"
    using new_SkipList_eq [OF assms(2,3), of key0 ok cmp] assms(4) by auto
  have "sorted_wrt (\<lambda>a b. cmp b a \<noteq> 0) (sl_keys s0 [] @ map snd ins)"
    using assms(7) by (simp add: sl_keys_def)
  from key_order.insert_all_keys [OF assms(1) rep0 assms(5,6) this] obtain s xs where
    s: "insert_all cmp node_size ins s0 = Some s" "sl_rep ok cmp s xs"
    "mset (sl_keys s xs) = mset (map snd ins)"
    by (auto simp: sl_keys_def)
  have "set (sl_keys s xs) = snd ` set ins"
    using s(3) by (metis list.set_map set_mset_mset)
  then have "(\<exists>a \<in> set xs. cmp key (key_at (heap s) a) = 0) \<longleftrightarrow> (\<exists>k \<in> snd ` set ins. cmp key k = 0)" for key
    by (metis (mono_tags, lifting) imageE imageI list.set_map sl_keys_def)
  then have "\<forall>key. ok key \<longrightarrow> SkipList_Contains cmp s key = Some (\<exists>k \<in> snd ` set ins. cmp key k = 0)"
    using key_order.Contains_eq [OF assms(1) s(2)] by presburger
  then show ?thesis
    using s key_order.sl_rep_keys(1) [OF assms(1) s(2)] by blast
qed

theorem SkipList_sorts_and_finds_witness:
  "\<exists>s0 s. new_SkipList 16 (\<lambda>_. 4096) ([] :: bytes) new_Arena = Some s0 \<and>
     insert_all (Compare BytewiseComparator) 16 [(\<lambda>_. 16384, ascii ''b'')] s0 = Some s \<and>
     SkipList_Contains (Compare BytewiseComparator) s (ascii ''b'') = Some True \<and>
     SkipList_Contains (Compare BytewiseComparator) s (ascii ''a'') = Some False"
proof -
  obtain s0 where s0: "new_SkipList 16 (\<lambda>_. 4096) ([] :: bytes) new_Arena = Some s0"
    "node_alloc_ok 16 (\<lambda>_. 16384) (arena s0)"
    by (rule example_list) blast
  have "inserts_alloc_ok (Compare BytewiseComparator) 16 [(\<lambda>_. 16384, ascii ''b'')] s0"
    using s0(2) by (auto split: option.split)
  from SkipList_sorts_and_finds [OF bytewise.key_order_axioms arena_inv_new example_alloc s0(1) this]
  show ?thesis
    using s0(1) by (auto simp: BytewiseComparator_def Slice_compare_def)
qed

text \<open>One insertion: the new list of keys is the old one with the key put before the first key
  that does not sort below it.\<close>

theorem SkipList_Insert_refines:
  assumes "key_order ok cmp" and "sl_rep ok cmp s xs" and "ok key"
    and "\<forall>k \<in> set (sl_keys s xs). cmp key k \<noteq> 0" and "node_alloc_ok node_size new_char (arena s)"
  shows "\<exists>s' xs'. SkipList_Insert cmp node_size new_char key s = Some s' \<and> sl_rep ok cmp s' xs' \<and>
    sl_keys s' xs' = takeWhile (\<lambda>k. cmp k key < 0) (sl_keys s xs) @
      key # dropWhile (\<lambda>k. cmp k key < 0) (sl_keys s xs)"
  using key_order.Insert_keys [OF assms] by metis

theorem SkipList_Insert_refines_witness:
  "\<exists>s0 s xs. new_SkipList 16 (\<lambda>_. 4096) ([] :: bytes) new_Arena = Some s0 \<and>
     SkipList_Insert (Compare BytewiseComparator) 16 (\<lambda>_. 16384) (ascii ''b'') s0 = Some s \<and>
     sl_keys s xs = [ascii ''b'']"
proof -
  obtain s0 where s0: "new_SkipList 16 (\<lambda>_. 4096) ([] :: bytes) new_Arena = Some s0"
    "node_alloc_ok 16 (\<lambda>_. 16384) (arena s0)" "sl_rep (\<lambda>_. True) (Compare BytewiseComparator) s0 []"
    by (rule example_list) blast
  have "sl_keys s0 [] = []"
    by (simp add: sl_keys_def)
  with SkipList_Insert_refines [OF bytewise.key_order_axioms s0(3), of "ascii ''b''" 16 "\<lambda>_. 16384"]
  show ?thesis
    using s0 by auto
qed

text \<open>C2: iterators walk the represented keys, also of an empty list: \<^verbatim>\<open>SeekToFirst\<close> and \<^verbatim>\<open>SeekToLast\<close> go to the ends and
  are valid afterwards exactly if the list is not empty, \<^verbatim>\<open>Seek\<close> goes to the first key that is not below the target
  and is not valid afterwards if there is none; at every entry the iterator is valid, \<^verbatim>\<open>key\<close> is the key there, and
  \<^verbatim>\<open>Next\<close> and \<^verbatim>\<open>Prev\<close> move by one and become invalid past the ends.\<close>

theorem SkipList_iterator_refines:
  assumes "key_order ok cmp" and "sl_rep ok cmp s xs" and "ok target"
  shows "(\<exists>n. SLIter_SeekToFirst s = Some n \<and> (SLIter_Valid n \<longleftrightarrow> xs \<noteq> []) \<and> (xs \<noteq> [] \<longrightarrow> n = xs ! 0)) \<and>
    (\<exists>n. SLIter_SeekToLast s = Some n \<and> (SLIter_Valid n \<longleftrightarrow> xs \<noteq> []) \<and> (xs \<noteq> [] \<longrightarrow> n = xs ! (length xs - 1))) \<and>
    (\<exists>n \<le> length xs. SLIter_Seek cmp s target = Some (if n < length xs then xs ! n else 0) \<and>
      (\<forall>j < n. cmp (sl_keys s xs ! j) target < 0) \<and> (n < length xs \<longrightarrow> \<not> cmp (sl_keys s xs ! n) target < 0)) \<and>
    (\<forall>i < length xs. SLIter_Valid (xs ! i) \<and> SLIter_key s (xs ! i) = Some (sl_keys s xs ! i) \<and>
      SLIter_Next s (xs ! i) = Some (if i + 1 < length xs then xs ! (i + 1) else 0) \<and>
      SLIter_Prev cmp s (xs ! i) = Some (if i = 0 then 0 else xs ! (i - 1))) \<and> \<not> SLIter_Valid 0"
proof -
  have first: "first (drop n xs) = (if n < length xs then xs ! n else 0)" for n
    by (auto simp: first_def split: list.splits) (metis drop_eq_Nil hd_drop_conv_nth leD list.sel(1))+
  have node: "SLIter_Valid (xs ! i)" "SLIter_key s (xs ! i) = Some (sl_keys s xs ! i)" if "i < length xs" for i
    using sl_rep_node [OF assms(2)] that by (simp_all add: SLIter_key_def SLIter_Valid_def sl_keys_def)
  note eqs = key_order.iterator_eqs [OF assms(1,2)]
  have ends: "SLIter_SeekToFirst s = Some (if xs = [] then 0 else xs ! 0)"
    "SLIter_SeekToLast s = Some (if xs = [] then 0 else xs ! (length xs - 1))"
    using eqs(1,2) first [of 0] by (auto simp: last_conv_nth)
  let ?Q = "\<lambda>k. cmp k target < 0"
  let ?n = "length (takeWhile ?Q (sl_keys s xs))"
  have "?n \<le> length xs" and "\<forall>j < ?n. ?Q (sl_keys s xs ! j)"
    and "?n < length xs \<longrightarrow> \<not> ?Q (sl_keys s xs ! ?n)"
    using length_takeWhile_le [of ?Q "sl_keys s xs"] nth_length_takeWhile [of ?Q "sl_keys s xs"]
      set_takeWhileD [of _ ?Q "sl_keys s xs"] takeWhile_nth [of _ ?Q "sl_keys s xs"]
      nth_mem [of _ "takeWhile ?Q (sl_keys s xs)"]
    by auto
  moreover have "SLIter_Seek cmp s target = Some (if ?n < length xs then xs ! ?n else 0)"
    using key_order.Seek_eq [OF assms] first [of ?n] by simp
  moreover have "SLIter_Next s (xs ! i) = Some (if i + 1 < length xs then xs ! (i + 1) else 0)"
    "SLIter_Prev cmp s (xs ! i) = Some (if i = 0 then 0 else xs ! (i - 1))" if "i < length xs" for i
    using eqs(3,4) [OF that] first [of "Suc i"] by auto
  moreover have "\<not> SLIter_Valid 0"
    by (simp add: SLIter_Valid_def)
  ultimately show ?thesis
    using ends node node(1) [of 0] node(1) [of "length xs - 1"] by auto
qed

theorem SkipList_iterator_refines_witness:
  "\<exists>s0 :: bytes SkipList. SLIter_SeekToLast s0 = Some 0 \<and>
    (\<exists>s xs. length xs = 1 \<and> sl_keys s xs = [ascii ''b''] \<and> SLIter_SeekToFirst s = Some (xs ! 0) \<and>
     SLIter_Next s (xs ! 0) = Some 0 \<and> SLIter_Prev (Compare BytewiseComparator) s (xs ! 0) = Some 0)"
proof -
  obtain s0 where s0: "node_alloc_ok 16 (\<lambda>_. 16384) (arena s0)"
    "sl_rep (\<lambda>_. True) (Compare BytewiseComparator) s0 []"
    by (rule example_list) blast
  obtain s xs where s: "sl_rep (\<lambda>_. True) (Compare BytewiseComparator) s xs" "sl_keys s xs = [ascii ''b'']"
    by (rule bytewise.Insert_keys [OF s0(2) _ _ s0(1), of "ascii ''b''"]) (auto simp: sl_keys_def)
  have "length xs = 1"
    using s(2) length_sl_keys [of s xs] by simp
  moreover have "SLIter_SeekToLast s0 = Some 0"
    using SkipList_iterator_refines [OF bytewise.key_order_axioms s0(2), where target = "ascii ''b''"]
    by (auto simp: SLIter_Valid_def)
  ultimately show ?thesis
    using SkipList_iterator_refines [OF bytewise.key_order_axioms s(1), where target = "ascii ''b''"] s(2)
    by (intro exI [of _ s0] conjI exI [of _ s] exI [of _ xs]) auto
qed

end
