(* ===== verification/SkipListConc.thy ===== *)
theory SkipListConc
  imports SkipList
begin

text \<open>
  One writer and any number of readers of a skip list of \<^verbatim>\<open>memtable/skiplist.h\<close> at the same time. The
  atomic pointers and \<^verbatim>\<open>max_height_\<close> are there for this: insertions are synchronised by their
  callers, readers are not. \<^verbatim>\<open>Insert\<close> is cut into steps with at most one store to memory that readers
  see, the searches into steps with one load of a \<^verbatim>\<open>next_\<close> pointer, and the steps interleave in any
  order. Loads and stores are sequentially consistent; \<^verbatim>\<open>max_height_\<close> is the exception, which a
  reader may see with any value from 1 up to the current one, as stale values are allowed.
\<close>

subsection \<open>The writer\<close>

text \<open>
  Where an insertion stands: before its search, before the store to \<^verbatim>\<open>max_height_\<close>, before the
  allocation of the node, and before the two stores of a turn \<open>i\<close> of the last loop. The
  random state and \<^verbatim>\<open>prev\<close> are private to \<^verbatim>\<open>Insert\<close>.
\<close>

datatype 'k writer =
    Idle
  | WFind 'k "nat \<Rightarrow> nat"
  | WHeight 'k "nat \<Rightarrow> nat" "nat option list" nat
  | WNode 'k "nat \<Rightarrow> nat" "nat option list" nat
  | WLink "nat option list" nat nat nat
  | WPublish "nat option list" nat nat nat

fun writer_step ::
    "('k \<Rightarrow> 'k \<Rightarrow> int) \<Rightarrow> nat \<Rightarrow> 'k writer \<Rightarrow> 'k SkipList \<Rightarrow> ('k writer \<times> 'k SkipList) option" where
  "writer_step cmp node_size Idle s = Some (Idle, s)"
| "writer_step cmp node_size (WFind key new_char) s = do {
     (x, prev) \<leftarrow> FindGreaterOrEqual cmp s key (Some (replicate kMaxHeight None));
     prev \<leftarrow> prev;
     dup \<leftarrow> (if x = 0 then Some False else map_option (\<lambda>k. Equal cmp key k) (Node_key (heap s) x));
     asserting (\<not> dup) (do {
       (ht, r) \<leftarrow> RandomHeight (rnd s);
       Some (WHeight key new_char prev ht, s \<lparr> rnd := r \<rparr>)
     })
   }"
| "writer_step cmp node_size (WHeight key new_char prev ht) s =
     (if GetMaxHeight s < ht
      then do {
        prev \<leftarrow> fill_prev prev [GetMaxHeight s..<ht] (head s);
        Some (WNode key new_char prev ht, s \<lparr> max_height := ht \<rparr>)
      }
      else Some (WNode key new_char prev ht, s))"
| "writer_step cmp node_size (WNode key new_char prev ht) s =
     (let (x, h, a) = NewNode node_size new_char key ht (heap s) (arena s)
      in Some (WLink prev x ht 0, s \<lparr> heap := h, arena := a \<rparr>))"
| "writer_step cmp node_size (WLink prev x ht i) s =
     (if i < ht
      then do {
        p \<leftarrow> asserting (i < length prev) (prev ! i);
        nxt \<leftarrow> NoBarrier_Next (heap s) p i;
        h \<leftarrow> NoBarrier_SetNext (heap s) x i nxt;
        Some (WPublish prev x ht i, s \<lparr> heap := h \<rparr>)
      }
      else Some (Idle, s))"
| "writer_step cmp node_size (WPublish prev x ht i) s = do {
     p \<leftarrow> asserting (i < length prev) (prev ! i);
     h \<leftarrow> Node_SetNext (heap s) p i x;
     Some (WLink prev x ht (i + 1), s \<lparr> heap := h \<rparr>)
   }"

text \<open>The steps left to take.\<close>

fun writer_rank :: "'k writer \<Rightarrow> nat" where
  "writer_rank Idle = 0"
| "writer_rank (WFind key new_char) = 2 * kMaxHeight + 4"
| "writer_rank (WHeight key new_char prev ht) = 2 * ht + 3"
| "writer_rank (WNode key new_char prev ht) = 2 * ht + 2"
| "writer_rank (WLink prev x ht i) = 2 * (ht - i) + 1"
| "writer_rank (WPublish prev x ht i) = 2 * (ht - (i + 1)) + 2"

lemma writer_step_rank:
  "writer_step cmp node_size w s = Some (w', s') \<Longrightarrow> w \<noteq> Idle \<Longrightarrow> writer_rank w' < writer_rank w"
  by (cases w)
    (auto simp: bind_eq_Some_conv asserting_def RandomHeight_def Let_def split: if_splits prod.splits)

text \<open>A writer that runs alone until it is done.\<close>

function writer_run :: "('k \<Rightarrow> 'k \<Rightarrow> int) \<Rightarrow> nat \<Rightarrow> 'k writer \<Rightarrow> 'k SkipList \<Rightarrow> 'k SkipList option" where
  "writer_run cmp node_size w s =
     (if w = Idle then Some s
      else do {
        (w, s) \<leftarrow> writer_step cmp node_size w s;
        writer_run cmp node_size w s
      })"
  by pat_completeness auto
termination
  by (relation "measure (\<lambda>(cmp, node_size, w, s). writer_rank w)") (auto dest: writer_step_rank)

declare writer_run.simps [simp del]

lemma writer_run_Idle [simp]: "writer_run cmp node_size Idle s = Some s"
  by (simp add: writer_run.simps)

lemma writer_run_step:
  "w \<noteq> Idle \<Longrightarrow> writer_run cmp node_size w s =
     do { (w, s) \<leftarrow> writer_step cmp node_size w s; writer_run cmp node_size w s }"
  by (subst writer_run.simps) simp

lemma writer_run_links:
  "i \<le> ht \<Longrightarrow> writer_run cmp node_size (WLink prev x ht i) s =
     map_option (\<lambda>h. s \<lparr> heap := h \<rparr>) (Insert_links prev x (heap s) [i..<ht])"
proof (induction "ht - i" arbitrary: i s)
  case 0
  then show ?case
    by (simp add: writer_run_step)
next
  case (Suc n)
  then have i: "i < ht" "Suc i \<le> ht" "n = ht - Suc i" by simp_all
  have rest: "writer_run cmp node_size (WLink prev x ht (Suc i)) s' =
      map_option (\<lambda>h. s' \<lparr> heap := h \<rparr>) (Insert_links prev x (heap s') [Suc i..<ht])" for s'
    using Suc.hyps(1) i by blast
  show ?case
    using i(1) by (auto simp: upt_conv_Cons writer_run_step rest asserting_def split: Option.bind_splits)
qed

lemma writer_run_node:
  "writer_run cmp node_size (WNode key new_char prev ht) s =
     (let (x, h, a) = NewNode node_size new_char key ht (heap s) (arena s)
      in map_option (\<lambda>h. s \<lparr> arena := a, heap := h \<rparr>) (Insert_links prev x h [0..<ht]))"
  by (subst writer_run_step) (auto simp: writer_run_links Let_def option.map_comp comp_def split: prod.split)

lemma writer_run_height:
  "writer_run cmp node_size (WHeight key new_char prev ht) s =
     do {
       (prev, mh) \<leftarrow> (if GetMaxHeight s < ht
          then map_option (\<lambda>p. (p, ht)) (fill_prev prev [GetMaxHeight s..<ht] (head s))
          else Some (prev, max_height s));
       writer_run cmp node_size (WNode key new_char prev ht) (s \<lparr> max_height := mh \<rparr>)
     }"
  by (subst writer_run_step) (auto split: Option.bind_split)

text \<open>The steps of the writer, taken one after the other, are exactly \<^verbatim>\<open>Insert\<close>: they fail when
  it fails and leave the list that it leaves.\<close>

lemma writer_run_is_Insert:
  "writer_run cmp node_size (WFind key new_char) s = SkipList_Insert cmp node_size new_char key s"
proof (cases "FindGreaterOrEqual cmp s key (Some (replicate kMaxHeight None))")
  case None
  then show ?thesis
    by (simp add: SkipList_Insert_def writer_run_step)
next
  case (Some found)
  obtain x prev where found: "found = (x, prev)"
    by (cases found)
  show ?thesis
  proof (cases "prev = None \<or> (x \<noteq> 0 \<and> map_option (\<lambda>k. Equal cmp key k) (Node_key (heap s) x) \<noteq> Some False) \<or>
      RandomHeight (rnd s) = None")
    case True
    then show ?thesis
      using Some found by (subst writer_run_step) (auto simp: SkipList_Insert_def asserting_def split: Option.bind_splits)
  next
    case False
    then obtain p ht r where "prev = Some p" "RandomHeight (rnd s) = Some (ht, r)"
      by auto
    then show ?thesis
      using Some found False by (subst writer_run_step)
        (auto simp: SkipList_Insert_def writer_run_height writer_run_node asserting_def Let_def GetMaxHeight_def
          split: prod.split Option.bind_split)
  qed
qed

subsection \<open>The readers\<close>

text \<open>
  A reader is an iterator: it rests at its \<^verbatim>\<open>node_\<close>, or is inside the loop of
  \<^verbatim>\<open>FindGreaterOrEqual\<close>, \<^verbatim>\<open>FindLessThan\<close> or \<^verbatim>\<open>FindLast\<close> with the locals \<^verbatim>\<open>x\<close> and \<^verbatim>\<open>level\<close>.
  \<^verbatim>\<open>Contains\<close> is \<^verbatim>\<open>Seek\<close> and a comparison of keys, which never change.
\<close>

datatype 'k reader =
    At nat
  | Seeking 'k nat nat
  | Backing 'k nat nat
  | ToLast nat nat

datatype 'k command = CNext | CPrev | CSeek 'k | CSeekToFirst | CSeekToLast

text \<open>The start of a command at node \<open>n\<close>; \<open>mh\<close> is the value of \<^verbatim>\<open>max_height_\<close> the reader sees.\<close>

fun reader_start :: "'k SkipList \<Rightarrow> nat \<Rightarrow> 'k command \<Rightarrow> nat \<Rightarrow> 'k reader option" where
  "reader_start s mh CNext n = map_option At (SLIter_Next s n)"
| "reader_start s mh CPrev n =
     asserting (SLIter_Valid n) (map_option (\<lambda>k. Backing k (head s) (mh - 1)) (Node_key (heap s) n))"
| "reader_start s mh (CSeek target) n = Some (Seeking target (head s) (mh - 1))"
| "reader_start s mh CSeekToFirst n = map_option At (SLIter_SeekToFirst s)"
| "reader_start s mh CSeekToLast n = Some (ToLast (head s) (mh - 1))"

text \<open>One turn of the loop.\<close>

fun reader_step :: "('k \<Rightarrow> 'k \<Rightarrow> int) \<Rightarrow> 'k SkipList \<Rightarrow> 'k reader \<Rightarrow> 'k reader option" where
  "reader_step cmp s (At n) = Some (At n)"
| "reader_step cmp s (Seeking key x level) = do {
     nxt \<leftarrow> Node_Next (heap s) x level;
     after \<leftarrow> KeyIsAfterNode cmp (heap s) key nxt;
     Some (if after then Seeking key nxt level
           else if level = 0 then At nxt else Seeking key x (level - 1))
   }"
| "reader_step cmp s (Backing key x level) = do {
     before \<leftarrow> (if x = head s then Some True else map_option (\<lambda>k. cmp k key < 0) (Node_key (heap s) x));
     asserting before (do {
       nxt \<leftarrow> Node_Next (heap s) x level;
       stop \<leftarrow> (if nxt = 0 then Some True else map_option (\<lambda>k. cmp k key \<ge> 0) (Node_key (heap s) nxt));
       Some (if \<not> stop then Backing key nxt level
             else if level = 0 then At (if x = head s then 0 else x) else Backing key x (level - 1))
     })
   }"
| "reader_step cmp s (ToLast x level) = do {
     nxt \<leftarrow> Node_Next (heap s) x level;
     Some (if nxt \<noteq> 0 then ToLast nxt level
           else if level = 0 then At (if x = head s then 0 else x) else ToLast x (level - 1))
   }"

fun searching :: "'k reader \<Rightarrow> bool" where
  "searching (At n) \<longleftrightarrow> False"
| "searching r \<longleftrightarrow> True"

text \<open>The same operation without interruption, on the list as it is now.\<close>

fun atomic_result :: "('k \<Rightarrow> 'k \<Rightarrow> int) \<Rightarrow> 'k SkipList \<Rightarrow> 'k reader \<Rightarrow> nat option" where
  "atomic_result cmp s (At n) = Some n"
| "atomic_result cmp s (Seeking key x level) = SLIter_Seek cmp s key"
| "atomic_result cmp s (Backing key x level) =
     map_option (\<lambda>m. if m = head s then 0 else m) (FindLessThan cmp s key)"
| "atomic_result cmp s (ToLast x level) = SLIter_SeekToLast s"

subsection \<open>Interleavings\<close>

record 'k conc =
  clist :: "'k SkipList"
  cwriter :: "'k writer"
  creaders :: "nat \<Rightarrow> 'k reader"

datatype 'k action = BeginInsert 'k | WriterStep | BeginRead nat "'k command" | ReaderStep nat

text \<open>
  What a thread has to keep to: one insertion at a time, of a key that is not in the list;
  \<^verbatim>\<open>Next\<close> and \<^verbatim>\<open>Prev\<close> only at a valid position.
\<close>

fun command_ok :: "('k \<Rightarrow> bool) \<Rightarrow> 'k command \<Rightarrow> nat \<Rightarrow> bool" where
  "command_ok ok CNext n \<longleftrightarrow> SLIter_Valid n"
| "command_ok ok CPrev n \<longleftrightarrow> SLIter_Valid n"
| "command_ok ok (CSeek target) n \<longleftrightarrow> ok target"
| "command_ok ok CSeekToFirst n \<longleftrightarrow> True"
| "command_ok ok CSeekToLast n \<longleftrightarrow> True"

inductive conc_step ::
    "('k \<Rightarrow> bool) \<Rightarrow> ('k \<Rightarrow> 'k \<Rightarrow> int) \<Rightarrow> nat \<Rightarrow> 'k action \<Rightarrow> 'k conc \<Rightarrow> 'k conc \<Rightarrow> bool"
  for ok cmp node_size where
  begin_insert:
    "\<lbrakk> cwriter c = Idle; ok key; SkipList_Contains cmp (clist c) key = Some False;
       node_alloc_ok node_size new_char (arena (clist c)) \<rbrakk> \<Longrightarrow>
     conc_step ok cmp node_size (BeginInsert key) c (c \<lparr> cwriter := WFind key new_char \<rparr>)"
| writer_step:
    "\<lbrakk> cwriter c \<noteq> Idle; writer_step cmp node_size (cwriter c) (clist c) = Some (w, s) \<rbrakk> \<Longrightarrow>
     conc_step ok cmp node_size WriterStep c (c \<lparr> clist := s, cwriter := w \<rparr>)"
| begin_read:
    "\<lbrakk> creaders c r = At n; command_ok ok cmd n; 1 \<le> mh; mh \<le> max_height (clist c);
       reader_start (clist c) mh cmd n = Some rd \<rbrakk> \<Longrightarrow>
     conc_step ok cmp node_size (BeginRead r cmd) c (c \<lparr> creaders := (creaders c)(r := rd) \<rparr>)"
| reader_step:
    "\<lbrakk> searching (creaders c r); reader_step cmp (clist c) (creaders c r) = Some rd \<rbrakk> \<Longrightarrow>
     conc_step ok cmp node_size (ReaderStep r) c (c \<lparr> creaders := (creaders c)(r := rd) \<rparr>)"

inductive conc_steps ::
    "('k \<Rightarrow> bool) \<Rightarrow> ('k \<Rightarrow> 'k \<Rightarrow> int) \<Rightarrow> nat \<Rightarrow> 'k conc \<Rightarrow> 'k action list \<Rightarrow> 'k conc \<Rightarrow> bool"
  for ok cmp node_size c where
  steps_refl: "conc_steps ok cmp node_size c [] c"
| steps_snoc: "\<lbrakk> conc_steps ok cmp node_size c as c'; conc_step ok cmp node_size a c' c'' \<rbrakk> \<Longrightarrow>
     conc_steps ok cmp node_size c (as @ [a]) c''"

end
