(* ===== verification/SkipListReaders.thy ===== *)
theory SkipListReaders
  imports SkipListConc
begin

text \<open>
  The skip list is safe for readers while the writer is anywhere inside an insertion. The
  invariant is \<^term>\<open>sl_view\<close>: a node that is being inserted counts as linked at the levels that
  the writer has published so far, and the writer links the levels from the bottom up, so a
  reader that came to a node at one level can always go down from it.
\<close>

subsection \<open>Stores to the chains\<close>

lemma tall_upd [simp]: "x \<notin> set ps \<Longrightarrow> tall (H(x := i)) l ps = tall H l ps"
  unfolding tall_def by (rule filter_cong) auto

lemma chains_tall: "chains H h hd0 xs m \<Longrightarrow> l < m \<Longrightarrow> path h l hd0 (tall H l xs)"
  by (simp add: chains_def)

text \<open>The store to an entry that no chain runs through yet.\<close>

lemma chains_private_store:
  assumes ch: "chains H h hd0 xs m" and "H x \<le> i" and "x \<noteq> hd0" and shape: "same_shape h h'"
    and store: "\<And>z l. Node_Next h' z l = (if z = x \<and> l = i then Some y else Node_Next h z l)"
  shows "chains H h' hd0 xs m"
proof -
  have "path h' l hd0 (tall H l xs)" if "l < m" for l
  proof -
    have "path h' l hd0 (tall H l xs) = path h l hd0 (tall H l xs)"
      using assms(2,3) by (intro path_cong_on) (auto simp: store tall_def)
    then show ?thesis
      using chains_tall [OF ch that] by simp
  qed
  then show ?thesis
    using ch shape by (simp add: chains_def same_shape_def)
qed

text \<open>The store that publishes a node at one more level.\<close>

lemma chains_publish:
  assumes ch: "chains H h hd0 (ps @ (if i = 0 then [] else [x]) @ rs) m"
    and H: "H x = i" "i < m" "i < height h x"
    and x: "x \<noteq> 0" "x \<notin> set (hd0 # ps @ rs)" and dist: "distinct (hd0 # ps @ rs)"
    and shape: "same_shape h h'" and next_x: "Node_Next h x i = Some (first (tall H i rs))"
    and store: "\<And>z l. Node_Next h' z l =
      (if z = last (hd0 # tall H i ps) \<and> l = i then Some x else Node_Next h z l)"
  shows "chains (H(x := Suc i)) h' hd0 (ps @ x # rs) m"
proof -
  let ?H = "H(x := Suc i)"
  have new: "x \<notin> set ps" "x \<notin> set rs" "x \<noteq> hd0"
    using x(2) by auto
  have "path h' l hd0 (tall ?H l (ps @ x # rs))" if l: "l < m" for l
  proof (cases "l = i")
    case True
    have "path h i hd0 (tall H i ps @ tall H i rs)"
      using chains_tall [OF ch H(2)] H(1) by (simp split: if_splits)
    then have "path h' i hd0 (tall H i ps @ x # tall H i rs)"
    proof (rule path_insert)
      show "distinct (hd0 # tall H i ps @ tall H i rs)"
        using dist set_tall [of H i ps] set_tall [of H i rs] by (auto simp: tall_def)
      show "x \<notin> set (hd0 # tall H i ps @ tall H i rs)"
        using x(2) set_tall [of H i ps] set_tall [of H i rs] by auto
      show "Node_Next h' z i = (if z = last (hd0 # tall H i ps) then Some x
          else if z = x then Some (first (tall H i rs)) else Node_Next h z i)" for z
        using next_x by (simp add: store)
    qed
    then show ?thesis
      using True new by simp
  next
    case False
    have "path h' l hd0 ys = path h l hd0 ys" for ys
      using False by (intro path_cong) (simp add: store)
    moreover have "tall ?H l (ps @ x # rs) = tall H l (ps @ (if i = 0 then [] else [x]) @ rs)"
      using False new H(1) by auto
    ultimately show ?thesis
      using chains_tall [OF ch l] by simp
  qed
  moreover have "0 \<notin> set (ps @ x # rs)"
    using ch x(1) by (auto simp: chains_def)
  moreover have "\<forall>a \<in> set (ps @ x # rs). 0 < ?H a \<and> ?H a \<le> height h' a"
    using ch H(3) shape by (auto simp: chains_def same_shape_def)
  ultimately show ?thesis
    by (simp add: chains_def)
qed

text \<open>Stores keep the rest of the view.\<close>

lemma chains_dom: "chains H h hd0 xs m \<Longrightarrow> a \<in> set xs \<Longrightarrow> a \<in> dom h"
  by (fastforce simp: chains_def height_def split: option.splits)

lemma sl_view_store:
  assumes view: "sl_view H ok cmp s xs" and shape: "same_shape (heap s) h'"
    and ch: "chains H' h' (head s) xs' kMaxHeight" and "distinct (head s # xs')"
    and "\<forall>a \<in> set xs'. H' a \<le> max_height s"
    and "sorted_wrt (\<lambda>a b. cmp (key_at (heap s) a) (key_at (heap s) b) < 0) xs'"
    and "\<forall>a \<in> set xs'. ok (key_at (heap s) a)"
  shows "sl_view H' ok cmp (s \<lparr> heap := h' \<rparr>) xs'"
proof -
  have dom: "dom h' = dom (heap s)"
    using shape by (rule same_shape_dom)
  then have key: "\<forall>a \<in> set xs'. key_at h' a = key_at (heap s) a"
    using same_shape_key_at [OF shape] chains_dom [OF ch] by blast
  then have "sorted_wrt (\<lambda>a b. cmp (key_at h' a) (key_at h' b) < 0) xs'"
    using assms(6) sorted_wrt_cong_keys [OF key, of "\<lambda>a b. cmp a b < 0"] by blast
  then show ?thesis
    using view ch assms(4,5,7) key dom shape
    by (simp add: sl_view_def nodes_in_arena_def same_shape_def)
qed

subsection \<open>The invariant of the writer\<close>

text \<open>Where the key goes, and what \<^verbatim>\<open>prev\<close> holds below the height \<open>n\<close>.\<close>

definition key_between :: "('k \<Rightarrow> bool) \<Rightarrow> ('k \<Rightarrow> 'k \<Rightarrow> int) \<Rightarrow> 'k heap \<Rightarrow> nat list \<Rightarrow> 'k \<Rightarrow> nat list \<Rightarrow> bool" where
  "key_between ok cmp h ps key rs \<longleftrightarrow> ok key \<and>
     (\<forall>a \<in> set ps. cmp (key_at h a) key < 0) \<and> (\<forall>a \<in> set rs. cmp key (key_at h a) < 0)"

definition prev_ok :: "nat \<Rightarrow> (nat \<Rightarrow> nat) \<Rightarrow> nat list \<Rightarrow> nat option list \<Rightarrow> nat \<Rightarrow> bool" where
  "prev_ok hd0 H ps prev n \<longleftrightarrow> length prev = kMaxHeight \<and>
     (\<forall>l < n. prev ! l = Some (last (hd0 # tall H l ps)))"

text \<open>The node \<open>x\<close> of height \<open>n\<close> is linked at the levels below \<open>i\<close>.\<close>

definition linked_to ::
    "('k \<Rightarrow> bool) \<Rightarrow> ('k \<Rightarrow> 'k \<Rightarrow> int) \<Rightarrow> 'k SkipList \<Rightarrow> (nat \<Rightarrow> nat) \<Rightarrow>
     nat option list \<Rightarrow> nat \<Rightarrow> nat \<Rightarrow> nat \<Rightarrow> nat list \<Rightarrow> nat list \<Rightarrow> bool" where
  "linked_to ok cmp s H prev x n i ps rs \<longleftrightarrow>
     x \<noteq> 0 \<and> x \<notin> set (head s # ps @ rs) \<and> height (heap s) x = n \<and> 0 < n \<and> n \<le> max_height s \<and>
     H = (height (heap s))(x := i) \<and> prev_ok (head s) H ps prev n \<and>
     key_between ok cmp (heap s) ps (key_at (heap s) x) rs"

fun writer_inv ::
    "('k \<Rightarrow> bool) \<Rightarrow> ('k \<Rightarrow> 'k \<Rightarrow> int) \<Rightarrow> nat \<Rightarrow> 'k writer \<Rightarrow> 'k SkipList \<Rightarrow> nat list \<Rightarrow> (nat \<Rightarrow> nat) \<Rightarrow> bool" where
  "writer_inv ok cmp node_size Idle s xs H \<longleftrightarrow> H = height (heap s)"
| "writer_inv ok cmp node_size (WFind key new_char) s xs H \<longleftrightarrow>
     H = height (heap s) \<and> node_alloc_ok node_size new_char (arena s) \<and>
     (\<exists>ps rs. xs = ps @ rs \<and> key_between ok cmp (heap s) ps key rs)"
| "writer_inv ok cmp node_size (WHeight key new_char prev n) s xs H \<longleftrightarrow>
     H = height (heap s) \<and> node_alloc_ok node_size new_char (arena s) \<and> 0 < n \<and> n \<le> kMaxHeight \<and>
     (\<exists>ps rs. xs = ps @ rs \<and> key_between ok cmp (heap s) ps key rs \<and>
        prev_ok (head s) H ps prev (max_height s))"
| "writer_inv ok cmp node_size (WNode key new_char prev n) s xs H \<longleftrightarrow>
     H = height (heap s) \<and> node_alloc_ok node_size new_char (arena s) \<and> 0 < n \<and> n \<le> max_height s \<and>
     (\<exists>ps rs. xs = ps @ rs \<and> key_between ok cmp (heap s) ps key rs \<and> prev_ok (head s) H ps prev n)"
| "writer_inv ok cmp node_size (WLink prev x n i) s xs H \<longleftrightarrow> i \<le> n \<and>
     (\<exists>ps rs. xs = ps @ (if i = 0 then [] else [x]) @ rs \<and> linked_to ok cmp s H prev x n i ps rs)"
| "writer_inv ok cmp node_size (WPublish prev x n i) s xs H \<longleftrightarrow> i < n \<and>
     (\<exists>ps rs. xs = ps @ (if i = 0 then [] else [x]) @ rs \<and> linked_to ok cmp s H prev x n i ps rs \<and>
        Node_Next (heap s) x i = Some (first (tall H i rs)))"

text \<open>What a step of the writer keeps, seen from a reader.\<close>

definition grows ::
    "'k SkipList \<Rightarrow> nat list \<Rightarrow> (nat \<Rightarrow> nat) \<Rightarrow> 'k SkipList \<Rightarrow> nat list \<Rightarrow> (nat \<Rightarrow> nat) \<Rightarrow> bool" where
  "grows s xs H s' xs' H' \<longleftrightarrow> head s' = head s \<and> set xs \<subseteq> set xs' \<and>
     (\<forall>a \<in> set xs. H a \<le> H' a \<and> key_at (heap s') a = key_at (heap s) a)"

lemma grows_refl [simp]: "grows s xs H s xs H"
  by (simp add: grows_def)

text \<open>The key of an insertion that has not reached level 0 yet.\<close>

fun pending :: "'k writer \<Rightarrow> 'k SkipList \<Rightarrow> 'k list" where
  "pending Idle s = []"
| "pending (WFind key new_char) s = [key]"
| "pending (WHeight key new_char prev n) s = [key]"
| "pending (WNode key new_char prev n) s = [key]"
| "pending (WLink prev x n i) s = (if i = 0 then [key_at (heap s) x] else [])"
| "pending (WPublish prev x n i) s = (if i = 0 then [key_at (heap s) x] else [])"

text \<open>A step of the writer: it does not fail, and it keeps the invariant and all the keys.\<close>

definition writer_step_ok ::
    "('k \<Rightarrow> bool) \<Rightarrow> ('k \<Rightarrow> 'k \<Rightarrow> int) \<Rightarrow> nat \<Rightarrow> 'k writer \<Rightarrow> 'k SkipList \<Rightarrow> nat list \<Rightarrow> (nat \<Rightarrow> nat) \<Rightarrow> bool" where
  "writer_step_ok ok cmp node_size w s xs H \<longleftrightarrow>
     (\<exists>w' s' xs' H'. writer_step cmp node_size w s = Some (w', s') \<and> sl_view H' ok cmp s' xs' \<and>
        writer_inv ok cmp node_size w' s' xs' H' \<and> grows s xs H s' xs' H' \<and>
        mset (sl_keys s' xs') + mset (pending w' s') = mset (sl_keys s xs) + mset (pending w s))"

lemma writer_step_okI:
  assumes "writer_step cmp node_size w s = Some (w', s')" and "sl_view H' ok cmp s' xs'"
    and "writer_inv ok cmp node_size w' s' xs' H'" and "grows s xs H s' xs' H'"
    and "mset (sl_keys s' xs') + mset (pending w' s') = mset (sl_keys s xs) + mset (pending w s)"
  shows "writer_step_ok ok cmp node_size w s xs H"
  using assms unfolding writer_step_ok_def by blast

context key_order
begin

text \<open>A key that the list does not hold goes between two parts of it.\<close>

lemma key_between_split:
  assumes view: "sl_view H ok cmp s xs" and "ok key" and "\<forall>a \<in> set xs. cmp key (key_at (heap s) a) \<noteq> 0"
  obtains ps rs where "xs = ps @ rs" and "key_between ok cmp (heap s) ps key rs"
proof -
  obtain ps rs where xs: "xs = ps @ rs" and split: "\<forall>a \<in> set ps. cmp (key_at (heap s) a) key < 0"
    "\<forall>a \<in> set rs. \<not> cmp (key_at (heap s) a) key < 0"
    by (rule split_at_key [OF view \<open>ok key\<close>])
  have "cmp key (key_at (heap s) a) < 0" if "a \<in> set rs" for a
    using that split(2) assms(2,3) xs view cmp_total [of key "key_at (heap s) a"] by (auto simp: sl_view_def)
  then show ?thesis
    using that xs split(1) \<open>ok key\<close> by (simp add: key_between_def)
qed

lemma key_between_after:
  assumes "key_between ok cmp h ps key rs" and "\<forall>a \<in> set rs. ok (key_at h a)" and "a \<in> set rs"
  shows "\<not> cmp (key_at h a) key < 0" and "cmp key (key_at h a) \<noteq> 0"
  using assms cmp_flip [of key "key_at h a"] by (auto simp: key_between_def)

lemma WFind_ok:
  assumes view: "sl_view H ok cmp s xs" and inv: "writer_inv ok cmp node_size (WFind key new_char) s xs H"
  shows "writer_step_ok ok cmp node_size (WFind key new_char) s xs H"
proof -
  from inv obtain ps rs where xs: "xs = ps @ rs" and btw: "key_between ok cmp (heap s) ps key rs"
    and H: "H = height (heap s)" and alloc: "node_alloc_ok node_size new_char (arena s)"
    by auto
  have facts: "1 \<le> max_height s" "max_height s \<le> kMaxHeight" "valid_seed (rnd s)"
    "\<forall>a \<in> set rs. ok (key_at (heap s) a)"
    using view xs by (auto simp: sl_view_def)
  let ?f = "\<lambda>l. last (head s # tall H l ps)"
  obtain prev where down: "fill_down ?f (Some (replicate kMaxHeight None)) (max_height s - 1) = Some prev"
    "length prev = kMaxHeight" "\<And>l. l \<le> max_height s - 1 \<Longrightarrow> prev ! l = Some (?f l)"
    by (rule fill_down_Some [of "max_height s - 1" "replicate kMaxHeight None" ?f]) (use facts(1,2) in auto)
  have find: "FindGreaterOrEqual cmp s key (Some (replicate kMaxHeight None)) = Some (first rs, Some prev)"
    using FindGreaterOrEqual_eq [of H s ps rs key "Some (replicate kMaxHeight None)"] view xs down(1)
      key_between_after(1) [OF btw facts(4)] btw by (simp add: key_between_def)
  have dup: "(if first rs = 0 then Some False
      else map_option (\<lambda>k. Equal cmp key k) (Node_key (heap s) (first rs))) = Some False"
  proof (cases rs)
    case (Cons r rs')
    then show ?thesis
      using sl_rep_node [OF view, of r] key_between_after(2) [OF btw facts(4), of r] xs by (simp add: Equal_def)
  qed simp
  obtain n r where n: "RandomHeight (rnd s) = Some (n, r)" "0 < n" "n \<le> kMaxHeight" "valid_seed r"
    by (rule RandomHeight_eq [OF facts(3)])
  show ?thesis
  proof (rule writer_step_okI)
    show "writer_step cmp node_size (WFind key new_char) s = Some (WHeight key new_char prev n, s \<lparr> rnd := r \<rparr>)"
      using find dup n(1) by simp
    show "sl_view H ok cmp (s \<lparr> rnd := r \<rparr>) xs"
      using view n(4) by (simp add: sl_view_def nodes_in_arena_def)
    have "prev_ok (head s) H ps prev (max_height s)"
      using down(2,3) by (simp add: prev_ok_def)
    then show "writer_inv ok cmp node_size (WHeight key new_char prev n) (s \<lparr> rnd := r \<rparr>) xs H"
      using H alloc n(2,3) xs btw by auto
  qed (simp_all add: grows_def sl_keys_def)
qed

lemma WHeight_ok:
  assumes view: "sl_view H ok cmp s xs" and inv: "writer_inv ok cmp node_size (WHeight key new_char prev n) s xs H"
  shows "writer_step_ok ok cmp node_size (WHeight key new_char prev n) s xs H"
proof -
  from inv obtain ps rs where xs: "xs = ps @ rs" and btw: "key_between ok cmp (heap s) ps key rs"
    and H: "H = height (heap s)" and alloc: "node_alloc_ok node_size new_char (arena s)"
    and n: "0 < n" "n \<le> kMaxHeight" and prev: "prev_ok (head s) H ps prev (max_height s)"
    by auto
  have facts: "1 \<le> max_height s" "\<forall>a \<in> set xs. height (heap s) a \<le> max_height s"
    using view by (auto simp: sl_view_def H)
  obtain p where p: "(if GetMaxHeight s < n
      then map_option (\<lambda>p. (p, n)) (fill_prev prev [GetMaxHeight s..<n] (head s))
      else Some (prev, max_height s)) = Some (p, max (max_height s) n)"
    "length p = kMaxHeight" "\<And>l. l < n \<Longrightarrow> p ! l = Some (last (head s # tall H l ps))"
    unfolding H
    by (rule Insert_prev [OF facts(2) _ _ n(2), of prev "head s" ps])
      (use prev xs facts(1) in \<open>auto simp: prev_ok_def H\<close>)
  let ?s = "s \<lparr> max_height := max (max_height s) n \<rparr>"
  show ?thesis
  proof (rule writer_step_okI)
    show "writer_step cmp node_size (WHeight key new_char prev n) s = Some (WNode key new_char p n, ?s)"
      using p(1) by (auto simp: GetMaxHeight_def max_def split: if_splits)
    show "sl_view H ok cmp ?s xs"
      using view n(2) by (auto simp: sl_view_def nodes_in_arena_def)
    show "writer_inv ok cmp node_size (WNode key new_char p n) ?s xs H"
      using H alloc n(1) xs btw p(2,3) by (auto simp: prev_ok_def)
  qed (simp_all add: grows_def sl_keys_def)
qed

lemma WNode_ok:
  assumes view: "sl_view H ok cmp s xs" and inv: "writer_inv ok cmp node_size (WNode key new_char prev n) s xs H"
  shows "writer_step_ok ok cmp node_size (WNode key new_char prev n) s xs H"
proof -
  from inv obtain ps rs where xs: "xs = ps @ rs" and btw: "key_between ok cmp (heap s) ps key rs"
    and H: "H = height (heap s)" and alloc: "node_alloc_ok node_size new_char (arena s)"
    and n: "0 < n" "n \<le> max_height s" and prev: "prev_ok (head s) H ps prev n"
    by auto
  let ?h = "heap s"
  have facts: "chains H ?h (head s) xs kMaxHeight" "height ?h (head s) = kMaxHeight" "n \<le> kMaxHeight"
    "nodes_in_arena s"
    using view n(2) by (auto simp: sl_view_def)
  obtain live where live: "arena_inv live (arena s)" "\<forall>a \<in> dom ?h. \<exists>n > 0. (a, n) \<in> set live"
    using facts(4) by (auto simp: nodes_in_arena_def)
  obtain x a' live' where x: "NewNode node_size new_char key n ?h (arena s) =
      (x, ?h(x \<mapsto> \<lparr> nkey = key, nexts = replicate n None \<rparr>), a')" "x \<noteq> 0" "x \<notin> dom ?h"
    "arena_inv live' a'" "\<forall>b \<in> insert x (dom ?h). \<exists>n > 0. (b, n) \<in> set live'"
    by (rule NewNode_eq [OF live alloc n(1) facts(3)])
  let ?h1 = "?h(x \<mapsto> \<lparr> nkey = key, nexts = replicate n None \<rparr>)" and ?H = "H(x := 0)"
  let ?s = "s \<lparr> heap := ?h1, arena := a' \<rparr>"
  have "0 < height ?h (head s)"
    by (simp add: facts(2) kMaxHeight_def)
  then have "head s \<in> dom ?h"
    by (auto simp: height_def split: option.splits)
  then have new: "x \<notin> set (head s # xs)"
    using chains_dom [OF facts(1)] x(3) by auto
  then have key: "key_at ?h1 a = key_at ?h a" "height ?h1 a = height ?h a" if "a \<in> set (head s # xs)" for a
    using that by (auto simp: key_at_def height_def)
  have ht: "height ?h1 = (height ?h)(x := n)"
    by (auto simp: height_def)
  show ?thesis
  proof (rule writer_step_okI)
    show "writer_step cmp node_size (WNode key new_char prev n) s = Some (WLink prev x n 0, ?s)"
      using x(1) by simp
    have "path ?h1 l (head s) (tall H l xs) = path ?h l (head s) (tall H l xs)" for l
      using new set_tall [of H l xs] by (intro path_cong_on) (auto simp: Node_Next_def)
    then have "chains ?H ?h1 (head s) xs kMaxHeight"
      using facts(1) new by (auto simp: chains_def ht)
    moreover have "nodes_in_arena ?s"
      using x(4,5) by (auto simp: nodes_in_arena_def)
    moreover have "sorted_wrt (\<lambda>a b. cmp (key_at ?h1 a) (key_at ?h1 b) < 0) xs"
      using view key sorted_wrt_cong_keys [of xs "key_at ?h1" "key_at ?h" "\<lambda>a b. cmp a b < 0"]
      by (simp add: sl_view_def)
    ultimately show "sl_view ?H ok cmp ?s xs"
      using view key new by (auto simp: sl_view_def ht)
    have "key_between ok cmp ?h1 ps (key_at ?h1 x) rs"
      using btw key new xs by (auto simp: key_between_def key_at_def)
    moreover have "prev_ok (head s) ?H ps prev n"
      using prev new xs by (simp add: prev_ok_def)
    ultimately have "linked_to ok cmp ?s ?H prev x n 0 ps rs"
      using x(2) new xs n by (simp add: linked_to_def ht H)
    then show "writer_inv ok cmp node_size (WLink prev x n 0) ?s xs ?H"
      using xs by auto
    show "grows s xs H ?s xs ?H"
      using key new by (auto simp: grows_def)
    show "mset (sl_keys ?s xs) + mset (pending (WLink prev x n 0) ?s) =
        mset (sl_keys s xs) + mset (pending (WNode key new_char prev n) s)"
      using key by (simp add: sl_keys_def key_at_def cong: map_cong)
  qed
qed

text \<open>What the two stores of a turn need.\<close>

lemma linked_to_prev:
  assumes view: "sl_view H ok cmp s xs" and link: "linked_to ok cmp s H prev x n i ps rs" and "i < n"
  shows "i < length prev" and "prev ! i = Some (last (head s # tall H i ps))"
    and "i < height (heap s) (last (head s # tall H i ps))" and "i < kMaxHeight"
proof -
  have n: "n \<le> kMaxHeight"
    using view link by (auto simp: sl_view_def linked_to_def)
  then show "i < kMaxHeight" and "i < length prev" and "prev ! i = Some (last (head s # tall H i ps))"
    using link assms(3) by (auto simp: linked_to_def prev_ok_def)
  let ?y = "last (head s # tall H i ps)"
  have H: "H a = height (heap s) a" if "a \<in> set ps" for a
    using that link by (auto simp: linked_to_def)
  have "height (heap s) (head s) = kMaxHeight"
    using view by (simp add: sl_view_def)
  with last_tall [of "head s" H i ps] show "i < height (heap s) ?y"
    using H [of ?y] n assms(3) by (metis less_le_trans)
qed

lemma WLink_ok:
  assumes view: "sl_view H ok cmp s xs" and inv: "writer_inv ok cmp node_size (WLink prev x n i) s xs H"
  shows "writer_step_ok ok cmp node_size (WLink prev x n i) s xs H"
proof -
  from inv obtain ps rs where xs: "xs = ps @ (if i = 0 then [] else [x]) @ rs"
    and link: "linked_to ok cmp s H prev x n i ps rs" and i: "i \<le> n"
    by auto
  have x: "H x = i" "x \<noteq> head s" "height (heap s) x = n"
    using link by (auto simp: linked_to_def)
  show ?thesis
  proof (cases "i < n")
    case False
    then have "H = height (heap s)" "i \<noteq> 0"
      using link i by (auto simp: linked_to_def)
    then show ?thesis
      using False view by (intro writer_step_okI [where w' = Idle and s' = s and xs' = xs and H' = H]) auto
  next
    case True
    note prev = linked_to_prev [OF view link True]
    let ?y = "first (tall H i rs)" and ?p = "last (head s # tall H i ps)"
    have ch: "chains H (heap s) (head s) xs kMaxHeight"
      using view by (simp add: sl_view_def)
    have "path (heap s) i (head s) (tall H i ps @ tall H i rs)"
      using chains_tall [OF ch prev(4)] xs x(1) by (simp split: if_splits)
    then have nxt: "Node_Next (heap s) ?p i = Some ?y"
      by (rule path_first [OF path_append])
    obtain h' where h': "Node_SetNext (heap s) x i ?y = Some h'" "same_shape (heap s) h'"
      "\<And>z l. Node_Next h' z l = (if z = x \<and> l = i then Some ?y else Node_Next (heap s) z l)"
      using SetNext_spec [of i "heap s" x ?y] x(3) True by metis
    have key: "key_at h' a = key_at (heap s) a" if "a \<in> set (x # xs)" for a
    proof (rule same_shape_key_at [OF h'(2)])
      have "0 < height (heap s) x"
        using x(3) True by simp
      then show "a \<in> dom (heap s)"
        using that chains_dom [OF ch] by (auto simp: height_def split: option.splits)
    qed
    let ?s = "s \<lparr> heap := h' \<rparr>"
    show ?thesis
    proof (rule writer_step_okI)
      show "writer_step cmp node_size (WLink prev x n i) s = Some (WPublish prev x n i, ?s)"
        using True prev(1,2) nxt h'(1) by (simp add: NoBarrier_Next_def NoBarrier_SetNext_def)
      show "sl_view H ok cmp ?s xs"
        by (rule sl_view_store [OF view h'(2) chains_private_store [OF ch _ x(2) h'(2,3)]])
          (use view x(1) in \<open>auto simp: sl_view_def\<close>)
      have "linked_to ok cmp ?s H prev x n i ps rs"
        using link key xs h'(2) by (auto simp: linked_to_def key_between_def same_shape_def)
      then show "writer_inv ok cmp node_size (WPublish prev x n i) ?s xs H"
        using True xs h'(3) by auto
      show "mset (sl_keys ?s xs) + mset (pending (WPublish prev x n i) ?s) =
          mset (sl_keys s xs) + mset (pending (WLink prev x n i) s)"
        using key by (simp add: sl_keys_def cong: map_cong)
    qed (use key in \<open>simp add: grows_def\<close>)
  qed
qed

lemma WPublish_ok:
  assumes view: "sl_view H ok cmp s xs" and inv: "writer_inv ok cmp node_size (WPublish prev x n i) s xs H"
  shows "writer_step_ok ok cmp node_size (WPublish prev x n i) s xs H"
proof -
  from inv obtain ps rs where xs: "xs = ps @ (if i = 0 then [] else [x]) @ rs"
    and link: "linked_to ok cmp s H prev x n i ps rs" and i: "i < n"
    and nxt: "Node_Next (heap s) x i = Some (first (tall H i rs))"
    by auto
  have x: "H x = i" "x \<notin> set (head s # ps @ rs)" "height (heap s) x = n" "x \<noteq> 0" "n \<le> max_height s"
    "key_between ok cmp (heap s) ps (key_at (heap s) x) rs" "i < height (heap s) x"
    using link i by (auto simp: linked_to_def)
  note prev = linked_to_prev [OF view link i]
  have ch: "chains H (heap s) (head s) (ps @ (if i = 0 then [] else [x]) @ rs) kMaxHeight"
    and dist: "distinct (head s # ps @ rs)"
    and sorted: "sorted_wrt (\<lambda>a b. cmp (key_at (heap s) a) (key_at (heap s) b) < 0) (ps @ rs)"
    and ok: "\<forall>a \<in> set (ps @ rs). ok (key_at (heap s) a) \<and> H a \<le> max_height s"
    using view xs by (auto simp: sl_view_def sorted_wrt_append split: if_splits)
  let ?p = "last (head s # tall H i ps)" and ?H = "H(x := Suc i)" and ?xs = "ps @ x # rs"
  obtain h' where h': "Node_SetNext (heap s) ?p i x = Some h'" "same_shape (heap s) h'"
    "\<And>z l. Node_Next h' z l = (if z = ?p \<and> l = i then Some x else Node_Next (heap s) z l)"
    using SetNext_spec [of i "heap s" ?p x] prev(3) by metis
  have ch': "chains ?H h' (head s) ?xs kMaxHeight"
    by (rule chains_publish [OF ch x(1) prev(4) x(7,4,2) dist h'(2) nxt h'(3)])
  have key: "key_at h' a = key_at (heap s) a" if "a \<in> set ?xs" for a
    using same_shape_key_at [OF h'(2)] chains_dom [OF ch' that] same_shape_dom [OF h'(2)] by simp
  let ?s = "s \<lparr> heap := h' \<rparr>"
  show ?thesis
  proof (rule writer_step_okI)
    show "writer_step cmp node_size (WPublish prev x n i) s = Some (WLink prev x n (i + 1), ?s)"
      using prev(1,2) h'(1) by simp
    show "sl_view ?H ok cmp ?s ?xs"
    proof (rule sl_view_store [OF view h'(2) ch'])
      show "distinct (head s # ?xs)"
        using dist x(2) by auto
      show "\<forall>a \<in> set ?xs. ?H a \<le> max_height s" and "\<forall>a \<in> set ?xs. ok (key_at (heap s) a)"
        using ok i x(5,6) by (auto simp: key_between_def)
      show "sorted_wrt (\<lambda>a b. cmp (key_at (heap s) a) (key_at (heap s) b) < 0) ?xs"
        using sorted x(6) by (auto simp: sorted_wrt_append key_between_def)
    qed
    have ht: "height h' = height (heap s)"
      using h'(2) by (simp add: same_shape_def)
    have "linked_to ok cmp ?s ?H prev x n (i + 1) ps rs"
      using link key x(2) by (auto simp: linked_to_def key_between_def prev_ok_def ht)
    then show "writer_inv ok cmp node_size (WLink prev x n (i + 1)) ?s ?xs ?H"
      using i by auto
    show "grows s xs H ?s ?xs ?H"
      using key xs x(1) by (auto simp: grows_def)
    show "mset (sl_keys ?s ?xs) + mset (pending (WLink prev x n (i + 1)) ?s) =
        mset (sl_keys s xs) + mset (pending (WPublish prev x n i) s)"
      using key xs by (simp add: sl_keys_def cong: map_cong)
  qed
qed

lemma writer_step_inv:
  assumes "sl_view H ok cmp s xs" and "writer_inv ok cmp node_size w s xs H"
  shows "writer_step_ok ok cmp node_size w s xs H"
proof (cases w)
  case Idle
  then show ?thesis
    using assms by (intro writer_step_okI [where w' = Idle and s' = s and xs' = xs and H' = H]) auto
next
  case (WFind key new_char)
  show ?thesis
    unfolding WFind by (rule WFind_ok [OF assms [unfolded WFind]])
next
  case (WHeight key new_char prev n)
  show ?thesis
    unfolding WHeight by (rule WHeight_ok [OF assms [unfolded WHeight]])
next
  case (WNode key new_char prev n)
  show ?thesis
    unfolding WNode by (rule WNode_ok [OF assms [unfolded WNode]])
next
  case (WLink prev x n i)
  show ?thesis
    unfolding WLink by (rule WLink_ok [OF assms [unfolded WLink]])
next
  case (WPublish prev x n i)
  show ?thesis
    unfolding WPublish by (rule WPublish_ok [OF assms [unfolded WPublish]])
qed

end

subsection \<open>The invariant of a reader\<close>

definition on_chain :: "'k SkipList \<Rightarrow> nat list \<Rightarrow> (nat \<Rightarrow> nat) \<Rightarrow> nat \<Rightarrow> nat \<Rightarrow> bool" where
  "on_chain s xs H level x \<longleftrightarrow> level < kMaxHeight \<and> (x = head s \<or> x \<in> set xs \<and> level < H x)"

definition below :: "('k \<Rightarrow> 'k \<Rightarrow> int) \<Rightarrow> 'k SkipList \<Rightarrow> 'k \<Rightarrow> nat \<Rightarrow> bool" where
  "below cmp s key x \<longleftrightarrow> x = head s \<or> cmp (key_at (heap s) x) key < 0"

fun reader_inv ::
    "('k \<Rightarrow> bool) \<Rightarrow> ('k \<Rightarrow> 'k \<Rightarrow> int) \<Rightarrow> 'k SkipList \<Rightarrow> nat list \<Rightarrow> (nat \<Rightarrow> nat) \<Rightarrow> 'k reader \<Rightarrow> bool" where
  "reader_inv ok cmp s xs H (At n) \<longleftrightarrow> n = 0 \<or> n \<in> set xs"
| "reader_inv ok cmp s xs H (Seeking key x level) \<longleftrightarrow> ok key \<and> on_chain s xs H level x \<and> below cmp s key x"
| "reader_inv ok cmp s xs H (Backing key x level) \<longleftrightarrow> ok key \<and> on_chain s xs H level x \<and> below cmp s key x"
| "reader_inv ok cmp s xs H (ToLast x level) \<longleftrightarrow> on_chain s xs H level x"

lemma reader_inv_grows:
  assumes "reader_inv ok cmp s xs H r" and "grows s xs H s' xs' H'"
  shows "reader_inv ok cmp s' xs' H' r"
proof -
  have chain: "on_chain s' xs' H' l x" if "on_chain s xs H l x" for l x
    using that assms(2) unfolding on_chain_def grows_def by (metis less_le_trans subsetD)
  have below: "below cmp s' k x" if "on_chain s xs H l x" "below cmp s k x" for l k x
    using that assms(2) unfolding on_chain_def below_def grows_def by metis
  show ?thesis
    using assms chain below by (cases r) (auto simp: grows_def)
qed

text \<open>How far a search has come: the nodes up to where it stands, and the levels it has left.\<close>

definition node_rank :: "('k \<Rightarrow> 'k \<Rightarrow> int) \<Rightarrow> 'k SkipList \<Rightarrow> nat list \<Rightarrow> nat \<Rightarrow> nat" where
  "node_rank cmp s xs x = (if x = head s then 0
     else Suc (card {a \<in> set xs. cmp (key_at (heap s) a) (key_at (heap s) x) < 0}))"

fun reader_rank :: "('k \<Rightarrow> 'k \<Rightarrow> int) \<Rightarrow> 'k SkipList \<Rightarrow> nat list \<Rightarrow> 'k reader \<Rightarrow> nat" where
  "reader_rank cmp s xs (At n) = length xs + kMaxHeight + 1"
| "reader_rank cmp s xs (Seeking key x level) = node_rank cmp s xs x + (kMaxHeight - level)"
| "reader_rank cmp s xs (Backing key x level) = node_rank cmp s xs x + (kMaxHeight - level)"
| "reader_rank cmp s xs (ToLast x level) = node_rank cmp s xs x + (kMaxHeight - level)"

lemma node_rank_grows:
  assumes "grows s xs H s' xs' H'" and "x = head s \<or> x \<in> set xs"
  shows "node_rank cmp s xs x \<le> node_rank cmp s' xs' x"
proof (cases "x = head s")
  case False
  then have x: "x \<in> set xs" "x \<noteq> head s'"
    using assms by (auto simp: grows_def)
  have "{a \<in> set xs. cmp (key_at (heap s) a) (key_at (heap s) x) < 0} \<subseteq>
      {a \<in> set xs'. cmp (key_at (heap s') a) (key_at (heap s') x) < 0}"
    using assms(1) x(1) by (auto simp: grows_def)
  then show ?thesis
    using False x(2) by (simp add: node_rank_def card_mono)
qed (simp add: node_rank_def)

lemma reader_rank_grows:
  assumes "grows s xs H s' xs' H'" and "reader_inv ok cmp s xs H r" and "distinct xs"
  shows "reader_rank cmp s xs r \<le> reader_rank cmp s' xs' r"
proof -
  have "card (set xs) \<le> card (set xs')"
    using assms(1) by (intro card_mono) (auto simp: grows_def)
  then have "length xs \<le> length xs'"
    using assms(3) distinct_card card_length le_trans by metis
  moreover have "node_rank cmp s xs x \<le> node_rank cmp s' xs' x" if "on_chain s xs H l x" for l x
    using that assms(1) by (intro node_rank_grows) (auto simp: on_chain_def)
  ultimately show ?thesis
    using assms(2) by (cases r) auto
qed

text \<open>
  One load of a reader: it does not fail, it keeps the invariant and makes progress, and the
  load that ends a search gives the answer that the whole search would give at that moment.
\<close>

definition reader_step_ok ::
    "('k \<Rightarrow> bool) \<Rightarrow> ('k \<Rightarrow> 'k \<Rightarrow> int) \<Rightarrow> 'k SkipList \<Rightarrow> nat list \<Rightarrow> (nat \<Rightarrow> nat) \<Rightarrow> 'k reader \<Rightarrow> bool" where
  "reader_step_ok ok cmp s xs H r \<longleftrightarrow>
     (\<exists>r'. reader_step cmp s r = Some r' \<and> reader_inv ok cmp s xs H r' \<and>
        reader_rank cmp s xs r < reader_rank cmp s xs r' \<and> (\<forall>n. r' = At n \<longrightarrow> atomic_result cmp s r = Some n))"

lemma path_suffix_from:
  assumes "path h l hd0 (ys @ rest)" and "x \<in> set (hd0 # ys)"
  obtains as bs where "hd0 # ys = as @ x # bs" and "path h l x (bs @ rest)"
proof -
  obtain as bs where split: "hd0 # ys = as @ x # bs"
    using assms(2) by (meson split_list)
  have "path h l x (bs @ rest)"
  proof (cases as)
    case Nil
    then show ?thesis
      using split assms(1) by simp
  next
    case (Cons a as')
    then have "ys @ rest = as' @ x # bs @ rest"
      using split by simp
    then show ?thesis
      using path_suffix assms(1) by metis
  qed
  then show ?thesis
    using that split by blast
qed

context key_order
begin

lemma node_rank_bound:
  assumes "sl_view H ok cmp s xs" and "x = head s \<or> x \<in> set xs"
  shows "node_rank cmp s xs x \<le> length xs"
proof (cases "x = head s")
  case False
  have "{a \<in> set xs. cmp (key_at (heap s) a) (key_at (heap s) x) < 0} \<subset> set xs"
  proof
    have "x \<in> set xs" "ok (key_at (heap s) x)"
      using False assms by (auto simp: sl_view_def)
    then show "{a \<in> set xs. cmp (key_at (heap s) a) (key_at (heap s) x) < 0} \<noteq> set xs"
      using cmp_refl [of "key_at (heap s) x"] by (metis (mono_tags, lifting) less_irrefl mem_Collect_eq)
  qed blast
  then have "card {a \<in> set xs. cmp (key_at (heap s) a) (key_at (heap s) x) < 0} < card (set xs)"
    by (intro psubset_card_mono) simp
  also have "\<dots> \<le> length xs"
    by (rule card_length)
  finally show ?thesis
    using False by (simp add: node_rank_def)
qed (simp add: node_rank_def)

lemma reader_rank_bound:
  assumes view: "sl_view H ok cmp s xs" and inv: "reader_inv ok cmp s xs H r"
  shows "reader_rank cmp s xs r \<le> length xs + kMaxHeight + 1"
proof -
  have "node_rank cmp s xs x + (kMaxHeight - l) \<le> length xs + kMaxHeight + 1" if "on_chain s xs H l x" for l x
    using node_rank_bound [OF view, of x] that by (auto simp: on_chain_def)
  then show ?thesis
    using inv by (cases r) auto
qed

lemma node_rank_less:
  assumes view: "sl_view H ok cmp s xs" and y: "y \<in> set xs"
    and x: "x = head s \<or> x \<in> set xs \<and> cmp (key_at (heap s) x) (key_at (heap s) y) < 0"
  shows "node_rank cmp s xs x < node_rank cmp s xs y"
proof (cases "x = head s")
  case False
  let ?k = "key_at (heap s)"
  have ok: "ok (?k a)" if "a \<in> set xs" for a
    using view that by (simp add: sl_view_def)
  have "{a \<in> set xs. cmp (?k a) (?k x) < 0} \<subseteq> {a \<in> set xs. cmp (?k a) (?k y) < 0}"
    using x False y cmp_less_trans ok by blast
  moreover have "x \<in> {a \<in> set xs. cmp (?k a) (?k y) < 0}" "x \<notin> {a \<in> set xs. cmp (?k a) (?k x) < 0}"
    using x False cmp_refl ok by auto
  ultimately have "card {a \<in> set xs. cmp (?k a) (?k x) < 0} < card {a \<in> set xs. cmp (?k a) (?k y) < 0}"
    by (intro psubset_card_mono) auto
  moreover have "y \<noteq> head s"
    using view y by (auto simp: sl_view_def)
  ultimately show ?thesis
    using False by (simp add: node_rank_def)
next
  case True
  moreover have "y \<noteq> head s"
    using view y by (auto simp: sl_view_def)
  ultimately show ?thesis
    by (simp add: node_rank_def)
qed

text \<open>One turn of a loop over the nodes of \<open>ps\<close>: it moves on, or it is at the last of them.\<close>

lemma turn:
  assumes view: "sl_view H ok cmp s (ps @ rs)" and chain: "on_chain s ps H level x"
  obtains (move) y where "Node_Next (heap s) x level = Some y" and "y \<in> set ps" and "on_chain s ps H level y"
      and "node_rank cmp s (ps @ rs) x < node_rank cmp s (ps @ rs) y"
    | (down) "Node_Next (heap s) x level = Some (first (tall H level rs))" and "x = last (head s # tall H level ps)"
proof -
  have level: "level < kMaxHeight" and "x \<in> set (head s # tall H level ps)"
    using chain by (auto simp: on_chain_def tall_def)
  moreover have "path (heap s) level (head s) (tall H level ps @ tall H level rs)"
    using view level by (simp add: sl_view_def chains_def)
  ultimately obtain as bs where split: "head s # tall H level ps = as @ x # bs"
    and path: "path (heap s) level x (bs @ tall H level rs)"
    by (meson path_suffix_from)
  show ?thesis
  proof (cases bs)
    case Nil
    show ?thesis
    proof (rule down)
      show "Node_Next (heap s) x level = Some (first (tall H level rs))"
        using path_first [OF path] Nil by simp
      show "x = last (head s # tall H level ps)"
        unfolding split using Nil by simp
    qed
  next
    case (Cons y bs')
    have "y \<in> set (tall H level ps)"
      using split Cons by (cases as) auto
    then have y: "y \<in> set ps" "level < H y"
      by (auto simp: tall_def)
    have "sorted_wrt (\<lambda>a b. cmp (key_at (heap s) a) (key_at (heap s) b) < 0) ps"
      using view by (simp add: sl_view_def sorted_wrt_append)
    then have "sorted_wrt (\<lambda>a b. cmp (key_at (heap s) a) (key_at (heap s) b) < 0) (tall H level ps)"
      unfolding tall_def by (rule sorted_wrt_filter)
    moreover have "tall H level ps = tl as @ x # bs" if "as \<noteq> []"
      using split that by (cases as) auto
    ultimately have "x = head s \<or> cmp (key_at (heap s) x) (key_at (heap s) y) < 0"
      using split Cons by (cases "as = []") (auto simp: sorted_wrt_append)
    moreover have "x = head s \<or> x \<in> set (ps @ rs)"
      using chain by (auto simp: on_chain_def)
    ultimately have "node_rank cmp s (ps @ rs) x < node_rank cmp s (ps @ rs) y"
      using y by (intro node_rank_less [OF view]) auto
    then show ?thesis
      using move [of y] path Cons y level by (simp add: on_chain_def)
  qed
qed

lemma search_split:
  assumes view: "sl_view H ok cmp s xs" and "ok key" and chain: "on_chain s xs H level x" and "below cmp s key x"
  obtains ps rs where "xs = ps @ rs" and "\<forall>a \<in> set ps. cmp (key_at (heap s) a) key < 0"
    and "\<forall>a \<in> set rs. \<not> cmp (key_at (heap s) a) key < 0" and "on_chain s ps H level x"
proof -
  obtain ps rs where xs: "xs = ps @ rs" and split: "\<forall>a \<in> set ps. cmp (key_at (heap s) a) key < 0"
    "\<forall>a \<in> set rs. \<not> cmp (key_at (heap s) a) key < 0"
    by (rule split_at_key [OF view \<open>ok key\<close>])
  moreover have "on_chain s ps H level x"
    using chain assms(4) split xs by (auto simp: on_chain_def below_def)
  ultimately show ?thesis
    using that by blast
qed

text \<open>The first node of a chain that is not before the key.\<close>

lemma first_tall_node:
  assumes "sl_view H ok cmp s (ps @ rs)"
  shows "first (tall H l rs) = 0 \<or> first (tall H l rs) \<in> set rs \<and>
    Node_key (heap s) (first (tall H l rs)) = Some (key_at (heap s) (first (tall H l rs)))"
  using sl_rep_node(2) [OF assms, of "first (tall H l rs)"] set_tall [of H l rs]
  by (cases "tall H l rs") auto

lemma on_chain_down: "on_chain s xs H level x \<Longrightarrow> on_chain s xs H (level - 1) x"
  by (auto simp: on_chain_def)

lemma on_chain_append: "on_chain s ps H level x \<Longrightarrow> on_chain s (ps @ rs) H level x"
  by (auto simp: on_chain_def)

lemma first_on_list: "sl_view H ok cmp s (ps @ rs) \<Longrightarrow> tall H 0 rs = rs" "sl_view H ok cmp s (ps @ rs) \<Longrightarrow> tall H 0 ps = ps"
  by (auto simp: sl_view_def chains_def intro!: tall_0)

lemma Seeking_ok:
  assumes view: "sl_view H ok cmp s xs" and inv: "reader_inv ok cmp s xs H (Seeking key x level)"
  shows "reader_step_ok ok cmp s xs H (Seeking key x level)"
proof -
  have ok: "ok key" and chain: "on_chain s xs H level x" and "below cmp s key x"
    using inv by auto
  then obtain ps rs where xs: "xs = ps @ rs" and split: "\<forall>a \<in> set ps. cmp (key_at (heap s) a) key < 0"
    "\<forall>a \<in> set rs. \<not> cmp (key_at (heap s) a) key < 0" and chain': "on_chain s ps H level x"
    by (rule search_split [OF view])
  note view' = view [unfolded xs]
  have level: "level < kMaxHeight"
    using chain by (simp add: on_chain_def)
  from view' chain' show ?thesis
  proof (cases rule: turn)
    case (move y)
    have "y \<in> set xs"
      using move(2) xs by simp
    then have "KeyIsAfterNode cmp (heap s) key y = Some True"
      using sl_rep_node [OF view] move(2) split(1) by (simp add: KeyIsAfterNode_def)
    then show ?thesis
      using move split(1) ok on_chain_append [OF move(3), of rs] xs by (auto simp: reader_step_ok_def below_def)
  next
    case down
    have "KeyIsAfterNode cmp (heap s) key (first (tall H level rs)) = Some False"
      using first_tall_node [OF view', of level] split(2) by (auto simp: KeyIsAfterNode_def)
    then have step: "reader_step cmp s (Seeking key x level) =
        Some (if level = 0 then At (first (tall H level rs)) else Seeking key x (level - 1))"
      using down(1) by simp
    show ?thesis
    proof (cases "level = 0")
      case True
      have "SLIter_Seek cmp s key = Some (first rs)"
        using FindGreaterOrEqual_eq [OF view' split, of None] by (simp add: SLIter_Seek_def)
      moreover have "first rs = 0 \<or> first rs \<in> set xs"
        using xs by (cases rs) auto
      moreover have "node_rank cmp s xs x \<le> length xs"
        using node_rank_bound [OF view] chain by (auto simp: on_chain_def)
      ultimately show ?thesis
        using step True first_on_list(1) [OF view'] by (simp add: reader_step_ok_def)
    next
      case False
      then show ?thesis
        using step level inv on_chain_down [OF chain] by (simp add: reader_step_ok_def)
    qed
  qed
qed

lemma Backing_ok:
  assumes view: "sl_view H ok cmp s xs" and inv: "reader_inv ok cmp s xs H (Backing key x level)"
  shows "reader_step_ok ok cmp s xs H (Backing key x level)"
proof -
  have ok: "ok key" and chain: "on_chain s xs H level x" and bel: "below cmp s key x"
    using inv by auto
  then obtain ps rs where xs: "xs = ps @ rs" and split: "\<forall>a \<in> set ps. cmp (key_at (heap s) a) key < 0"
    "\<forall>a \<in> set rs. \<not> cmp (key_at (heap s) a) key < 0" and chain': "on_chain s ps H level x"
    by (rule search_split [OF view])
  note view' = view [unfolded xs]
  have level: "level < kMaxHeight"
    using chain by (simp add: on_chain_def)
  have before: "(if x = head s then Some True else map_option (\<lambda>k. cmp k key < 0) (Node_key (heap s) x)) = Some True"
    using bel chain sl_rep_node(2) [OF view, of x] by (auto simp: below_def on_chain_def)
  from view' chain' show ?thesis
  proof (cases rule: turn)
    case (move y)
    have "y \<in> set xs"
      using move(2) xs by simp
    then have "reader_step cmp s (Backing key x level) = Some (Backing key y level)"
      using before sl_rep_node [OF view, of y] move(1,2) split(1) by fastforce
    then show ?thesis
      using move split(1) ok on_chain_append [OF move(3), of rs] xs by (auto simp: reader_step_ok_def below_def)
  next
    case down
    have step: "reader_step cmp s (Backing key x level) =
        Some (if level = 0 then At (if x = head s then 0 else x) else Backing key x (level - 1))"
      using before down(1) first_tall_node [OF view', of level] split(2) by fastforce
    show ?thesis
    proof (cases "level = 0")
      case True
      have "FindLessThan cmp s key = Some (last (head s # ps))"
        unfolding FindLessThan_def using sl_rep_search [OF view'] split by (intro FindLessThan_loop_eq) auto
      moreover have "last (head s # ps) = x"
        using down(2) True first_on_list(2) [OF view'] by simp
      moreover have "node_rank cmp s xs x \<le> length xs"
        using node_rank_bound [OF view] chain by (auto simp: on_chain_def)
      moreover have "x = head s \<or> x \<in> set xs"
        using chain by (auto simp: on_chain_def)
      ultimately show ?thesis
        using step True by (auto simp: reader_step_ok_def)
    next
      case False
      then show ?thesis
        using step level inv on_chain_down [OF chain] by (simp add: reader_step_ok_def)
    qed
  qed
qed

lemma ToLast_ok:
  assumes view: "sl_view H ok cmp s xs" and chain: "on_chain s xs H level x"
  shows "reader_step_ok ok cmp s xs H (ToLast x level)"
proof -
  have view': "sl_view H ok cmp s (xs @ [])" and level: "level < kMaxHeight"
    using view chain by (simp_all add: on_chain_def)
  from view' chain show ?thesis
  proof (cases rule: turn)
    case (move y)
    then show ?thesis
      using sl_rep_node(1) [OF view, of y] by (auto simp: reader_step_ok_def)
  next
    case down
    have step: "reader_step cmp s (ToLast x level) =
        Some (if level = 0 then At (if x = head s then 0 else x) else ToLast x (level - 1))"
      using down(1) by simp
    show ?thesis
    proof (cases "level = 0")
      case True
      have "last (head s # xs) = x"
        using down(2) True first_on_list(2) [OF view'] by simp
      moreover have "x = head s \<longleftrightarrow> xs = []"
      proof (cases xs rule: rev_cases)
        case (snoc ys y)
        then show ?thesis
          using \<open>last (head s # xs) = x\<close> view by (auto simp: sl_view_def)
      qed (use \<open>last (head s # xs) = x\<close> in simp)
      moreover have "node_rank cmp s xs x \<le> length xs"
        using node_rank_bound [OF view] chain by (auto simp: on_chain_def)
      ultimately show ?thesis
        using step True iterator_eqs(2) [OF view] chain by (auto simp: reader_step_ok_def on_chain_def)
    next
      case False
      then show ?thesis
        using step level on_chain_down [OF chain] by (simp add: reader_step_ok_def)
    qed
  qed
qed

lemma reader_step_inv:
  assumes "sl_view H ok cmp s xs" and "reader_inv ok cmp s xs H r" and "searching r"
  obtains r' where "reader_step cmp s r = Some r'" and "reader_inv ok cmp s xs H r'"
    and "reader_rank cmp s xs r < reader_rank cmp s xs r'" and "\<And>n. r' = At n \<Longrightarrow> atomic_result cmp s r = Some n"
proof -
  have "reader_step_ok ok cmp s xs H r"
    using assms Seeking_ok Backing_ok ToLast_ok by (cases r) auto
  then show ?thesis
    using that unfolding reader_step_ok_def by blast
qed

end

subsection \<open>Reachable states\<close>

text \<open>A list at rest, with readers that have not moved yet.\<close>

definition conc_init :: "'k SkipList \<Rightarrow> 'k conc" where
  "conc_init s = \<lparr> clist = s, cwriter = Idle, creaders = (\<lambda>_. At new_SkipList_Iterator) \<rparr>"

definition conc_inv ::
    "('k \<Rightarrow> bool) \<Rightarrow> ('k \<Rightarrow> 'k \<Rightarrow> int) \<Rightarrow> nat \<Rightarrow> 'k conc \<Rightarrow> nat list \<Rightarrow> (nat \<Rightarrow> nat) \<Rightarrow> bool" where
  "conc_inv ok cmp node_size c xs H \<longleftrightarrow> sl_view H ok cmp (clist c) xs \<and>
     writer_inv ok cmp node_size (cwriter c) (clist c) xs H \<and>
     (\<forall>r. reader_inv ok cmp (clist c) xs H (creaders c r))"

lemma conc_inv_init: "sl_rep ok cmp s xs \<Longrightarrow> conc_inv ok cmp node_size (conc_init s) xs (height (heap s))"
  by (simp add: conc_inv_def conc_init_def new_SkipList_Iterator_def)

fun inserted :: "'k action list \<Rightarrow> 'k list" where
  "inserted [] = []"
| "inserted (BeginInsert key # as) = key # inserted as"
| "inserted (_ # as) = inserted as"

lemma inserted_append [simp]: "inserted (as @ bs) = inserted as @ inserted bs"
  by (induction as rule: inserted.induct) auto

text \<open>The keys in the list and the one on its way there.\<close>

definition conc_keys :: "'k conc \<Rightarrow> nat list \<Rightarrow> 'k multiset" where
  "conc_keys c xs = mset (sl_keys (clist c) xs) + mset (pending (cwriter c) (clist c))"

lemma grows_trans: "grows s xs H s' xs' H' \<Longrightarrow> grows s' xs' H' s'' xs'' H'' \<Longrightarrow> grows s xs H s'' xs'' H''"
  unfolding grows_def by (metis dual_order.trans subsetD)

text \<open>What an action does to the list and to the progress of reader \<open>r\<close>.\<close>

definition conc_step_ok ::
    "('k \<Rightarrow> bool) \<Rightarrow> ('k \<Rightarrow> 'k \<Rightarrow> int) \<Rightarrow> nat \<Rightarrow> 'k conc \<Rightarrow> nat list \<Rightarrow> (nat \<Rightarrow> nat) \<Rightarrow> 'k action list \<Rightarrow> 'k conc \<Rightarrow> bool" where
  "conc_step_ok ok cmp node_size c xs H as c' \<longleftrightarrow>
     (\<exists>xs' H'. conc_inv ok cmp node_size c' xs' H' \<and> grows (clist c) xs H (clist c') xs' H' \<and>
        conc_keys c' xs' = conc_keys c xs + mset (inserted as) \<and>
        (\<forall>r. (\<forall>cmd. BeginRead r cmd \<notin> set as) \<longrightarrow>
           reader_rank cmp (clist c) xs (creaders c r) + count_list as (ReaderStep r) \<le>
           reader_rank cmp (clist c') xs' (creaders c' r)))"

lemma conc_step_okI:
  assumes "conc_inv ok cmp node_size c' xs' H'" and "grows (clist c) xs H (clist c') xs' H'"
    and "conc_keys c' xs' = conc_keys c xs + mset (inserted as)"
    and "\<And>r. (\<forall>cmd. BeginRead r cmd \<notin> set as) \<Longrightarrow>
      reader_rank cmp (clist c) xs (creaders c r) + count_list as (ReaderStep r) \<le>
      reader_rank cmp (clist c') xs' (creaders c' r)"
  shows "conc_step_ok ok cmp node_size c xs H as c'"
  using assms unfolding conc_step_ok_def by blast

context key_order
begin

lemma reader_start_inv:
  assumes view: "sl_view H ok cmp s xs" and inv: "reader_inv ok cmp s xs H (At n)"
    and cmd: "command_ok ok cmd n" and mh: "1 \<le> mh" "mh \<le> max_height s"
  shows "\<exists>rd. reader_start s mh cmd n = Some rd \<and> reader_inv ok cmp s xs H rd"
proof -
  have chain: "on_chain s xs H (mh - 1) (head s)"
    using view mh by (auto simp: on_chain_def sl_view_def)
  have first: "first (drop i xs) = 0 \<or> first (drop i xs) \<in> set xs" for i
    using in_set_dropD [of _ i xs] by (cases "drop i xs") auto
  show ?thesis
  proof (cases cmd)
    case CNext
    then obtain i where "i < length xs" "n = xs ! i"
      using inv cmd by (auto simp: SLIter_Valid_def in_set_conv_nth)
    then show ?thesis
      using CNext iterator_eqs(3) [OF view] first by auto
  next
    case CPrev
    then have "n \<in> set xs"
      using inv cmd by (auto simp: SLIter_Valid_def)
    moreover from this have "ok (key_at (heap s) n)"
      using view by (simp add: sl_view_def)
    ultimately show ?thesis
      using CPrev cmd sl_rep_node(2) [OF view] chain by (auto simp: below_def)
  next
    case CSeekToFirst
    then show ?thesis
      using iterator_eqs(1) [OF view] first [of 0] by simp
  qed (use cmd chain in \<open>auto simp: below_def\<close>)
qed

lemma conc_step_inv:
  assumes inv: "conc_inv ok cmp node_size c xs H" and step: "conc_step ok cmp node_size a c c'"
  shows "conc_step_ok ok cmp node_size c xs H [a] c'"
proof -
  have view: "sl_view H ok cmp (clist c) xs" and winv: "writer_inv ok cmp node_size (cwriter c) (clist c) xs H"
    and rinv: "\<And>r. reader_inv ok cmp (clist c) xs H (creaders c r)"
    using inv by (auto simp: conc_inv_def)
  from step show ?thesis
  proof cases
    case (begin_insert key new_char)
    have "\<forall>a \<in> set xs. cmp key (key_at (heap (clist c)) a) \<noteq> 0"
      using Contains_eq [OF view begin_insert(4)] begin_insert(5) by auto
    then obtain ps rs where "xs = ps @ rs" "key_between ok cmp (heap (clist c)) ps key rs"
      by (rule key_between_split [OF view begin_insert(4)])
    then show ?thesis
      using begin_insert inv winv by (intro conc_step_okI [where xs' = xs and H' = H])
        (auto simp: conc_inv_def conc_keys_def)
  next
    case (writer_step w s)
    obtain xs' H' where s: "sl_view H' ok cmp s xs'" "writer_inv ok cmp node_size w s xs' H'"
      "grows (clist c) xs H s xs' H'"
      "mset (sl_keys s xs') + mset (pending w s) = mset (sl_keys (clist c) xs) + mset (pending (cwriter c) (clist c))"
      using writer_step_inv [OF view winv] writer_step(4) by (auto simp: writer_step_ok_def)
    have "distinct xs"
      using view by (simp add: sl_view_def)
    then show ?thesis
      using writer_step s reader_inv_grows [OF rinv s(3)] reader_rank_grows [OF s(3) rinv]
      by (intro conc_step_okI [where xs' = xs' and H' = H']) (auto simp: conc_inv_def conc_keys_def)
  next
    case (begin_read r n cmd mh rd)
    have "reader_inv ok cmp (clist c) xs H rd"
      using reader_start_inv [OF view rinv [of r, unfolded begin_read(3)] begin_read(4-6)] begin_read(7) by simp
    then show ?thesis
      using begin_read inv by (intro conc_step_okI [where xs' = xs and H' = H]) (auto simp: conc_inv_def conc_keys_def)
  next
    case (reader_step r rd)
    from view rinv reader_step(3) obtain rd' where "reader_step cmp (clist c) (creaders c r) = Some rd'"
      "reader_inv ok cmp (clist c) xs H rd'"
      "reader_rank cmp (clist c) xs (creaders c r) < reader_rank cmp (clist c) xs rd'"
      by (rule reader_step_inv)
    then show ?thesis
      using reader_step inv by (intro conc_step_okI [where xs' = xs and H' = H]) (auto simp: conc_inv_def conc_keys_def)
  qed
qed

lemma conc_steps_inv:
  assumes "conc_steps ok cmp node_size c as c'" and "conc_inv ok cmp node_size c xs H"
  shows "conc_step_ok ok cmp node_size c xs H as c'"
  using assms
proof (induction rule: conc_steps.induct)
  case steps_refl
  then show ?case
    by (intro conc_step_okI [where xs' = xs and H' = H]) (auto simp: conc_keys_def)
next
  case (steps_snoc as c' a c'')
  from steps_snoc.IH [OF steps_snoc.prems] obtain xs1 H1 where
    one: "conc_inv ok cmp node_size c' xs1 H1" "grows (clist c) xs H (clist c') xs1 H1"
    "conc_keys c' xs1 = conc_keys c xs + mset (inserted as)"
    "\<forall>r. (\<forall>cmd. BeginRead r cmd \<notin> set as) \<longrightarrow>
       reader_rank cmp (clist c) xs (creaders c r) + count_list as (ReaderStep r) \<le>
       reader_rank cmp (clist c') xs1 (creaders c' r)"
    unfolding conc_step_ok_def by blast
  from conc_step_inv [OF one(1) steps_snoc.hyps(2)] obtain xs2 H2 where
    two: "conc_inv ok cmp node_size c'' xs2 H2" "grows (clist c') xs1 H1 (clist c'') xs2 H2"
    "conc_keys c'' xs2 = conc_keys c' xs1 + mset (inserted [a])"
    "\<forall>r. (\<forall>cmd. BeginRead r cmd \<notin> set [a]) \<longrightarrow>
       reader_rank cmp (clist c') xs1 (creaders c' r) + count_list [a] (ReaderStep r) \<le>
       reader_rank cmp (clist c'') xs2 (creaders c'' r)"
    unfolding conc_step_ok_def by blast
  show ?case
  proof (rule conc_step_okI [OF two(1) grows_trans [OF one(2) two(2)]])
    show "conc_keys c'' xs2 = conc_keys c xs + mset (inserted (as @ [a]))"
      using one(3) two(3) by simp
    show "reader_rank cmp (clist c) xs (creaders c r) + count_list (as @ [a]) (ReaderStep r) \<le>
        reader_rank cmp (clist c'') xs2 (creaders c'' r)"
      if "\<forall>cmd. BeginRead r cmd \<notin> set (as @ [a])" for r
      using one(4) [rule_format, of r] two(4) [rule_format, of r] that by fastforce
  qed
qed

end

subsection \<open>Properties\<close>

lemma sl_view_level0: "sl_view H ok cmp s xs \<Longrightarrow> path (heap s) 0 (head s) xs"
  using tall_0 [of xs H] unfolding sl_view_def chains_def kMaxHeight_def by (metis zero_less_numeral)

text \<open>A chain of level 0 is determined by the heap.\<close>

lemma path_unique: "path h l x ys \<Longrightarrow> path h l x zs \<Longrightarrow> 0 \<notin> set ys \<Longrightarrow> 0 \<notin> set zs \<Longrightarrow> ys = zs"
proof (induction ys arbitrary: x zs)
  case Nil
  then show ?case
    by (cases zs) auto
next
  case (Cons y ys)
  then show ?case
    by (cases zs) auto
qed

text \<open>The states that a list at rest comes to.\<close>

lemma reachable_inv:
  assumes "key_order ok cmp" and "sl_rep ok cmp s xs" and "conc_steps ok cmp node_size (conc_init s) as c"
  obtains xs' H' where "conc_inv ok cmp node_size c xs' H'"
    and "conc_keys c xs' = mset (sl_keys s xs) + mset (inserted as)"
  using key_order.conc_steps_inv [OF assms(1,3) conc_inv_init [OF assms(2)]]
  by (auto simp: conc_step_ok_def conc_keys_def conc_init_def)

text \<open>C3: readers are safe while a writer inserts, in every interleaving: no load of a reader and no
  step of the writer ever fails, and the load with which a search ends returns what the whole
  search would return if it ran alone at that moment. So \<^verbatim>\<open>Seek\<close>, \<^verbatim>\<open>Prev\<close> and \<^verbatim>\<open>SeekToLast\<close>
  take effect in one instant, also when the writer is in the middle of linking a node.\<close>

theorem concurrent_search_linearizable:
  assumes "key_order ok cmp" and "sl_rep ok cmp s xs"
    and "conc_steps ok cmp node_size (conc_init s) as c" and "searching (creaders c r)"
  shows "\<exists>rd. reader_step cmp (clist c) (creaders c r) = Some rd \<and>
    (\<forall>n. rd = At n \<longrightarrow> atomic_result cmp (clist c) (creaders c r) = Some n) \<and>
    writer_step cmp node_size (cwriter c) (clist c) \<noteq> None"
proof -
  obtain xs' H' where inv: "conc_inv ok cmp node_size c xs' H'"
    using assms(1-3) by (rule reachable_inv)
  then have view: "sl_view H' ok cmp (clist c) xs'" and rinv: "reader_inv ok cmp (clist c) xs' H' (creaders c r)"
    and winv: "writer_inv ok cmp node_size (cwriter c) (clist c) xs' H'"
    by (auto simp: conc_inv_def)
  obtain rd where "reader_step cmp (clist c) (creaders c r) = Some rd"
    "\<And>n. rd = At n \<Longrightarrow> atomic_result cmp (clist c) (creaders c r) = Some n"
    by (rule key_order.reader_step_inv [OF assms(1) view rinv assms(4)]) blast
  moreover have "writer_step cmp node_size (cwriter c) (clist c) \<noteq> None"
    using key_order.writer_step_inv [OF assms(1) view winv] by (auto simp: writer_step_ok_def)
  ultimately show ?thesis by blast
qed

text \<open>An insertion and a search that have both begun, for examples.\<close>

lemma example_conc:
  obtains s0 c where "new_SkipList 16 (\<lambda>_. 4096) ([] :: bytes) new_Arena = Some s0"
    and "sl_rep (\<lambda>_. True) (Compare BytewiseComparator) s0 []"
    and "conc_steps (\<lambda>_. True) (Compare BytewiseComparator) 16 (conc_init s0)
      [BeginInsert (ascii ''b''), BeginRead 0 (CSeek (ascii ''a''))] c"
    and "creaders c 0 = Seeking (ascii ''a'') (head s0) 0" and "clist c = s0"
    and "cwriter c = WFind (ascii ''b'') (\<lambda>_. 16384)"
proof -
  obtain s0 where s0: "new_SkipList 16 (\<lambda>_. 4096) ([] :: bytes) new_Arena = Some s0"
    "node_alloc_ok 16 (\<lambda>_. 16384) (arena s0)" "sl_rep (\<lambda>_. True) (Compare BytewiseComparator) s0 []"
    by (rule example_list) blast
  let ?ok = "\<lambda>_ :: bytes. True" and ?cmp = "Compare BytewiseComparator"
  let ?c1 = "(conc_init s0) \<lparr> cwriter := WFind (ascii ''b'') (\<lambda>_. 16384) \<rparr>"
  let ?c2 = "?c1 \<lparr> creaders := (creaders ?c1)(0 := Seeking (ascii ''a'') (head s0) 0) \<rparr>"
  have "SkipList_Contains ?cmp s0 (ascii ''b'') = Some False"
    using bytewise.Contains_eq [OF s0(3)] by simp
  then have one: "conc_step ?ok ?cmp 16 (BeginInsert (ascii ''b'')) (conc_init s0) ?c1"
    using s0(2) by (intro conc_step.begin_insert) (simp_all add: conc_init_def)
  have two: "conc_step ?ok ?cmp 16 (BeginRead 0 (CSeek (ascii ''a''))) ?c1 ?c2"
    by (rule conc_step.begin_read [where n = new_SkipList_Iterator and mh = 1])
      (use s0(3) in \<open>simp_all add: conc_init_def sl_view_def\<close>)
  have "conc_steps ?ok ?cmp 16 (conc_init s0)
      (([] @ [BeginInsert (ascii ''b'')]) @ [BeginRead 0 (CSeek (ascii ''a''))]) ?c2"
    by (rule conc_steps.steps_snoc [OF conc_steps.steps_snoc [OF conc_steps.steps_refl one] two])
  then show ?thesis
    using s0(1,3) by (intro that [of s0 ?c2]) (simp_all add: conc_init_def)
qed

theorem concurrent_search_linearizable_witness:
  "\<exists>c :: bytes conc. cwriter c \<noteq> Idle \<and> searching (creaders c 0) \<and>
     (\<exists>rd. reader_step (Compare BytewiseComparator) (clist c) (creaders c 0) = Some rd \<and>
       (\<forall>n. rd = At n \<longrightarrow> atomic_result (Compare BytewiseComparator) (clist c) (creaders c 0) = Some n))"
proof -
  obtain s0 c where c: "sl_rep (\<lambda>_. True) (Compare BytewiseComparator) s0 []"
    "conc_steps (\<lambda>_. True) (Compare BytewiseComparator) 16 (conc_init s0)
      [BeginInsert (ascii ''b''), BeginRead 0 (CSeek (ascii ''a''))] c"
    "creaders c 0 = Seeking (ascii ''a'') (head s0) 0" "cwriter c = WFind (ascii ''b'') (\<lambda>_. 16384)"
    by (rule example_conc) blast
  then have "searching (creaders c 0)" by simp
  moreover from concurrent_search_linearizable [OF bytewise.key_order_axioms c(1,2) this]
  have "\<exists>rd. reader_step (Compare BytewiseComparator) (clist c) (creaders c 0) = Some rd \<and>
      (\<forall>n. rd = At n \<longrightarrow> atomic_result (Compare BytewiseComparator) (clist c) (creaders c 0) = Some n)"
    by blast
  moreover have "cwriter c \<noteq> Idle"
    using c(4) by simp
  ultimately show ?thesis by blast
qed

text \<open>C4: whatever the interleaving, level 0 of the list holds at every moment, in strictly increasing
  order, exactly the keys it held at the beginning and those whose insertion has begun, but
  for the key of a running insertion that has not been published yet; and \<^verbatim>\<open>Contains\<close> answers
  by this list.\<close>

theorem concurrent_list_contents:
  assumes "key_order ok cmp" and "sl_rep ok cmp s xs" and "conc_steps ok cmp node_size (conc_init s) as c"
  shows "\<exists>xs'. path (heap (clist c)) 0 (head (clist c)) xs' \<and>
    sorted_wrt (\<lambda>a b. cmp a b < 0) (sl_keys (clist c) xs') \<and>
    mset (sl_keys (clist c) xs') + mset (pending (cwriter c) (clist c)) = mset (sl_keys s xs) + mset (inserted as) \<and>
    (\<forall>key. ok key \<longrightarrow> SkipList_Contains cmp (clist c) key = Some (\<exists>k \<in> set (sl_keys (clist c) xs'). cmp key k = 0))"
proof -
  obtain xs' H' where inv: "conc_inv ok cmp node_size c xs' H'"
    and keys: "conc_keys c xs' = mset (sl_keys s xs) + mset (inserted as)"
    using assms by (rule reachable_inv)
  then have view: "sl_view H' ok cmp (clist c) xs'"
    by (simp add: conc_inv_def)
  have "\<forall>key. ok key \<longrightarrow> SkipList_Contains cmp (clist c) key = Some (\<exists>k \<in> set (sl_keys (clist c) xs'). cmp key k = 0)"
    using key_order.Contains_eq [OF assms(1) view] by (simp add: sl_keys_def)
  then show ?thesis
    using sl_view_level0 [OF view] key_order.sl_rep_keys(1) [OF assms(1) view] keys
    unfolding conc_keys_def by blast
qed

theorem concurrent_list_contents_witness:
  "\<exists>c :: bytes conc. cwriter c \<noteq> Idle \<and> path (heap (clist c)) 0 (head (clist c)) [] \<and>
     SkipList_Contains (Compare BytewiseComparator) (clist c) (ascii ''b'') = Some False"
proof -
  obtain s0 c where c: "sl_rep (\<lambda>_. True) (Compare BytewiseComparator) s0 []"
    "conc_steps (\<lambda>_. True) (Compare BytewiseComparator) 16 (conc_init s0)
      [BeginInsert (ascii ''b''), BeginRead 0 (CSeek (ascii ''a''))] c" "cwriter c = WFind (ascii ''b'') (\<lambda>_. 16384)"
    by (rule example_conc) blast
  from concurrent_list_contents [OF bytewise.key_order_axioms c(1,2)] obtain xs' where
    "path (heap (clist c)) 0 (head (clist c)) xs'"
    "mset (sl_keys (clist c) xs') + {#ascii ''b''#} = {#ascii ''b''#}"
    "SkipList_Contains (Compare BytewiseComparator) (clist c) (ascii ''b'') =
      Some (\<exists>k \<in> set (sl_keys (clist c) xs'). Compare BytewiseComparator (ascii ''b'') k = 0)"
    using c(3) by (auto simp: sl_keys_def)
  then have "path (heap (clist c)) 0 (head (clist c)) []"
    "SkipList_Contains (Compare BytewiseComparator) (clist c) (ascii ''b'') = Some False"
    by (auto simp: sl_keys_def)
  moreover have "cwriter c \<noteq> Idle"
    using c(3) by simp
  ultimately show ?thesis by blast
qed

text \<open>C5: a search is never held up for ever: from its start on, whatever the writer and the other
  readers do in between, it takes at most as many loads as the list has keys at the end, and
  one for each of the 12 levels.\<close>

theorem concurrent_search_bounded:
  assumes "key_order ok cmp" and "sl_rep ok cmp s xs"
    and "conc_steps ok cmp node_size (conc_init s) as c" and "conc_steps ok cmp node_size c bs c'"
    and "\<forall>cmd. BeginRead r cmd \<notin> set bs"
    and "path (heap (clist c')) 0 (head (clist c')) ys" and "0 \<notin> set ys"
  shows "count_list bs (ReaderStep r) \<le> length ys + kMaxHeight"
proof -
  obtain xs1 H1 where one: "conc_inv ok cmp node_size c xs1 H1"
    using assms(1-3) by (rule reachable_inv)
  from key_order.conc_steps_inv [OF assms(1,4) one] obtain xs2 H2 where
    two: "conc_inv ok cmp node_size c' xs2 H2"
    "reader_rank cmp (clist c) xs1 (creaders c r) + count_list bs (ReaderStep r) \<le>
      reader_rank cmp (clist c') xs2 (creaders c' r)"
    using assms(5) unfolding conc_step_ok_def by blast
  have view: "sl_view H2 ok cmp (clist c') xs2" and rinv: "reader_inv ok cmp (clist c') xs2 H2 (creaders c' r)"
    and rinv1: "reader_inv ok cmp (clist c) xs1 H1 (creaders c r)"
    using one two(1) by (auto simp: conc_inv_def)
  have "ys = xs2"
    using assms(6,7) sl_view_level0 [OF view] view by (auto simp: sl_view_def chains_def intro: path_unique)
  moreover have "0 < reader_rank cmp (clist c) xs1 (creaders c r)"
    using rinv1 by (cases "creaders c r") (auto simp: on_chain_def)
  moreover have "reader_rank cmp (clist c') xs2 (creaders c' r) \<le> length xs2 + kMaxHeight + 1"
    by (rule key_order.reader_rank_bound [OF assms(1) view rinv])
  ultimately show ?thesis
    using two(2) by simp
qed

theorem concurrent_search_bounded_witness:
  "\<exists>c c' :: bytes conc. searching (creaders c 0) \<and>
     conc_steps (\<lambda>_. True) (Compare BytewiseComparator) 16 c [ReaderStep 0] c' \<and>
     count_list [ReaderStep 0 :: bytes action] (ReaderStep 0) \<le> 0 + kMaxHeight"
proof -
  let ?ok = "\<lambda>_ :: bytes. True" and ?cmp = "Compare BytewiseComparator"
  obtain s0 c where c: "sl_rep ?ok ?cmp s0 []"
    "conc_steps ?ok ?cmp 16 (conc_init s0) [BeginInsert (ascii ''b''), BeginRead 0 (CSeek (ascii ''a''))] c"
    "creaders c 0 = Seeking (ascii ''a'') (head s0) 0" "clist c = s0"
    by (rule example_conc) blast
  have path: "path (heap s0) 0 (head s0) []"
    by (rule sl_view_level0 [OF c(1)])
  let ?c' = "c \<lparr> creaders := (creaders c)(0 := At 0) \<rparr>"
  have "conc_step ?ok ?cmp 16 (ReaderStep 0) c ?c'"
    by (rule conc_step.reader_step) (use c(3,4) path in \<open>simp_all add: KeyIsAfterNode_def\<close>)
  then have steps: "conc_steps ?ok ?cmp 16 c [ReaderStep 0] ?c'"
    using conc_steps.steps_snoc [OF conc_steps.steps_refl] by fastforce
  have "count_list [ReaderStep 0 :: bytes action] (ReaderStep 0) \<le> length ([] :: nat list) + kMaxHeight"
    by (rule concurrent_search_bounded [OF bytewise.key_order_axioms c(1,2) steps]) (use c(4) path in simp_all)
  moreover have "searching (creaders c 0)"
    using c(3) by simp
  ultimately show ?thesis
    using steps unfolding list.size by blast
qed

end
