(* ===== verification/RandomPeriod.thy ===== *)
theory RandomPeriod
  imports RandomGen
begin

text \<open>
  The period of the generator of \<^verbatim>\<open>util/random.h\<close>: the multiplier 16807 generates all residues
  modulo \<open>2\<^sup>3\<^sup>1 - 1\<close>. Its powers with exponents \<open>(2\<^sup>3\<^sup>1 - 2) / p\<close> for the prime factors \<open>p\<close> of
  \<open>2\<^sup>3\<^sup>1 - 2\<close> are computed by repeated squaring and differ from one, so its order is full.
\<close>

subsection \<open>The multiplier generates all residues\<close>

text \<open>Modular powers by repeated squaring, so that large exponents are computed.\<close>

fun powmod :: "nat \<Rightarrow> nat \<Rightarrow> nat \<Rightarrow> nat" where
  "powmod acc a n =
     (if n = 0 then acc
      else powmod (if even n then acc else acc * a mod Mersenne31) (a * a mod Mersenne31) (n div 2))"

declare powmod.simps [simp del]

lemma powmod_0: "powmod acc a 0 = acc"
  by (simp add: powmod.simps)

lemmas powmod_numeral = powmod.simps [of _ _ "numeral k" for k] powmod.simps [of _ _ "Suc 0"]

lemma power_half: "a ^ n = (if even n then 1 else a) * (a * a) ^ (n div 2)" for a :: nat
proof (cases "even n")
  case True
  then obtain k where n: "n = 2 * k" by (rule evenE)
  show ?thesis
    unfolding n by (simp add: power_mult power2_eq_square)
next
  case False
  then obtain k where n: "n = 2 * k + 1" by (rule oddE)
  show ?thesis
    unfolding n by (simp add: power_mult power2_eq_square)
qed

lemma powmod_eq: "powmod acc a n mod Mersenne31 = acc * a ^ n mod Mersenne31"
proof (induction acc a n rule: powmod.induct)
  case (1 acc a n)
  let ?acc = "if even n then acc else acc * a mod Mersenne31"
  show ?case
  proof (cases "n = 0")
    case True
    then show ?thesis by (simp add: powmod_0)
  next
    case False
    then have "powmod acc a n mod Mersenne31 = ?acc * (a * a mod Mersenne31) ^ (n div 2) mod Mersenne31"
      using 1 powmod.simps [of acc a n] by simp
    also have "\<dots> = (if even n then acc else acc * a) * (a * a) ^ (n div 2) mod Mersenne31"
      by (simp only: if_distrib [of "\<lambda>x. x mod Mersenne31"] mod_mult_left_eq power_mod
          mod_mult_right_eq [of _ "(_ mod _) ^ _", symmetric] split: if_split) (simp add: mod_mult_left_eq mod_mult_right_eq)
    also have "\<dots> = acc * a ^ n mod Mersenne31"
      by (subst power_half [of a n]) (simp add: mult.assoc)
    finally show ?thesis .
  qed
qed

text \<open>\<open>2\<^sup>3\<^sup>1 - 2 = 2 \<cdot> 3\<^sup>2 \<cdot> 7 \<cdot> 11 \<cdot> 31 \<cdot> 151 \<cdot> 331\<close>; the powers that would show a shorter period.\<close>

definition period_primes :: "nat list" where
  "period_primes = [2, 3, 7, 11, 31, 151, 331]"

lemma power_by_powmod: "a ^ n mod Mersenne31 = powmod 1 a n mod Mersenne31"
  by (simp only: powmod_eq mult_1)

lemma generator_powers:
  "16807 ^ 2147483646 mod Mersenne31 = 1"
  "\<forall>p \<in> set period_primes. 16807 ^ (2147483646 div p) mod Mersenne31 \<noteq> 1"
  unfolding period_primes_def power_by_powmod list.set ball_simps
  by (simp_all add: powmod_0 powmod_numeral)

lemma only_divisors:
  assumes "p \<in> set period_primes" and "d dvd p"
  shows "d = 1 \<or> d = p"
proof -
  have "list_all (\<lambda>p. list_all (\<lambda>d. p mod d \<noteq> 0) [2..<p]) period_primes"
    unfolding period_primes_def by (simp add: upt_rec_numeral)
  then have "\<forall>p \<in> set period_primes. \<forall>d. 2 \<le> d \<and> d < p \<longrightarrow> p mod d \<noteq> 0"
    by (auto simp: list_all_iff)
  moreover have "0 < p"
    using assms(1) by (auto simp: period_primes_def)
  then have "d \<le> p" "0 < d"
    using assms(2) by (auto dest: dvd_imp_le intro: Nat.gr0I)
  ultimately show ?thesis
    using assms by (cases "d = p"; cases "d = 1") (auto simp: dvd_eq_mod_eq_0)
qed

lemma divisor_of_period:
  assumes "q dvd 2147483646" and "q \<noteq> 1"
  shows "\<exists>p \<in> set period_primes. p dvd q"
proof (rule ccontr)
  assume no: "\<not> ?thesis"
  have cop: "coprime q p" if "p \<in> set period_primes" for p
    using only_divisors [OF that, of "gcd q p"] no that
    by (metis coprime_iff_gcd_eq_1 gcd_dvd1 gcd_dvd2)
  have "coprime q (2 * (3 * (3 * (7 * (11 * (31 * (151 * 331)))))))"
    unfolding coprime_mult_right_iff by (intro conjI cop) (simp_all add: period_primes_def)
  then have "coprime q 2147483646"
    by simp
  with assms show False
    by (metis coprime_absorb_left nat_dvd_1_iff_1)
qed

text \<open>The least positive exponent with power one divides every such exponent.\<close>

lemma power_one_mult:
  assumes "a ^ k mod m = (1 :: nat)"
  shows "a ^ (k * j) mod m = 1 mod m"
proof -
  have "a ^ (k * j) mod m = (a ^ k mod m) ^ j mod m"
    by (simp add: power_mult power_mod)
  then show ?thesis
    by (simp add: assms)
qed

lemma order_is_full:
  fixes a n m :: nat
  assumes one: "a ^ n mod m = 1"
    and split: "\<And>q. q dvd n \<Longrightarrow> q \<noteq> 1 \<Longrightarrow> \<exists>p \<in> P. p dvd q"
    and proper: "\<And>p. p \<in> P \<Longrightarrow> 0 < p \<and> a ^ (n div p) mod m \<noteq> 1"
    and k: "0 < k" "a ^ k mod m = 1"
  shows "n \<le> k"
proof (rule ccontr)
  assume less: "\<not> n \<le> k"
  have m1: "1 mod m = 1"
    using one by (metis mod_mod_trivial)
  define r where "r = (LEAST k. 0 < k \<and> a ^ k mod m = 1)"
  have r: "0 < r" "a ^ r mod m = 1"
    using LeastI [of "\<lambda>k. 0 < k \<and> a ^ k mod m = 1" k] k by (simp_all add: r_def)
  have least: "r \<le> j" if "0 < j" "a ^ j mod m = 1" for j
    unfolding r_def by (rule Least_le) (use that in simp)
  have rj: "a ^ (r * j) mod m = 1" for j
    using power_one_mult [OF r(2), of j] m1 by simp
  have "a ^ n = a ^ (r * (n div r)) * a ^ (n mod r)"
    by (metis mult_div_mod_eq power_add)
  then have "a ^ (n mod r) mod m = 1"
    using one rj by (metis mod_mult_left_eq mult_1)
  then have "n mod r = 0"
    using least [of "n mod r"] mod_less_divisor [OF r(1), of n] by linarith
  then obtain q where q: "n = r * q"
    by (meson mod_0_imp_dvd dvdE)
  have "q \<noteq> 1"
    using q least [OF k] less by auto
  moreover have "q dvd n"
    using q by simp
  ultimately obtain p where p: "p \<in> P" "p dvd q"
    using split by blast
  then obtain j where "q = p * j"
    by (auto elim: dvdE)
  then have "n div p = r * j"
    using q proper [OF p(1)] by (simp add: mult.left_commute)
  then show False
    using rj [of j] proper [OF p(1)] by simp
qed

text \<open>If the powers of \<open>a\<close> up to \<open>m - 1\<close> are distinct, they are all the residues.\<close>

lemma powers_cover:
  fixes a m :: nat
  assumes m: "1 < m" and one: "a ^ (m - 1) mod m = 1"
    and full: "\<And>k. 0 < k \<Longrightarrow> a ^ k mod m = 1 \<Longrightarrow> m - 1 \<le> k"
    and x: "0 < x" "x < m"
  shows "\<exists>n. x = a ^ n mod m"
proof -
  have cancel: "y = 1" if e: "a ^ i * y mod m = a ^ i mod m" and i: "i \<le> m - 1" and y: "y mod m = y" for i y
  proof -
    have "a ^ (m - 1 - i) * a ^ i = a ^ (m - 1)"
      using i by (metis le_add_diff_inverse2 power_add)
    then have inv: "a ^ (m - 1 - i) * a ^ i mod m = 1"
      using one by simp
    have "a ^ (m - 1 - i) * (a ^ i * y) mod m = a ^ (m - 1 - i) * a ^ i mod m"
      using e by (metis mod_mult_right_eq)
    then have "(a ^ (m - 1 - i) * a ^ i mod m) * y mod m = a ^ (m - 1 - i) * a ^ i mod m"
      by (simp only: mult.assoc mod_mult_left_eq)
    then show ?thesis
      unfolding inv using y by simp
  qed
  have "inj_on (\<lambda>i. a ^ i mod m) {..<m - 1}"
  proof (rule linorder_inj_onI')
    fix i j
    assume ij: "i \<in> {..<m - 1}" "j \<in> {..<m - 1}" "i < j"
    have "a ^ j = a ^ i * a ^ (j - i)"
      using ij(3) by (simp flip: power_add)
    then have "a ^ i * (a ^ (j - i) mod m) mod m = a ^ j mod m"
      by (simp add: mod_mult_right_eq)
    then show "a ^ i mod m \<noteq> a ^ j mod m"
      using cancel [of i "a ^ (j - i) mod m"] full [of "j - i"] ij by force
  qed
  moreover have "(\<lambda>i. a ^ i mod m) ` {..<m - 1} \<subseteq> {1..<m}"
  proof -
    have "a ^ i mod m \<noteq> 0" if "i < m - 1" for i
    proof
      assume "a ^ i mod m = 0"
      then have "a ^ (m - 1 - i) * a ^ i mod m = 0"
        by (metis mod_mult_right_eq mult_0_right mod_0)
      moreover have "a ^ (m - 1 - i) * a ^ i = a ^ (m - 1)"
        using that by (metis le_add_diff_inverse2 less_imp_le power_add)
      ultimately show False
        using one by simp
    qed
    then show ?thesis
      using m by (auto simp: Suc_le_eq)
  qed
  ultimately have "(\<lambda>i. a ^ i mod m) ` {..<m - 1} = {1..<m}"
    by (intro card_subset_eq) (simp_all add: card_image)
  moreover have "x \<in> {1..<m}"
    using x by simp
  ultimately show ?thesis
    by (auto simp: image_iff dest: equalityD2)
qed

lemma residue_is_power:
  assumes "0 < x" and "x < Mersenne31"
  shows "\<exists>n. x = 16807 ^ n mod Mersenne31"
proof (rule powers_cover)
  have eq: "Mersenne31 - 1 = 2147483646"
    by simp
  show one: "16807 ^ (Mersenne31 - 1) mod Mersenne31 = 1"
    unfolding eq by (rule generator_powers(1))
  show "Mersenne31 - 1 \<le> k" if "0 < k" "16807 ^ k mod Mersenne31 = 1" for k
    unfolding eq
  proof (rule order_is_full [OF generator_powers(1) _ _ that])
    show "\<exists>p \<in> set period_primes. p dvd q" if "q dvd 2147483646" "q \<noteq> 1" for q
      using that by (rule divisor_of_period)
    fix p
    assume "p \<in> set period_primes"
    moreover from this have "0 < p"
      by (auto simp: period_primes_def)
    ultimately show "0 < p \<and> 16807 ^ (2147483646 div p) mod Mersenne31 \<noteq> 1"
      using generator_powers(2) by blast
  qed
qed (use assms in simp_all)

subsection \<open>Iterating the generator\<close>

fun Random_iterate :: "nat \<Rightarrow> u32 \<Rightarrow> u32" where
  "Random_iterate 0 seed = seed"
| "Random_iterate (Suc n) seed = snd (Random_Next (Random_iterate n seed))"

lemma Random_iterate_eq:
  assumes "valid_seed s"
  shows "valid_seed (Random_iterate n s) \<and> unat (Random_iterate n s) = unat s * 16807 ^ n mod Mersenne31"
proof (induction n)
  case 0
  then show ?case using assms by (simp add: valid_seed_def)
next
  case (Suc n)
  let ?s = "Random_iterate n s"
  obtain r s' where next_s: "Random_Next ?s = (r, s')"
    by (cases "Random_Next ?s")
  have "unat s * 16807 ^ n mod Mersenne31 * 16807 mod Mersenne31 = unat s * 16807 ^ Suc n mod Mersenne31"
    by (simp add: mod_mult_left_eq mult.assoc mult.commute [of 16807])
  with Suc Random_Next_valid [OF _ next_s] next_s show ?case
    by simp
qed

lemma orbit_reaches:
  assumes "u = 16807 ^ i mod Mersenne31" and "x = 16807 ^ j mod Mersenne31"
  shows "\<exists>n. u * 16807 ^ n mod Mersenne31 = x"
proof -
  define N where "N = (2147483646 :: nat)"
  have one: "16807 ^ (N * i) mod Mersenne31 = 1"
    using power_one_mult [OF generator_powers(1), of i] by (simp add: N_def)
  have "1 \<le> N"
    by (simp add: N_def)
  then have "i \<le> N * i"
    by simp
  then have "i + (N * i - i + j) = N * i + j"
    by linarith
  then have "16807 ^ i * 16807 ^ (N * i - i + j) = (16807 :: nat) ^ (N * i) * 16807 ^ j"
    by (metis power_add)
  then have "u * 16807 ^ (N * i - i + j) mod Mersenne31 = x"
    unfolding assms by (metis mod_mult_left_eq mult_1 one)
  then show ?thesis ..
qed

subsection \<open>Properties\<close>

text \<open>C40: from any valid seed the division-free step computes \<open>seed * 16807 mod (2\<^sup>3\<^sup>1 - 1)\<close>, and
  every constructed generator visits every number from 1 to \<open>2\<^sup>3\<^sup>1 - 2\<close> and nothing else.\<close>

theorem Random_full_period:
  "unat (fst (Random_Next (Random_iterate n (new_Random s)))) =
     unat (Random_iterate n (new_Random s)) * 16807 mod (2 ^ 31 - 1) \<and>
   range (\<lambda>n. unat (Random_iterate n (new_Random s))) = {1..2 ^ 31 - 2}"
proof
  let ?s = "new_Random s"
  note v = Random_iterate_eq [OF new_Random_valid]
  obtain r s' where "Random_Next (Random_iterate n ?s) = (r, s')"
    by (cases "Random_Next (Random_iterate n ?s)")
  with v [of n s] show "unat (fst (Random_Next (Random_iterate n ?s))) =
      unat (Random_iterate n ?s) * 16807 mod (2 ^ 31 - 1)"
    using Random_Next_valid(1,2) [of "Random_iterate n ?s" r s'] by simp
  have s: "0 < unat ?s" "unat ?s < Mersenne31"
    using new_Random_valid [of s] by (simp_all add: valid_seed_def)
  show "range (\<lambda>n. unat (Random_iterate n ?s)) = {1..2 ^ 31 - 2}"
  proof (intro subset_antisym subsetI)
    fix x
    assume "x \<in> range (\<lambda>n. unat (Random_iterate n ?s))"
    then obtain n where "x = unat (Random_iterate n ?s)"
      by blast
    with v [of n s] show "x \<in> {1..2 ^ 31 - 2}"
      unfolding valid_seed_def by auto
  next
    fix x :: nat
    assume x: "x \<in> {1..2 ^ 31 - 2}"
    obtain i where i: "unat ?s = 16807 ^ i mod Mersenne31"
      using residue_is_power [OF s] by blast
    obtain j where j: "x = 16807 ^ j mod Mersenne31"
      using residue_is_power [of x] x by auto
    show "x \<in> range (\<lambda>n. unat (Random_iterate n ?s))"
      using v [of _ s] orbit_reaches [OF i j] by (metis rangeI)
  qed
qed

end
