(* ===== verification/Crc32c.thy ===== *)
theory Crc32c
  imports Crc32cTables Coding "HOL-Library.Monad_Syntax"
begin

text \<open>
  The checksum of \<^verbatim>\<open>util/crc32c.cpp\<close> and \<^verbatim>\<open>util/crc32c.h\<close>. \<open>crc_Extend\<close> follows the portable
  code with its table lookups, its four interleaved strides and its dependence on the address
  of the buffer, which is an argument; a read past the end of the buffer is \<^term>\<open>None\<close>. It is
  shown equal to the bit-by-bit division \<open>crc_reference\<close> for every buffer and address.
\<close>

subsection \<open>Definitions\<close>

definition kCRC32Xor :: u32 where "kCRC32Xor = 0xffffffff"

definition ReadUint32LE :: "bytes \<Rightarrow> u32 option" where
  "ReadUint32LE buffer = DecodeFixed32 buffer"

text \<open>\<^verbatim>\<open>RoundUp<4>\<close>, on 64-bit addresses.\<close>

definition RoundUp4 :: "nat \<Rightarrow> nat" where
  "RoundUp4 pointer = (pointer + 3) mod 2 ^ 64 div 4 * 4"

definition AcceleratedCRC32C :: "u32 \<Rightarrow> bytes \<Rightarrow> u32" where
  "AcceleratedCRC32C crc buf = 0"

definition CanAccelerateCRC32C :: bool where
  "CanAccelerateCRC32C \<longleftrightarrow> AcceleratedCRC32C 0 (ascii ''TestCRCBuffer'') = 0xdcbc59fa"

definition STEP1 :: "u32 \<Rightarrow> u8 \<Rightarrow> u32" where
  "STEP1 l b =
     (let c = (l AND 0xff) XOR ucast b
      in kByteExtensionTable ! unat c XOR drop_bit 8 l)"

definition STEP4 :: "u32 \<Rightarrow> u32 \<Rightarrow> u32" where
  "STEP4 w crc =
     w XOR kStrideExtensionTable3 ! unat (crc AND 0xff)
       XOR kStrideExtensionTable2 ! unat (drop_bit 8 crc AND 0xff)
       XOR kStrideExtensionTable1 ! unat (drop_bit 16 crc AND 0xff)
       XOR kStrideExtensionTable0 ! unat (drop_bit 24 crc)"

definition STEP4W :: "u32 \<Rightarrow> u32 \<Rightarrow> u32" where
  "STEP4W w l = ((\<lambda>w. drop_bit 8 w XOR kByteExtensionTable ! unat (w AND 0xff)) ^^ 4) (w XOR l)"

text \<open>\<^verbatim>\<open>while (p != x) STEP1\<close> with the address of \<^verbatim>\<open>p\<close>, and the last loop, which runs to the end.\<close>

fun STEP1_until :: "nat \<Rightarrow> nat \<Rightarrow> u32 \<Rightarrow> bytes \<Rightarrow> (u32 \<times> bytes) option" where
  "STEP1_until x p l data =
     (if p = x then Some (l, data)
      else case data of [] \<Rightarrow> None | b # data \<Rightarrow> STEP1_until x (p + 1) (STEP1 l b) data)"

fun STEP1_rest :: "u32 \<Rightarrow> bytes \<Rightarrow> u32" where
  "STEP1_rest l [] = l"
| "STEP1_rest l (b # data) = STEP1_rest (STEP1 l b) data"

type_synonym strides = "u32 \<times> u32 \<times> u32 \<times> u32"

function STEP16_loop :: "strides \<Rightarrow> bytes \<Rightarrow> (strides \<times> bytes) option" where
  "STEP16_loop (crc0, crc1, crc2, crc3) p =
     (if 16 \<le> length p then do {
        w0 \<leftarrow> ReadUint32LE p;
        w1 \<leftarrow> ReadUint32LE (drop 4 p);
        w2 \<leftarrow> ReadUint32LE (drop 8 p);
        w3 \<leftarrow> ReadUint32LE (drop 12 p);
        STEP16_loop (STEP4 w0 crc0, STEP4 w1 crc1, STEP4 w2 crc2, STEP4 w3 crc3) (drop 16 p)
      } else Some ((crc0, crc1, crc2, crc3), p))"
  by pat_completeness auto
termination
  by (relation "measure (\<lambda>(_, p). length p)") auto

function STEP4_loop :: "strides \<Rightarrow> bytes \<Rightarrow> (strides \<times> bytes) option" where
  "STEP4_loop (crc0, crc1, crc2, crc3) p =
     (if 4 \<le> length p then do {
        w \<leftarrow> ReadUint32LE p;
        STEP4_loop (crc1, crc2, crc3, STEP4 w crc0) (drop 4 p)
      } else Some ((crc0, crc1, crc2, crc3), p))"
  by pat_completeness auto
termination
  by (relation "measure (\<lambda>(_, p). length p)") auto

declare STEP1_until.simps [simp del] STEP16_loop.simps [simp del] STEP4_loop.simps [simp del]

definition crc_Extend :: "u32 \<Rightarrow> nat \<Rightarrow> bytes \<Rightarrow> u32 option" where
  "crc_Extend crc address data =
     (if CanAccelerateCRC32C then Some (AcceleratedCRC32C crc data)
      else do {
        let e = address + length data;
        let l = crc XOR kCRC32Xor;
        let x = RoundUp4 address;
        (l, p) \<leftarrow> (if x \<le> e then STEP1_until x address l data else Some (l, data));
        (l, p) \<leftarrow>
          (if 16 \<le> length p then do {
             w0 \<leftarrow> ReadUint32LE p;
             w1 \<leftarrow> ReadUint32LE (drop 4 p);
             w2 \<leftarrow> ReadUint32LE (drop 8 p);
             w3 \<leftarrow> ReadUint32LE (drop 12 p);
             (s, p) \<leftarrow> STEP16_loop (w0 XOR l, w1, w2, w3) (drop 16 p);
             ((crc0, crc1, crc2, crc3), p) \<leftarrow> STEP4_loop s p;
             Some (STEP4W crc3 (STEP4W crc2 (STEP4W crc1 (STEP4W crc0 0))), p)
           } else Some (l, p));
        Some (STEP1_rest l p XOR kCRC32Xor)
      })"

definition crc_Value :: "nat \<Rightarrow> bytes \<Rightarrow> u32 option" where
  "crc_Value address data = crc_Extend 0 address data"

definition kMaskDelta :: u32 where "kMaskDelta = 0xa282ead8"

definition crc_Mask :: "u32 \<Rightarrow> u32" where
  "crc_Mask crc = (drop_bit 15 crc OR push_bit 17 crc) + kMaskDelta"

definition crc_Unmask :: "u32 \<Rightarrow> u32" where
  "crc_Unmask masked_crc =
     (let rot = masked_crc - kMaskDelta in drop_bit 17 rot OR push_bit 15 rot)"

subsection \<open>The reference\<close>

text \<open>Polynomial division one bit at a time, least significant bit first.\<close>

definition crc_byte :: "u32 \<Rightarrow> u8 \<Rightarrow> u32" where
  "crc_byte l b = (crc_step ^^ 8) (l XOR ucast b)"

definition crc_update :: "u32 \<Rightarrow> bytes \<Rightarrow> u32" where
  "crc_update l data = foldl crc_byte l data"

definition crc_reference :: "u32 \<Rightarrow> bytes \<Rightarrow> u32" where
  "crc_reference crc data = crc_update (crc XOR 0xffffffff) data XOR 0xffffffff"

lemma crc_update_simps [simp]:
  "crc_update l [] = l"
  "crc_update l (b # data) = crc_update (crc_byte l b) data"
  "crc_update l (as @ bs) = crc_update (crc_update l as) bs"
  by (simp_all add: crc_update_def)

subsection \<open>Whole bytes and words\<close>

lemma linear_steps: "linear (crc_step ^^ n)"
  by (rule linear_funpow [OF linear_crc_step])

lemmas steps_xor = linearD [OF linear_steps]

lemma crc_step_push:
  assumes "\<And>n. bit y n \<Longrightarrow> n + Suc k < 32"
  shows "crc_step (push_bit (Suc k) y) = push_bit k y"
proof (rule word_eq_bitsI)
  fix n
  assume "n < LENGTH(32)"
  show "bit (crc_step (push_bit (Suc k) y)) n = bit (push_bit k y) n"
    using assms [of "n - k"] by (auto simp: crc_step_def bit_simps simp del: push_bit_Suc)
qed

lemma steps_push:
  assumes "\<And>n. bit y n \<Longrightarrow> n + k < 32"
  shows "(crc_step ^^ k) (push_bit k y) = y"
  using assms
proof (induction k)
  case (Suc k)
  have "(crc_step ^^ Suc k) (push_bit (Suc k) y) = (crc_step ^^ k) (crc_step (push_bit (Suc k) y))"
    by (simp add: funpow_swap1 del: push_bit_Suc)
  also have "\<dots> = (crc_step ^^ k) (push_bit k y)"
    using Suc.prems crc_step_push [of y k] by simp
  also have "\<dots> = y"
    using Suc by force
  finally show ?case .
qed simp

lemma bit_ucast_u8: "bit (ucast (b :: u8) :: u32) n \<longleftrightarrow> n < 8 \<and> bit b n"
  using bit_imp_le_length [of b n] by (auto simp: bit_ucast_iff)

lemma bit_byte_at:
  "k + 8 \<le> 32 \<Longrightarrow> bit (push_bit k (ucast b) :: u32) n \<longleftrightarrow> k \<le> n \<and> n < k + 8 \<and> bit b (n - k)" for b :: u8
  using bit_u8_high [of "n - k" b] by (auto simp: bit_push_bit_iff bit_ucast_u8)

lemma and_ff: "w AND 0xff = take_bit 8 w" for w :: u32
  using take_bit_eq_mask [of 8 w] by (simp add: mask_eq_exp_minus_1)

lemma unat_and_ff: "unat (w AND 0xff) < 256" for w :: u32
proof -
  have "unat (take_bit 8 w) = take_bit 8 (unat w)"
    by (rule unsigned_take_bit_eq)
  then show ?thesis
    using take_bit_nat_less_exp [of 8 "unat w"] by (simp add: and_ff)
qed

text \<open>Eight steps: a table lookup for the low byte, a shift for the rest.\<close>

lemma steps_8: "(crc_step ^^ 8) x = kByteExtensionTable ! unat (x AND 0xff) XOR drop_bit 8 x"
proof -
  have split: "x = (x AND 0xff) XOR push_bit 8 (drop_bit 8 x)"
    by (rule word_eq_bitsI) (auto simp: and_ff bit_simps)
  have "(crc_step ^^ 8) (push_bit 8 (drop_bit 8 x)) = drop_bit 8 x"
    by (rule steps_push) (use bit_imp_le_length [of x] in \<open>force simp: bit_simps\<close>)
  moreover have "kByteExtensionTable ! unat (x AND 0xff) = (crc_step ^^ 8) (x AND 0xff)"
    using unat_and_ff [of x] by (simp only: kByteExtensionTable_eq table_of_nth) simp
  ultimately show ?thesis
    by (metis split steps_xor)
qed

lemma STEP1_eq: "STEP1 l b = crc_byte l b"
proof -
  have "(l XOR ucast b) AND 0xff = (l AND 0xff) XOR ucast b"
    by (rule word_eq_bitsI) (use bit_u8_high [of _ b] in \<open>auto simp: and_ff bit_simps not_le [symmetric]\<close>)
  moreover have "drop_bit 8 (l XOR ucast b) = drop_bit 8 l"
    by (rule word_eq_bitsI) (use bit_u8_high [of _ b] in \<open>auto simp: bit_simps\<close>)
  ultimately show ?thesis
    unfolding STEP1_def crc_byte_def steps_8 by simp
qed

lemma STEP1_rest_eq: "STEP1_rest l data = crc_update l data"
  by (induction data arbitrary: l) (simp_all add: STEP1_eq)

lemma STEP1_until_eq:
  "n \<le> length data \<Longrightarrow> STEP1_until (p + n) p l data = Some (crc_update l (take n data), drop n data)"
proof (induction n arbitrary: p l data)
  case 0
  then show ?case by (subst STEP1_until.simps) simp
next
  case (Suc n)
  then obtain b data' where "data = b # data'"
    by (cases data) auto
  with Suc show ?case
    using Suc.IH [of data' "Suc p" "STEP1 l b"] by (subst STEP1_until.simps) (simp add: STEP1_eq)
qed

text \<open>Thirty-two steps process a little-endian word.\<close>

abbreviation W :: "u32 \<Rightarrow> u32" where
  "W \<equiv> crc_step ^^ 32"

lemma crc_byte_later:
  assumes "k + 8 \<le> 32"
  shows "crc_byte ((crc_step ^^ k) l) b = (crc_step ^^ (k + 8)) (l XOR push_bit k (ucast b))"
proof -
  have "(crc_step ^^ k) (push_bit k (ucast b)) = ucast b"
    by (rule steps_push) (use assms in \<open>auto simp: bit_ucast_u8\<close>)
  then show ?thesis
    by (simp add: crc_byte_def steps_xor add.commute [of k] funpow_add)
qed

lemma crc_update_word:
  assumes "DecodeFixed32 p = Some w"
  shows "crc_update l p = crc_update (W (l XOR w)) (drop 4 p)"
proof -
  obtain b0 b1 b2 b3 r where p: "p = b0 # b1 # b2 # b3 # r"
    using assms by (cases p rule: DecodeFixed32.cases) auto
  have w: "w = ucast b0 XOR push_bit 8 (ucast b1) XOR push_bit 16 (ucast b2) XOR push_bit 24 (ucast b3)"
    using assms unfolding p
    by (auto intro!: word_eq_bitsI simp: bit_or_iff bit_xor_iff bit_ucast_u8 bit_byte_at)
  have "crc_byte (crc_byte (crc_byte (crc_byte l b0) b1) b2) b3 = W (l XOR w)"
    using crc_byte_later [of 0 l b0] crc_byte_later [of 8 _ b1] crc_byte_later [of 16 _ b2]
      crc_byte_later [of 24 _ b3]
    by (simp add: w xor.assoc)
  then show ?thesis
    by (simp add: p)
qed

lemma DecodeFixed32_Some: "4 \<le> length p \<Longrightarrow> \<exists>w. DecodeFixed32 p = Some w"
  by (cases p rule: DecodeFixed32.cases) auto

lemma DecodeFixed32_same:
  assumes "DecodeFixed32 w = Some v" and "DecodeFixed32 w' = Some v" and "length w = 4" and "length w' = 4"
  shows "w = w'"
proof -
  have enc: "EncodeFixed32 v = u" if "DecodeFixed32 u = Some v" "length u = 4" for u
    using that byte_of_le_32 by (cases u rule: DecodeFixed32.cases) auto
  show ?thesis
    using enc assms by metis
qed

lemma STEP4W_eq: "STEP4W w l = W (w XOR l)"
proof -
  have "(\<lambda>w. drop_bit 8 w XOR kByteExtensionTable ! unat (w AND 0xff)) = crc_step ^^ 8"
    by (rule ext) (simp add: steps_8 xor.commute)
  then show ?thesis
    by (simp add: STEP4W_def funpow_mult)
qed

subsection \<open>The strides\<close>

lemma table_lookup:
  "t = table_of f 256 \<Longrightarrow> t ! unat (x AND 0xff) = f (x AND 0xff)"
  using unat_and_ff [of x] by (simp add: table_of_nth)

lemma bytes_of_word:
  "x = push_bit 0 (x AND 0xff) XOR push_bit 8 (drop_bit 8 x AND 0xff) XOR
     push_bit 16 (drop_bit 16 x AND 0xff) XOR push_bit 24 (drop_bit 24 x AND 0xff)" for x :: u32
  by (rule word_eq_bitsI) (auto simp: and_ff bit_simps)

lemma STEP4_eq: "STEP4 w c = w XOR W (W (W (W c)))"
proof -
  have top: "drop_bit 24 c = drop_bit 24 c AND 0xff"
    by (rule word_eq_bitsI) (use bit_imp_le_length [of c] in \<open>force simp: and_ff bit_simps\<close>)
  have "STEP4 w c = w XOR (crc_step ^^ 128) c"
    unfolding STEP4_def
    apply (subst top)
    unfolding table_lookup [OF kStrideExtensionTable0_eq] table_lookup [OF kStrideExtensionTable1_eq]
      table_lookup [OF kStrideExtensionTable2_eq] table_lookup [OF kStrideExtensionTable3_eq]
    by (subst bytes_of_word [of c]) (simp only: steps_xor xor.assoc)
  also have "(crc_step ^^ 128) c = W (W (W (W c)))"
    using funpow_add [of 96 32 crc_step] funpow_add [of 64 32 crc_step] funpow_add [of 32 32 crc_step] by simp
  finally show ?thesis .
qed

text \<open>What four strides stand for, and what one swath and one word do to it.\<close>

fun combine :: "strides \<Rightarrow> u32" where
  "combine (c0, c1, c2, c3) = W (W (W (W c0 XOR c1) XOR c2) XOR c3)"

lemma combine_swath:
  "combine (STEP4 w0 c0, STEP4 w1 c1, STEP4 w2 c2, STEP4 w3 c3) =
   W (W (W (W (combine (c0, c1, c2, c3) XOR w0) XOR w1) XOR w2) XOR w3)"
  by (simp add: STEP4_eq steps_xor ac_simps)

lemma combine_word: "combine (c1, c2, c3, STEP4 w c0) = W (combine (c0, c1, c2, c3) XOR w)"
  by (simp add: STEP4_eq steps_xor ac_simps)

lemma four_words:
  assumes "16 \<le> length p"
  obtains w0 w1 w2 w3 where "ReadUint32LE p = Some w0" and "ReadUint32LE (drop 4 p) = Some w1"
    and "ReadUint32LE (drop 8 p) = Some w2" and "ReadUint32LE (drop 12 p) = Some w3"
    and "\<And>l. crc_update l p = crc_update (W (W (W (W (l XOR w0) XOR w1) XOR w2) XOR w3)) (drop 16 p)"
proof -
  obtain w0 w1 w2 w3 where w: "DecodeFixed32 p = Some w0" "DecodeFixed32 (drop 4 p) = Some w1"
    "DecodeFixed32 (drop 8 p) = Some w2" "DecodeFixed32 (drop 12 p) = Some w3"
    using DecodeFixed32_Some [of p] DecodeFixed32_Some [of "drop 4 p"] DecodeFixed32_Some [of "drop 8 p"]
      DecodeFixed32_Some [of "drop 12 p"] assms by force
  have "crc_update l p = crc_update (W (W (W (W (l XOR w0) XOR w1) XOR w2) XOR w3)) (drop 16 p)" for l
    using crc_update_word [OF w(1)] crc_update_word [OF w(2)] crc_update_word [OF w(3)] crc_update_word [OF w(4)]
    by simp
  with w that show ?thesis
    by (simp add: ReadUint32LE_def)
qed

lemma STEP16_loop_eq:
  "\<exists>s' p'. STEP16_loop s p = Some (s', p') \<and> crc_update (combine s) p = crc_update (combine s') p'"
proof (induction s p rule: STEP16_loop.induct)
  case (1 c0 c1 c2 c3 p)
  show ?case
  proof (cases "16 \<le> length p")
    case True
    obtain w0 w1 w2 w3 where w: "ReadUint32LE p = Some w0" "ReadUint32LE (drop 4 p) = Some w1"
      "ReadUint32LE (drop 8 p) = Some w2" "ReadUint32LE (drop 12 p) = Some w3"
      "\<And>l. crc_update l p = crc_update (W (W (W (W (l XOR w0) XOR w1) XOR w2) XOR w3)) (drop 16 p)"
      using four_words [OF True] by blast
    let ?s = "(STEP4 w0 c0, STEP4 w1 c1, STEP4 w2 c2, STEP4 w3 c3)"
    obtain s' p' where "STEP16_loop ?s (drop 16 p) = Some (s', p')"
      "crc_update (combine ?s) (drop 16 p) = crc_update (combine s') p'"
      using 1 [OF True w(1-4)] by blast
    then show ?thesis
      using True w by (subst STEP16_loop.simps) (simp add: combine_swath del: combine.simps)
  next
    case False
    then show ?thesis
      by (subst STEP16_loop.simps) simp
  qed
qed

lemma STEP4_loop_eq:
  "\<exists>s' p'. STEP4_loop s p = Some (s', p') \<and> crc_update (combine s) p = crc_update (combine s') p'"
proof (induction s p rule: STEP4_loop.induct)
  case (1 c0 c1 c2 c3 p)
  show ?case
  proof (cases "4 \<le> length p")
    case True
    obtain w where w: "DecodeFixed32 p = Some w"
      using DecodeFixed32_Some [OF True] by blast
    let ?s = "(c1, c2, c3, STEP4 w c0)"
    obtain s' p' where "STEP4_loop ?s (drop 4 p) = Some (s', p')"
      "crc_update (combine ?s) (drop 4 p) = crc_update (combine s') p'"
      using 1 [OF True, of w] w by (auto simp: ReadUint32LE_def)
    then show ?thesis
      using True w crc_update_word [OF w, of "combine (c0, c1, c2, c3)"]
      by (subst STEP4_loop.simps) (simp add: combine_word ReadUint32LE_def del: combine.simps)
  next
    case False
    then show ?thesis
      by (subst STEP4_loop.simps) simp
  qed
qed

subsection \<open>The whole function\<close>

lemma RoundUp4_bounds:
  assumes "address + 3 < 2 ^ 64"
  shows "address \<le> RoundUp4 address"
  using assms by (simp add: RoundUp4_def)

text \<open>Before the strides the code consumes a prefix of the data.\<close>

lemma Extend_prefix:
  assumes "address + 3 < 2 ^ 64"
  obtains q p where "data = q @ p" and
    "(if RoundUp4 address \<le> address + length data then STEP1_until (RoundUp4 address) address l data
      else Some (l, data)) = Some (crc_update l q, p)"
proof (cases "RoundUp4 address \<le> address + length data")
  case True
  let ?n = "RoundUp4 address - address"
  have "STEP1_until (address + ?n) address l data = Some (crc_update l (take ?n data), drop ?n data)"
    using True by (intro STEP1_until_eq) simp
  moreover have "address + ?n = RoundUp4 address"
    using RoundUp4_bounds [OF assms] by simp
  ultimately show ?thesis
    using that [of "take ?n data" "drop ?n data"] True by simp
next
  case False
  then show ?thesis
    using that [of "[]" data] by simp
qed

lemma Extend_eq:
  assumes "address + 3 < 2 ^ 64"
  shows "crc_Extend crc address data = Some (crc_reference crc data)"
proof -
  let ?l = "crc XOR kCRC32Xor"
  obtain q p where data: "data = q @ p" and pre:
    "(if RoundUp4 address \<le> address + length data then STEP1_until (RoundUp4 address) address ?l data
      else Some (?l, data)) = Some (crc_update ?l q, p)"
    by (rule Extend_prefix [OF assms])
  let ?m = "crc_update ?l q"
  have noacc: "\<not> CanAccelerateCRC32C"
    by (simp add: CanAccelerateCRC32C_def AcceleratedCRC32C_def)
  have goal: "crc_reference crc data = crc_update ?m p XOR kCRC32Xor"
    by (simp add: crc_reference_def kCRC32Xor_def data)
  show ?thesis
  proof (cases "16 \<le> length p")
    case True
    obtain w0 w1 w2 w3 where w: "ReadUint32LE p = Some w0" "ReadUint32LE (drop 4 p) = Some w1"
      "ReadUint32LE (drop 8 p) = Some w2" "ReadUint32LE (drop 12 p) = Some w3"
      "\<And>l. crc_update l p = crc_update (W (W (W (W (l XOR w0) XOR w1) XOR w2) XOR w3)) (drop 16 p)"
      using four_words [OF True] by blast
    obtain s p1 where s: "STEP16_loop (w0 XOR ?m, w1, w2, w3) (drop 16 p) = Some (s, p1)"
      "crc_update (combine (w0 XOR ?m, w1, w2, w3)) (drop 16 p) = crc_update (combine s) p1"
      using STEP16_loop_eq by blast
    obtain c0 c1 c2 c3 p2 where t: "STEP4_loop s p1 = Some ((c0, c1, c2, c3), p2)"
      "crc_update (combine s) p1 = crc_update (combine (c0, c1, c2, c3)) p2"
      using STEP4_loop_eq [of s p1] by (metis prod_cases4)
    have "STEP4W c3 (STEP4W c2 (STEP4W c1 (STEP4W c0 0))) = combine (c0, c1, c2, c3)"
      by (simp add: STEP4W_eq xor.commute)
    moreover have "crc_update ?m p = crc_update (combine (c0, c1, c2, c3)) p2"
      using w(5) [of ?m] s(2) t(2) by (simp add: xor.commute)
    ultimately show ?thesis
      using noacc pre True w(1-4) s(1) t(1) goal
      by (simp add: crc_Extend_def Let_def STEP1_rest_eq del: combine.simps)
  next
    case False
    then show ?thesis
      using noacc pre goal by (simp add: crc_Extend_def Let_def STEP1_rest_eq)
  qed
qed

subsection \<open>Error detection\<close>

lemma xor_cancel: "x XOR z = y XOR z \<Longrightarrow> x = y" for x y z :: u32
proof -
  assume "x XOR z = y XOR z"
  then have "(x XOR z) XOR z = (y XOR z) XOR z"
    by simp
  then show "x = y"
    by (simp add: xor.assoc)
qed

lemma crc_step_inj: "crc_step x = crc_step y \<Longrightarrow> x = y"
proof -
  assume eq: "crc_step x = crc_step y"
  have "bit crc_poly 31"
    by (simp add: crc_poly_def)
  moreover have "\<not> bit x 32" "\<not> bit y 32"
    using bit_imp_le_length [of x 32] bit_imp_le_length [of y 32] by auto
  ultimately have low: "bit (crc_step z) 31 = bit z 0" if "z \<in> {x, y}" for z
    using that by (auto simp: crc_step_def bit_simps)
  have b0: "bit x 0 = bit y 0"
    using low [of x] low [of y] eq by simp
  then have "drop_bit 1 x = drop_bit 1 y"
    using eq by (auto simp: crc_step_def split: if_splits dest: xor_cancel)
  then have "bit x (Suc n) = bit y (Suc n)" for n
    by (metis bit_drop_bit_eq comp_def plus_1_eq_Suc)
  with b0 show "x = y"
    by (intro word_eq_bitsI) (metis not0_implies_Suc)
qed

lemma steps_inj: "(crc_step ^^ n) x = (crc_step ^^ n) y \<Longrightarrow> x = y"
  by (induction n) (auto dest: crc_step_inj)

lemma crc_update_inj: "crc_update l data = crc_update l' data \<Longrightarrow> l = l'"
proof (induction data arbitrary: l l')
  case (Cons b data)
  then have "crc_byte l b = crc_byte l' b"
    by simp
  then have "l XOR ucast b = l' XOR ucast b"
    unfolding crc_byte_def by (rule steps_inj)
  then show ?case
    by (rule xor_cancel)
qed simp

lemma steps_8_unfold:
  "(crc_step ^^ 8) x = crc_step (crc_step (crc_step (crc_step (crc_step (crc_step (crc_step (crc_step x)))))))"
  by (simp add: numeral_eq_Suc)

subsection \<open>Properties\<close>

text \<open>C37: for any initial checksum, buffer and buffer address away from the top of the address
  space, \<^verbatim>\<open>Extend\<close> reads only inside the buffer and returns the bitwise CRC-32C of the data.
  Hence the result does not depend on the alignment of the buffer, and extending the checksum
  of one buffer by another gives the checksum of their concatenation.\<close>

theorem crc_Extend_is_crc32c:
  assumes "address + 3 < 2 ^ 64" and "address' + 3 < 2 ^ 64"
  shows "crc_Extend crc address data = Some (crc_reference crc data) \<and>
    Option.bind (crc_Value address data) (\<lambda>c. crc_Extend c address' data') = crc_Value address (data @ data')"
proof -
  have "crc_reference (crc_reference 0 data) data' = crc_reference 0 (data @ data')"
    by (simp add: crc_reference_def xor.assoc)
  then show ?thesis
    by (simp add: crc_Value_def Extend_eq [OF assms(1)] Extend_eq [OF assms(2)])
qed

theorem crc_Extend_is_crc32c_witness:
  "crc_Value 4097 (ascii ''123456789'') = Some 0xe3069283"
proof -
  have "crc_Value 4097 (ascii ''123456789'') = Some (crc_reference 0 (ascii ''123456789''))"
    using crc_Extend_is_crc32c [of 4097 4097 0 "ascii ''123456789''" "[]"] by (simp add: crc_Value_def)
  also have "crc_reference 0 (ascii ''123456789'') = 0xe3069283"
    by (simp add: crc_reference_def crc_byte_def steps_8_unfold crc_step_def crc_poly_def)
  finally show ?thesis .
qed

text \<open>The checksum detects every change that is confined to four consecutive bytes, wherever
  they lie.\<close>

theorem crc_detects_burst:
  assumes "length w = 4" and "length w' = 4" and "w \<noteq> w'" and "address + 3 < 2 ^ 64"
  shows "crc_Extend crc address (p @ w @ s) \<noteq> crc_Extend crc address (p @ w' @ s)"
proof
  assume "crc_Extend crc address (p @ w @ s) = crc_Extend crc address (p @ w' @ s)"
  then have eq: "crc_reference crc (p @ w @ s) = crc_reference crc (p @ w' @ s)"
    by (simp add: Extend_eq [OF assms(4)])
  let ?l = "crc_update (crc XOR 0xffffffff) p"
  have "crc_update ?l (w @ s) = crc_update ?l (w' @ s)"
    using eq unfolding crc_reference_def crc_update_simps(3) [of _ p] by (rule xor_cancel)
  then have same: "crc_update ?l w = crc_update ?l w'"
    using crc_update_inj by simp
  obtain v where v: "DecodeFixed32 w = Some v" using DecodeFixed32_Some [of w] assms(1) by auto
  obtain v' where v': "DecodeFixed32 w' = Some v'" using DecodeFixed32_Some [of w'] assms(2) by auto
  have "W (?l XOR v) = W (?l XOR v')"
    using same crc_update_word [OF v] crc_update_word [OF v'] assms(1,2) by simp
  then have "?l XOR v = ?l XOR v'"
    by (rule steps_inj)
  then have "v = v'"
    by (intro xor_cancel [of v ?l v']) (simp add: xor.commute)
  then show False
    using v v' assms(1-3) DecodeFixed32_same by blast
qed

theorem crc_detects_burst_witness:
  "crc_Extend 0 4096 (ascii ''a'' @ ascii ''1234'' @ []) \<noteq> crc_Extend 0 4096 (ascii ''a'' @ ascii ''1274'' @ [])"
  by (rule crc_detects_burst) simp_all

text \<open>Masking a checksum is undone by unmasking, and the other way round.\<close>

theorem crc_Mask_Unmask:
  "crc_Unmask (crc_Mask c) = c \<and> crc_Mask (crc_Unmask c) = c"
proof -
  have rot: "drop_bit i (drop_bit j x OR push_bit i x) OR push_bit j (drop_bit j x OR push_bit i x) = x"
    if "i + j = 32" for x :: u32 and i j
  proof (rule word_eq_bitsI)
    fix n
    assume "n < LENGTH(32)"
    moreover have "\<not> bit x (32 + m)" for m
      using bit_imp_le_length [of x "32 + m"] by auto
    then have "\<not> bit x (j + (i + n))"
      using that by (metis add.assoc add.commute)
    ultimately show "bit (drop_bit i (drop_bit j x OR push_bit i x) OR push_bit j (drop_bit j x OR push_bit i x)) n = bit x n"
      using that by (cases "n < j") (auto simp: bit_simps)
  qed
  show ?thesis
    using rot [of 17 15 c] rot [of 15 17 "c - kMaskDelta"] by (simp add: crc_Mask_def crc_Unmask_def Let_def)
qed

end
