(* ===== verification/Iterator.thy ===== *)
theory Iterator
  imports Comparator Status
begin

text \<open>
  The iterator interface of \<^verbatim>\<open>include/lldb/iterator.h\<close>, the cleanup list and the empty iterator
  of \<^verbatim>\<open>table/iterator.cpp\<close>, and the caching wrapper of \<^verbatim>\<open>table/iterator_wrapper.h\<close>.

  A class that implements the interface is a record of its methods over its own state type;
  a method that moves the iterator returns the new state, or \<^term>\<open>None\<close> for a failed assertion.
  The documented behaviour of the methods is the locale \<open>iterator_class\<close>: an iterator ranges
  over a finite set of entries with different keys and is at one of them or at none.
\<close>

subsection \<open>The interface\<close>

type_synonym entry = "bytes \<times> bytes"

record 's IteratorMethods =
  It_Valid :: "'s \<Rightarrow> bool"
  It_SeekToFirst :: "'s \<Rightarrow> 's option"
  It_SeekToLast :: "'s \<Rightarrow> 's option"
  It_Seek :: "bytes \<Rightarrow> 's \<Rightarrow> 's option"
  It_Next :: "'s \<Rightarrow> 's option"
  It_Prev :: "'s \<Rightarrow> 's option"
  It_key :: "'s \<Rightarrow> bytes option"
  It_value :: "'s \<Rightarrow> bytes option"
  It_status :: "'s \<Rightarrow> status option"

subsection \<open>Cleanup functions\<close>

text \<open>
  The inlined head node, empty until it is used, and the nodes that follow it. A cleanup is its
  function with the two arguments.
\<close>

record 'f CleanupList =
  cleanup_head :: "'f option"
  cleanup_next :: "'f list"

definition new_CleanupList :: "'f CleanupList" where
  "new_CleanupList = \<lparr> cleanup_head = None, cleanup_next = [] \<rparr>"

definition RegisterCleanup :: "'f option \<Rightarrow> 'f CleanupList \<Rightarrow> 'f CleanupList option" where
  "RegisterCleanup func l =
     (case func of None \<Rightarrow> None
      | Some f \<Rightarrow> Some (if cleanup_head l = None then l \<lparr> cleanup_head := Some f \<rparr>
                       else l \<lparr> cleanup_next := f # cleanup_next l \<rparr>))"

text \<open>The functions the destructor runs, in order.\<close>

definition Iterator_destructor :: "'f CleanupList \<Rightarrow> 'f list" where
  "Iterator_destructor l =
     (case cleanup_head l of None \<Rightarrow> [] | Some f \<Rightarrow> f # cleanup_next l)"

fun register_all :: "'f list \<Rightarrow> 'f CleanupList \<Rightarrow> 'f CleanupList option" where
  "register_all [] l = Some l"
| "register_all (f # fs) l = Option.bind (RegisterCleanup (Some f) l) (register_all fs)"

subsection \<open>The empty iterator\<close>

text \<open>Its state is the status it was created with.\<close>

definition EmptyIterator :: "status IteratorMethods" where
  "EmptyIterator =
     \<lparr> It_Valid = (\<lambda>s. False), It_SeekToFirst = Some, It_SeekToLast = Some, It_Seek = (\<lambda>_. Some),
       It_Next = (\<lambda>s. None), It_Prev = (\<lambda>s. None), It_key = (\<lambda>s. None), It_value = (\<lambda>s. None),
       It_status = Some \<rparr>"

definition NewEmptyIterator :: status where
  "NewEmptyIterator = Status_OK"

definition NewErrorIterator :: "status \<Rightarrow> status" where
  "NewErrorIterator s = s"

subsection \<open>The wrapper\<close>

record 's IteratorWrapper =
  w_iter :: "'s option"
  w_valid :: bool
  w_key :: bytes

definition new_IteratorWrapper :: "'s IteratorWrapper" where
  "new_IteratorWrapper = \<lparr> w_iter = None, w_valid = False, w_key = [] \<rparr>"

definition Wrapper_Update :: "'s IteratorMethods \<Rightarrow> 's \<Rightarrow> 's IteratorWrapper \<Rightarrow> 's IteratorWrapper option" where
  "Wrapper_Update It s w =
     (if It_Valid It s
      then map_option (\<lambda>k. w \<lparr> w_iter := Some s, w_valid := True, w_key := k \<rparr>) (It_key It s)
      else Some (w \<lparr> w_iter := Some s, w_valid := False \<rparr>))"

definition Wrapper_Set ::
    "'s IteratorMethods \<Rightarrow> 's option \<Rightarrow> 's IteratorWrapper \<Rightarrow> 's IteratorWrapper option" where
  "Wrapper_Set It new_iter w =
     (case new_iter of None \<Rightarrow> Some (w \<lparr> w_iter := None, w_valid := False \<rparr>)
      | Some s \<Rightarrow> Wrapper_Update It s w)"

definition Wrapper_key :: "'s IteratorWrapper \<Rightarrow> bytes option" where
  "Wrapper_key w = asserting (w_valid w) (Some (w_key w))"

definition Wrapper_value :: "'s IteratorMethods \<Rightarrow> 's IteratorWrapper \<Rightarrow> bytes option" where
  "Wrapper_value It w = asserting (w_valid w) (Option.bind (w_iter w) (It_value It))"

definition Wrapper_status :: "'s IteratorMethods \<Rightarrow> 's IteratorWrapper \<Rightarrow> status option" where
  "Wrapper_status It w = Option.bind (w_iter w) (It_status It)"

text \<open>The five movements: \<^verbatim>\<open>assert(iter_)\<close>, the movement of the iterator, \<^verbatim>\<open>Update()\<close>.\<close>

definition Wrapper_Next :: "'s IteratorMethods \<Rightarrow> 's IteratorWrapper \<Rightarrow> 's IteratorWrapper option" where
  "Wrapper_Next It w = do { s \<leftarrow> w_iter w; s \<leftarrow> It_Next It s; Wrapper_Update It s w }"

definition Wrapper_Prev :: "'s IteratorMethods \<Rightarrow> 's IteratorWrapper \<Rightarrow> 's IteratorWrapper option" where
  "Wrapper_Prev It w = do { s \<leftarrow> w_iter w; s \<leftarrow> It_Prev It s; Wrapper_Update It s w }"

definition Wrapper_Seek ::
    "'s IteratorMethods \<Rightarrow> bytes \<Rightarrow> 's IteratorWrapper \<Rightarrow> 's IteratorWrapper option" where
  "Wrapper_Seek It k w = do { s \<leftarrow> w_iter w; s \<leftarrow> It_Seek It k s; Wrapper_Update It s w }"

definition Wrapper_SeekToFirst :: "'s IteratorMethods \<Rightarrow> 's IteratorWrapper \<Rightarrow> 's IteratorWrapper option" where
  "Wrapper_SeekToFirst It w = do { s \<leftarrow> w_iter w; s \<leftarrow> It_SeekToFirst It s; Wrapper_Update It s w }"

definition Wrapper_SeekToLast :: "'s IteratorMethods \<Rightarrow> 's IteratorWrapper \<Rightarrow> 's IteratorWrapper option" where
  "Wrapper_SeekToLast It w = do { s \<leftarrow> w_iter w; s \<leftarrow> It_SeekToLast It s; Wrapper_Update It s w }"

subsection \<open>The contract\<close>

text \<open>The entry of a set with the smallest, or the largest, key; \<^term>\<open>None\<close> for the empty set.\<close>

definition first_of :: "(bytes \<Rightarrow> bytes \<Rightarrow> int) \<Rightarrow> entry set \<Rightarrow> entry option \<Rightarrow> bool" where
  "first_of cmp S p \<longleftrightarrow>
     (case p of None \<Rightarrow> S = {} | Some e \<Rightarrow> e \<in> S \<and> (\<forall>e' \<in> S. cmp (fst e) (fst e') \<le> 0))"

definition last_of :: "(bytes \<Rightarrow> bytes \<Rightarrow> int) \<Rightarrow> entry set \<Rightarrow> entry option \<Rightarrow> bool" where
  "last_of cmp S p \<longleftrightarrow>
     (case p of None \<Rightarrow> S = {} | Some e \<Rightarrow> e \<in> S \<and> (\<forall>e' \<in> S. cmp (fst e') (fst e) \<le> 0))"

lemma first_of_simps [simp]:
  "first_of cmp S None \<longleftrightarrow> S = {}"
  "first_of cmp S (Some e) \<longleftrightarrow> e \<in> S \<and> (\<forall>e' \<in> S. cmp (fst e) (fst e') \<le> 0)"
  by (simp_all add: first_of_def)

lemma last_of_simps [simp]:
  "last_of cmp S None \<longleftrightarrow> S = {}"
  "last_of cmp S (Some e) \<longleftrightarrow> e \<in> S \<and> (\<forall>e' \<in> S. cmp (fst e') (fst e) \<le> 0)"
  by (simp_all add: last_of_def)

definition above :: "(bytes \<Rightarrow> bytes \<Rightarrow> int) \<Rightarrow> entry set \<Rightarrow> bytes \<Rightarrow> entry set" where
  "above cmp E k = {e \<in> E. cmp (fst e) k > 0}"

definition below :: "(bytes \<Rightarrow> bytes \<Rightarrow> int) \<Rightarrow> entry set \<Rightarrow> bytes \<Rightarrow> entry set" where
  "below cmp E k = {e \<in> E. cmp (fst e) k < 0}"

definition from_key :: "(bytes \<Rightarrow> bytes \<Rightarrow> int) \<Rightarrow> entry set \<Rightarrow> bytes \<Rightarrow> entry set" where
  "from_key cmp E k = {e \<in> E. cmp (fst e) k \<ge> 0}"

text \<open>A set of entries an iterator may range over.\<close>

definition entries_ok :: "(bytes \<Rightarrow> bool) \<Rightarrow> (bytes \<Rightarrow> bytes \<Rightarrow> int) \<Rightarrow> entry set \<Rightarrow> bool" where
  "entries_ok ok cmp E \<longleftrightarrow>
     finite E \<and> (\<forall>e \<in> E. ok (fst e)) \<and> (\<forall>e \<in> E. \<forall>e' \<in> E. cmp (fst e) (fst e') = 0 \<longrightarrow> e = e')"

text \<open>A wrapper around an iterator caches its validity and key.\<close>

definition wrapped ::
    "('s \<Rightarrow> entry set \<Rightarrow> entry option \<Rightarrow> bool) \<Rightarrow> 's IteratorWrapper \<Rightarrow> entry set \<Rightarrow> entry option \<Rightarrow> bool" where
  "wrapped rep w E p \<longleftrightarrow>
     (\<exists>s. w_iter w = Some s \<and> rep s E p) \<and> w_valid w = (p \<noteq> None) \<and> (\<forall>e. p = Some e \<longrightarrow> w_key w = fst e)"

text \<open>Reading an iterator from its position to the end; \<open>n\<close> bounds the number of entries.\<close>

fun It_collect :: "'s IteratorMethods \<Rightarrow> nat \<Rightarrow> 's \<Rightarrow> entry list option" where
  "It_collect It n s =
     (if It_Valid It s
      then (case n of 0 \<Rightarrow> None
            | Suc n \<Rightarrow> do {
                k \<leftarrow> It_key It s;
                v \<leftarrow> It_value It s;
                s \<leftarrow> It_Next It s;
                es \<leftarrow> It_collect It n s;
                Some ((k, v) # es)
              })
      else Some [])"

declare It_collect.simps [simp del]

text \<open>
  The interface: \<open>rep s E p\<close> says that the iterator in state \<open>s\<close> ranges over \<open>E\<close> and is at
  the entry \<open>p\<close>, or at none.
\<close>

locale iterator_class = key_order ok cmp
  for ok :: "bytes \<Rightarrow> bool" and cmp :: "bytes \<Rightarrow> bytes \<Rightarrow> int" +
  fixes It :: "'s IteratorMethods"
    and rep :: "'s \<Rightarrow> entry set \<Rightarrow> entry option \<Rightarrow> bool"
  assumes entries: "rep s E p \<Longrightarrow> entries_ok ok cmp E"
    and valid: "rep s E p \<Longrightarrow> It_Valid It s \<longleftrightarrow> p \<noteq> None"
    and at_entry: "rep s E (Some e) \<Longrightarrow> e \<in> E \<and> It_key It s = Some (fst e) \<and> It_value It s = Some (snd e)"
    and seek_to_first: "rep s E p \<Longrightarrow>
      \<exists>s' p'. It_SeekToFirst It s = Some s' \<and> rep s' E p' \<and> first_of cmp E p'"
    and seek_to_last: "rep s E p \<Longrightarrow>
      \<exists>s' p'. It_SeekToLast It s = Some s' \<and> rep s' E p' \<and> last_of cmp E p'"
    and seek: "rep s E p \<Longrightarrow> ok k \<Longrightarrow>
      \<exists>s' p'. It_Seek It k s = Some s' \<and> rep s' E p' \<and> first_of cmp (from_key cmp E k) p'"
    and next_entry: "rep s E (Some e) \<Longrightarrow>
      \<exists>s' p'. It_Next It s = Some s' \<and> rep s' E p' \<and> first_of cmp (above cmp E (fst e)) p'"
    and prev_entry: "rep s E (Some e) \<Longrightarrow>
      \<exists>s' p'. It_Prev It s = Some s' \<and> rep s' E p' \<and> last_of cmp (below cmp E (fst e)) p'"
begin

lemma Update_wrapped:
  assumes "rep s E p"
  obtains w' where "Wrapper_Update It s w = Some w'" and "wrapped rep w' E p"
  using assms valid [OF assms] at_entry [of s E]
  by (cases p) (auto simp: Wrapper_Update_def wrapped_def)

lemma wrapped_Set: "rep s E p \<Longrightarrow> \<exists>w'. Wrapper_Set It (Some s) w = Some w' \<and> wrapped rep w' E p"
  using Update_wrapped by (metis Wrapper_Set_def option.simps(5))

lemma wrapped_entries: "wrapped rep w E p \<Longrightarrow> entries_ok ok cmp E"
  using entries by (auto simp: wrapped_def)

lemma wrapped_valid: "wrapped rep w E p \<Longrightarrow> w_valid w \<longleftrightarrow> p \<noteq> None"
  by (simp add: wrapped_def)

lemma wrapped_at:
  "wrapped rep w E (Some e) \<Longrightarrow> e \<in> E \<and> Wrapper_key w = Some (fst e) \<and> Wrapper_value It w = Some (snd e)"
  using at_entry by (cases e) (auto simp: wrapped_def Wrapper_key_def Wrapper_value_def)

lemma wrapped_SeekToFirst:
  assumes "wrapped rep w E p"
  obtains w' p' where "Wrapper_SeekToFirst It w = Some w'" and "wrapped rep w' E p'" and "first_of cmp E p'"
proof -
  obtain s where s: "w_iter w = Some s" "rep s E p"
    using assms by (auto simp: wrapped_def)
  obtain s' p' where s': "It_SeekToFirst It s = Some s'" "rep s' E p'" "first_of cmp E p'"
    using seek_to_first [OF s(2)] by blast
  from Update_wrapped [OF s'(2), of w] that s s' show ?thesis
    unfolding Wrapper_SeekToFirst_def by (metis bind.bind_lunit)
qed

lemma wrapped_SeekToLast:
  assumes "wrapped rep w E p"
  obtains w' p' where "Wrapper_SeekToLast It w = Some w'" and "wrapped rep w' E p'" and "last_of cmp E p'"
proof -
  obtain s where s: "w_iter w = Some s" "rep s E p"
    using assms by (auto simp: wrapped_def)
  obtain s' p' where s': "It_SeekToLast It s = Some s'" "rep s' E p'" "last_of cmp E p'"
    using seek_to_last [OF s(2)] by blast
  from Update_wrapped [OF s'(2), of w] that s s' show ?thesis
    unfolding Wrapper_SeekToLast_def by (metis bind.bind_lunit)
qed

lemma wrapped_Seek:
  assumes "wrapped rep w E p" and "ok k"
  obtains w' p' where "Wrapper_Seek It k w = Some w'" and "wrapped rep w' E p'"
    and "first_of cmp (from_key cmp E k) p'"
proof -
  obtain s where s: "w_iter w = Some s" "rep s E p"
    using assms by (auto simp: wrapped_def)
  obtain s' p' where s': "It_Seek It k s = Some s'" "rep s' E p'" "first_of cmp (from_key cmp E k) p'"
    using seek [OF s(2) assms(2)] by blast
  from Update_wrapped [OF s'(2), of w] that s s' show ?thesis
    unfolding Wrapper_Seek_def by (metis bind.bind_lunit)
qed

lemma wrapped_Next:
  assumes "wrapped rep w E (Some e)"
  obtains w' p' where "Wrapper_Next It w = Some w'" and "wrapped rep w' E p'"
    and "first_of cmp (above cmp E (fst e)) p'"
proof -
  obtain s where s: "w_iter w = Some s" "rep s E (Some e)"
    using assms by (auto simp: wrapped_def)
  obtain s' p' where s': "It_Next It s = Some s'" "rep s' E p'" "first_of cmp (above cmp E (fst e)) p'"
    using next_entry [OF s(2)] by blast
  from Update_wrapped [OF s'(2), of w] that s s' show ?thesis
    unfolding Wrapper_Next_def by (metis bind.bind_lunit)
qed

lemma wrapped_Prev:
  assumes "wrapped rep w E (Some e)"
  obtains w' p' where "Wrapper_Prev It w = Some w'" and "wrapped rep w' E p'"
    and "last_of cmp (below cmp E (fst e)) p'"
proof -
  obtain s where s: "w_iter w = Some s" "rep s E (Some e)"
    using assms by (auto simp: wrapped_def)
  obtain s' p' where s': "It_Prev It s = Some s'" "rep s' E p'" "last_of cmp (below cmp E (fst e)) p'"
    using prev_entry [OF s(2)] by blast
  from Update_wrapped [OF s'(2), of w] that s s' show ?thesis
    unfolding Wrapper_Prev_def by (metis bind.bind_lunit)
qed

text \<open>A client of the interface: reading from an entry to the end.\<close>

lemma collect_from:
  assumes "rep s E p" and "S = (case p of None \<Rightarrow> {} | Some e \<Rightarrow> insert e (above cmp E (fst e)))" and "card S \<le> n"
  shows "\<exists>es. It_collect It n s = Some es \<and> set es = S \<and> sorted_wrt (\<lambda>a b. cmp (fst a) (fst b) < 0) es"
  using assms
proof (induction n arbitrary: s p S)
  case 0
  have "finite S"
    using 0(2) entries [OF 0(1)] by (auto simp: above_def entries_ok_def split: option.splits)
  then have "p = None"
    using 0(2,3) by (auto split: option.splits)
  then show ?case
    using valid [OF 0(1)] 0(2) by (subst It_collect.simps) simp
next
  case (Suc n)
  have E: "entries_ok ok cmp E"
    by (rule entries [OF Suc.prems(1)])
  show ?case
  proof (cases p)
    case None
    then show ?thesis
      using valid [OF Suc.prems(1)] Suc.prems(2) by (subst It_collect.simps) simp
  next
    case (Some e)
    then have at: "e \<in> E" "It_key It s = Some (fst e)" "It_value It s = Some (snd e)"
      using at_entry Suc.prems(1) by blast+
    obtain s' p' where s': "It_Next It s = Some s'" "rep s' E p'" "first_of cmp (above cmp E (fst e)) p'"
      using next_entry Suc.prems(1) Some by blast
    have oke: "ok (fst e)" "\<And>x. x \<in> E \<Longrightarrow> ok (fst x)"
      using E at(1) by (auto simp: entries_ok_def)
    have S': "above cmp E (fst e) = (case p' of None \<Rightarrow> {} | Some e' \<Rightarrow> insert e' (above cmp E (fst e')))"
    proof (cases p')
      case None
      then show ?thesis using s'(3) by simp
    next
      case (Some e')
      then have e': "e' \<in> E" "cmp (fst e') (fst e) > 0" "\<And>x. x \<in> above cmp E (fst e) \<Longrightarrow> cmp (fst e') (fst x) \<le> 0"
        using s'(3) by (auto simp: above_def)
      have "x \<in> insert e' (above cmp E (fst e'))" if x: "x \<in> above cmp E (fst e)" for x
      proof -
        have "x \<in> E" "cmp (fst e') (fst x) \<le> 0"
          using x e'(3) by (auto simp: above_def)
        then show ?thesis
          using E e'(1) cmp_flip [of "fst e'" "fst x"] oke
          by (cases "cmp (fst e') (fst x) = 0") (auto simp: above_def entries_ok_def)
      qed
      moreover have "x \<in> above cmp E (fst e)" if x: "x \<in> insert e' (above cmp E (fst e'))" for x
      proof (cases "x = e'")
        case True
        then show ?thesis using e' by (simp add: above_def)
      next
        case False
        then have x: "x \<in> E" "cmp (fst x) (fst e') > 0"
          using x by (auto simp: above_def)
        then show ?thesis
          using cmp_less_trans [of "fst e" "fst e'" "fst x"] oke(1) oke(2) [OF x(1)] oke(2) [OF e'(1)] e'(2)
            cmp_flip [of "fst e" "fst e'"] cmp_flip [of "fst e'" "fst x"] cmp_flip [of "fst e" "fst x"]
          by (simp add: above_def)
      qed
      ultimately show ?thesis
        using Some by auto
    qed
    have "e \<notin> above cmp E (fst e)"
      using cmp_refl [OF oke(1)] by (simp add: above_def)
    moreover have "finite (above cmp E (fst e))"
      using E by (simp add: above_def entries_ok_def)
    ultimately have "card (above cmp E (fst e)) \<le> n"
      using Suc.prems(2,3) Some by simp
    from Suc.IH [OF s'(2) S' this] obtain es where es: "It_collect It n s' = Some es"
      "set es = above cmp E (fst e)" "sorted_wrt (\<lambda>a b. cmp (fst a) (fst b) < 0) es"
      by blast
    have "\<forall>x \<in> set es. cmp (fst e) (fst x) < 0"
      using es(2) cmp_flip oke by (auto simp: above_def)
    moreover have "It_collect It (Suc n) s = Some (e # es)"
      using valid [OF Suc.prems(1)] Some at s'(1) es(1) by (subst It_collect.simps) simp
    ultimately show ?thesis
      using es Suc.prems(2) Some by (intro exI [of _ "e # es"]) simp
  qed
qed

lemma collect_all:
  assumes "rep s E p" and "card E \<le> n"
  shows "\<exists>s' es. It_SeekToFirst It s = Some s' \<and> It_collect It n s' = Some es \<and> set es = E \<and>
    sorted_wrt (\<lambda>a b. cmp (fst a) (fst b) < 0) es"
proof -
  obtain s' p' where s': "It_SeekToFirst It s = Some s'" "rep s' E p'" "first_of cmp E p'"
    using seek_to_first [OF assms(1)] by blast
  have E: "entries_ok ok cmp E"
    by (rule entries [OF assms(1)])
  have "E = (case p' of None \<Rightarrow> {} | Some e \<Rightarrow> insert e (above cmp E (fst e)))"
  proof (cases p')
    case (Some e)
    then have e: "e \<in> E" "\<And>x. x \<in> E \<Longrightarrow> cmp (fst e) (fst x) \<le> 0"
      using s'(3) by auto
    have "x = e \<or> cmp (fst x) (fst e) > 0" if "x \<in> E" for x
    proof (cases "cmp (fst e) (fst x) = 0")
      case True
      then show ?thesis using E e(1) that unfolding entries_ok_def by blast
    next
      case False
      have "ok (fst e)" "ok (fst x)"
        using E e(1) that unfolding entries_ok_def by blast+
      then show ?thesis
        using False e(2) [OF that] cmp_flip [of "fst e" "fst x"] by simp
    qed
    then show ?thesis
      using Some e(1) by (auto simp: above_def)
  qed (use s'(3) in simp)
  then show ?thesis
    using collect_from [OF s'(2) _ assms(2)] s'(1) by blast
qed

end

subsection \<open>The empty iterator meets the contract\<close>

interpretation empty_iterator: iterator_class "\<lambda>_. True" "Compare BytewiseComparator" EmptyIterator
  "\<lambda>s E p. E = {} \<and> p = None"
  by unfold_locales (auto simp: EmptyIterator_def entries_ok_def from_key_def)

subsection \<open>Properties\<close>

lemma register_all_rest:
  "cleanup_head l = Some c \<Longrightarrow>
   register_all fs l = Some (l \<lparr> cleanup_next := rev fs @ cleanup_next l \<rparr>)"
  by (induction fs arbitrary: l) (simp_all add: RegisterCleanup_def)

text \<open>Destroying an iterator runs every registered cleanup function exactly once: the first
  one registered first, then the others in the reverse order of their registration.\<close>

theorem cleanup_runs_all:
  "map_option Iterator_destructor (register_all fs new_CleanupList) =
     Some (case fs of [] \<Rightarrow> [] | f # fs' \<Rightarrow> f # rev fs')"
proof (cases fs)
  case (Cons f fs')
  have "RegisterCleanup (Some f) new_CleanupList = Some \<lparr> cleanup_head = Some f, cleanup_next = [] \<rparr>"
    by (simp add: RegisterCleanup_def new_CleanupList_def)
  then show ?thesis
    using Cons register_all_rest [of "\<lparr> cleanup_head = Some f, cleanup_next = [] \<rparr>" f fs']
    by (simp add: Iterator_destructor_def)
qed (simp add: new_CleanupList_def Iterator_destructor_def)

end
