(* ===== verification/VectorIterator.thy ===== *)
theory VectorIterator
  imports Iterator
begin

text \<open>
  \<^verbatim>\<open>VectorIterator\<close> of \<^verbatim>\<open>test/test_merger.cpp\<close>: an iterator over a sorted vector of keys and the
  vector of their values. It is the class the merging iterator is exercised with; here it shows
  that the iterator contract has implementations with entries.
\<close>

subsection \<open>Definitions\<close>

record VectorIterator =
  v_keys :: "bytes list"
  v_vals :: "bytes list"
  v_pos :: int

definition new_VectorIterator :: "bytes list \<Rightarrow> bytes list \<Rightarrow> VectorIterator option" where
  "new_VectorIterator ks vs =
     asserting (length ks = length vs) (Some \<lparr> v_keys = ks, v_vals = vs, v_pos = -1 \<rparr>)"

definition Vector_Valid :: "VectorIterator \<Rightarrow> bool" where
  "Vector_Valid v \<longleftrightarrow> v_pos v \<ge> 0 \<and> v_pos v < int (length (v_keys v))"

definition Vector_SeekToFirst :: "VectorIterator \<Rightarrow> VectorIterator" where
  "Vector_SeekToFirst v = v \<lparr> v_pos := (if v_keys v = [] then -1 else 0) \<rparr>"

definition Vector_SeekToLast :: "VectorIterator \<Rightarrow> VectorIterator" where
  "Vector_SeekToLast v = v \<lparr> v_pos := (if v_keys v = [] then -1 else int (length (v_keys v)) - 1) \<rparr>"

fun vector_search :: "bytes \<Rightarrow> int \<Rightarrow> bytes list \<Rightarrow> int" where
  "vector_search target i [] = -1"
| "vector_search target i (k # ks) = (if k \<ge> target then i else vector_search target (i + 1) ks)"

definition Vector_Seek :: "bytes \<Rightarrow> VectorIterator \<Rightarrow> VectorIterator" where
  "Vector_Seek target v = v \<lparr> v_pos := vector_search target 0 (v_keys v) \<rparr>"

definition Vector_Next :: "VectorIterator \<Rightarrow> VectorIterator option" where
  "Vector_Next v = asserting (Vector_Valid v)
     (Some (v \<lparr> v_pos := (if v_pos v + 1 \<ge> int (length (v_keys v)) then -1 else v_pos v + 1) \<rparr>))"

definition Vector_Prev :: "VectorIterator \<Rightarrow> VectorIterator option" where
  "Vector_Prev v = asserting (Vector_Valid v) (Some (v \<lparr> v_pos := v_pos v - 1 \<rparr>))"

definition VectorIteratorMethods :: "VectorIterator IteratorMethods" where
  "VectorIteratorMethods =
     \<lparr> It_Valid = Vector_Valid, It_SeekToFirst = Some \<circ> Vector_SeekToFirst,
       It_SeekToLast = Some \<circ> Vector_SeekToLast, It_Seek = (\<lambda>k. Some \<circ> Vector_Seek k),
       It_Next = Vector_Next, It_Prev = Vector_Prev,
       It_key = (\<lambda>v. asserting (Vector_Valid v) (Some (v_keys v ! nat (v_pos v)))),
       It_value = (\<lambda>v. asserting (Vector_Valid v) (Some (v_vals v ! nat (v_pos v)))),
       It_status = (\<lambda>v. Some Status_OK) \<rparr>"

definition vector_rep :: "VectorIterator \<Rightarrow> entry set \<Rightarrow> entry option \<Rightarrow> bool" where
  "vector_rep v E p \<longleftrightarrow>
     length (v_keys v) = length (v_vals v) \<and> sorted_wrt (<) (v_keys v) \<and> E = set (zip (v_keys v) (v_vals v)) \<and>
     p = (if Vector_Valid v then Some (v_keys v ! nat (v_pos v), v_vals v ! nat (v_pos v)) else None)"

lemma vector_entry: "set (zip ks vs) = (\<lambda>i. (ks ! i, vs ! i)) ` {..<length ks}" if "length ks = length vs"
  using that by (auto simp: set_zip image_def)

lemma vector_less: "sorted_wrt (<) ks \<Longrightarrow> i < length ks \<Longrightarrow> j < length ks \<Longrightarrow> ks ! i < ks ! j \<longleftrightarrow> i < j"
  for ks :: "bytes list"
  by (metis linorder_neqE_nat order_less_asym sorted_wrt_nth_less)

lemma vector_search_spec:
  fixes target :: bytes
  assumes "sorted_wrt (<) ks"
  shows "(vector_search target i ks = -1 \<and> (\<forall>k \<in> set ks. k < target)) \<or>
    (\<exists>n < length ks. vector_search target i ks = i + int n \<and> target \<le> ks ! n \<and> (\<forall>j < n. ks ! j < target))"
  using assms
proof (induction ks arbitrary: i)
  case (Cons k ks)
  show ?case
  proof (cases "target \<le> k")
    case True
    then show ?thesis by auto
  next
    case False
    then have k: "k < target" by simp
    have "sorted_wrt (<) ks"
      using Cons.prems by simp
    from Cons.IH [OF this, of "i + 1"] show ?thesis
    proof (elim disjE exE conjE)
      fix n
      assume "n < length ks" "vector_search target (i + 1) ks = i + 1 + int n" "target \<le> ks ! n"
        "\<forall>j < n. ks ! j < target"
      then show ?thesis
        using k False by (intro disjI2 exI [of _ "Suc n"]) (auto simp: less_Suc_eq_0_disj)
    qed (use k False in auto)
  qed
qed simp

abbreviation bcmp :: "bytes \<Rightarrow> bytes \<Rightarrow> int" where
  "bcmp \<equiv> Compare BytewiseComparator"

lemma bcmp_iffs [simp]:
  "bcmp a b < 0 \<longleftrightarrow> a < b" "bcmp a b \<le> 0 \<longleftrightarrow> a \<le> b" "0 < bcmp a b \<longleftrightarrow> b < a" "0 \<le> bcmp a b \<longleftrightarrow> b \<le> a"
  "bcmp a b = 0 \<longleftrightarrow> a = b"
  by (simp_all add: BytewiseComparator_def Slice_compare_iffs flip: linorder_not_less)

lemma vector_index_unique:
  fixes ks :: "bytes list"
  assumes "length ks = length vs" and "sorted_wrt (<) ks" and "e \<in> set (zip ks vs)" and "e' \<in> set (zip ks vs)"
    and "fst e = fst e'"
  shows "e = e'"
proof -
  obtain i j where "i < length ks" "j < length ks" "e = (ks ! i, vs ! i)" "e' = (ks ! j, vs ! j)"
    using assms(1,3,4) by (auto simp: vector_entry)
  then show ?thesis
    using vector_less [OF assms(2), of i j] vector_less [OF assms(2), of j i] assms(5)
    by (cases i j rule: linorder_cases) auto
qed

text \<open>The first and the last entry of a sorted vector whose key satisfies a condition.\<close>

lemma vector_first:
  assumes "length ks = length vs" "sorted_wrt (<) ks" "n < length ks" "P (ks ! n)" "\<And>j. j < n \<Longrightarrow> \<not> P (ks ! j)"
  shows "first_of bcmp {e \<in> set (zip ks vs). P (fst e)} (Some (ks ! n, vs ! n))"
proof -
  have "ks ! n \<le> ks ! j" if "j < length ks" "P (ks ! j)" for j
    using assms(2,3,5) that by (metis linorder_not_less vector_less)
  then show ?thesis
    using assms(1,3,4) by (auto simp: vector_entry)
qed

lemma vector_last:
  assumes "length ks = length vs" "sorted_wrt (<) ks" "n < length ks" "P (ks ! n)"
    "\<And>j. n < j \<Longrightarrow> j < length ks \<Longrightarrow> \<not> P (ks ! j)"
  shows "last_of bcmp {e \<in> set (zip ks vs). P (fst e)} (Some (ks ! n, vs ! n))"
proof -
  have "ks ! j \<le> ks ! n" if "j < length ks" "P (ks ! j)" for j
    using assms(2,3,5) that by (metis linorder_not_less vector_less)
  then show ?thesis
    using assms(1,3,4) by (auto simp: vector_entry)
qed

lemma vector_none:
  "length ks = length vs \<Longrightarrow> \<forall>j < length ks. \<not> P (ks ! j) \<Longrightarrow> {e \<in> set (zip ks vs). P (fst e)} = {}"
  by (auto simp: vector_entry)

lemma vector_rep_at:
  assumes "vector_rep v E p"
  shows "vector_rep (v \<lparr> v_pos := -1 \<rparr>) E None"
    and "n < length (v_keys v) \<Longrightarrow> vector_rep (v \<lparr> v_pos := int n \<rparr>) E (Some (v_keys v ! n, v_vals v ! n))"
  using assms by (simp_all add: vector_rep_def Vector_Valid_def)

lemma vector_rep_pos:
  assumes "vector_rep v E (Some e)"
  obtains n where "n < length (v_keys v)" and "v_pos v = int n" and "e = (v_keys v ! n, v_vals v ! n)"
    and "Vector_Valid v"
  using assms that [of "nat (v_pos v)"] by (auto simp: vector_rep_def Vector_Valid_def split: if_splits)

lemma Vector_seeks:
  assumes "vector_rep v E p"
  shows "\<exists>p'. vector_rep (Vector_SeekToFirst v) E p' \<and> first_of bcmp E p'"
    and "\<exists>p'. vector_rep (Vector_SeekToLast v) E p' \<and> last_of bcmp E p'"
    and "\<exists>p'. vector_rep (Vector_Seek k v) E p' \<and> first_of bcmp (from_key bcmp E k) p'"
proof -
  note at = vector_rep_at [OF assms]
  have v: "length (v_keys v) = length (v_vals v)" "sorted_wrt (<) (v_keys v)" "E = set (zip (v_keys v) (v_vals v))"
    using assms by (simp_all add: vector_rep_def)
  show "\<exists>p'. vector_rep (Vector_SeekToFirst v) E p' \<and> first_of bcmp E p'"
  proof (cases "v_keys v = []")
    case False
    then have n: "Vector_SeekToFirst v = v \<lparr> v_pos := int 0 \<rparr>" "0 < length (v_keys v)"
      by (simp_all add: Vector_SeekToFirst_def)
    have "first_of bcmp {e \<in> E. True} (Some (v_keys v ! 0, v_vals v ! 0))"
      unfolding v(3) by (rule vector_first [OF v(1,2) n(2)]) auto
    then show ?thesis
      unfolding n(1) simp_thms Collect_mem_eq using at(2) [OF n(2)] by blast
  qed (use at v in \<open>auto simp: Vector_SeekToFirst_def\<close>)
  show "\<exists>p'. vector_rep (Vector_SeekToLast v) E p' \<and> last_of bcmp E p'"
  proof (cases "v_keys v = []")
    case False
    let ?n = "length (v_keys v) - 1"
    have n: "Vector_SeekToLast v = v \<lparr> v_pos := int ?n \<rparr>" "?n < length (v_keys v)"
      using False by (simp_all add: Vector_SeekToLast_def of_nat_diff Suc_le_eq)
    have "last_of bcmp {e \<in> E. True} (Some (v_keys v ! ?n, v_vals v ! ?n))"
      unfolding v(3) by (rule vector_last [OF v(1,2) n(2)]) auto
    then show ?thesis
      unfolding n(1) simp_thms Collect_mem_eq using at(2) [OF n(2)] by blast
  qed (use at v in \<open>auto simp: Vector_SeekToLast_def\<close>)
  show "\<exists>p'. vector_rep (Vector_Seek k v) E p' \<and> first_of bcmp (from_key bcmp E k) p'"
    using vector_search_spec [OF v(2), of k 0]
  proof (elim disjE exE conjE)
    assume "vector_search k 0 (v_keys v) = -1" "\<forall>x \<in> set (v_keys v). x < k"
    moreover from this(2) have "from_key bcmp E k = {}"
      unfolding from_key_def v(3) bcmp_iffs by (intro vector_none [OF v(1)]) (auto simp: not_le)
    ultimately show ?thesis
      using at(1) by (auto simp: Vector_Seek_def)
  next
    fix n
    assume n: "n < length (v_keys v)" "vector_search k 0 (v_keys v) = 0 + int n" "k \<le> v_keys v ! n"
      "\<forall>j < n. v_keys v ! j < k"
    then have "first_of bcmp {e \<in> E. k \<le> fst e} (Some (v_keys v ! n, v_vals v ! n))"
      unfolding v(3) by (intro vector_first [OF v(1,2)]) (auto simp: not_le)
    then show ?thesis
      using at(2) [OF n(1)] n(2) by (auto simp: Vector_Seek_def from_key_def)
  qed
qed

lemma Vector_steps:
  assumes rep: "vector_rep v E (Some e)"
  shows "\<exists>s' p'. Vector_Next v = Some s' \<and> vector_rep s' E p' \<and> first_of bcmp (above bcmp E (fst e)) p'"
    and "\<exists>s' p'. Vector_Prev v = Some s' \<and> vector_rep s' E p' \<and> last_of bcmp (below bcmp E (fst e)) p'"
proof -
  note at = vector_rep_at [OF assms]
  have v: "length (v_keys v) = length (v_vals v)" "sorted_wrt (<) (v_keys v)" "E = set (zip (v_keys v) (v_vals v))"
    using assms by (simp_all add: vector_rep_def)
  obtain n where n: "n < length (v_keys v)" "v_pos v = int n" "e = (v_keys v ! n, v_vals v ! n)" "Vector_Valid v"
    by (rule vector_rep_pos [OF rep])
  show "\<exists>s' p'. Vector_Next v = Some s' \<and> vector_rep s' E p' \<and> first_of bcmp (above bcmp E (fst e)) p'"
  proof (cases "Suc n < length (v_keys v)")
    case True
    have "first_of bcmp {x \<in> E. v_keys v ! n < fst x} (Some (v_keys v ! Suc n, v_vals v ! Suc n))"
      unfolding v(3) by (intro vector_first [OF v(1,2) True]) (use v(2) n(1) True in \<open>auto simp: vector_less\<close>)
    then show ?thesis
      using at(2) [OF True] True n
      by (intro exI [of _ "Some (v_keys v ! Suc n, v_vals v ! Suc n)"] exI conjI)
        (simp_all add: Vector_Next_def asserting_def above_def add.commute)
  next
    case False
    have "{x \<in> E. v_keys v ! n < fst x} = {}"
      unfolding v(3) by (rule vector_none [OF v(1)]) (use v(2) n(1) False in \<open>auto simp: vector_less\<close>)
    then show ?thesis
      using at(1) False n by (auto simp: Vector_Next_def asserting_def above_def)
  qed
  show "\<exists>s' p'. Vector_Prev v = Some s' \<and> vector_rep s' E p' \<and> last_of bcmp (below bcmp E (fst e)) p'"
  proof (cases n)
    case (Suc m)
    have "last_of bcmp {x \<in> E. fst x < v_keys v ! n} (Some (v_keys v ! m, v_vals v ! m))"
      unfolding v(3) by (intro vector_last [OF v(1,2)]) (use v(2) n(1) Suc in \<open>auto simp: vector_less\<close>)
    then show ?thesis
      using at(2) [of m] n Suc by (auto simp: Vector_Prev_def asserting_def below_def)
  next
    case 0
    have "{x \<in> E. fst x < v_keys v ! n} = {}"
      unfolding v(3) by (rule vector_none [OF v(1)]) (use v(2) n(1) 0 in \<open>auto simp: vector_less\<close>)
    then show ?thesis
      using at(1) n 0 by (auto simp: Vector_Prev_def asserting_def below_def)
  qed
qed

interpretation vector: iterator_class "\<lambda>_. True" "Compare BytewiseComparator" VectorIteratorMethods vector_rep
proof
  fix s E p
  assume rep: "vector_rep s E p"
  then show "entries_ok (\<lambda>_. True) bcmp E"
    using vector_index_unique unfolding vector_rep_def entries_ok_def bcmp_iffs by blast
  show "It_Valid VectorIteratorMethods s \<longleftrightarrow> p \<noteq> None"
    using rep by (simp add: vector_rep_def VectorIteratorMethods_def)
  show "\<exists>s' p'. It_SeekToFirst VectorIteratorMethods s = Some s' \<and> vector_rep s' E p' \<and> first_of bcmp E p'"
    "\<exists>s' p'. It_SeekToLast VectorIteratorMethods s = Some s' \<and> vector_rep s' E p' \<and> last_of bcmp E p'"
    "\<exists>s' p'. It_Seek VectorIteratorMethods k s = Some s' \<and> vector_rep s' E p' \<and> first_of bcmp (from_key bcmp E k) p'" for k
    using Vector_seeks [OF rep] by (simp_all add: VectorIteratorMethods_def)
next
  fix s E e
  assume rep: "vector_rep s E (Some e)"
  show "e \<in> E \<and> It_key VectorIteratorMethods s = Some (fst e) \<and> It_value VectorIteratorMethods s = Some (snd e)"
  proof -
    obtain n where n: "n < length (v_keys s)" "v_pos s = int n" "e = (v_keys s ! n, v_vals s ! n)" "Vector_Valid s"
      by (rule vector_rep_pos [OF rep])
    moreover have "e \<in> E"
      using rep n(1,3) by (auto simp: vector_rep_def vector_entry)
    ultimately show ?thesis
      by (simp add: VectorIteratorMethods_def)
  qed
  show "\<exists>s' p'. It_Next VectorIteratorMethods s = Some s' \<and> vector_rep s' E p' \<and> first_of bcmp (above bcmp E (fst e)) p'"
    "\<exists>s' p'. It_Prev VectorIteratorMethods s = Some s' \<and> vector_rep s' E p' \<and> last_of bcmp (below bcmp E (fst e)) p'"
    using Vector_steps [OF rep] by (simp_all add: VectorIteratorMethods_def)
qed

end
