(* ===== verification/Merger.thy ===== *)
theory Merger
  imports VectorIterator
begin

text \<open>
  The merging iterator of \<^verbatim>\<open>table/merger.cpp\<close>. Its children are wrappers around iterators of one
  class; \<^verbatim>\<open>current_\<close> is the index of a child. The main result: if the children meet the
  iterator contract and no key occurs in two children, the merging iterator meets the contract
  for the union of their entries, in both directions and across changes of direction.
\<close>

subsection \<open>Definitions\<close>

datatype Direction = kForward | kReverse

record 's MergingIterator =
  m_children :: "'s IteratorWrapper list"
  m_current :: "nat option"
  m_direction :: Direction

text \<open>A loop over the children \<open>i, i + 1, \<dots>\<close> that leaves out \<^verbatim>\<open>current_\<close>, or nobody.\<close>

fun each_other ::
    "('s IteratorWrapper \<Rightarrow> 's IteratorWrapper option) \<Rightarrow> nat option \<Rightarrow> nat \<Rightarrow> 's IteratorWrapper list \<Rightarrow>
     's IteratorWrapper list option" where
  "each_other f current i [] = Some []"
| "each_other f current i (child # children) = do {
     child \<leftarrow> (if Some i \<noteq> current then f child else Some child);
     children \<leftarrow> each_other f current (Suc i) children;
     Some (child # children)
   }"

definition each_child ::
    "('s IteratorWrapper \<Rightarrow> 's IteratorWrapper option) \<Rightarrow> 's IteratorWrapper list \<Rightarrow>
     's IteratorWrapper list option" where
  "each_child f children = each_other f None 0 children"

text \<open>The loop that \<^verbatim>\<open>FindSmallest\<close> and \<^verbatim>\<open>FindLargest\<close> share, over the given indices.\<close>

fun find_best ::
    "(bytes \<Rightarrow> bytes \<Rightarrow> bool) \<Rightarrow> 's IteratorWrapper list \<Rightarrow> nat list \<Rightarrow> nat option \<Rightarrow> nat option option" where
  "find_best better children [] best = Some best"
| "find_best better children (i # is) best =
     (let child = children ! i in
      if w_valid child then
        (case best of None \<Rightarrow> find_best better children is (Some i)
         | Some b \<Rightarrow> do {
             k \<leftarrow> Wrapper_key child;
             kb \<leftarrow> Wrapper_key (children ! b);
             find_best better children is (if better k kb then Some i else best)
           })
      else find_best better children is best)"

definition FindSmallest :: "Comparator \<Rightarrow> 's IteratorWrapper list \<Rightarrow> nat option option" where
  "FindSmallest C children =
     find_best (\<lambda>k kb. Compare C k kb < 0) children [0..<length children] None"

definition FindLargest :: "Comparator \<Rightarrow> 's IteratorWrapper list \<Rightarrow> nat option option" where
  "FindLargest C children =
     find_best (\<lambda>k kb. Compare C k kb > 0) children (rev [0..<length children]) None"

definition new_MergingIterator :: "'s IteratorMethods \<Rightarrow> 's list \<Rightarrow> 's MergingIterator option" where
  "new_MergingIterator It children = do {
     ws \<leftarrow> those (map (\<lambda>c. Wrapper_Set It (Some c) new_IteratorWrapper) children);
     Some \<lparr> m_children = ws, m_current = None, m_direction = kForward \<rparr>
   }"

definition Merging_Valid :: "'s MergingIterator \<Rightarrow> bool" where
  "Merging_Valid m \<longleftrightarrow> m_current m \<noteq> None"

definition Merging_SeekToFirst ::
    "'s IteratorMethods \<Rightarrow> Comparator \<Rightarrow> 's MergingIterator \<Rightarrow> 's MergingIterator option" where
  "Merging_SeekToFirst It C m = do {
     children \<leftarrow> each_child (Wrapper_SeekToFirst It) (m_children m);
     current \<leftarrow> FindSmallest C children;
     Some \<lparr> m_children = children, m_current = current, m_direction = kForward \<rparr>
   }"

definition Merging_SeekToLast ::
    "'s IteratorMethods \<Rightarrow> Comparator \<Rightarrow> 's MergingIterator \<Rightarrow> 's MergingIterator option" where
  "Merging_SeekToLast It C m = do {
     children \<leftarrow> each_child (Wrapper_SeekToLast It) (m_children m);
     current \<leftarrow> FindLargest C children;
     Some \<lparr> m_children = children, m_current = current, m_direction = kReverse \<rparr>
   }"

definition Merging_Seek ::
    "'s IteratorMethods \<Rightarrow> Comparator \<Rightarrow> bytes \<Rightarrow> 's MergingIterator \<Rightarrow> 's MergingIterator option" where
  "Merging_Seek It C target m = do {
     children \<leftarrow> each_child (Wrapper_Seek It target) (m_children m);
     current \<leftarrow> FindSmallest C children;
     Some \<lparr> m_children = children, m_current = current, m_direction = kForward \<rparr>
   }"

definition Merging_key :: "'s MergingIterator \<Rightarrow> bytes option" where
  "Merging_key m = do { c \<leftarrow> m_current m; Wrapper_key (m_children m ! c) }"

definition Merging_value :: "'s IteratorMethods \<Rightarrow> 's MergingIterator \<Rightarrow> bytes option" where
  "Merging_value It m = do { c \<leftarrow> m_current m; Wrapper_value It (m_children m ! c) }"

definition to_forward ::
    "'s IteratorMethods \<Rightarrow> Comparator \<Rightarrow> bytes \<Rightarrow> 's IteratorWrapper \<Rightarrow> 's IteratorWrapper option" where
  "to_forward It C key child = do {
     child \<leftarrow> Wrapper_Seek It key child;
     if w_valid child then do {
       k \<leftarrow> Wrapper_key child;
       if Compare C key k = 0 then Wrapper_Next It child else Some child
     } else Some child
   }"

definition Merging_Next ::
    "'s IteratorMethods \<Rightarrow> Comparator \<Rightarrow> 's MergingIterator \<Rightarrow> 's MergingIterator option" where
  "Merging_Next It C m = do {
     c \<leftarrow> m_current m;
     key \<leftarrow> Merging_key m;
     children \<leftarrow> (if m_direction m \<noteq> kForward
                   then each_other (to_forward It C key) (Some c) 0 (m_children m)
                   else Some (m_children m));
     child \<leftarrow> Wrapper_Next It (children ! c);
     let children = children[c := child];
     current \<leftarrow> FindSmallest C children;
     Some \<lparr> m_children = children, m_current = current, m_direction = kForward \<rparr>
   }"

definition to_reverse ::
    "'s IteratorMethods \<Rightarrow> bytes \<Rightarrow> 's IteratorWrapper \<Rightarrow> 's IteratorWrapper option" where
  "to_reverse It key child = do {
     child \<leftarrow> Wrapper_Seek It key child;
     if w_valid child then Wrapper_Prev It child else Wrapper_SeekToLast It child
   }"

definition Merging_Prev ::
    "'s IteratorMethods \<Rightarrow> Comparator \<Rightarrow> 's MergingIterator \<Rightarrow> 's MergingIterator option" where
  "Merging_Prev It C m = do {
     c \<leftarrow> m_current m;
     key \<leftarrow> Merging_key m;
     children \<leftarrow> (if m_direction m \<noteq> kReverse
                   then each_other (to_reverse It key) (Some c) 0 (m_children m)
                   else Some (m_children m));
     child \<leftarrow> Wrapper_Prev It (children ! c);
     let children = children[c := child];
     current \<leftarrow> FindLargest C children;
     Some \<lparr> m_children = children, m_current = current, m_direction = kReverse \<rparr>
   }"

fun Merging_status_loop :: "'s IteratorMethods \<Rightarrow> status \<Rightarrow> 's IteratorWrapper list \<Rightarrow> status option" where
  "Merging_status_loop It st [] = Some st"
| "Merging_status_loop It st (child # children) = do {
     st \<leftarrow> Wrapper_status It child;
     if \<not> Status_ok st then Some st else Merging_status_loop It st children
   }"

definition Merging_status :: "'s IteratorMethods \<Rightarrow> 's MergingIterator \<Rightarrow> status option" where
  "Merging_status It m = Merging_status_loop It Status_OK (m_children m)"

definition MergingIterator :: "'s IteratorMethods \<Rightarrow> Comparator \<Rightarrow> 's MergingIterator IteratorMethods" where
  "MergingIterator It C =
     \<lparr> It_Valid = Merging_Valid, It_SeekToFirst = Merging_SeekToFirst It C,
       It_SeekToLast = Merging_SeekToLast It C, It_Seek = Merging_Seek It C,
       It_Next = Merging_Next It C, It_Prev = Merging_Prev It C,
       It_key = Merging_key, It_value = Merging_value It, It_status = Merging_status It \<rparr>"

text \<open>The iterator that \<^verbatim>\<open>NewMergingIterator\<close> returns: one of three classes.\<close>

datatype 's Merged = Merged_Empty status | Merged_Child 's | Merged_Merging "'s MergingIterator"

definition NewMergingIterator :: "'s IteratorMethods \<Rightarrow> 's list \<Rightarrow> 's Merged option" where
  "NewMergingIterator It children =
     (if length children = 0 then Some (Merged_Empty NewEmptyIterator)
      else if length children = 1 then Some (Merged_Child (children ! 0))
      else map_option Merged_Merging (new_MergingIterator It children))"

text \<open>Dynamic dispatch on the result.\<close>

fun Merged_move ::
    "(status \<Rightarrow> status option) \<Rightarrow> ('s \<Rightarrow> 's option) \<Rightarrow> ('s MergingIterator \<Rightarrow> 's MergingIterator option) \<Rightarrow>
     's Merged \<Rightarrow> 's Merged option" where
  "Merged_move f g h (Merged_Empty s) = map_option Merged_Empty (f s)"
| "Merged_move f g h (Merged_Child s) = map_option Merged_Child (g s)"
| "Merged_move f g h (Merged_Merging s) = map_option Merged_Merging (h s)"

definition MergedIterator :: "'s IteratorMethods \<Rightarrow> Comparator \<Rightarrow> 's Merged IteratorMethods" where
  "MergedIterator It C = (let E = EmptyIterator; M = MergingIterator It C in
     \<lparr> It_Valid = case_Merged (It_Valid E) (It_Valid It) (It_Valid M),
       It_SeekToFirst = Merged_move (It_SeekToFirst E) (It_SeekToFirst It) (It_SeekToFirst M),
       It_SeekToLast = Merged_move (It_SeekToLast E) (It_SeekToLast It) (It_SeekToLast M),
       It_Seek = (\<lambda>k. Merged_move (It_Seek E k) (It_Seek It k) (It_Seek M k)),
       It_Next = Merged_move (It_Next E) (It_Next It) (It_Next M),
       It_Prev = Merged_move (It_Prev E) (It_Prev It) (It_Prev M),
       It_key = case_Merged (It_key E) (It_key It) (It_key M),
       It_value = case_Merged (It_value E) (It_value It) (It_value M),
       It_status = case_Merged (It_status E) (It_status It) (It_status M) \<rparr>)"

subsection \<open>Children and their positions\<close>

definition children_at ::
    "('s \<Rightarrow> entry set \<Rightarrow> entry option \<Rightarrow> bool) \<Rightarrow> 's IteratorWrapper list \<Rightarrow> entry set list \<Rightarrow>
     entry option list \<Rightarrow> bool" where
  "children_at rep ws Es ps \<longleftrightarrow>
     length ws = length Es \<and> length ps = length Es \<and> (\<forall>i < length Es. wrapped rep (ws ! i) (Es ! i) (ps ! i))"

text \<open>No key occurs in two children.\<close>

definition keys_apart :: "(bytes \<Rightarrow> bytes \<Rightarrow> int) \<Rightarrow> entry set list \<Rightarrow> bool" where
  "keys_apart cmp Es \<longleftrightarrow>
     (\<forall>i < length Es. \<forall>j < length Es. i \<noteq> j \<longrightarrow>
        (\<forall>e \<in> Es ! i. \<forall>e' \<in> Es ! j. cmp (fst e) (fst e') \<noteq> 0))"

definition merging_rep ::
    "(bytes \<Rightarrow> bytes \<Rightarrow> int) \<Rightarrow> ('s \<Rightarrow> entry set \<Rightarrow> entry option \<Rightarrow> bool) \<Rightarrow> 's MergingIterator \<Rightarrow> entry set \<Rightarrow>
     entry option \<Rightarrow> bool" where
  "merging_rep cmp rep m E p \<longleftrightarrow>
     (\<exists>Es ps. children_at rep (m_children m) Es ps \<and> keys_apart cmp Es \<and> E = \<Union> (set Es) \<and>
        (case p of None \<Rightarrow> m_current m = None
         | Some e \<Rightarrow> \<exists>c < length Es. m_current m = Some c \<and> ps ! c = Some e \<and>
             (\<forall>j < length Es. j \<noteq> c \<longrightarrow>
                (case m_direction m of
                   kForward \<Rightarrow> first_of cmp (above cmp (Es ! j) (fst e)) (ps ! j)
                 | kReverse \<Rightarrow> last_of cmp (below cmp (Es ! j) (fst e)) (ps ! j)))))"

lemma merging_rep_forward:
  assumes "children_at rep ws Es ps" and "keys_apart cmp Es"
    and "case p of None \<Rightarrow> current = None
      | Some e \<Rightarrow> \<exists>c < length Es. current = Some c \<and> ps ! c = Some e \<and>
          (\<forall>j < length Es. j \<noteq> c \<longrightarrow> first_of cmp (above cmp (Es ! j) (fst e)) (ps ! j))"
  shows "merging_rep cmp rep \<lparr> m_children = ws, m_current = current, m_direction = kForward \<rparr> (\<Union> (set Es)) p"
  unfolding merging_rep_def using assms by (intro exI [of _ Es] exI [of _ ps]) (cases p; simp)

lemma merging_rep_reverse:
  assumes "children_at rep ws Es ps" and "keys_apart cmp Es"
    and "case p of None \<Rightarrow> current = None
      | Some e \<Rightarrow> \<exists>c < length Es. current = Some c \<and> ps ! c = Some e \<and>
          (\<forall>j < length Es. j \<noteq> c \<longrightarrow> last_of cmp (below cmp (Es ! j) (fst e)) (ps ! j))"
  shows "merging_rep cmp rep \<lparr> m_children = ws, m_current = current, m_direction = kReverse \<rparr> (\<Union> (set Es)) p"
  unfolding merging_rep_def using assms by (intro exI [of _ Es] exI [of _ ps]) (cases p; simp)

lemma each_other_spec:
  assumes "\<And>j. j < length ws \<Longrightarrow> current \<noteq> Some (i + j) \<Longrightarrow> \<exists>w. f (ws ! j) = Some w \<and> Q (i + j) w"
    and "\<And>j. j < length ws \<Longrightarrow> current = Some (i + j) \<Longrightarrow> Q (i + j) (ws ! j)"
  shows "\<exists>ws'. each_other f current i ws = Some ws' \<and> length ws' = length ws \<and>
    (\<forall>j < length ws. Q (i + j) (ws' ! j)) \<and> (\<forall>j < length ws. current = Some (i + j) \<longrightarrow> ws' ! j = ws ! j)"
  using assms
proof (induction ws arbitrary: i)
  case (Cons w ws)
  obtain w' where w': "(if Some i \<noteq> current then f w else Some w) = Some w'" "Q i w'" "current = Some i \<Longrightarrow> w' = w"
    using Cons.prems(1) [of 0] Cons.prems(2) [of 0] by (cases "current = Some i") auto
  have "\<exists>ws'. each_other f current (Suc i) ws = Some ws' \<and> length ws' = length ws \<and>
      (\<forall>j < length ws. Q (Suc i + j) (ws' ! j)) \<and> (\<forall>j < length ws. current = Some (Suc i + j) \<longrightarrow> ws' ! j = ws ! j)"
    using Cons.prems(1) [of "Suc _"] Cons.prems(2) [of "Suc _"] by (intro Cons.IH) auto
  then obtain ws' where ws': "each_other f current (Suc i) ws = Some ws'" "length ws' = length ws"
    "\<forall>j < length ws. Q (Suc i + j) (ws' ! j)" "\<forall>j < length ws. current = Some (Suc i + j) \<longrightarrow> ws' ! j = ws ! j"
    by blast
  have "\<forall>j < length (w # ws). Q (i + j) ((w' # ws') ! j)"
    using w'(2) ws'(3) by (auto simp: less_Suc_eq_0_disj)
  moreover have "\<forall>j < length (w # ws). current = Some (i + j) \<longrightarrow> (w' # ws') ! j = (w # ws) ! j"
    using w'(3) ws'(4) by (auto simp: less_Suc_eq_0_disj)
  ultimately show ?case
    using w'(1) ws'(1,2) by (intro exI [of _ "w' # ws'"]) simp
qed simp

text \<open>Every child moved; each new position satisfies a condition that may depend on the child.\<close>

lemma children_move:
  assumes at: "children_at rep ws Es ps"
    and move: "\<And>j. j < length Es \<Longrightarrow> current \<noteq> Some j \<Longrightarrow>
      \<exists>w' p'. f (ws ! j) = Some w' \<and> wrapped rep w' (Es ! j) p' \<and> Q j p'"
    and stay: "\<And>j. j < length Es \<Longrightarrow> current = Some j \<Longrightarrow> Q j (ps ! j)"
  obtains ws' ps' where "each_other f current 0 ws = Some ws'" and "children_at rep ws' Es ps'"
    and "\<And>j. j < length Es \<Longrightarrow> Q j (ps' ! j)"
    and "\<And>j. j < length Es \<Longrightarrow> current = Some j \<Longrightarrow> ps' ! j = ps ! j"
proof -
  let ?R = "\<lambda>j w. \<exists>p'. wrapped rep w (Es ! j) p' \<and> Q j p' \<and> (current = Some j \<longrightarrow> p' = ps ! j)"
  have len: "length ws = length Es" "length ps = length Es"
    and wr: "\<And>j. j < length Es \<Longrightarrow> wrapped rep (ws ! j) (Es ! j) (ps ! j)"
    using at by (auto simp: children_at_def)
  have "\<exists>ws'. each_other f current 0 ws = Some ws' \<and> length ws' = length ws \<and>
      (\<forall>j < length ws. ?R (0 + j) (ws' ! j)) \<and> (\<forall>j < length ws. current = Some (0 + j) \<longrightarrow> ws' ! j = ws ! j)"
    by (rule each_other_spec) (use move stay wr len in fastforce)+
  then obtain ws' where ws': "each_other f current 0 ws = Some ws'" "length ws' = length ws"
    "\<forall>j < length Es. ?R j (ws' ! j)"
    using len by auto
  then obtain g where g: "\<forall>j < length Es. wrapped rep (ws' ! j) (Es ! j) (g j) \<and> Q j (g j) \<and>
      (current = Some j \<longrightarrow> g j = ps ! j)"
    by metis
  let ?ps = "map g [0..<length Es]"
  have "children_at rep ws' Es ?ps"
    using g ws'(2) len by (simp add: children_at_def)
  then show ?thesis
    using that [of ws' ?ps] ws'(1) g by simp
qed

subsection \<open>The smallest child\<close>

definition best_among ::
    "(bytes \<Rightarrow> bytes \<Rightarrow> int) \<Rightarrow> entry option list \<Rightarrow> nat set \<Rightarrow> nat option \<Rightarrow> bool" where
  "best_among cmp ps D best \<longleftrightarrow>
     (case best of None \<Rightarrow> \<forall>j \<in> D. ps ! j = None
      | Some b \<Rightarrow> b \<in> D \<and> (\<exists>e. ps ! b = Some e \<and> (\<forall>j \<in> D. \<forall>e'. ps ! j = Some e' \<longrightarrow> cmp (fst e) (fst e') \<le> 0)))"

lemma wrapped_w_key: "wrapped rep w E (Some e) \<Longrightarrow> w_valid w \<and> Wrapper_key w = Some (fst e)"
  by (simp add: wrapped_def Wrapper_key_def)

lemma wrapped_w_invalid: "wrapped rep w E None \<Longrightarrow> \<not> w_valid w"
  by (simp add: wrapped_def)

lemma find_best_spec:
  assumes "key_order ok cmp" and at: "children_at rep ws Es ps"
    and okp': "\<forall>j < length Es. \<forall>e. ps ! j = Some e \<longrightarrow> ok (fst e)"
    and better': "\<forall>a b. ok a \<longrightarrow> ok b \<longrightarrow> (better a b \<longleftrightarrow> cmp a b < 0)"
    and "set idx \<subseteq> {..<length Es}" and "D \<subseteq> {..<length Es}" and "best_among cmp ps D best"
  shows "\<exists>best'. find_best better ws idx best = Some best' \<and> best_among cmp ps (D \<union> set idx) best'"
  using assms(5-)
proof (induction idx arbitrary: D best)
  case (Cons i idx)
  note okp = okp' [rule_format] and better = better' [rule_format]
  note order = key_order.cmp_refl [OF assms(1)] key_order.cmp_trans [OF assms(1)]
    key_order.cmp_total [OF assms(1)]
  have i: "i < length Es" and sub: "set idx \<subseteq> {..<length Es}" "insert i D \<subseteq> {..<length Es}"
    using Cons.prems by auto
  have wi: "wrapped rep (ws ! i) (Es ! i) (ps ! i)"
    using at i by (simp add: children_at_def)
  have step: ?case if "best_among cmp ps (insert i D) best1"
    "find_best better ws (i # idx) best = find_best better ws idx best1" for best1
    using Cons.IH [OF sub that(1)] that(2) by simp
  show ?case
  proof (cases "ps ! i")
    case None
    then have "best_among cmp ps (insert i D) best"
      using Cons.prems(3) by (auto simp: best_among_def split: option.splits)
    then show ?thesis
      using wrapped_w_invalid [of rep "ws ! i" "Es ! i"] wi None by (intro step) (auto simp: Let_def)
  next
    case (Some e)
    then have key: "w_valid (ws ! i)" "Wrapper_key (ws ! i) = Some (fst e)" "ok (fst e)"
      using wrapped_w_key [of rep "ws ! i" "Es ! i" e] wi okp [OF i] by auto
    show ?thesis
    proof (cases best)
      case None
      then have "best_among cmp ps (insert i D) (Some i)"
        using Cons.prems(3) Some order(1) [OF key(3)] by (auto simp: best_among_def)
      then show ?thesis
        using None key by (intro step) auto
    next
      case best: (Some b)
      then obtain eb where eb: "b \<in> D" "ps ! b = Some eb"
        "\<And>j e'. j \<in> D \<Longrightarrow> ps ! j = Some e' \<Longrightarrow> cmp (fst eb) (fst e') \<le> 0"
        using Cons.prems(3) by (auto simp: best_among_def)
      have b: "b < length Es"
        using eb(1) Cons.prems(2) by auto
      then have "wrapped rep (ws ! b) (Es ! b) (ps ! b)"
        using at by (simp add: children_at_def)
      then have kb: "Wrapper_key (ws ! b) = Some (fst eb)" "ok (fst eb)"
        using wrapped_w_key eb(2) okp [OF b] by metis+
      have "best_among cmp ps (insert i D) (if better (fst e) (fst eb) then Some i else best)"
      proof (cases "better (fst e) (fst eb)")
        case True
        then have less: "cmp (fst e) (fst eb) \<le> 0"
          using better key(3) kb(2) by simp
        have "cmp (fst e) (fst e') \<le> 0" if "j \<in> D" "ps ! j = Some e'" for j e'
          using order(2) [OF key(3) kb(2) _ less eb(3) [OF that]] okp that Cons.prems(2) by blast
        then show ?thesis
          using True Some order(1) [OF key(3)] by (auto simp: best_among_def)
      next
        case False
        then have "cmp (fst eb) (fst e) \<le> 0"
          using better key(3) kb(2) order(3) [of "fst e" "fst eb"] key_order.cmp_eq_sym [OF assms(1)] by force
        then show ?thesis
          using False best eb Some by (auto simp: best_among_def)
      qed
      then show ?thesis
        using best key kb by (intro step) auto
    qed
  qed
qed simp

text \<open>
  All children at their first entries in an upward closed set of keys: the best child is at the
  first such entry of the union, and the others are where a merging iterator needs them.
\<close>

lemma best_child:
  assumes ord: "key_order ok cmp" and at: "children_at rep ws Es ps" and apart: "keys_apart cmp Es"
    and okE': "\<forall>j < length Es. \<forall>e \<in> Es ! j. ok (fst e)"
    and better: "\<forall>a b. ok a \<longrightarrow> ok b \<longrightarrow> (better a b \<longleftrightarrow> cmp a b < 0)"
    and all: "set idx = {..<length Es}"
    and up': "\<forall>a b. ok a \<longrightarrow> ok b \<longrightarrow> U a \<longrightarrow> cmp a b \<le> 0 \<longrightarrow> U b"
    and first': "\<forall>j < length Es. first_of cmp {e \<in> Es ! j. U (fst e)} (ps ! j)"
  obtains current p where "find_best better ws idx None = Some current"
    and "first_of cmp {e \<in> \<Union> (set Es). U (fst e)} p"
    and "case p of None \<Rightarrow> current = None
      | Some e \<Rightarrow> \<exists>c < length Es. current = Some c \<and> ps ! c = Some e \<and>
          (\<forall>j < length Es. j \<noteq> c \<longrightarrow> first_of cmp (above cmp (Es ! j) (fst e)) (ps ! j))"
proof -
  note okE = okE' [rule_format] and up = up' [rule_format] and first = first' [rule_format]
  have memp: "e \<in> Es ! j" "U (fst e)" "\<And>x. x \<in> Es ! j \<Longrightarrow> U (fst x) \<Longrightarrow> cmp (fst e) (fst x) \<le> 0"
    if "j < length Es" "ps ! j = Some e" for j e
    using first [OF that(1)] that(2) by auto
  have nonep: "\<not> U (fst x)" if "j < length Es" "ps ! j = None" "x \<in> Es ! j" for j x
    using first [OF that(1)] that(3) unfolding that(2) first_of_simps by blast
  have okp: "ok (fst e)" if "j < length Es" "ps ! j = Some e" for j e
    using okE [OF that(1) memp(1) [OF that]] .
  obtain current where cur: "find_best better ws idx None = Some current" "best_among cmp ps {..<length Es} current"
    using find_best_spec [OF ord at _ better, of idx "{}" None] okp all
    by (auto simp: best_among_def simp del: split_paired_All)
  have in_union: "x \<in> \<Union> (set Es) \<longleftrightarrow> (\<exists>j < length Es. x \<in> Es ! j)" for x
    by (metis in_set_conv_nth UnionE UnionI)
  show ?thesis
  proof (cases current)
    case None
    then have "ps ! j = None" if "j < length Es" for j
      using cur(2) that by (simp add: best_among_def)
    then have "{e \<in> \<Union> (set Es). U (fst e)} = {}"
      using nonep in_union by blast
    then show ?thesis
      using that [of current None] cur(1) None by simp
  next
    case (Some c)
    then obtain e where c: "c < length Es" "ps ! c = Some e"
      "\<And>j e'. j < length Es \<Longrightarrow> ps ! j = Some e' \<Longrightarrow> cmp (fst e) (fst e') \<le> 0"
      using cur(2) by (auto simp: best_among_def)
    note e = memp [OF c(1,2)] and oke = okp [OF c(1,2)]
    have least: "cmp (fst e) (fst x) \<le> 0" if x: "j < length Es" "x \<in> Es ! j" "U (fst x)" for j x
    proof -
      obtain f where f: "ps ! j = Some f"
        using nonep [OF x(1) _ x(2)] x(3) by (cases "ps ! j") auto
      show ?thesis
        using key_order.cmp_trans [OF ord oke okp [OF x(1) f] okE [OF x(1,2)] c(3) [OF x(1) f] memp(3) [OF x(1) f x(2,3)]] .
    qed
    then have "first_of cmp {e \<in> \<Union> (set Es). U (fst e)} (Some e)"
      using e(1,2) c(1) in_union by auto
    moreover have "first_of cmp (above cmp (Es ! j) (fst e)) (ps ! j)" if j: "j < length Es" "j \<noteq> c" for j
    proof -
      have upx: "U (fst x)" if x: "x \<in> above cmp (Es ! j) (fst e)" for x
        using up [OF oke okE [OF j(1)] e(2), of x] x key_order.cmp_flip [OF ord oke okE [OF j(1)], of x]
        by (auto simp: above_def)
      show ?thesis
      proof (cases "ps ! j")
        case None
        have "above cmp (Es ! j) (fst e) = {}"
          using nonep [OF j(1) None] upx above_def by blast
        then show ?thesis
          unfolding None first_of_simps .
      next
        case (Some f)
        note f = memp [OF j(1) Some]
        have "cmp (fst e) (fst f) \<noteq> 0"
          using apart c(1) j e(1) f(1) unfolding keys_apart_def by metis
        then have "f \<in> above cmp (Es ! j) (fst e)"
          using c(3) [OF j(1) Some] f(1) key_order.cmp_flip [OF ord oke okp [OF j(1) Some]] by (simp add: above_def)
        then show ?thesis
          using Some f(3) upx by (auto simp: above_def)
      qed
    qed
    ultimately show ?thesis
      using that [of current "Some e"] cur(1) Some c(1,2) by auto
  qed
qed

subsection \<open>The merging iterator meets the contract\<close>

locale merging_children = iterator_class ok "Compare C" It rep
  for ok :: "bytes \<Rightarrow> bool" and C :: Comparator and It :: "'s IteratorMethods"
    and rep :: "'s \<Rightarrow> entry set \<Rightarrow> entry option \<Rightarrow> bool"
begin

abbreviation mrep :: "'s MergingIterator \<Rightarrow> entry set \<Rightarrow> entry option \<Rightarrow> bool" where
  "mrep \<equiv> merging_rep (Compare C) rep"

abbreviation flipped :: "bytes \<Rightarrow> bytes \<Rightarrow> int" where
  "flipped a b \<equiv> Compare C b a"

lemma flipped_order: "key_order ok flipped"
proof
  fix a b c
  assume "ok a" "ok b" "ok c" "flipped a b \<le> 0" "flipped b c \<le> 0"
  then show "flipped a c \<le> 0"
    using cmp_trans [of c b a] by simp
qed (simp_all add: cmp_refl cmp_flip)

lemma first_of_flipped: "first_of flipped S p = last_of (Compare C) S p"
  by (simp add: first_of_def last_of_def)

lemma above_flipped:
  "ok k \<Longrightarrow> \<forall>e \<in> E. ok (fst e) \<Longrightarrow> above flipped E k = below (Compare C) E k"
  using cmp_flip by (auto simp: above_def below_def)

lemma children_ok:
  assumes "children_at rep ws Es ps" and "j < length Es"
  shows "entries_ok ok (Compare C) (Es ! j)" and "e \<in> Es ! j \<Longrightarrow> ok (fst e)"
proof -
  have "wrapped rep (ws ! j) (Es ! j) (ps ! j)"
    using assms by (simp add: children_at_def)
  then show "entries_ok ok (Compare C) (Es ! j)"
    by (rule wrapped_entries)
  then show "e \<in> Es ! j \<Longrightarrow> ok (fst e)"
    by (simp add: entries_ok_def)
qed

lemma children_keys: "children_at rep ws Es ps \<Longrightarrow> \<forall>j < length Es. \<forall>e \<in> Es ! j. ok (fst e)"
  using children_ok(2) by blast

lemma FindSmallest_rep:
  assumes at: "children_at rep ws Es ps" and apart: "keys_apart (Compare C) Es"
    and up: "\<forall>a b. ok a \<longrightarrow> ok b \<longrightarrow> U a \<longrightarrow> Compare C a b \<le> 0 \<longrightarrow> U b"
    and first: "\<forall>j < length Es. first_of (Compare C) {e \<in> Es ! j. U (fst e)} (ps ! j)"
  obtains current p where "FindSmallest C ws = Some current"
    and "mrep \<lparr> m_children = ws, m_current = current, m_direction = kForward \<rparr> (\<Union> (set Es)) p"
    and "first_of (Compare C) {e \<in> \<Union> (set Es). U (fst e)} p"
proof -
  have len: "length ws = length Es"
    using at by (simp add: children_at_def)
  obtain current p where cp: "FindSmallest C ws = Some current"
    "first_of (Compare C) {e \<in> \<Union> (set Es). U (fst e)} p"
    "case p of None \<Rightarrow> current = None
      | Some e \<Rightarrow> \<exists>c < length Es. current = Some c \<and> ps ! c = Some e \<and>
          (\<forall>j < length Es. j \<noteq> c \<longrightarrow> first_of (Compare C) (above (Compare C) (Es ! j) (fst e)) (ps ! j))"
    unfolding FindSmallest_def len
    by (rule best_child [OF key_order_axioms at apart children_keys [OF at] _ _ up first,
          of "\<lambda>k kb. Compare C k kb < 0" "[0..<length Es]"]) (simp add: atLeast0LessThan)+
  show ?thesis
    by (rule that [OF cp(1) merging_rep_forward [OF at apart cp(3)] cp(2)])
qed

lemma FindLargest_rep:
  assumes at: "children_at rep ws Es ps" and apart: "keys_apart (Compare C) Es"
    and down: "\<forall>a b. ok a \<longrightarrow> ok b \<longrightarrow> U a \<longrightarrow> Compare C b a \<le> 0 \<longrightarrow> U b"
    and last: "\<forall>j < length Es. last_of (Compare C) {e \<in> Es ! j. U (fst e)} (ps ! j)"
  obtains current p where "FindLargest C ws = Some current"
    and "mrep \<lparr> m_children = ws, m_current = current, m_direction = kReverse \<rparr> (\<Union> (set Es)) p"
    and "last_of (Compare C) {e \<in> \<Union> (set Es). U (fst e)} p"
proof -
  have len: "length ws = length Es"
    using at by (simp add: children_at_def)
  have apart': "keys_apart flipped Es"
    using apart unfolding keys_apart_def by metis
  have better: "\<forall>a b. ok a \<longrightarrow> ok b \<longrightarrow> (Compare C a b > 0) = (flipped a b < 0)"
    using cmp_flip by blast
  have all: "set (rev [0..<length Es]) = {..<length Es}"
    by (simp add: atLeast0LessThan)
  have last': "\<forall>j < length Es. first_of flipped {e \<in> Es ! j. U (fst e)} (ps ! j)"
    using last by (simp add: first_of_flipped)
  obtain current p where cp: "FindLargest C ws = Some current"
    "first_of flipped {e \<in> \<Union> (set Es). U (fst e)} p"
    "case p of None \<Rightarrow> current = None
      | Some e \<Rightarrow> \<exists>c < length Es. current = Some c \<and> ps ! c = Some e \<and>
          (\<forall>j < length Es. j \<noteq> c \<longrightarrow> first_of flipped (above flipped (Es ! j) (fst e)) (ps ! j))"
    unfolding FindLargest_def len
    by (rule best_child [OF flipped_order at apart' children_keys [OF at] better all down last'])
  have "above flipped (Es ! j) (fst e) = below (Compare C) (Es ! j) (fst e)"
    if "j < length Es" "c < length Es" "ps ! c = Some e" for j c e
  proof -
    have "ok (fst e)"
      using last [rule_format, OF that(2)] children_ok(2) [OF at that(2)] that(3) by simp
    then show ?thesis
      using children_ok(2) [OF at that(1)] by (intro above_flipped) auto
  qed
  note flip = this
  have "case p of None \<Rightarrow> current = None
      | Some e \<Rightarrow> \<exists>c < length Es. current = Some c \<and> ps ! c = Some e \<and>
          (\<forall>j < length Es. j \<noteq> c \<longrightarrow> last_of (Compare C) (below (Compare C) (Es ! j) (fst e)) (ps ! j))"
    using cp(3)
  proof (cases p)
    case (Some e)
    then obtain c where c: "c < length Es" "current = Some c" "ps ! c = Some e"
      "\<forall>j < length Es. j \<noteq> c \<longrightarrow> first_of flipped (above flipped (Es ! j) (fst e)) (ps ! j)"
      using cp(3) by (simp del: first_of_simps) blast
    then show ?thesis
      using Some flip [OF _ c(1,3)] by (auto simp: first_of_flipped)
  qed simp
  then show ?thesis
    using that [OF cp(1) merging_rep_reverse [OF at apart]] cp(2) by (simp add: first_of_flipped)
qed

lemma child_at: "children_at rep ws Es ps \<Longrightarrow> j < length Es \<Longrightarrow> wrapped rep (ws ! j) (Es ! j) (ps ! j)"
  by (simp add: children_at_def)

text \<open>Moving every child, then taking the smallest or the largest.\<close>

lemma seek_forward:
  assumes at: "children_at rep ws Es ps" and apart: "keys_apart (Compare C) Es"
    and move: "\<And>j. j < length Es \<Longrightarrow>
      \<exists>w' p'. f (ws ! j) = Some w' \<and> wrapped rep w' (Es ! j) p' \<and> first_of (Compare C) {e \<in> Es ! j. U (fst e)} p'"
    and up: "\<forall>a b. ok a \<longrightarrow> ok b \<longrightarrow> U a \<longrightarrow> Compare C a b \<le> 0 \<longrightarrow> U b"
  shows "\<exists>ws' current p'. each_child f ws = Some ws' \<and> FindSmallest C ws' = Some current \<and>
    mrep \<lparr> m_children = ws', m_current = current, m_direction = kForward \<rparr> (\<Union> (set Es)) p' \<and>
    first_of (Compare C) {e \<in> \<Union> (set Es). U (fst e)} p'"
proof -
  obtain ws' ps' where ws': "each_other f None 0 ws = Some ws'" "children_at rep ws' Es ps'"
    "\<And>j. j < length Es \<Longrightarrow> first_of (Compare C) {e \<in> Es ! j. U (fst e)} (ps' ! j)"
    by (rule children_move [OF at, of None f "\<lambda>j. first_of (Compare C) {e \<in> Es ! j. U (fst e)}"])
      (use move in simp_all)
  obtain current p' where "FindSmallest C ws' = Some current"
    "mrep \<lparr> m_children = ws', m_current = current, m_direction = kForward \<rparr> (\<Union> (set Es)) p'"
    "first_of (Compare C) {e \<in> \<Union> (set Es). U (fst e)} p'"
    by (rule FindSmallest_rep [OF ws'(2) apart up]) (use ws'(3) in blast)
  then show ?thesis
    using ws'(1) unfolding each_child_def by blast
qed

lemma Merging_SeekToFirst_rep:
  assumes "mrep m E p"
  shows "\<exists>m' p'. Merging_SeekToFirst It C m = Some m' \<and> mrep m' E p' \<and> first_of (Compare C) E p'"
proof -
  obtain Es ps where Es: "children_at rep (m_children m) Es ps" "keys_apart (Compare C) Es" "E = \<Union> (set Es)"
    using assms unfolding merging_rep_def by blast
  have "\<exists>w' p'. Wrapper_SeekToFirst It (m_children m ! j) = Some w' \<and> wrapped rep w' (Es ! j) p' \<and>
      first_of (Compare C) {e \<in> Es ! j. True} p'" if "j < length Es" for j
    unfolding simp_thms Collect_mem_eq by (rule wrapped_SeekToFirst [OF child_at [OF Es(1) that]]) blast
  from seek_forward [OF Es(1,2) this] obtain ws' current p' where
    "each_child (Wrapper_SeekToFirst It) (m_children m) = Some ws'" "FindSmallest C ws' = Some current"
    "mrep \<lparr> m_children = ws', m_current = current, m_direction = kForward \<rparr> E p'" "first_of (Compare C) E p'"
    unfolding Es(3) simp_thms Collect_mem_eq by blast
  then show ?thesis
    by (intro exI [of _ p'] exI conjI) (simp add: Merging_SeekToFirst_def)
qed

lemma Merging_Seek_rep:
  assumes "mrep m E p" and "ok k"
  shows "\<exists>m' p'. Merging_Seek It C k m = Some m' \<and> mrep m' E p' \<and> first_of (Compare C) (from_key (Compare C) E k) p'"
proof -
  obtain Es ps where Es: "children_at rep (m_children m) Es ps" "keys_apart (Compare C) Es" "E = \<Union> (set Es)"
    using assms unfolding merging_rep_def by blast
  have "\<exists>w' p'. Wrapper_Seek It k (m_children m ! j) = Some w' \<and> wrapped rep w' (Es ! j) p' \<and>
      first_of (Compare C) {e \<in> Es ! j. Compare C (fst e) k \<ge> 0} p'" if "j < length Es" for j
    by (rule wrapped_Seek [OF child_at [OF Es(1) that] assms(2)]) (unfold from_key_def, blast)
  moreover have "\<forall>a b. ok a \<longrightarrow> ok b \<longrightarrow> 0 \<le> Compare C a k \<longrightarrow> Compare C a b \<le> 0 \<longrightarrow> 0 \<le> Compare C b k"
    using cmp_trans [of k _ _] cmp_le_flip assms(2) by metis
  ultimately obtain ws' current p' where
    "each_child (Wrapper_Seek It k) (m_children m) = Some ws'" "FindSmallest C ws' = Some current"
    "mrep \<lparr> m_children = ws', m_current = current, m_direction = kForward \<rparr> E p'"
    "first_of (Compare C) (from_key (Compare C) E k) p'"
    using seek_forward [OF Es(1,2), of "Wrapper_Seek It k" "\<lambda>a. 0 \<le> Compare C a k"]
    unfolding Es(3) from_key_def by blast
  then show ?thesis
    by (intro exI [of _ p'] exI conjI) (simp add: Merging_Seek_def)
qed

lemma Merging_SeekToLast_rep:
  assumes "mrep m E p"
  shows "\<exists>m' p'. Merging_SeekToLast It C m = Some m' \<and> mrep m' E p' \<and> last_of (Compare C) E p'"
proof -
  obtain Es ps where Es: "children_at rep (m_children m) Es ps" "keys_apart (Compare C) Es" "E = \<Union> (set Es)"
    using assms unfolding merging_rep_def by blast
  have "\<exists>w' p'. Wrapper_SeekToLast It (m_children m ! j) = Some w' \<and> wrapped rep w' (Es ! j) p' \<and>
      last_of (Compare C) (Es ! j) p'" if "j < length Es" for j
    by (rule wrapped_SeekToLast [OF child_at [OF Es(1) that]]) blast
  then obtain ws' ps' where ws': "each_child (Wrapper_SeekToLast It) (m_children m) = Some ws'"
    "children_at rep ws' Es ps'" "\<And>j. j < length Es \<Longrightarrow> last_of (Compare C) (Es ! j) (ps' ! j)"
    unfolding each_child_def
    by (rule children_move [OF Es(1), of None "Wrapper_SeekToLast It" "\<lambda>j. last_of (Compare C) (Es ! j)"]) simp_all
  obtain current p' where "FindLargest C ws' = Some current"
    "mrep \<lparr> m_children = ws', m_current = current, m_direction = kReverse \<rparr> (\<Union> (set Es)) p'"
    "last_of (Compare C) {e \<in> \<Union> (set Es). True} p'"
    by (rule FindLargest_rep [OF ws'(2) Es(2), of "\<lambda>_. True"]) (use ws'(3) in simp_all)
  from this [unfolded simp_thms Collect_mem_eq] show ?thesis
    using ws'(1) by (intro exI [of _ p'] exI conjI) (simp_all add: Merging_SeekToLast_def Es(3))
qed

text \<open>The children other than the current one, turned to the other direction.\<close>

lemma to_forward_child:
  assumes w: "wrapped rep w E p" and k: "ok k" and apart: "\<forall>e \<in> E. Compare C k (fst e) \<noteq> 0"
  shows "\<exists>w' p'. to_forward It C k w = Some w' \<and> wrapped rep w' E p' \<and> first_of (Compare C) (above (Compare C) E k) p'"
proof -
  obtain w' p' where w': "Wrapper_Seek It k w = Some w'" "wrapped rep w' E p'"
    "first_of (Compare C) (from_key (Compare C) E k) p'"
    by (rule wrapped_Seek [OF w k])
  have "\<forall>e \<in> E. Compare C (fst e) k \<noteq> 0"
    using apart cmp_eq_sym k wrapped_entries [OF w] unfolding entries_ok_def by metis
  then have eq: "from_key (Compare C) E k = above (Compare C) E k"
    unfolding from_key_def above_def by force
  have "to_forward It C k w = Some w'"
  proof (cases p')
    case None
    then show ?thesis
      using w'(1) wrapped_valid [OF w'(2)] by (simp add: to_forward_def)
  next
    case (Some e)
    then have "e \<in> E" "Wrapper_key w' = Some (fst e)"
      using wrapped_at w'(2) by auto
    then show ?thesis
      using w'(1) wrapped_valid [OF w'(2)] apart by (simp add: to_forward_def)
  qed
  with w'(2,3) eq show ?thesis by auto
qed

lemma to_reverse_child:
  assumes w: "wrapped rep w E p" and k: "ok k"
  shows "\<exists>w' p'. to_reverse It k w = Some w' \<and> wrapped rep w' E p' \<and> last_of (Compare C) (below (Compare C) E k) p'"
proof -
  obtain w1 p1 where w1: "Wrapper_Seek It k w = Some w1" "wrapped rep w1 E p1"
    "first_of (Compare C) (from_key (Compare C) E k) p1"
    by (rule wrapped_Seek [OF w k])
  have okE: "\<And>e. e \<in> E \<Longrightarrow> ok (fst e)"
    using wrapped_entries [OF w] by (simp add: entries_ok_def)
  show ?thesis
  proof (cases p1)
    case None
    obtain w' p' where w': "Wrapper_SeekToLast It w1 = Some w'" "wrapped rep w' E p'" "last_of (Compare C) E p'"
      by (rule wrapped_SeekToLast [OF w1(2)])
    have "below (Compare C) E k = E"
      using w1(3) None by (fastforce simp: below_def from_key_def)
    then show ?thesis
      using w' w1(1) wrapped_valid [OF w1(2)] None by (auto simp: to_reverse_def)
  next
    case (Some e)
    then have e: "e \<in> E" "Compare C (fst e) k \<ge> 0"
      "\<And>x. x \<in> E \<Longrightarrow> Compare C (fst x) k \<ge> 0 \<Longrightarrow> Compare C (fst e) (fst x) \<le> 0"
      using w1(3) by (auto simp: from_key_def)
    obtain w' p' where w': "Wrapper_Prev It w1 = Some w'" "wrapped rep w' E p'"
      "last_of (Compare C) (below (Compare C) E (fst e)) p'"
      by (rule wrapped_Prev [OF w1(2) [unfolded Some]])
    have "Compare C (fst x) (fst e) < 0 \<longleftrightarrow> Compare C (fst x) k < 0" if x: "x \<in> E" for x
      using e(3) [OF x] e(2) cmp_flip [OF okE [OF x] okE [OF e(1)]] cmp_le_flip [OF k okE [OF e(1)]]
        cmp_less_le_trans [OF okE [OF x] k okE [OF e(1)]] by linarith
    then have "below (Compare C) E (fst e) = below (Compare C) E k"
      unfolding below_def by blast
    then show ?thesis
      using w' w1(1) wrapped_valid [OF w1(2)] Some by (auto simp: to_reverse_def)
  qed
qed

lemma children_update:
  "children_at rep ws Es ps \<Longrightarrow> wrapped rep w' (Es ! c) p' \<Longrightarrow> children_at rep (ws[c := w']) Es (ps[c := p'])"
  unfolding children_at_def by (metis length_list_update nth_list_update_eq nth_list_update_neq)

lemma apart_children:
  "keys_apart (Compare C) Es \<Longrightarrow> c < length Es \<Longrightarrow> j < length Es \<Longrightarrow> j \<noteq> c \<Longrightarrow> e \<in> Es ! c \<Longrightarrow>
   \<forall>x \<in> Es ! j. Compare C (fst e) (fst x) \<noteq> 0"
  unfolding keys_apart_def by blast

lemma Merging_Next_rep:
  assumes "mrep m E (Some e)"
  shows "\<exists>m' p'. Merging_Next It C m = Some m' \<and> mrep m' E p' \<and> first_of (Compare C) (above (Compare C) E (fst e)) p'"
proof -
  obtain Es ps c where at: "children_at rep (m_children m) Es ps" and apart: "keys_apart (Compare C) Es"
    and E: "E = \<Union> (set Es)" and c: "c < length Es" "m_current m = Some c" "ps ! c = Some e"
    and dir: "\<forall>j < length Es. j \<noteq> c \<longrightarrow> (case m_direction m of
        kForward \<Rightarrow> first_of (Compare C) (above (Compare C) (Es ! j) (fst e)) (ps ! j)
      | kReverse \<Rightarrow> last_of (Compare C) (below (Compare C) (Es ! j) (fst e)) (ps ! j))"
    using assms unfolding merging_rep_def option.case by blast
  have e: "e \<in> Es ! c" "Wrapper_key (m_children m ! c) = Some (fst e)"
    using wrapped_at child_at [OF at c(1)] c(3) by auto
  have oke: "ok (fst e)"
    by (rule children_ok(2) [OF at c(1) e(1)])
  let ?Q = "\<lambda>j p. j \<noteq> c \<longrightarrow> first_of (Compare C) (above (Compare C) (Es ! j) (fst e)) p"
  obtain ws1 ps1 where ws1: "(if m_direction m \<noteq> kForward
      then each_other (to_forward It C (fst e)) (Some c) 0 (m_children m) else Some (m_children m)) = Some ws1"
    "children_at rep ws1 Es ps1" "\<forall>j < length Es. ?Q j (ps1 ! j)" "ps1 ! c = Some e"
  proof (cases "m_direction m")
    case kForward
    then show ?thesis
      using that at dir c(3) by simp
  next
    case kReverse
    obtain ws1 ps1 where "each_other (to_forward It C (fst e)) (Some c) 0 (m_children m) = Some ws1"
      "children_at rep ws1 Es ps1" "\<And>j. j < length Es \<Longrightarrow> ?Q j (ps1 ! j)"
      "\<And>j. j < length Es \<Longrightarrow> Some c = Some j \<Longrightarrow> ps1 ! j = ps ! j"
      by (rule children_move [OF at, of "Some c" "to_forward It C (fst e)" ?Q])
        (use to_forward_child [OF child_at [OF at] oke] apart_children [OF apart c(1)] e(1) in auto)
    then show ?thesis
      using that kReverse c by simp
  qed
  obtain w' p' where w': "Wrapper_Next It (ws1 ! c) = Some w'" "wrapped rep w' (Es ! c) p'"
    "first_of (Compare C) (above (Compare C) (Es ! c) (fst e)) p'"
    by (rule wrapped_Next [OF child_at [OF ws1(2) c(1), unfolded ws1(4)]])
  have first: "\<forall>j < length Es. first_of (Compare C) {x \<in> Es ! j. Compare C (fst x) (fst e) > 0} (ps1[c := p'] ! j)"
    using ws1(2,3) w'(3) c(1) unfolding children_at_def above_def by (simp add: nth_list_update)
  have up: "\<forall>a b. ok a \<longrightarrow> ok b \<longrightarrow> Compare C a (fst e) > 0 \<longrightarrow> Compare C a b \<le> 0 \<longrightarrow> Compare C b (fst e) > 0"
    using cmp_less_le_trans [OF oke] cmp_flip [OF oke] by blast
  obtain current p'' where "FindSmallest C (ws1[c := w']) = Some current"
    "mrep \<lparr> m_children = ws1[c := w'], m_current = current, m_direction = kForward \<rparr> E p''"
    "first_of (Compare C) (above (Compare C) E (fst e)) p''"
    unfolding E above_def by (rule FindSmallest_rep [OF children_update [OF ws1(2) w'(2)] apart up first])
  then show ?thesis
    using ws1(1) w'(1) c(2) e(2) by (intro exI [of _ p''] exI conjI) (simp_all add: Merging_Next_def Merging_key_def Let_def)
qed

lemma Merging_Prev_rep:
  assumes "mrep m E (Some e)"
  shows "\<exists>m' p'. Merging_Prev It C m = Some m' \<and> mrep m' E p' \<and> last_of (Compare C) (below (Compare C) E (fst e)) p'"
proof -
  obtain Es ps c where at: "children_at rep (m_children m) Es ps" and apart: "keys_apart (Compare C) Es"
    and E: "E = \<Union> (set Es)" and c: "c < length Es" "m_current m = Some c" "ps ! c = Some e"
    and dir: "\<forall>j < length Es. j \<noteq> c \<longrightarrow> (case m_direction m of
        kForward \<Rightarrow> first_of (Compare C) (above (Compare C) (Es ! j) (fst e)) (ps ! j)
      | kReverse \<Rightarrow> last_of (Compare C) (below (Compare C) (Es ! j) (fst e)) (ps ! j))"
    using assms unfolding merging_rep_def option.case by blast
  have e: "e \<in> Es ! c" "Wrapper_key (m_children m ! c) = Some (fst e)"
    using wrapped_at child_at [OF at c(1)] c(3) by auto
  have oke: "ok (fst e)"
    by (rule children_ok(2) [OF at c(1) e(1)])
  let ?Q = "\<lambda>j p. j \<noteq> c \<longrightarrow> last_of (Compare C) (below (Compare C) (Es ! j) (fst e)) p"
  obtain ws1 ps1 where ws1: "(if m_direction m \<noteq> kReverse
      then each_other (to_reverse It (fst e)) (Some c) 0 (m_children m) else Some (m_children m)) = Some ws1"
    "children_at rep ws1 Es ps1" "\<forall>j < length Es. ?Q j (ps1 ! j)" "ps1 ! c = Some e"
  proof (cases "m_direction m")
    case kReverse
    then show ?thesis
      using that at dir c(3) by simp
  next
    case kForward
    obtain ws1 ps1 where "each_other (to_reverse It (fst e)) (Some c) 0 (m_children m) = Some ws1"
      "children_at rep ws1 Es ps1" "\<And>j. j < length Es \<Longrightarrow> ?Q j (ps1 ! j)"
      "\<And>j. j < length Es \<Longrightarrow> Some c = Some j \<Longrightarrow> ps1 ! j = ps ! j"
      by (rule children_move [OF at, of "Some c" "to_reverse It (fst e)" ?Q])
        (use to_reverse_child [OF child_at [OF at] oke] in auto)
    then show ?thesis
      using that kForward c by simp
  qed
  obtain w' p' where w': "Wrapper_Prev It (ws1 ! c) = Some w'" "wrapped rep w' (Es ! c) p'"
    "last_of (Compare C) (below (Compare C) (Es ! c) (fst e)) p'"
    by (rule wrapped_Prev [OF child_at [OF ws1(2) c(1), unfolded ws1(4)]])
  have last: "\<forall>j < length Es. last_of (Compare C) {x \<in> Es ! j. Compare C (fst x) (fst e) < 0} (ps1[c := p'] ! j)"
    using ws1(2,3) w'(3) c(1) unfolding children_at_def below_def by (simp add: nth_list_update)
  have down: "\<forall>a b. ok a \<longrightarrow> ok b \<longrightarrow> Compare C a (fst e) < 0 \<longrightarrow> Compare C b a \<le> 0 \<longrightarrow> Compare C b (fst e) < 0"
    using cmp_le_less_trans oke by blast
  obtain current p'' where "FindLargest C (ws1[c := w']) = Some current"
    "mrep \<lparr> m_children = ws1[c := w'], m_current = current, m_direction = kReverse \<rparr> E p''"
    "last_of (Compare C) (below (Compare C) E (fst e)) p''"
    unfolding E below_def by (rule FindLargest_rep [OF children_update [OF ws1(2) w'(2)] apart down last])
  then show ?thesis
    using ws1(1) w'(1) c(2) e(2) by (intro exI [of _ p''] exI conjI) (simp_all add: Merging_Prev_def Merging_key_def Let_def)
qed

lemma union_entries_ok:
  assumes at: "children_at rep ws Es ps" and apart: "keys_apart (Compare C) Es"
  shows "entries_ok ok (Compare C) (\<Union> (set Es))"
proof -
  have "finite (Es ! j)" if "j < length Es" for j
    using children_ok(1) [OF at that] by (simp add: entries_ok_def)
  then have "finite (\<Union> (set Es))"
    by (metis finite_Union finite_set in_set_conv_nth)
  moreover have "ok (fst e)" if e: "e \<in> \<Union> (set Es)" for e
    using e children_ok(2) [OF at] by (metis UnionE in_set_conv_nth)
  moreover have "e = e'" if x: "e \<in> \<Union> (set Es)" "e' \<in> \<Union> (set Es)" "Compare C (fst e) (fst e') = 0" for e e'
  proof -
    obtain i j where ij: "i < length Es" "e \<in> Es ! i" "j < length Es" "e' \<in> Es ! j"
      using x(1,2) by (metis UnionE in_set_conv_nth)
    then have "i = j"
      using apart x(3) unfolding keys_apart_def by blast
    then show ?thesis
      using children_ok(1) [OF at ij(1)] ij x(3) unfolding entries_ok_def by blast
  qed
  ultimately show ?thesis
    unfolding entries_ok_def by blast
qed

lemma mrep_at:
  assumes "mrep m E (Some e)"
  shows "e \<in> E \<and> Merging_key m = Some (fst e) \<and> Merging_value It m = Some (snd e)"
proof -
  obtain Es ps c where at: "children_at rep (m_children m) Es ps" and E: "E = \<Union> (set Es)"
    and c: "c < length Es" "m_current m = Some c" "ps ! c = Some e"
    using assms unfolding merging_rep_def option.case by blast
  from wrapped_at [OF child_at [OF at c(1), unfolded c(3)]] show ?thesis
    using c(1,2) E by (auto simp: Merging_key_def Merging_value_def)
qed

lemma new_MergingIterator_children:
  assumes "length Es = length ss" and "\<forall>i < length ss. \<exists>p. rep (ss ! i) (Es ! i) p"
  obtains ws ps where "new_MergingIterator It ss = Some \<lparr> m_children = ws, m_current = None, m_direction = kForward \<rparr>"
    and "children_at rep ws Es ps"
proof -
  have "\<exists>ws ps. those (map (\<lambda>c. Wrapper_Set It (Some c) new_IteratorWrapper) ss) = Some ws \<and> children_at rep ws Es ps"
    using assms
  proof (induction ss arbitrary: Es)
    case Nil
    then show ?case by (simp add: children_at_def)
  next
    case (Cons s ss)
    then obtain E Es' where Es: "Es = E # Es'" "length Es' = length ss"
      by (cases Es) auto
    have "\<forall>i < length ss. \<exists>p. rep (ss ! i) (Es' ! i) p"
      using Cons.prems(2) Es(1) by (metis Suc_less_eq length_Cons nth_Cons_Suc)
    from Cons.IH [OF Es(2) this] obtain ws ps where
      ws: "those (map (\<lambda>c. Wrapper_Set It (Some c) new_IteratorWrapper) ss) = Some ws" "children_at rep ws Es' ps"
      by blast
    obtain p where "rep s E p"
      using Cons.prems(2) [rule_format, of 0] Es(1) by auto
    from wrapped_Set [OF this, of new_IteratorWrapper] obtain w where
      w: "Wrapper_Set It (Some s) new_IteratorWrapper = Some w" "wrapped rep w E p"
      by blast
    have "children_at rep (w # ws) Es (p # ps)"
      using ws(2) w(2) Es by (auto simp: children_at_def less_Suc_eq_0_disj)
    then show ?case
      using ws(1) w(1) by auto
  qed
  then show ?thesis
    using that by (auto simp: new_MergingIterator_def)
qed

lemma new_MergingIterator_rep:
  assumes "length Es = length ss" and "\<forall>i < length ss. \<exists>p. rep (ss ! i) (Es ! i) p" and "keys_apart (Compare C) Es"
  obtains m where "new_MergingIterator It ss = Some m" and "mrep m (\<Union> (set Es)) None"
  by (rule new_MergingIterator_children [OF assms(1,2)])
    (rule that, assumption, rule merging_rep_forward [OF _ assms(3)], simp_all)

end

sublocale merging_children < merging: iterator_class ok "Compare C" "MergingIterator It C" "merging_rep (Compare C) rep"
proof
  fix s E p
  assume "mrep s E p"
  then show "entries_ok ok (Compare C) E"
    using union_entries_ok unfolding merging_rep_def by blast
  show "It_Valid (MergingIterator It C) s \<longleftrightarrow> p \<noteq> None"
    using \<open>mrep s E p\<close> by (cases p) (auto simp: merging_rep_def MergingIterator_def Merging_Valid_def)
qed (simp_all only: MergingIterator_def IteratorMethods.select_convs mrep_at,
    (rule Merging_SeekToFirst_rep Merging_SeekToLast_rep Merging_Seek_rep Merging_Next_rep Merging_Prev_rep; assumption)+)

subsection \<open>What \<^verbatim>\<open>NewMergingIterator\<close> returns\<close>

fun merged_rep ::
    "(bytes \<Rightarrow> bytes \<Rightarrow> int) \<Rightarrow> ('s \<Rightarrow> entry set \<Rightarrow> entry option \<Rightarrow> bool) \<Rightarrow> 's Merged \<Rightarrow> entry set \<Rightarrow>
     entry option \<Rightarrow> bool" where
  "merged_rep cmp rep (Merged_Empty s) E p \<longleftrightarrow> E = {} \<and> p = None"
| "merged_rep cmp rep (Merged_Child s) E p \<longleftrightarrow> rep s E p"
| "merged_rep cmp rep (Merged_Merging m) E p \<longleftrightarrow> merging_rep cmp rep m E p"

lemma Merged_moves:
  "Merged_move f g h x = Some y \<longleftrightarrow>
     (case x of Merged_Empty s \<Rightarrow> \<exists>s'. f s = Some s' \<and> y = Merged_Empty s'
      | Merged_Child s \<Rightarrow> \<exists>s'. g s = Some s' \<and> y = Merged_Child s'
      | Merged_Merging s \<Rightarrow> \<exists>s'. h s = Some s' \<and> y = Merged_Merging s')"
  by (cases x) auto

text \<open>A law that holds for the three classes holds for the one that was chosen.\<close>

lemma merged_law:
  assumes "merged_rep cmp rep x E p"
    and "\<And>s. E = {} \<Longrightarrow> p = None \<Longrightarrow> x = Merged_Empty s \<Longrightarrow> \<exists>s' p'. f s = Some s' \<and> E = {} \<and> p' = None \<and> Q p'"
    and "\<And>s. rep s E p \<Longrightarrow> \<exists>s' p'. g s = Some s' \<and> rep s' E p' \<and> Q p'"
    and "\<And>s. merging_rep cmp rep s E p \<Longrightarrow> \<exists>s' p'. h s = Some s' \<and> merging_rep cmp rep s' E p' \<and> Q p'"
  shows "\<exists>x' p'. Merged_move f g h x = Some x' \<and> merged_rep cmp rep x' E p' \<and> Q p'"
proof (cases x)
  case (Merged_Empty s)
  then show ?thesis
    using assms(1,2) by fastforce
next
  case (Merged_Child s)
  then show ?thesis
    using assms(1) assms(3) [of s] by fastforce
next
  case (Merged_Merging s)
  then show ?thesis
    using assms(1) assms(4) [of s] by fastforce
qed

sublocale merging_children < merged: iterator_class ok "Compare C" "MergedIterator It C" "merged_rep (Compare C) rep"
proof
  fix x E p
  assume x: "merged_rep (Compare C) rep x E p"
  then show "entries_ok ok (Compare C) E"
    using entries merging.entries by (cases x) (auto simp: entries_ok_def)
  show "It_Valid (MergedIterator It C) x \<longleftrightarrow> p \<noteq> None"
    using x valid merging.valid by (cases x) (auto simp: MergedIterator_def EmptyIterator_def Let_def)
  show "\<exists>s' p'. It_SeekToFirst (MergedIterator It C) x = Some s' \<and> merged_rep (Compare C) rep s' E p' \<and>
      first_of (Compare C) E p'"
    unfolding MergedIterator_def Let_def IteratorMethods.select_convs
    by (rule merged_law [OF x _ seek_to_first merging.seek_to_first]) (simp_all add: EmptyIterator_def)
  show "\<exists>s' p'. It_SeekToLast (MergedIterator It C) x = Some s' \<and> merged_rep (Compare C) rep s' E p' \<and>
      last_of (Compare C) E p'"
    unfolding MergedIterator_def Let_def IteratorMethods.select_convs
    by (rule merged_law [OF x _ seek_to_last merging.seek_to_last]) (simp_all add: EmptyIterator_def)
  show "\<exists>s' p'. It_Seek (MergedIterator It C) k x = Some s' \<and> merged_rep (Compare C) rep s' E p' \<and>
      first_of (Compare C) (from_key (Compare C) E k) p'" if "ok k" for k
    unfolding MergedIterator_def Let_def IteratorMethods.select_convs
    by (rule merged_law [OF x _ seek [OF _ that] merging.seek [OF _ that]]) (simp_all add: EmptyIterator_def from_key_def)
next
  fix x E e
  assume x: "merged_rep (Compare C) rep x E (Some e)"
  then show "e \<in> E \<and> It_key (MergedIterator It C) x = Some (fst e) \<and> It_value (MergedIterator It C) x = Some (snd e)"
    using at_entry merging.at_entry by (cases x) (auto simp: MergedIterator_def Let_def)
  show "\<exists>s' p'. It_Next (MergedIterator It C) x = Some s' \<and> merged_rep (Compare C) rep s' E p' \<and>
      first_of (Compare C) (above (Compare C) E (fst e)) p'"
    unfolding MergedIterator_def Let_def IteratorMethods.select_convs
    by (rule merged_law [OF x _ next_entry merging.next_entry]) simp_all
  show "\<exists>s' p'. It_Prev (MergedIterator It C) x = Some s' \<and> merged_rep (Compare C) rep s' E p' \<and>
      last_of (Compare C) (below (Compare C) E (fst e)) p'"
    unfolding MergedIterator_def Let_def IteratorMethods.select_convs
    by (rule merged_law [OF x _ prev_entry merging.prev_entry]) simp_all
qed

context merging_children
begin

lemma NewMergingIterator_rep:
  assumes "length Es = length ss" and "\<forall>i < length ss. \<exists>p. rep (ss ! i) (Es ! i) p" and "keys_apart (Compare C) Es"
  obtains x p where "NewMergingIterator It ss = Some x" and "merged_rep (Compare C) rep x (\<Union> (set Es)) p"
proof -
  consider "ss = []" | s where "ss = [s]" | "length ss \<noteq> 0" "length ss \<noteq> 1"
    by (cases ss; cases "tl ss") auto
  then show ?thesis
  proof cases
    case 1
    then show ?thesis
      using that assms(1) by (simp add: NewMergingIterator_def)
  next
    case 2
    then obtain E p where "Es = [E]" "rep s E p"
      using assms(1,2) by (cases Es) auto
    then show ?thesis
      using that [of "Merged_Child s" p] 2 by (simp add: NewMergingIterator_def)
  next
    case 3
    obtain m where "new_MergingIterator It ss = Some m" "mrep m (\<Union> (set Es)) None"
      by (rule new_MergingIterator_rep [OF assms])
    then show ?thesis
      using that [of "Merged_Merging m" None] 3 by (simp add: NewMergingIterator_def)
  qed
qed

lemmas merged_contract = merged.iterator_class_axioms
lemmas merged_collect = merged.collect_all

end

interpretation vector_merging: merging_children "\<lambda>_. True" BytewiseComparator VectorIteratorMethods vector_rep
  by (simp add: merging_children_def vector.iterator_class_axioms)

subsection \<open>Properties\<close>

text \<open>C35: let the class of the children implement the iterator interface as documented, for any comparator, and let no
  key occur in two of the children. Then \<^verbatim>\<open>NewMergingIterator\<close> returns an iterator over the union of the children's
  entries, and it implements the interface: it is valid exactly at an entry, every seek and step in either
  direction, also right after a change of direction, ends at the entry the union has there, and no
  assertion fails.\<close>

theorem NewMergingIterator_is_iterator:
  assumes "iterator_class ok (Compare C) It rep" and "length Es = length ss"
    and "\<forall>i < length ss. \<exists>p. rep (ss ! i) (Es ! i) p" and "keys_apart (Compare C) Es"
  shows "iterator_class ok (Compare C) (MergedIterator It C) (merged_rep (Compare C) rep) \<and>
    (\<exists>x p. NewMergingIterator It ss = Some x \<and> merged_rep (Compare C) rep x (\<Union> (set Es)) p)"
proof -
  have m: "merging_children ok C It rep"
    using assms(1) by (simp add: merging_children_def)
  obtain x p where "NewMergingIterator It ss = Some x" "merged_rep (Compare C) rep x (\<Union> (set Es)) p"
    by (rule merging_children.NewMergingIterator_rep [OF m assms(2-4)])
  then show ?thesis
    using merging_children.merged_contract [OF m] by blast
qed

theorem NewMergingIterator_is_iterator_witness:
  "iterator_class (\<lambda>_. True) bcmp (MergedIterator VectorIteratorMethods BytewiseComparator) (merged_rep bcmp vector_rep) \<and>
   (\<exists>x p. NewMergingIterator VectorIteratorMethods
      [\<lparr> v_keys = [[1], [5]], v_vals = [[10], [50]], v_pos = -1 \<rparr>, \<lparr> v_keys = [[3]], v_vals = [[30]], v_pos = -1 \<rparr>] = Some x \<and>
    merged_rep bcmp vector_rep x {([1], [10]), ([5], [50]), ([3], [30])} p)"
proof -
  let ?ss = "[\<lparr> v_keys = [[1], [5]], v_vals = [[10], [50]], v_pos = -1 \<rparr>, \<lparr> v_keys = [[3]], v_vals = [[30]], v_pos = -1 \<rparr>]"
  let ?Es = "[{([1], [10]), ([5], [50])}, {([3], [30])}] :: entry set list"
  have "\<forall>i < length ?ss. \<exists>p. vector_rep (?ss ! i) (?Es ! i) p"
    by (simp add: less_Suc_eq_0_disj vector_rep_def)
  moreover have "keys_apart bcmp ?Es"
    by (auto simp: keys_apart_def less_Suc_eq)
  moreover have "length ?Es = length ?ss" "\<Union> (set ?Es) = {([1], [10]), ([5], [50]), ([3], [30])}"
    by auto
  ultimately show ?thesis
    using NewMergingIterator_is_iterator [OF vector.iterator_class_axioms, of ?Es ?ss] by metis
qed

text \<open>The merged iterator over any number of children with pairwise different keys enumerates
  the union of their entries in increasing order of the keys, each entry once.\<close>

theorem NewMergingIterator_sorted_union:
  assumes "iterator_class ok (Compare C) It rep" and "length Es = length ss"
    and "\<forall>i < length ss. \<exists>p. rep (ss ! i) (Es ! i) p" and "keys_apart (Compare C) Es"
    and "card (\<Union> (set Es)) \<le> n"
  shows "\<exists>x x' es. NewMergingIterator It ss = Some x \<and> It_SeekToFirst (MergedIterator It C) x = Some x' \<and>
    It_collect (MergedIterator It C) n x' = Some es \<and> set es = \<Union> (set Es) \<and>
    sorted_wrt (\<lambda>a b. Compare C (fst a) (fst b) < 0) es"
proof -
  have m: "merging_children ok C It rep"
    using assms(1) by (simp add: merging_children_def)
  obtain x p where x: "NewMergingIterator It ss = Some x" "merged_rep (Compare C) rep x (\<Union> (set Es)) p"
    by (rule merging_children.NewMergingIterator_rep [OF m assms(2-4)])
  from merging_children.merged_collect [OF m x(2) assms(5)] x(1) show ?thesis
    by blast
qed

theorem NewMergingIterator_sorted_union_witness:
  "\<exists>x x' es. NewMergingIterator VectorIteratorMethods
      [\<lparr> v_keys = [[1], [5]], v_vals = [[10], [50]], v_pos = -1 \<rparr>, \<lparr> v_keys = [[3]], v_vals = [[30]], v_pos = -1 \<rparr>] = Some x \<and>
    It_SeekToFirst (MergedIterator VectorIteratorMethods BytewiseComparator) x = Some x' \<and>
    It_collect (MergedIterator VectorIteratorMethods BytewiseComparator) 3 x' = Some es \<and>
    set es = {([1], [10]), ([3], [30]), ([5], [50])} \<and> sorted_wrt (\<lambda>a b. bcmp (fst a) (fst b) < 0) es"
proof -
  let ?ss = "[\<lparr> v_keys = [[1], [5]], v_vals = [[10], [50]], v_pos = -1 \<rparr>, \<lparr> v_keys = [[3]], v_vals = [[30]], v_pos = -1 \<rparr>]"
  let ?Es = "[{([1], [10]), ([5], [50])}, {([3], [30])}] :: entry set list"
  have reps: "\<forall>i < length ?ss. \<exists>p. vector_rep (?ss ! i) (?Es ! i) p"
    by (simp add: less_Suc_eq_0_disj vector_rep_def)
  have apart: "keys_apart bcmp ?Es"
    by (auto simp: keys_apart_def less_Suc_eq)
  have "card (\<Union> (set ?Es)) \<le> 3" "length ?Es = length ?ss"
    by simp_all
  moreover have "\<Union> (set ?Es) = {([1], [10]), ([3], [30]), ([5], [50])}"
    by auto
  ultimately show ?thesis
    using NewMergingIterator_sorted_union [OF vector.iterator_class_axioms _ reps apart, of 3] by metis
qed

end
