(* ===== verification/MergeScan.thy ===== *)
theory MergeScan
  imports Merger "HOL-Library.Multiset"
begin

text \<open>
  Scans of a merging iterator (\<^verbatim>\<open>table/merger.cpp\<close>) over children that may share keys, as
  the levels of a database do: moving forward only, it delivers every entry of every child.
\<close>

text \<open>The entries from a position on.\<close>

definition ahead :: "(bytes \<Rightarrow> bytes \<Rightarrow> int) \<Rightarrow> entry set \<Rightarrow> entry option \<Rightarrow> entry set" where
  "ahead cmp E p = (case p of None \<Rightarrow> {} | Some e \<Rightarrow> insert e (above cmp E (fst e)))"

definition all_ahead :: "(bytes \<Rightarrow> bytes \<Rightarrow> int) \<Rightarrow> entry set list \<Rightarrow> entry option list \<Rightarrow> entry multiset" where
  "all_ahead cmp Es ps = (\<Sum>(E, p) \<leftarrow> zip Es ps. mset_set (ahead cmp E p))"

text \<open>A merging iterator that moves forward.\<close>

definition scanning ::
    "(bytes \<Rightarrow> bytes \<Rightarrow> int) \<Rightarrow> ('s \<Rightarrow> entry set \<Rightarrow> entry option \<Rightarrow> bool) \<Rightarrow> 's MergingIterator \<Rightarrow> entry set list \<Rightarrow>
     entry option list \<Rightarrow> bool" where
  "scanning cmp rep m Es ps \<longleftrightarrow> children_at rep (m_children m) Es ps \<and> m_direction m = kForward \<and>
     best_among cmp ps {..<length Es} (m_current m)"

lemma all_ahead_update:
  assumes "length ps = length Es" and "c < length Es" and "finite S" and "e \<notin> S"
    and "ahead cmp (Es ! c) (ps ! c) = insert e S" and "ahead cmp (Es ! c) p' = S"
  shows "all_ahead cmp Es ps = add_mset e (all_ahead cmp Es (ps[c := p']))"
  using assms(1,2,5,6)
proof (induction Es arbitrary: ps c)
  case (Cons E Es)
  obtain p qs where ps: "ps = p # qs" "length qs = length Es"
    using Cons.prems(1) by (cases ps) auto
  show ?case
  proof (cases c)
    case 0
    then show ?thesis
      using Cons.prems(3,4) ps assms(3,4) by (simp add: all_ahead_def)
  next
    case (Suc d)
    then have "all_ahead cmp Es qs = add_mset e (all_ahead cmp Es (qs[d := p']))"
      using Cons.prems ps by (intro Cons.IH) auto
    then show ?thesis
      using ps Suc by (simp add: all_ahead_def)
  qed
qed simp

lemma sum_list_in:
  "x \<in># sum_list Ms \<longleftrightarrow> (\<exists>M \<in> set Ms. x \<in># M)"
  by (induction Ms) auto

lemma all_ahead_in:
  assumes "length ps = length Es" and "x \<in># all_ahead cmp Es ps"
  obtains j where "j < length Es" and "x \<in> ahead cmp (Es ! j) (ps ! j)"
proof -
  obtain E p where "(E, p) \<in> set (zip Es ps)" "x \<in># mset_set (ahead cmp E p)"
    using assms(2) unfolding all_ahead_def sum_list_in by auto
  moreover from this(2) have "x \<in> ahead cmp E p"
    by (metis elem_mset_set empty_iff mset_set.infinite set_mset_empty)
  ultimately show ?thesis
    using assms(1) that by (auto simp: set_zip)
qed

lemma collect_Merging: "It_collect (MergedIterator It C) n (Merged_Merging m) = It_collect (MergingIterator It C) n m"
proof (induction n arbitrary: m)
  case 0
  then show ?case
    by (subst (1 2) It_collect.simps) (simp add: MergedIterator_def Let_def)
next
  case (Suc n)
  show ?case
    by (subst (1 2) It_collect.simps)
      (simp add: MergedIterator_def Let_def bind_map_option comp_def flip: Suc.IH [unfolded MergedIterator_def Let_def])
qed

context iterator_class
begin

lemma ahead_first:
  assumes E: "entries_ok ok cmp E" and up: "\<And>a b. ok a \<Longrightarrow> ok b \<Longrightarrow> U a \<Longrightarrow> cmp a b \<le> 0 \<Longrightarrow> U b"
    and first: "first_of cmp {e \<in> E. U (fst e)} p"
  shows "ahead cmp E p = {e \<in> E. U (fst e)}"
proof (cases p)
  case None
  then show ?thesis
    using first by (simp add: ahead_def)
next
  case (Some e)
  have e: "e \<in> E" "U (fst e)" "\<And>x. x \<in> E \<Longrightarrow> U (fst x) \<Longrightarrow> cmp (fst e) (fst x) \<le> 0"
    using first Some by auto
  have okE: "\<And>x. x \<in> E \<Longrightarrow> ok (fst x)" and uniq: "\<And>x. x \<in> E \<Longrightarrow> cmp (fst e) (fst x) = 0 \<Longrightarrow> e = x"
    using E e(1) by (auto simp: entries_ok_def)
  have "x = e \<or> cmp (fst x) (fst e) > 0" if "x \<in> E" "U (fst x)" for x
    using e(3) [OF that] uniq [OF that(1)] cmp_flip [OF okE [OF e(1)] okE [OF that(1)]] by force
  moreover have "U (fst x)" if "x \<in> E" "cmp (fst x) (fst e) > 0" for x
    using up [OF okE [OF e(1)] okE [OF that(1)] e(2)] that cmp_flip [OF okE [OF e(1)] okE [OF that(1)]] by simp
  ultimately show ?thesis
    using Some e(1,2) by (auto simp: ahead_def above_def)
qed

text \<open>A single iterator delivers its entries from a position on.\<close>

lemma collect_ahead:
  assumes "rep s E p" and "ahead cmp E p = S" and "card S \<le> n"
  shows "\<exists>es. It_collect It n s = Some es \<and> mset es = mset_set S \<and> sorted_wrt (\<lambda>a b. cmp (fst a) (fst b) \<le> 0) es"
proof -
  obtain es where es: "It_collect It n s = Some es" "set es = S" "sorted_wrt (\<lambda>a b. cmp (fst a) (fst b) < 0) es"
    using collect_from [OF assms(1) _ assms(3)] assms(2) by (auto simp: ahead_def)
  have okS: "ok (fst x)" if "x \<in> S" for x
    using that assms(1,2) entries [OF assms(1)] at_entry by (fastforce simp: ahead_def above_def entries_ok_def split: option.splits)
  have "distinct xs" if "\<forall>x \<in> set xs. ok (fst x)" "sorted_wrt (\<lambda>a b. cmp (fst a) (fst b) < 0) xs" for xs :: "entry list"
    using that
  proof (induction xs)
    case (Cons x xs)
    then have "x \<notin> set xs"
      using cmp_refl [of "fst x"] by auto
    then show ?case
      using Cons by simp
  qed simp
  then have "distinct es"
    using es(2,3) okS by blast
  moreover have "sorted_wrt (\<lambda>a b. cmp (fst a) (fst b) \<le> 0) es"
    by (rule sorted_wrt_mono_rel [OF _ es(3)]) simp
  ultimately show ?thesis
    using es(1,2) mset_set_set by metis
qed

end

context merging_children
begin

lemma scanning_best:
  assumes at: "children_at rep ws Es ps"
  obtains current where "FindSmallest C ws = Some current"
    and "scanning (Compare C) rep \<lparr> m_children = ws, m_current = current, m_direction = kForward \<rparr> Es ps"
proof -
  have okp: "ok (fst e)" if "j < length Es" "ps ! j = Some e" for j e
    using wrapped_at [OF child_at [OF at that(1), unfolded that(2)]] children_ok(2) [OF at that(1)] by blast
  have "\<exists>best'. find_best (\<lambda>k kb. Compare C k kb < 0) ws [0..<length Es] None = Some best' \<and>
      best_among (Compare C) ps ({} \<union> set [0..<length Es]) best'"
    by (rule find_best_spec [OF key_order_axioms at]) (use okp in \<open>auto simp: best_among_def simp del: split_paired_All\<close>)
  moreover have "length ws = length Es"
    using at by (simp add: children_at_def)
  ultimately show ?thesis
    using that at by (auto simp: FindSmallest_def scanning_def atLeast0LessThan)
qed

lemma scanning_end:
  assumes "scanning (Compare C) rep m Es ps" and "m_current m = None"
  shows "all_ahead (Compare C) Es ps = {#}"
proof -
  have "ahead (Compare C) E p = {}" if "(E, p) \<in> set (zip Es ps)" for E p
    using assms that by (auto simp: scanning_def best_among_def children_at_def set_zip ahead_def)
  then have "x \<notin># all_ahead (Compare C) Es ps" for x
    unfolding all_ahead_def sum_list_in by auto
  then show ?thesis
    by (meson multiset_nonemptyE)
qed

text \<open>One step: the entry delivered is the least of those ahead, and it is the one that is gone afterwards.\<close>

lemma scanning_step:
  assumes m: "scanning (Compare C) rep m Es ps" and c: "m_current m = Some c"
  obtains e m' ps' where "Merging_key m = Some (fst e)" and "Merging_value It m = Some (snd e)"
    and "Merging_Next It C m = Some m'" and "scanning (Compare C) rep m' Es ps'"
    and "all_ahead (Compare C) Es ps = add_mset e (all_ahead (Compare C) Es ps')"
    and "\<forall>x \<in># all_ahead (Compare C) Es ps. Compare C (fst e) (fst x) \<le> 0"
proof -
  have at: "children_at rep (m_children m) Es ps" and fwd: "m_direction m = kForward"
    using m by (simp_all add: scanning_def)
  obtain e where e: "c < length Es" "ps ! c = Some e"
    and least: "\<And>j x. j < length Es \<Longrightarrow> ps ! j = Some x \<Longrightarrow> Compare C (fst e) (fst x) \<le> 0"
    using m c by (auto simp: scanning_def best_among_def)
  note wc = child_at [OF at e(1), unfolded e(2)]
  have okj: "ok (fst x)" if "j < length Es" "x \<in> Es ! j" for j x
    using children_ok(2) [OF at that(1)] that(2) by blast
  have eE: "e \<in> Es ! c" and key: "Wrapper_key (m_children m ! c) = Some (fst e)" "Wrapper_value It (m_children m ! c) = Some (snd e)"
    using wrapped_at [OF wc] by blast+
  obtain w' p' where w': "Wrapper_Next It (m_children m ! c) = Some w'" "wrapped rep w' (Es ! c) p'"
    "first_of (Compare C) (above (Compare C) (Es ! c) (fst e)) p'"
    by (rule wrapped_Next [OF wc])
  have at': "children_at rep ((m_children m)[c := w']) Es (ps[c := p'])"
    by (rule children_update [OF at w'(2)])
  obtain current where cur: "FindSmallest C ((m_children m)[c := w']) = Some current"
    "scanning (Compare C) rep \<lparr> m_children = (m_children m)[c := w'], m_current = current, m_direction = kForward \<rparr> Es (ps[c := p'])"
    by (rule scanning_best [OF at'])
  have up: "Compare C b (fst e) > 0" if "ok a" "ok b" "Compare C a (fst e) > 0" "Compare C a b \<le> 0" for a b
    using cmp_less_le_trans [of "fst e" a b] cmp_flip [of "fst e" a] cmp_flip [of "fst e" b] okj [OF e(1) eE] that by simp
  have "ahead (Compare C) (Es ! c) p' = above (Compare C) (Es ! c) (fst e)"
    unfolding above_def by (rule ahead_first [OF children_ok(1) [OF at e(1)] up w'(3) [unfolded above_def]])
  moreover have "finite (above (Compare C) (Es ! c) (fst e))" "e \<notin> above (Compare C) (Es ! c) (fst e)"
    using children_ok(1) [OF at e(1)] cmp_refl [OF okj [OF e(1) eE]] by (simp_all add: above_def entries_ok_def)
  ultimately have gone: "all_ahead (Compare C) Es ps = add_mset e (all_ahead (Compare C) Es (ps[c := p']))"
    using at e by (intro all_ahead_update) (auto simp: children_at_def ahead_def)
  have "Compare C (fst e) (fst x) \<le> 0" if x: "x \<in># all_ahead (Compare C) Es ps" for x
  proof -
    obtain j where j: "j < length Es" "x \<in> ahead (Compare C) (Es ! j) (ps ! j)"
      using all_ahead_in [OF _ x] at by (auto simp: children_at_def)
    then obtain f where f: "ps ! j = Some f" "x = f \<or> x \<in> above (Compare C) (Es ! j) (fst f)"
      by (cases "ps ! j") (auto simp: ahead_def)
    have fE: "f \<in> Es ! j"
      using wrapped_at [OF child_at [OF at j(1), unfolded f(1)]] by blast
    have "Compare C (fst f) (fst x) \<le> 0" "x \<in> Es ! j"
      using f(2) fE cmp_refl [OF okj [OF j(1) fE]] cmp_flip [OF okj [OF j(1) fE] okj [OF j(1)], of x] by (auto simp: above_def)
    then show ?thesis
      using cmp_trans [of "fst e" "fst f" "fst x"] least [OF j(1) f(1)] okj e(1) eE j(1) fE by blast
  qed
  then show ?thesis
    using that [OF _ _ _ cur(2) gone] key c fwd w'(1) cur(1)
    by (simp add: Merging_key_def Merging_value_def Merging_Next_def Let_def)
qed

lemma scanning_collect:
  "scanning (Compare C) rep m Es ps \<Longrightarrow> size (all_ahead (Compare C) Es ps) \<le> n \<Longrightarrow>
   \<exists>es. It_collect (MergingIterator It C) n m = Some es \<and> mset es = all_ahead (Compare C) Es ps \<and>
    sorted_wrt (\<lambda>a b. Compare C (fst a) (fst b) \<le> 0) es"
proof (induction n arbitrary: m ps)
  case 0
  then have "m_current m = None"
    by (cases "m_current m") (auto elim: scanning_step)
  then show ?case
    using scanning_end [OF 0(1)] by (subst It_collect.simps) (simp add: MergingIterator_def Merging_Valid_def)
next
  case (Suc n)
  show ?case
  proof (cases "m_current m")
    case None
    then show ?thesis
      using scanning_end [OF Suc.prems(1)] by (subst It_collect.simps) (simp add: MergingIterator_def Merging_Valid_def)
  next
    case (Some c)
    obtain e m' ps' where s: "Merging_key m = Some (fst e)" "Merging_value It m = Some (snd e)" "Merging_Next It C m = Some m'"
      "scanning (Compare C) rep m' Es ps'" "all_ahead (Compare C) Es ps = add_mset e (all_ahead (Compare C) Es ps')"
      "\<forall>x \<in># all_ahead (Compare C) Es ps. Compare C (fst e) (fst x) \<le> 0"
      by (rule scanning_step [OF Suc.prems(1) Some])
    obtain es where es: "It_collect (MergingIterator It C) n m' = Some es" "mset es = all_ahead (Compare C) Es ps'"
      "sorted_wrt (\<lambda>a b. Compare C (fst a) (fst b) \<le> 0) es"
      using Suc.IH [OF s(4)] Suc.prems(2) s(5) by auto
    have "It_collect (MergingIterator It C) (Suc n) m = Some (e # es)"
      using s(1-3) Some es(1) by (subst It_collect.simps) (simp add: MergingIterator_def Merging_Valid_def)
    moreover have "\<forall>x \<in> set es. Compare C (fst e) (fst x) \<le> 0"
      using s(5,6) es(2) by (metis set_mset_mset insert_iff set_mset_add_mset_insert)
    ultimately show ?thesis
      using es s(5) by (intro exI [of _ "e # es"]) simp
  qed
qed

text \<open>All children sought to their first entries in an upward closed set of keys.\<close>

lemma scan_from:
  assumes at: "children_at rep ws Es ps"
    and move: "\<And>j. j < length Es \<Longrightarrow> \<exists>w' p'. f (ws ! j) = Some w' \<and> wrapped rep w' (Es ! j) p' \<and>
      first_of (Compare C) {e \<in> Es ! j. U (fst e)} p'"
    and up: "\<And>a b. ok a \<Longrightarrow> ok b \<Longrightarrow> U a \<Longrightarrow> Compare C a b \<le> 0 \<Longrightarrow> U b"
    and n: "(\<Sum>E \<leftarrow> Es. card {e \<in> E. U (fst e)}) \<le> n"
  obtains ws' current es where "each_child f ws = Some ws'" and "FindSmallest C ws' = Some current"
    and "It_collect (MergingIterator It C) n \<lparr> m_children = ws', m_current = current, m_direction = kForward \<rparr> = Some es"
    and "mset es = (\<Sum>E \<leftarrow> Es. mset_set {e \<in> E. U (fst e)})" and "sorted_wrt (\<lambda>a b. Compare C (fst a) (fst b) \<le> 0) es"
proof -
  obtain ws' ps' where ws': "each_other f None 0 ws = Some ws'" "children_at rep ws' Es ps'"
    "\<And>j. j < length Es \<Longrightarrow> first_of (Compare C) {e \<in> Es ! j. U (fst e)} (ps' ! j)"
    by (rule children_move [OF at, of None f "\<lambda>j. first_of (Compare C) {e \<in> Es ! j. U (fst e)}"]) (use move in auto)
  have len: "length ps' = length Es"
    using ws'(2) by (simp add: children_at_def)
  have "map (\<lambda>(E, p). mset_set (ahead (Compare C) E p)) (zip Es ps') = map (\<lambda>E. mset_set {e \<in> E. U (fst e)}) Es"
    using len ahead_first [OF children_ok(1) [OF ws'(2)] up ws'(3)] by (intro nth_equalityI) simp_all
  then have all: "all_ahead (Compare C) Es ps' = (\<Sum>E \<leftarrow> Es. mset_set {e \<in> E. U (fst e)})"
    by (simp add: all_ahead_def)
  have "size (\<Sum>E \<leftarrow> Fs. mset_set {e \<in> E. U (fst e)}) = (\<Sum>E \<leftarrow> Fs. card {e \<in> E. U (fst e)})" for Fs :: "entry set list"
    by (induction Fs) simp_all
  then have size: "size (all_ahead (Compare C) Es ps') \<le> n"
    using n all by simp
  obtain current where cur: "FindSmallest C ws' = Some current"
    "scanning (Compare C) rep \<lparr> m_children = ws', m_current = current, m_direction = kForward \<rparr> Es ps'"
    by (rule scanning_best [OF ws'(2)])
  then show ?thesis
    using that [of ws' current] scanning_collect [OF cur(2) size] ws'(1) all by (auto simp: each_child_def)
qed

lemma Merging_scans:
  assumes at: "children_at rep (m_children m) Es ps" and n: "(\<Sum>E \<leftarrow> Es. card E) \<le> n" and k: "ok k"
  shows "\<exists>m' es. Merging_SeekToFirst It C m = Some m' \<and> It_collect (MergingIterator It C) n m' = Some es \<and>
      mset es = (\<Sum>E \<leftarrow> Es. mset_set E) \<and> sorted_wrt (\<lambda>a b. Compare C (fst a) (fst b) \<le> 0) es"
    and "\<exists>m' es. Merging_Seek It C k m = Some m' \<and> It_collect (MergingIterator It C) n m' = Some es \<and>
      mset es = (\<Sum>E \<leftarrow> Es. mset_set (from_key (Compare C) E k)) \<and> sorted_wrt (\<lambda>a b. Compare C (fst a) (fst b) \<le> 0) es"
proof -
  have first: "\<exists>w' p'. Wrapper_SeekToFirst It (m_children m ! j) = Some w' \<and> wrapped rep w' (Es ! j) p' \<and>
      first_of (Compare C) {e \<in> Es ! j. True} p'" if "j < length Es" for j
    unfolding simp_thms Collect_mem_eq by (rule wrapped_SeekToFirst [OF child_at [OF at that]]) blast
  obtain ws' current es where "each_child (Wrapper_SeekToFirst It) (m_children m) = Some ws'" "FindSmallest C ws' = Some current"
    "It_collect (MergingIterator It C) n \<lparr> m_children = ws', m_current = current, m_direction = kForward \<rparr> = Some es"
    "mset es = (\<Sum>E \<leftarrow> Es. mset_set E)" "sorted_wrt (\<lambda>a b. Compare C (fst a) (fst b) \<le> 0) es"
    by (rule scan_from [OF at first, of n]) (use n in simp_all)
  then show "\<exists>m' es. Merging_SeekToFirst It C m = Some m' \<and> It_collect (MergingIterator It C) n m' = Some es \<and>
      mset es = (\<Sum>E \<leftarrow> Es. mset_set E) \<and> sorted_wrt (\<lambda>a b. Compare C (fst a) (fst b) \<le> 0) es"
    by (intro exI conjI) (simp_all add: Merging_SeekToFirst_def)
  let ?U = "\<lambda>a. Compare C a k \<ge> 0"
  have up: "?U b" if "ok a" "ok b" "?U a" "Compare C a b \<le> 0" for a b
    using cmp_trans [of k a b] cmp_le_flip [of k a] cmp_le_flip [of k b] k that by simp
  have move: "\<exists>w' p'. Wrapper_Seek It k (m_children m ! j) = Some w' \<and> wrapped rep w' (Es ! j) p' \<and>
      first_of (Compare C) {e \<in> Es ! j. ?U (fst e)} p'" if "j < length Es" for j
    by (rule wrapped_Seek [OF child_at [OF at that] k]) (unfold from_key_def, blast)
  have "\<forall>E \<in> set Es. finite E"
    using children_ok(1) [OF at] by (metis entries_ok_def in_set_conv_nth)
  then have "(\<Sum>E \<leftarrow> Es. card {e \<in> E. ?U (fst e)}) \<le> (\<Sum>E \<leftarrow> Es. card E)"
    by (intro sum_list_mono card_mono) auto
  with n have few: "(\<Sum>E \<leftarrow> Es. card {e \<in> E. ?U (fst e)}) \<le> n"
    by simp
  obtain ws' current es where "each_child (Wrapper_Seek It k) (m_children m) = Some ws'" "FindSmallest C ws' = Some current"
    "It_collect (MergingIterator It C) n \<lparr> m_children = ws', m_current = current, m_direction = kForward \<rparr> = Some es"
    "mset es = (\<Sum>E \<leftarrow> Es. mset_set (from_key (Compare C) E k))" "sorted_wrt (\<lambda>a b. Compare C (fst a) (fst b) \<le> 0) es"
    unfolding from_key_def by (rule scan_from [OF at move up few])
  then show "\<exists>m' es. Merging_Seek It C k m = Some m' \<and> It_collect (MergingIterator It C) n m' = Some es \<and>
      mset es = (\<Sum>E \<leftarrow> Es. mset_set (from_key (Compare C) E k)) \<and> sorted_wrt (\<lambda>a b. Compare C (fst a) (fst b) \<le> 0) es"
    by (intro exI conjI) (simp_all add: Merging_Seek_def)
qed

lemma NewMergingIterator_scans_all:
  assumes "length Es = length ss" and "\<forall>i < length ss. \<exists>p. rep (ss ! i) (Es ! i) p"
    and n: "(\<Sum>E \<leftarrow> Es. card E) \<le> n" and k: "ok k"
  shows "\<exists>x. NewMergingIterator It ss = Some x \<and>
    (\<exists>x' es. It_SeekToFirst (MergedIterator It C) x = Some x' \<and> It_collect (MergedIterator It C) n x' = Some es \<and>
      mset es = (\<Sum>E \<leftarrow> Es. mset_set E) \<and> sorted_wrt (\<lambda>a b. Compare C (fst a) (fst b) \<le> 0) es) \<and>
    (\<exists>x' es. It_Seek (MergedIterator It C) k x = Some x' \<and> It_collect (MergedIterator It C) n x' = Some es \<and>
      mset es = (\<Sum>E \<leftarrow> Es. mset_set (from_key (Compare C) E k)) \<and> sorted_wrt (\<lambda>a b. Compare C (fst a) (fst b) \<le> 0) es)"
proof (cases "length ss < 2")
  case True
  have one: "Es = [] \<or> (\<exists>E. Es = [E])"
    using True assms(1) by (cases Es; cases "tl Es") auto
  have "keys_apart (Compare C) Es"
    using True assms(1) by (auto simp: keys_apart_def)
  then obtain x p where x: "NewMergingIterator It ss = Some x" "merged_rep (Compare C) rep x (\<Union> (set Es)) p"
    by (rule NewMergingIterator_rep [OF assms(1,2)])
  let ?E = "\<Union> (set Es)"
  have E: "entries_ok ok (Compare C) ?E" and fin: "finite ?E"
    using merged.entries [OF x(2)] by (simp_all add: entries_ok_def)
  have sums: "(\<Sum>E \<leftarrow> Es. mset_set E) = mset_set ?E"
    "(\<Sum>E \<leftarrow> Es. mset_set (from_key (Compare C) E k)) = mset_set (from_key (Compare C) ?E k)" "(\<Sum>E \<leftarrow> Es. card E) = card ?E"
    using one by (auto simp: from_key_def)
  have few: "card ?E \<le> n" "card (from_key (Compare C) ?E k) \<le> n"
    using n sums(3) fin by (auto simp: from_key_def intro: card_mono [THEN order_trans])
  obtain x1 p1 where x1: "It_SeekToFirst (MergedIterator It C) x = Some x1" "merged_rep (Compare C) rep x1 ?E p1" "first_of (Compare C) ?E p1"
    using merged.seek_to_first [OF x(2)] by blast
  have a1: "ahead (Compare C) ?E p1 = ?E"
    using ahead_first [OF E, of "\<lambda>_. True" p1] x1(3) unfolding simp_thms Collect_mem_eq by blast
  obtain x2 p2 where x2: "It_Seek (MergedIterator It C) k x = Some x2" "merged_rep (Compare C) rep x2 ?E p2"
    "first_of (Compare C) (from_key (Compare C) ?E k) p2"
    using merged.seek [OF x(2) k] by blast
  have up: "Compare C b k \<ge> 0" if "ok a" "ok b" "Compare C a k \<ge> 0" "Compare C a b \<le> 0" for a b
    using cmp_trans [of k a b] cmp_le_flip [of k a] cmp_le_flip [of k b] k that by simp
  have a2: "ahead (Compare C) ?E p2 = from_key (Compare C) ?E k"
    unfolding from_key_def by (rule ahead_first [OF E up x2(3) [unfolded from_key_def]])
  show ?thesis
    unfolding sums using x(1) x1(1) x2(1) merged.collect_ahead [OF x1(2) a1 few(1)] merged.collect_ahead [OF x2(2) a2 few(2)] by blast
next
  case False
  obtain ws ps where new: "new_MergingIterator It ss = Some \<lparr> m_children = ws, m_current = None, m_direction = kForward \<rparr>"
    "children_at rep ws Es ps"
    by (rule new_MergingIterator_children [OF assms(1,2)])
  let ?m = "\<lparr> m_children = ws, m_current = None, m_direction = kForward \<rparr>"
  have "NewMergingIterator It ss = Some (Merged_Merging ?m)"
    using False new(1) by (cases ss) (simp_all add: NewMergingIterator_def)
  moreover have "children_at rep (m_children ?m) Es ps"
    using new(2) by simp
  note Merging_scans [OF this n k]
  moreover have "It_SeekToFirst (MergedIterator It C) (Merged_Merging ?m) = map_option Merged_Merging (Merging_SeekToFirst It C ?m)"
    "It_Seek (MergedIterator It C) k (Merged_Merging ?m) = map_option Merged_Merging (Merging_Seek It C k ?m)"
    by (simp_all add: MergedIterator_def MergingIterator_def Let_def)
  ultimately show ?thesis
    by (fastforce simp: collect_Merging)
qed

end

subsection \<open>Properties\<close>

text \<open>C36: whatever keys its children share, the iterator that \<^verbatim>\<open>NewMergingIterator\<close> returns delivers in a forward scan every
  entry of every child exactly once, in the order of the keys: all of them after \<^verbatim>\<open>SeekToFirst\<close>, and after \<^verbatim>\<open>Seek\<close>
  those whose keys are not below the target. A key that several children have is delivered once for each of
  them. The scan ends and no assertion fails.\<close>

theorem NewMergingIterator_scans:
  assumes "iterator_class ok (Compare C) It rep" and "length Es = length ss"
    and "\<forall>i < length ss. \<exists>p. rep (ss ! i) (Es ! i) p" and "(\<Sum>E \<leftarrow> Es. card E) \<le> n" and "ok target"
  shows "\<exists>x. NewMergingIterator It ss = Some x \<and>
    (\<exists>x' es. It_SeekToFirst (MergedIterator It C) x = Some x' \<and> It_collect (MergedIterator It C) n x' = Some es \<and>
      mset es = (\<Sum>E \<leftarrow> Es. mset_set E) \<and> sorted_wrt (\<lambda>a b. Compare C (fst a) (fst b) \<le> 0) es) \<and>
    (\<exists>x' es. It_Seek (MergedIterator It C) target x = Some x' \<and> It_collect (MergedIterator It C) n x' = Some es \<and>
      mset es = (\<Sum>E \<leftarrow> Es. mset_set (from_key (Compare C) E target)) \<and> sorted_wrt (\<lambda>a b. Compare C (fst a) (fst b) \<le> 0) es)"
  by (rule merging_children.NewMergingIterator_scans_all [of ok]) (use assms in \<open>simp_all add: merging_children_def\<close>)

text \<open>Two children with the same keys, as in the test of duplicate keys.\<close>

theorem NewMergingIterator_scans_witness:
  "\<exists>x x' es. NewMergingIterator VectorIteratorMethods
      [\<lparr> v_keys = [[1], [2]], v_vals = [[10], [20]], v_pos = -1 \<rparr>, \<lparr> v_keys = [[1]], v_vals = [[11]], v_pos = -1 \<rparr>] = Some x \<and>
    It_SeekToFirst (MergedIterator VectorIteratorMethods BytewiseComparator) x = Some x' \<and>
    It_collect (MergedIterator VectorIteratorMethods BytewiseComparator) 3 x' = Some es \<and>
    mset es = {#([1], [10]), ([2], [20]), ([1], [11])#} \<and> sorted_wrt (\<lambda>a b. bcmp (fst a) (fst b) \<le> 0) es"
proof -
  let ?ss = "[\<lparr> v_keys = [[1], [2]], v_vals = [[10], [20]], v_pos = -1 \<rparr>, \<lparr> v_keys = [[1]], v_vals = [[11]], v_pos = -1 \<rparr>]"
  let ?Es = "[{([1], [10]), ([2], [20])}, {([1], [11])}] :: entry set list"
  have "\<forall>i < length ?ss. \<exists>p. vector_rep (?ss ! i) (?Es ! i) p"
    by (simp add: less_Suc_eq_0_disj vector_rep_def)
  moreover have "length ?Es = length ?ss" "(\<Sum>E \<leftarrow> ?Es. card E) \<le> 3"
    "(\<Sum>E \<leftarrow> ?Es. mset_set E) = {#([1], [10]), ([2], [20]), ([1], [11])#}"
    by simp_all
  ultimately show ?thesis
    using NewMergingIterator_scans [OF vector.iterator_class_axioms, of ?Es ?ss 3 "[]"] by (simp only: TrueI) blast
qed

end
