(* ===== verification/HandleTable.thy ===== *)
theory HandleTable
  imports Slice "HOL-Library.Monad_Syntax" "HOL-Library.Multiset"
begin

text \<open>
  The entries of the LRU cache (\<^verbatim>\<open>LRUHandle\<close> of \<^verbatim>\<open>util/cache_impl.h\<close>) and the hash table over them
  (\<^verbatim>\<open>HandleTable\<close> of \<^verbatim>\<open>util/cache.cpp\<close>), on an explicit heap. A pointer is an address, 0 is
  \<^verbatim>\<open>nullptr\<close>; a dereference of an address that holds no handle (also one that was freed), an
  access outside the bucket array and a failed assertion give \<^term>\<open>None\<close>, and so does a loop that
  does not end (\<^theory_text>\<open>partial_function (option)\<close>). The table is shown to implement a map from
  hash and key to handles, through collisions and resizing.
\<close>

subsection \<open>Handles\<close>

text \<open>
  The flexible array \<^verbatim>\<open>key_data\<close> with \<^verbatim>\<open>key_length\<close> is one byte string. Values and deleters are
  pointers the cache never follows (\<^verbatim>\<open>void*\<close> and a function pointer), represented by words.
\<close>

record LRUHandle =
  h_value :: u64
  h_deleter :: u64
  h_next_hash :: nat
  h_next :: nat
  h_prev :: nat
  h_charge :: u64
  h_in_cache :: bool
  h_refs :: u32
  h_hash :: u32
  h_key_data :: bytes

type_synonym handles = "nat \<rightharpoonup> LRUHandle"

definition LRUHandle_key :: "handles \<Rightarrow> nat \<Rightarrow> bytes option" where
  "LRUHandle_key h p = do { e \<leftarrow> h p; asserting (h_next e \<noteq> p) (Some (h_key_data e)) }"

subsection \<open>The table\<close>

record HandleTable =
  t_length :: u32
  t_elems :: u32
  t_list :: "nat list"

text \<open>An \<^verbatim>\<open>LRUHandle**\<close>: the address of a bucket or of the field \<^verbatim>\<open>next_hash\<close> of a handle.\<close>

datatype slot = Bucket nat | NextHash nat

fun slot_read :: "handles \<Rightarrow> nat list \<Rightarrow> slot \<Rightarrow> nat option" where
  "slot_read h list (Bucket i) = asserting (i < length list) (Some (list ! i))"
| "slot_read h list (NextHash p) = map_option h_next_hash (h p)"

fun slot_write :: "slot \<Rightarrow> nat \<Rightarrow> handles \<Rightarrow> nat list \<Rightarrow> (handles \<times> nat list) option" where
  "slot_write (Bucket i) v h list = asserting (i < length list) (Some (h, list[i := v]))"
| "slot_write (NextHash p) v h list = do { e \<leftarrow> h p; Some (h(p \<mapsto> e \<lparr> h_next_hash := v \<rparr>), list) }"

partial_function (option) FindPointer_loop ::
    "handles \<Rightarrow> nat list \<Rightarrow> bytes \<Rightarrow> u32 \<Rightarrow> slot \<Rightarrow> slot option" where
  [code]: "FindPointer_loop h list key hash ptr = do {
     p \<leftarrow> slot_read h list ptr;
     if p = 0 then Some ptr
     else do {
       e \<leftarrow> h p;
       other \<leftarrow> (if h_hash e \<noteq> hash then Some True else map_option (\<lambda>k. \<not> Slice_eq key k) (LRUHandle_key h p));
       if other then FindPointer_loop h list key hash (NextHash p) else Some ptr
     }
   }"

definition FindPointer :: "handles \<Rightarrow> HandleTable \<Rightarrow> bytes \<Rightarrow> u32 \<Rightarrow> slot option" where
  "FindPointer h t key hash =
     FindPointer_loop h (t_list t) key hash (Bucket (unat (hash AND (t_length t - 1))))"

definition HandleTable_Lookup :: "handles \<Rightarrow> HandleTable \<Rightarrow> bytes \<Rightarrow> u32 \<Rightarrow> nat option" where
  "HandleTable_Lookup h t key hash = do {
     ptr \<leftarrow> FindPointer h t key hash;
     slot_read h (t_list t) ptr
   }"

text \<open>The loops of \<^verbatim>\<open>Resize\<close>: the new length, one chain, all chains.\<close>

partial_function (option) Resize_length :: "u32 \<Rightarrow> u32 \<Rightarrow> u32 option" where
  [code]: "Resize_length new_length elems =
     (if new_length < elems then Resize_length (new_length * 2) elems else Some new_length)"

partial_function (option) Resize_chain ::
    "u32 \<Rightarrow> nat \<Rightarrow> handles \<Rightarrow> nat list \<Rightarrow> u32 \<Rightarrow> (handles \<times> nat list \<times> u32) option" where
  [code]: "Resize_chain new_length p h new_list cnt =
     (if p = 0 then Some (h, new_list, cnt)
      else do {
        e \<leftarrow> h p;
        let ptr = Bucket (unat (h_hash e AND (new_length - 1)));
        old \<leftarrow> slot_read h new_list ptr;
        (h, new_list) \<leftarrow> slot_write ptr p (h(p \<mapsto> e \<lparr> h_next_hash := old \<rparr>)) new_list;
        Resize_chain new_length (h_next_hash e) h new_list (cnt + 1)
      })"

fun Resize_buckets ::
    "u32 \<Rightarrow> nat list \<Rightarrow> nat list \<Rightarrow> handles \<Rightarrow> nat list \<Rightarrow> u32 \<Rightarrow> (handles \<times> nat list \<times> u32) option" where
  "Resize_buckets new_length list [] h new_list cnt = Some (h, new_list, cnt)"
| "Resize_buckets new_length list (i # is) h new_list cnt = do {
     p \<leftarrow> slot_read h list (Bucket i);
     (h, new_list, cnt) \<leftarrow> Resize_chain new_length p h new_list cnt;
     Resize_buckets new_length list is h new_list cnt
   }"

definition Resize :: "handles \<Rightarrow> HandleTable \<Rightarrow> (handles \<times> HandleTable) option" where
  "Resize h t = do {
     new_length \<leftarrow> Resize_length 4 (t_elems t);
     (h, new_list, cnt) \<leftarrow>
       Resize_buckets new_length (t_list t) [0..<unat (t_length t)] h (replicate (unat new_length) 0) 0;
     asserting (t_elems t = cnt) (Some (h, t \<lparr> t_list := new_list, t_length := new_length \<rparr>))
   }"

definition new_HandleTable :: "handles \<Rightarrow> (handles \<times> HandleTable) option" where
  "new_HandleTable h = Resize h \<lparr> t_length = 0, t_elems = 0, t_list = [] \<rparr>"

definition HandleTable_Insert :: "nat \<Rightarrow> handles \<Rightarrow> HandleTable \<Rightarrow> (nat \<times> handles \<times> HandleTable) option" where
  "HandleTable_Insert p h t = do {
     key \<leftarrow> LRUHandle_key h p;
     e \<leftarrow> h p;
     ptr \<leftarrow> FindPointer h t key (h_hash e);
     old \<leftarrow> slot_read h (t_list t) ptr;
     nxt \<leftarrow> (if old = 0 then Some 0 else map_option h_next_hash (h old));
     (h, list) \<leftarrow> slot_write ptr p (h(p \<mapsto> e \<lparr> h_next_hash := nxt \<rparr>)) (t_list t);
     let t = t \<lparr> t_list := list \<rparr>;
     if old = 0 then do {
       let t = t \<lparr> t_elems := t_elems t + 1 \<rparr>;
       (h, t) \<leftarrow> (if t_elems t > t_length t then Resize h t else Some (h, t));
       Some (old, h, t)
     } else Some (old, h, t)
   }"

definition HandleTable_Remove ::
    "bytes \<Rightarrow> u32 \<Rightarrow> handles \<Rightarrow> HandleTable \<Rightarrow> (nat \<times> handles \<times> HandleTable) option" where
  "HandleTable_Remove key hash h t = do {
     ptr \<leftarrow> FindPointer h t key hash;
     result \<leftarrow> slot_read h (t_list t) ptr;
     if result \<noteq> 0 then do {
       e \<leftarrow> h result;
       (h, list) \<leftarrow> slot_write ptr (h_next_hash e) h (t_list t);
       Some (result, h, t \<lparr> t_list := list, t_elems := t_elems t - 1 \<rparr>)
     } else Some (result, h, t)
   }"

subsection \<open>Chains\<close>

fun lseg :: "handles \<Rightarrow> nat \<Rightarrow> nat list \<Rightarrow> nat \<Rightarrow> bool" where
  "lseg h p [] q \<longleftrightarrow> p = q"
| "lseg h p (x # xs) q \<longleftrightarrow> p = x \<and> x \<noteq> 0 \<and> (\<exists>e. h x = Some e \<and> lseg h (h_next_hash e) xs q)"

lemma lseg_append: "lseg h p (xs @ ys) q \<longleftrightarrow> (\<exists>r. lseg h p xs r \<and> lseg h r ys q)"
  by (induction xs arbitrary: p) auto

lemma lseg_unique: "lseg h p xs q \<Longrightarrow> lseg h p xs q' \<Longrightarrow> q = q'"
  by (induction xs arbitrary: p) auto

lemma lseg_frame:
  "lseg h p xs q \<Longrightarrow> (\<And>x. x \<in> set xs \<Longrightarrow> map_option h_next_hash (h' x) = map_option h_next_hash (h x)) \<Longrightarrow>
   lseg h' p xs q"
proof (induction xs arbitrary: p)
  case (Cons x xs)
  then obtain e where e: "h x = Some e" "lseg h (h_next_hash e) xs q" "p = x" "x \<noteq> 0"
    by auto
  then obtain e' where "h' x = Some e'" "h_next_hash e' = h_next_hash e"
    using Cons.prems(2) [of x] by auto
  then show ?case
    using e Cons by auto
qed simp

text \<open>Writing to the slot behind \<open>ys\<close> redirects the chain there.\<close>

definition slot_after :: "nat \<Rightarrow> nat list \<Rightarrow> slot" where
  "slot_after i ys = (if ys = [] then Bucket i else NextHash (last ys))"

lemma slot_read_after:
  assumes "i < length list" and "lseg h (list ! i) ys q"
  shows "slot_read h list (slot_after i ys) = Some q"
proof (cases ys rule: rev_cases)
  case (snoc zs z)
  then show ?thesis
    using assms(2) by (auto simp: slot_after_def lseg_append)
qed (use assms in \<open>simp add: slot_after_def\<close>)

lemma slot_write_after:
  assumes "i < length list" and "lseg h (list ! i) ys q" and "distinct ys"
  obtains h' list' where "slot_write (slot_after i ys) v h list = Some (h', list')"
    and "lseg h' (list' ! i) ys v" and "length list' = length list"
    and "\<And>j. j \<noteq> i \<Longrightarrow> list' ! j = list ! j"
    and "\<And>x. x \<notin> set ys \<Longrightarrow> h' x = h x"
    and "\<And>x. map_option (h_next_hash_update (\<lambda>_. 0)) (h' x) = map_option (h_next_hash_update (\<lambda>_. 0)) (h x)"
proof (cases ys rule: rev_cases)
  case Nil
  then show ?thesis
    using assms that [of h "list[i := v]"] by (simp add: slot_after_def)
next
  case (snoc zs z)
  then obtain e where e: "lseg h (list ! i) zs z" "z \<noteq> 0" "h z = Some e" "z \<notin> set zs"
    using assms(2,3) by (auto simp: lseg_append)
  let ?h = "h(z \<mapsto> e \<lparr> h_next_hash := v \<rparr>)"
  have "lseg ?h (list ! i) zs z"
    using e(1,4) by (auto intro: lseg_frame)
  then have "lseg ?h (list ! i) ys v"
    using snoc e by (auto simp: lseg_append)
  then show ?thesis
    using that [of ?h list] snoc e by (auto simp: slot_after_def)
qed

subsection \<open>Searching\<close>

definition ident :: "LRUHandle \<Rightarrow> u32 \<times> bytes" where
  "ident e = (h_hash e, h_key_data e)"

abbreviation ident_at :: "handles \<Rightarrow> nat \<Rightarrow> (u32 \<times> bytes) option" where
  "ident_at h x \<equiv> map_option ident (h x)"

text \<open>The assertion of \<^verbatim>\<open>LRUHandle::key()\<close> holds.\<close>

definition keyable :: "handles \<Rightarrow> nat set \<Rightarrow> bool" where
  "keyable h X \<longleftrightarrow> (\<forall>x \<in> X. \<exists>e. h x = Some e \<and> h_next e \<noteq> x)"

lemma keyable_key: "keyable h X \<Longrightarrow> x \<in> X \<Longrightarrow> h x = Some e \<Longrightarrow> LRUHandle_key h x = Some (h_key_data e)"
  by (auto simp: keyable_def LRUHandle_key_def)

lemma FindPointer_loop_spec:
  assumes "lseg h p xs 0" and "keyable h (set xs)" and "slot_read h list s = Some p"
  shows "\<exists>ys zs. xs = ys @ zs \<and> (\<forall>y \<in> set ys. ident_at h y \<noteq> Some (hash, key)) \<and>
    (zs = [] \<or> ident_at h (hd zs) = Some (hash, key)) \<and>
    FindPointer_loop h list key hash s = Some (if ys = [] then s else NextHash (last ys))"
  using assms
proof (induction xs arbitrary: p s)
  case Nil
  then show ?case
    by (subst FindPointer_loop.simps) simp
next
  case (Cons x xs)
  then obtain e where e: "p = x" "x \<noteq> 0" "h x = Some e" "lseg h (h_next_hash e) xs 0"
    by auto
  have key: "LRUHandle_key h x = Some (h_key_data e)"
    using Cons.prems(2) e(3) by (auto intro: keyable_key)
  show ?case
  proof (cases "ident e = (hash, key)")
    case True
    then have "FindPointer_loop h list key hash s = Some s"
      using Cons.prems(3) e key by (subst FindPointer_loop.simps) (simp add: ident_def)
    then show ?thesis
      using True e(3) by (intro exI [of _ "[]"] exI [of _ "x # xs"]) simp
  next
    case False
    have "keyable h (set xs)" "slot_read h list (NextHash x) = Some (h_next_hash e)"
      using Cons.prems(2) e(3) by (simp_all add: keyable_def)
    from Cons.IH [OF e(4) this] obtain ys zs where
      ys: "xs = ys @ zs" "\<forall>y \<in> set ys. ident_at h y \<noteq> Some (hash, key)"
      "zs = [] \<or> ident_at h (hd zs) = Some (hash, key)"
      "FindPointer_loop h list key hash (NextHash x) = Some (if ys = [] then NextHash x else NextHash (last ys))"
      by blast
    have "FindPointer_loop h list key hash s = FindPointer_loop h list key hash (NextHash x)"
      using Cons.prems(3) e key False by (subst FindPointer_loop.simps) (auto simp: ident_def)
    then show ?thesis
      using ys False e(3) by (intro exI [of _ "x # ys"] exI [of _ zs]) auto
  qed
qed

subsection \<open>The map a table stands for\<close>

definition buckets_ok :: "handles \<Rightarrow> u32 \<Rightarrow> nat list \<Rightarrow> nat list list \<Rightarrow> bool" where
  "buckets_ok h n list cs \<longleftrightarrow>
     length list = unat n \<and> length cs = unat n \<and>
     (\<forall>i < length cs. lseg h (list ! i) (cs ! i) 0 \<and>
        (\<forall>x \<in> set (cs ! i). \<exists>e. h x = Some e \<and> unat (h_hash e AND (n - 1)) = i))"

definition wf_table :: "handles \<Rightarrow> HandleTable \<Rightarrow> nat list list \<Rightarrow> bool" where
  "wf_table h t cs \<longleftrightarrow>
     (\<exists>k. 2 \<le> k \<and> k < 32 \<and> t_length t = 2 ^ k) \<and>
     buckets_ok h (t_length t) (t_list t) cs \<and>
     distinct (concat cs) \<and> unat (t_elems t) = length (concat cs)"

definition table_rep :: "handles \<Rightarrow> HandleTable \<Rightarrow> (u32 \<times> bytes \<rightharpoonup> nat) \<Rightarrow> bool" where
  "table_rep h t M \<longleftrightarrow>
     (\<exists>cs. wf_table h t cs \<and> (\<forall>k x. M k = Some x \<longleftrightarrow> x \<in> set (concat cs) \<and> ident_at h x = Some k))"

definition ptr_of :: "nat option \<Rightarrow> nat" where
  "ptr_of p = (case p of None \<Rightarrow> 0 | Some x \<Rightarrow> x)"

lemma ptr_of_simps [simp]: "ptr_of None = 0" "ptr_of (Some x) = x"
  by (simp_all add: ptr_of_def)

lemma mask_less: "unat (w AND (2 ^ k - 1)) < 2 ^ k" if "k < 32" for w :: u32
proof -
  have "unat (w AND (2 ^ k - 1)) = unat (take_bit k w)"
    by (simp add: take_bit_eq_mask mask_eq_exp_minus_1)
  also have "\<dots> = take_bit k (unat w)"
    by (simp add: unsigned_take_bit_eq)
  finally show ?thesis
    by simp
qed

lemma in_set_concat_nth: "x \<in> set (concat cs) \<longleftrightarrow> (\<exists>j < length cs. x \<in> set (cs ! j))"
  unfolding set_concat by (metis UN_iff in_set_conv_nth)

lemma unat_pow2: "k < 32 \<Longrightarrow> unat (2 ^ k :: u32) = 2 ^ k"
proof -
  assume "k < 32"
  then have "(2::nat) ^ k < 2 ^ 32"
    by (intro power_strict_increasing) auto
  then have "unat (of_nat (2 ^ k) :: u32) = 2 ^ k"
    using \<open>k < 32\<close> by (simp only: unsigned_of_nat) (simp add: take_bit_nat_eq_self)
  then show ?thesis by simp
qed

lemma bucket_less: "wf_table h t cs \<Longrightarrow> unat (hash AND (t_length t - 1)) < length cs"
  using mask_less [of _ hash] by (auto simp: wf_table_def buckets_ok_def unat_pow2)

text \<open>The chain of a hash, cut where the search stops.\<close>

lemma FindPointer_spec:
  assumes wf: "wf_table h t cs" and M: "\<And>k x. M k = Some x \<longleftrightarrow> x \<in> set (concat cs) \<and> ident_at h x = Some k"
    and keyable: "keyable h (ran M)"
  obtains i ys zs where "i = unat (hash AND (t_length t - 1))" and "i < length cs" and "cs ! i = ys @ zs"
    and "FindPointer h t key hash = Some (slot_after i ys)"
    and "slot_read h (t_list t) (slot_after i ys) = Some (ptr_of (M (hash, key)))"
    and "case M (hash, key) of None \<Rightarrow> zs = [] | Some x \<Rightarrow> \<exists>zs'. zs = x # zs'"
proof -
  define i where "i = unat (hash AND (t_length t - 1))"
  have i: "i < length cs" "length (t_list t) = length cs"
    using bucket_less [OF wf] wf by (simp_all add: i_def wf_table_def buckets_ok_def)
  have chain: "lseg h (t_list t ! i) (cs ! i) 0"
    using wf i(1) by (simp add: wf_table_def buckets_ok_def)
  have sub: "set (cs ! i) \<subseteq> set (concat cs)"
    using i(1) by (auto intro: nth_mem)
  have "set (concat cs) \<subseteq> ran M"
  proof
    fix x
    assume x: "x \<in> set (concat cs)"
    then obtain j where "j < length cs" "x \<in> set (cs ! j)"
      unfolding in_set_concat_nth by blast
    then obtain e where "h x = Some e"
      using wf unfolding wf_table_def buckets_ok_def by blast
    then show "x \<in> ran M"
      using M [of "ident e" x] x by (auto intro: ranI)
  qed
  then have "keyable h (set (cs ! i))"
    using keyable sub unfolding keyable_def by blast
  from FindPointer_loop_spec [OF chain this, of "t_list t" "Bucket i" hash key] obtain ys zs where
    ys: "cs ! i = ys @ zs" "\<forall>y \<in> set ys. ident_at h y \<noteq> Some (hash, key)"
      "zs = [] \<or> ident_at h (hd zs) = Some (hash, key)"
      "FindPointer_loop h (t_list t) key hash (Bucket i) = Some (slot_after i ys)"
    using i unfolding slot_after_def by auto
  obtain q where q: "lseg h (t_list t ! i) ys q" "lseg h q zs 0"
    using chain ys(1) by (auto simp: lseg_append)
  have here: "x \<in> set (cs ! i)" if "M (hash, key) = Some x" for x
  proof -
    have x: "x \<in> set (concat cs)" "ident_at h x = Some (hash, key)"
      using M that by blast+
    then obtain j where j: "j < length cs" "x \<in> set (cs ! j)"
      unfolding in_set_concat_nth by blast
    then obtain e where "h x = Some e" "unat (h_hash e AND (t_length t - 1)) = j"
      using wf unfolding wf_table_def buckets_ok_def by blast
    then have "j = i"
      using x(2) by (simp add: ident_def i_def)
    with j show ?thesis by simp
  qed
  have zs: "case M (hash, key) of None \<Rightarrow> zs = [] | Some x \<Rightarrow> \<exists>zs'. zs = x # zs'"
  proof (cases zs)
    case Nil
    then have "M (hash, key) = None"
      using here ys(1,2) M by (metis append_Nil2 not_None_eq)
    then show ?thesis using Nil by simp
  next
    case (Cons z zs')
    then have "M (hash, key) = Some z"
      using ys(1,3) sub M by auto
    then show ?thesis using Cons by simp
  qed
  have "slot_read h (t_list t) (slot_after i ys) = Some (ptr_of (M (hash, key)))"
    using slot_read_after [of i "t_list t" h ys q] i q zs by (cases "M (hash, key)") auto
  then show ?thesis
    using that [OF i_def i(1) ys(1)] ys(4) zs by (simp add: FindPointer_def i_def)
qed

lemma HandleTable_Lookup_map:
  assumes "table_rep h t M" and "keyable h (ran M)"
  shows "HandleTable_Lookup h t key hash = Some (ptr_of (M (hash, key)))"
proof -
  obtain cs where cs: "wf_table h t cs" "\<And>k x. M k = Some x \<longleftrightarrow> x \<in> set (concat cs) \<and> ident_at h x = Some k"
    using assms(1) unfolding table_rep_def by blast
  show ?thesis
    by (rule FindPointer_spec [OF cs assms(2), of hash key]) (simp add: HandleTable_Lookup_def)
qed

subsection \<open>Changing a chain\<close>

text \<open>Two heaps that differ in \<^verbatim>\<open>next_hash\<close> fields only.\<close>

definition but_chains :: "handles \<Rightarrow> handles \<Rightarrow> bool" where
  "but_chains h h' \<longleftrightarrow>
     (\<forall>x. map_option (h_next_hash_update (\<lambda>_. 0)) (h' x) = map_option (h_next_hash_update (\<lambda>_. 0)) (h x))"

lemma but_chains_refl [simp]: "but_chains h h"
  by (simp add: but_chains_def)

lemma but_chains_trans: "but_chains h h' \<Longrightarrow> but_chains h' h'' \<Longrightarrow> but_chains h h''"
  by (simp add: but_chains_def)

lemma but_chains_upd [simp]: "h x = Some e \<Longrightarrow> but_chains h (h(x \<mapsto> e \<lparr> h_next_hash := v \<rparr>))"
  by (simp add: but_chains_def)

lemma but_chains_same:
  assumes "but_chains h h'" and that: "\<And>e v. f (e \<lparr> h_next_hash := v \<rparr>) = f e"
  shows "map_option f (h' x) = map_option f (h x)"
proof -
  have "map_option f (map_option (h_next_hash_update (\<lambda>_. 0)) (h' x)) =
      map_option f (map_option (h_next_hash_update (\<lambda>_. 0)) (h x))"
    using assms(1) by (simp add: but_chains_def)
  then show ?thesis
    using that [where v = 0] by (simp add: option.map_comp o_def)
qed

lemma but_chains_ident: "but_chains h h' \<Longrightarrow> ident_at h' x = ident_at h x"
  by (rule but_chains_same) (simp_all add: ident_def)

lemma but_chains_hash: "but_chains h h' \<Longrightarrow> map_option h_hash (h' x) = map_option h_hash (h x)"
  by (rule but_chains_same) simp_all

lemma but_chains_keyable: "but_chains h h' \<Longrightarrow> keyable h X \<Longrightarrow> keyable h' X"
proof -
  assume h': "but_chains h h'" and "keyable h X"
  moreover have "map_option h_next (h' x) = map_option h_next (h x)" for x
    by (rule but_chains_same [OF h']) simp
  ultimately show ?thesis
    unfolding keyable_def by (metis map_option_eq_Some option.inject)
qed

lemma concat_split:
  assumes "i < length cs"
  shows "concat cs = concat (take i cs) @ cs ! i @ concat (drop (Suc i) cs)"
    and "concat (cs[i := ds]) = concat (take i cs) @ ds @ concat (drop (Suc i) cs)"
proof -
  have "concat (take i cs @ cs ! i # drop (Suc i) cs) = concat cs"
    using id_take_nth_drop [OF assms] by simp
  then show "concat cs = concat (take i cs) @ cs ! i @ concat (drop (Suc i) cs)"
    by (simp only: concat_append concat.simps)
  show "concat (cs[i := ds]) = concat (take i cs) @ ds @ concat (drop (Suc i) cs)"
    by (simp add: upd_conv_take_nth_drop [OF assms])
qed

lemma distinct_concat_disjoint:
  assumes "distinct (concat cs)" and "i < length cs" and "j < length cs" and "i \<noteq> j"
  shows "set (cs ! i) \<inter> set (cs ! j) = {}"
  using assms
proof (induction cs arbitrary: i j)
  case (Cons c cs)
  then show ?case
    by (cases i; cases j) (auto, (metis UN_I disjoint_iff nth_mem)+)
qed simp

lemma buckets_update:
  assumes ok: "buckets_ok h n list cs" and i: "i < length cs" and cs: "cs ! i = ys @ zs"
    and distinct: "distinct (concat cs)"
    and h1: "but_chains h h1" "\<And>x. x \<in> set (concat cs) \<Longrightarrow> h1 x = h x"
    and ws: "lseg h1 v ws 0" "set ws \<inter> set ys = {}"
      "\<And>x. x \<in> set ws \<Longrightarrow> \<exists>e. h1 x = Some e \<and> unat (h_hash e AND (n - 1)) = i"
  obtains h2 list' where "slot_write (slot_after i ys) v h1 list = Some (h2, list')"
    and "buckets_ok h2 n list' (cs[i := ys @ ws])" and "but_chains h1 h2"
    and "\<And>x. x \<notin> set ys \<Longrightarrow> h2 x = h1 x"
proof -
  have len: "length list = unat n" "length cs = unat n"
    using ok by (simp_all add: buckets_ok_def)
  have all: "set (cs ! j) \<subseteq> set (concat cs)" if "j < length cs" for j
    using that by (auto intro: nth_mem)
  have chain: "lseg h1 (list ! j) (cs ! j) 0" if "j < length cs" for j
    by (rule lseg_frame [of h]) (use ok that h1(2) all in \<open>auto simp: buckets_ok_def subset_iff\<close>)
  have el: "\<exists>e. h1 x = Some e \<and> unat (h_hash e AND (n - 1)) = j" if "j < length cs" "x \<in> set (cs ! j)" for j x
  proof -
    have "h1 x = h x"
      using that all h1(2) by blast
    then show ?thesis
      using ok that by (simp add: buckets_ok_def)
  qed
  obtain q where q: "lseg h1 (list ! i) ys q"
    using chain [OF i] cs by (auto simp: lseg_append)
  have dys: "distinct ys"
    using distinct concat_split(1) [OF i] cs by simp
  obtain h2 list' where w: "slot_write (slot_after i ys) v h1 list = Some (h2, list')"
    "lseg h2 (list' ! i) ys v" "length list' = length list" "\<And>j. j \<noteq> i \<Longrightarrow> list' ! j = list ! j"
    "\<And>x. x \<notin> set ys \<Longrightarrow> h2 x = h1 x"
    "\<And>x. map_option (h_next_hash_update (\<lambda>_. 0)) (h2 x) = map_option (h_next_hash_update (\<lambda>_. 0)) (h1 x)"
    by (rule slot_write_after [of i list h1 ys q v]) (use i len q dys in auto)
  have b: "but_chains h1 h2"
    using w(6) by (simp add: but_chains_def)
  have el2: "\<exists>e. h2 x = Some e \<and> unat (h_hash e AND (n - 1)) = j"
    if "\<exists>e. h1 x = Some e \<and> unat (h_hash e AND (n - 1)) = j" for x j
    using but_chains_hash [OF b, of x] that by auto
  have "lseg h2 v ws 0"
    by (rule lseg_frame [OF ws(1)]) (use ws(2) in \<open>simp add: w(5) disjoint_iff\<close>)
  then have at_i: "lseg h2 (list' ! i) (ys @ ws) 0"
    using w(2) by (auto simp: lseg_append)
  have at_j: "lseg h2 (list' ! j) (cs ! j) 0" if "j < length cs" "j \<noteq> i" for j
  proof (rule lseg_frame)
    show "lseg h1 (list' ! j) (cs ! j) 0"
      using chain [OF that(1)] w(4) [OF that(2)] by simp
    show "map_option h_next_hash (h2 x) = map_option h_next_hash (h1 x)" if "x \<in> set (cs ! j)" for x
    proof -
      have "x \<notin> set ys"
        using distinct_concat_disjoint [OF distinct i \<open>j < length cs\<close>] \<open>j \<noteq> i\<close> cs that by auto
      then show ?thesis
        by (simp add: w(5))
    qed
  qed
  have "buckets_ok h2 n list' (cs[i := ys @ ws])"
    unfolding buckets_ok_def
  proof (intro conjI allI impI ballI)
    fix j
    assume j: "j < length (cs[i := ys @ ws])"
    show "lseg h2 (list' ! j) (cs[i := ys @ ws] ! j) 0"
      using at_i at_j j i by (cases "j = i") auto
    fix x
    assume x: "x \<in> set (cs[i := ys @ ws] ! j)"
    show "\<exists>e. h2 x = Some e \<and> unat (h_hash e AND (n - 1)) = j"
    proof (rule el2, cases "j = i")
      case True
      then show "\<exists>e. h1 x = Some e \<and> unat (h_hash e AND (n - 1)) = j"
        using x i ws(3) [of x] el [OF i, of x] cs by auto
    next
      case False
      then show "\<exists>e. h1 x = Some e \<and> unat (h_hash e AND (n - 1)) = j"
        using x j el [of j x] by simp
    qed
  qed (use len w(3) in simp_all)
  then show ?thesis
    using that w(1,5) b by blast
qed

subsection \<open>Removing\<close>

lemma HandleTable_Remove_map:
  assumes rep: "table_rep h t M" and keyable: "keyable h (ran M)"
  obtains h' t' where "HandleTable_Remove key hash h t = Some (ptr_of (M (hash, key)), h', t')"
    and "table_rep h' t' (M((hash, key) := None))" and "but_chains h h'"
    and "\<And>x. x \<notin> ran M \<Longrightarrow> h' x = h x"
proof -
  obtain cs where wf: "wf_table h t cs" and M: "\<And>k x. M k = Some x \<longleftrightarrow> x \<in> set (concat cs) \<and> ident_at h x = Some k"
    using rep unfolding table_rep_def by blast
  obtain i ys zs where i: "i = unat (hash AND (t_length t - 1))" "i < length cs" "cs ! i = ys @ zs"
    and fp: "FindPointer h t key hash = Some (slot_after i ys)"
    "slot_read h (t_list t) (slot_after i ys) = Some (ptr_of (M (hash, key)))"
    and zs: "case M (hash, key) of None \<Rightarrow> zs = [] | Some x \<Rightarrow> \<exists>zs'. zs = x # zs'"
    by (rule FindPointer_spec [OF wf M keyable])
  show ?thesis
  proof (cases "M (hash, key)")
    case None
    then have "M((hash, key) := None) = M"
      by auto
    then show ?thesis
      using that [of h t] rep fp None by (simp add: HandleTable_Remove_def)
  next
    case (Some x)
    then obtain zs' where zs': "zs = x # zs'"
      using zs by auto
    have ok: "buckets_ok h (t_length t) (t_list t) cs" and d: "distinct (concat cs)"
      and n: "unat (t_elems t) = length (concat cs)"
      using wf by (simp_all add: wf_table_def)
    have chain: "lseg h (t_list t ! i) (ys @ x # zs') 0"
      using ok i(2,3) zs' by (metis buckets_ok_def)
    then obtain e where e: "x \<noteq> 0" "h x = Some e" "lseg h (h_next_hash e) zs' 0"
      by (auto simp: lseg_append)
    have el: "\<exists>e. h z = Some e \<and> unat (h_hash e AND (t_length t - 1)) = i" if "z \<in> set zs'" for z
      using ok i(2,3) zs' that by (auto simp: buckets_ok_def)
    note split = concat_split [OF i(2)]
    have sep: "x \<notin> set ys" "set zs' \<inter> set ys = {}"
      using d split(1) i(3) zs' by auto
    obtain h' list' where w: "slot_write (slot_after i ys) (h_next_hash e) h (t_list t) = Some (h', list')"
      "buckets_ok h' (t_length t) list' (cs[i := ys @ zs'])" "but_chains h h'"
      "\<And>x. x \<notin> set ys \<Longrightarrow> h' x = h x"
      by (rule buckets_update [OF ok i(2,3) d, of h "h_next_hash e" zs']) (use e(3) sep(2) el in auto)
    let ?t = "t \<lparr> t_list := list', t_elems := t_elems t - 1 \<rparr>"
    have len: "length (concat cs) = Suc (length (concat (cs[i := ys @ zs'])))"
      unfolding split i(3) zs' by simp
    have "wf_table h' ?t (cs[i := ys @ zs'])"
    proof -
      have "distinct (concat (cs[i := ys @ zs']))"
        using d unfolding split i(3) zs' by auto
      moreover have "unat (t_elems t - 1) = unat (t_elems t) - 1"
        using n len by (intro unat_minus_one) auto
      ultimately show ?thesis
        using wf w(2) n len by (simp add: wf_table_def)
    qed
    moreover have "(M((hash, key) := None)) k = Some y \<longleftrightarrow>
        y \<in> set (concat (cs[i := ys @ zs'])) \<and> ident_at h' y = Some k" for k y
    proof -
      have set: "set (concat (cs[i := ys @ zs'])) = set (concat cs) - {x}"
        using d unfolding split i(3) zs' by auto
      have x: "x \<in> set (concat cs)" "ident_at h x = Some (hash, key)"
        using M Some by blast+
      show ?thesis
        unfolding set but_chains_ident [OF w(3)] using M [of k y] M [of "(hash, key)" y] x Some by auto
    qed
    ultimately have "table_rep h' ?t (M((hash, key) := None))"
      unfolding table_rep_def by blast
    moreover have "HandleTable_Remove key hash h t = Some (x, h', ?t)"
      using fp Some e w(1) by (simp add: HandleTable_Remove_def)
    moreover have "h' y = h y" if "y \<notin> ran M" for y
    proof -
      have "y \<notin> set ys"
      proof
        assume y: "y \<in> set ys"
        then have "y \<in> set (concat cs)"
          unfolding split i(3) by simp
        moreover obtain e' where "h y = Some e'"
          using ok i(2,3) y by (fastforce simp: buckets_ok_def)
        ultimately show False
          using M [of "ident e'" y] that by (auto intro: ranI)
      qed
      then show ?thesis
        by (rule w(4))
    qed
    ultimately show ?thesis
      using that Some w(3) by simp
  qed
qed

subsection \<open>Resizing\<close>

lemma Resize_length_spec:
  assumes "k < 32" and "unat elems \<le> 2 ^ 31"
  shows "\<exists>k'. k \<le> k' \<and> k' < 32 \<and> Resize_length (2 ^ k) elems = Some (2 ^ k')"
  using assms(1)
proof (induction "31 - k" arbitrary: k)
  case 0
  then have "k = 31" by simp
  then have "\<not> (2 ^ k :: u32) < elems"
    using assms(2) by (simp add: word_less_nat_alt)
  then show ?case
    using 0 by (subst Resize_length.simps) auto
next
  case (Suc d)
  show ?case
  proof (cases "(2 ^ k :: u32) < elems")
    case True
    have "d = 31 - Suc k" "Suc k < 32"
      using Suc.hyps(2) by simp_all
    from Suc.hyps(1) [OF this] obtain k' where "Suc k \<le> k'" "k' < 32" "Resize_length (2 ^ Suc k) elems = Some (2 ^ k')"
      by blast
    then show ?thesis
      using True by (subst Resize_length.simps) (auto simp: mult.commute intro!: exI [of _ k'])
  next
    case False
    then show ?thesis
      using Suc.prems by (subst Resize_length.simps) auto
  qed
qed

lemma Resize_chain_spec:
  assumes "n = 2 ^ k" and "k < 32" and "lseg h p xs 0" and "buckets_ok h n list ds" and "distinct (xs @ concat ds)"
  shows "\<exists>h' list' ds'. Resize_chain n p h list cnt = Some (h', list', cnt + of_nat (length xs)) \<and>
    buckets_ok h' n list' ds' \<and> mset (concat ds') = mset xs + mset (concat ds) \<and> but_chains h h' \<and>
    (\<forall>x. x \<notin> set xs \<longrightarrow> h' x = h x)"
  using assms(3-)
proof (induction xs arbitrary: p h list ds cnt)
  case Nil
  then show ?case
    by (subst Resize_chain.simps) auto
next
  case (Cons x xs)
  then obtain e where e: "p = x" "x \<noteq> 0" "h x = Some e" "lseg h (h_next_hash e) xs 0"
    by auto
  define b where "b = unat (h_hash e AND (n - 1))"
  have b: "b < length ds"
    using Cons.prems(2) mask_less [OF assms(2), of "h_hash e"] assms(1,2) by (simp add: b_def buckets_ok_def unat_pow2)
  have old: "slot_read h list (Bucket b) = Some (list ! b)" "lseg h (list ! b) (ds ! b) 0"
    using Cons.prems(2) b by (simp_all add: buckets_ok_def)
  let ?h = "h(x \<mapsto> e \<lparr> h_next_hash := list ! b \<rparr>)"
  have fresh: "x \<notin> set (concat ds)" "x \<notin> set xs" and dd: "distinct (concat ds)"
    using Cons.prems(3) by auto
  have sub: "set (ds ! b) \<subseteq> set (concat ds)"
    using b by (auto intro: nth_mem)
  have "lseg ?h (list ! b) (ds ! b) 0"
    by (rule lseg_frame [OF old(2)]) (use sub fresh(1) in auto)
  then have ws: "lseg ?h x (x # ds ! b) 0"
    using e(2) by simp
  have el: "\<exists>e. ?h z = Some e \<and> unat (h_hash e AND (n - 1)) = b" if "z \<in> set (x # ds ! b)" for z
    using that Cons.prems(2) b e(3) by (auto simp: b_def buckets_ok_def)
  have ys: "ds ! b = [] @ ds ! b"
    by simp
  obtain h2 list' where w: "slot_write (slot_after b []) x ?h list = Some (h2, list')"
    "buckets_ok h2 n list' (ds[b := [] @ x # ds ! b])" "but_chains ?h h2" "\<And>y. y \<notin> set [] \<Longrightarrow> h2 y = ?h y"
    by (rule buckets_update [OF Cons.prems(2) b ys dd, of ?h x "x # ds ! b"]) (use e(3) fresh(1) ws el in auto)
  have h2: "h2 = ?h"
    using w(4) by auto
  have m: "mset (concat (ds[b := x # ds ! b])) = add_mset x (mset (concat ds))"
    using concat_split [OF b] by simp
  have chain: "lseg ?h (h_next_hash e) xs 0"
    by (rule lseg_frame [OF e(4)]) (use fresh(2) in auto)
  have "distinct (concat (ds[b := x # ds ! b]))"
    using fresh dd by (metis m distinct.simps(2) mset.simps(2) mset_eq_imp_distinct_iff)
  moreover have "set (concat (ds[b := x # ds ! b])) = insert x (set (concat ds))"
    by (metis m set_mset_add_mset_insert set_mset_mset)
  ultimately have "distinct (xs @ concat (ds[b := x # ds ! b]))"
    using Cons.prems(3) by auto
  from Cons.IH [OF chain w(2) [unfolded h2 append_Nil] this, of "cnt + 1"] obtain h' list'' ds' where
    r: "Resize_chain n (h_next_hash e) ?h list' (cnt + 1) = Some (h', list'', cnt + 1 + of_nat (length xs))"
    "buckets_ok h' n list'' ds'" "mset (concat ds') = mset xs + mset (concat (ds[b := x # ds ! b]))"
    "but_chains ?h h'" "\<forall>y. y \<notin> set xs \<longrightarrow> h' y = ?h y"
    by blast
  have "Resize_chain n p h list cnt = Some (h', list'', cnt + of_nat (length (x # xs)))"
    using e old(1) w(1) r(1) h2 by (subst Resize_chain.simps) (simp add: b_def slot_after_def add.assoc)
  moreover have "but_chains h h'"
    by (rule but_chains_trans [OF _ r(4)]) (use e(3) in simp)
  ultimately show ?case
    using r(2,3,5) m by (intro exI conjI) auto
qed

lemma Resize_buckets_spec:
  assumes "n = 2 ^ k" and "k < 32" and "\<forall>i \<in> set is. i < length list \<and> lseg h (list ! i) (cs ! i) 0"
    and "buckets_ok h n new_list ds" and "distinct (concat (map ((!) cs) is) @ concat ds)"
  shows "\<exists>h' list' ds'. Resize_buckets n list is h new_list cnt =
      Some (h', list', cnt + of_nat (length (concat (map ((!) cs) is)))) \<and>
    buckets_ok h' n list' ds' \<and> mset (concat ds') = mset (concat (map ((!) cs) is)) + mset (concat ds) \<and>
    but_chains h h' \<and> (\<forall>x. x \<notin> set (concat (map ((!) cs) is)) \<longrightarrow> h' x = h x)"
  using assms(3-)
proof (induction "is" arbitrary: h new_list ds cnt)
  case (Cons i "is")
  have i: "i < length list" "lseg h (list ! i) (cs ! i) 0"
    using Cons.prems(1) by simp_all
  have "distinct (cs ! i @ concat ds)"
    using Cons.prems(3) by auto
  from Resize_chain_spec [OF assms(1,2) i(2) Cons.prems(2) this, of cnt] obtain h1 list1 ds1 where
    r1: "Resize_chain n (list ! i) h new_list cnt = Some (h1, list1, cnt + of_nat (length (cs ! i)))"
    "buckets_ok h1 n list1 ds1" "mset (concat ds1) = mset (cs ! i) + mset (concat ds)" "but_chains h h1"
    "\<forall>x. x \<notin> set (cs ! i) \<longrightarrow> h1 x = h x"
    by blast
  have disj: "set (cs ! i) \<inter> set (concat (map ((!) cs) is)) = {}"
    using Cons.prems(3) by auto
  have chains: "\<forall>j \<in> set is. j < length list \<and> lseg h1 (list ! j) (cs ! j) 0"
  proof
    fix j
    assume j: "j \<in> set is"
    have "lseg h1 (list ! j) (cs ! j) 0"
    proof (rule lseg_frame [of h])
      show "map_option h_next_hash (h1 x) = map_option h_next_hash (h x)" if "x \<in> set (cs ! j)" for x
      proof -
        have "x \<notin> set (cs ! i)"
          using disj j that by auto
        then show ?thesis
          using r1(5) by simp
      qed
    qed (use Cons.prems(1) j in simp)
    then show "j < length list \<and> lseg h1 (list ! j) (cs ! j) 0"
      using Cons.prems(1) j by simp
  qed
  have "set (concat ds1) = set (cs ! i) \<union> set (concat ds)" "distinct (concat ds1)"
    using r1(3) Cons.prems(3) by (metis set_mset_mset set_mset_union)
      (metis r1(3) \<open>distinct (cs ! i @ concat ds)\<close> mset_append mset_eq_imp_distinct_iff)
  then have "distinct (concat (map ((!) cs) is) @ concat ds1)"
    using Cons.prems(3) by auto
  from Cons.IH [OF chains r1(2) this, of "cnt + of_nat (length (cs ! i))"] obtain h2 list2 ds2 where
    r2: "Resize_buckets n list is h1 list1 (cnt + of_nat (length (cs ! i))) =
      Some (h2, list2, cnt + of_nat (length (cs ! i)) + of_nat (length (concat (map ((!) cs) is))))"
    "buckets_ok h2 n list2 ds2" "mset (concat ds2) = mset (concat (map ((!) cs) is)) + mset (concat ds1)"
    "but_chains h1 h2" "\<forall>x. x \<notin> set (concat (map ((!) cs) is)) \<longrightarrow> h2 x = h1 x"
    by blast
  have "Resize_buckets n list (i # is) h new_list cnt =
      Some (h2, list2, cnt + of_nat (length (concat (map ((!) cs) (i # is)))))"
    using i(1) r1(1) r2(1) by (simp add: add.assoc)
  moreover have "\<forall>x. x \<notin> set (concat (map ((!) cs) (i # is))) \<longrightarrow> h2 x = h x"
    using r1(5) r2(5) by simp
  moreover have "mset (concat ds2) = mset (concat (map ((!) cs) (i # is))) + mset (concat ds)"
    using r1(3) r2(3) by simp
  ultimately show ?case
    using r2(2) but_chains_trans [OF r1(4) r2(4)] by blast
qed auto

lemma Resize_map:
  assumes ok: "buckets_ok h (t_length t) (t_list t) cs" and d: "distinct (concat cs)"
    and n: "unat (t_elems t) = length (concat cs)" "unat (t_elems t) \<le> 2 ^ 31"
    and M: "\<And>k x. M k = Some x \<longleftrightarrow> x \<in> set (concat cs) \<and> ident_at h x = Some k"
  obtains h' t' where "Resize h t = Some (h', t')" and "table_rep h' t' M" and "but_chains h h'"
    and "t_elems t' = t_elems t" and "\<And>x. x \<notin> set (concat cs) \<Longrightarrow> h' x = h x"
proof -
  obtain k where k: "2 \<le> k" "k < 32" "Resize_length (2 ^ 2) (t_elems t) = Some (2 ^ k)"
    using Resize_length_spec [of 2 "t_elems t"] n(2) by auto
  let ?n = "2 ^ k :: u32"
  have chains: "\<forall>i \<in> set [0..<unat (t_length t)]. i < length (t_list t) \<and> lseg h (t_list t ! i) (cs ! i) 0"
    using ok by (simp add: buckets_ok_def)
  have empty: "buckets_ok h ?n (replicate (unat ?n) 0) (replicate (unat ?n) [])"
    by (simp add: buckets_ok_def)
  have cs: "map ((!) cs) [0..<unat (t_length t)] = cs"
    using ok by (metis buckets_ok_def map_nth)
  have none: "concat (replicate (unat ?n) []) = []"
    by (simp add: concat_eq_Nil_conv)
  have "distinct (concat (map ((!) cs) [0..<unat (t_length t)]) @ concat (replicate (unat ?n) []))"
    unfolding cs none using d by simp
  from Resize_buckets_spec [OF refl k(2) chains empty this, of 0] obtain h' list' ds' where
    r: "Resize_buckets ?n (t_list t) [0..<unat (t_length t)] h (replicate (unat ?n) 0) 0 =
      Some (h', list', of_nat (length (concat cs)))" "buckets_ok h' ?n list' ds'" "mset (concat ds') = mset (concat cs)"
    "but_chains h h'" "\<forall>x. x \<notin> set (concat cs) \<longrightarrow> h' x = h x"
    unfolding cs none by auto
  have elems: "of_nat (length (concat cs)) = t_elems t"
  proof -
    have "of_nat (unat (t_elems t)) = t_elems t"
      by simp
    then show ?thesis
      unfolding n(1) .
  qed
  let ?t = "t \<lparr> t_list := list', t_length := ?n \<rparr>"
  have "Resize h t = Some (h', ?t)"
    using k(3) r(1) elems by (simp add: Resize_def)
  moreover have "wf_table h' ?t ds'"
    using k r(2,3) d n(1) by (auto simp: wf_table_def) (metis mset_eq_imp_distinct_iff, metis size_mset)
  then have "table_rep h' ?t M"
    unfolding table_rep_def using M but_chains_ident [OF r(4)] r(3) by (metis mset_eq_setD)
  ultimately show ?thesis
    using that r(4,5) by simp
qed

lemma new_HandleTable_map:
  obtains t where "new_HandleTable h = Some (h, t)" and "table_rep h t Map.empty"
proof -
  let ?t = "\<lparr> t_length = 0, t_elems = 0, t_list = [] \<rparr>"
  obtain h' t' where r: "Resize h ?t = Some (h', t')" "table_rep h' t' Map.empty"
    "\<And>x. x \<notin> set (concat []) \<Longrightarrow> h' x = h x"
    by (rule Resize_map [of h ?t "[]" Map.empty]) (auto simp: buckets_ok_def)
  have "h' = h"
    using r(3) by auto
  then show ?thesis
    using that r(1,2) by (simp add: new_HandleTable_def)
qed

subsection \<open>Inserting\<close>

lemma HandleTable_Insert_map:
  assumes rep: "table_rep h t M" and keyable: "keyable h (ran M)"
    and p: "p \<noteq> 0" "h p = Some e" "h_next e \<noteq> p" "p \<notin> ran M" and size: "card (ran M) < 2 ^ 31"
  obtains h' t' where "HandleTable_Insert p h t = Some (ptr_of (M (ident e)), h', t')"
    and "table_rep h' t' (M(ident e \<mapsto> p))" and "but_chains h h'"
    and "\<And>x. x \<notin> insert p (ran M) \<Longrightarrow> h' x = h x"
proof -
  obtain cs where wf: "wf_table h t cs" and M: "\<And>k x. M k = Some x \<longleftrightarrow> x \<in> set (concat cs) \<and> ident_at h x = Some k"
    using rep unfolding table_rep_def by blast
  have ok: "buckets_ok h (t_length t) (t_list t) cs" and d: "distinct (concat cs)"
    and n: "unat (t_elems t) = length (concat cs)"
    using wf by (simp_all add: wf_table_def)
  have live: "\<exists>e. h x = Some e" if "x \<in> set (concat cs)" for x
    using ok that unfolding in_set_concat_nth buckets_ok_def by blast
  have ran: "ran M = set (concat cs)"
    using M live by (force simp: ran_def)
  obtain i ys zs where i: "i = unat (h_hash e AND (t_length t - 1))" "i < length cs" "cs ! i = ys @ zs"
    and fp: "FindPointer h t (h_key_data e) (h_hash e) = Some (slot_after i ys)"
    "slot_read h (t_list t) (slot_after i ys) = Some (ptr_of (M (ident e)))"
    and zs: "case M (ident e) of None \<Rightarrow> zs = [] | Some x \<Rightarrow> \<exists>zs'. zs = x # zs'"
    unfolding ident_def by (rule FindPointer_spec [OF wf M keyable])
  note split = concat_split [OF i(2)]
  have key: "LRUHandle_key h p = Some (h_key_data e)"
    using p by (simp add: LRUHandle_key_def)
  define zs' where "zs' = tl zs"
  have zs'_sub: "set zs' \<subseteq> set zs"
    by (cases zs) (auto simp: zs'_def)
  have sub: "set ys \<subseteq> ran M" "set zs \<subseteq> ran M" "set zs' \<subseteq> ran M"
    using zs'_sub unfolding ran split i(3) by auto
  obtain nxt where nxt: "(if ptr_of (M (ident e)) = 0 then Some 0 else map_option h_next_hash (h (ptr_of (M (ident e))))) = Some nxt"
    "lseg h nxt zs' 0"
  proof -
    have "lseg h (t_list t ! i) (ys @ zs) 0"
      using ok i(2,3) by (metis buckets_ok_def)
    then obtain q where "lseg h q zs 0"
      by (auto simp: lseg_append)
    then show ?thesis
      using that zs by (cases "M (ident e)") (auto simp: zs'_def)
  qed
  let ?h = "h(p \<mapsto> e \<lparr> h_next_hash := nxt \<rparr>)"
  have "lseg ?h nxt zs' 0"
    by (rule lseg_frame [OF nxt(2)]) (use sub(3) p(4) in auto)
  then have ws: "lseg ?h p (p # zs') 0"
    using p(1) by simp
  have el: "\<exists>e. ?h z = Some e \<and> unat (h_hash e AND (t_length t - 1)) = i" if "z \<in> set (p # zs')" for z
  proof (cases "z = p")
    case False
    then have "z \<in> set (cs ! i)"
      using that i(3) zs'_sub by auto
    then show ?thesis
      using ok i(2) False by (simp add: buckets_ok_def)
  qed (simp add: i(1))
  have dz: "set zs' \<inter> set ys = {}"
    using d zs'_sub unfolding split i(3) by auto
  obtain h1 list1 where w: "slot_write (slot_after i ys) p ?h (t_list t) = Some (h1, list1)"
    "buckets_ok h1 (t_length t) list1 (cs[i := ys @ p # zs'])" "but_chains ?h h1" "\<And>x. x \<notin> set ys \<Longrightarrow> h1 x = ?h x"
    by (rule buckets_update [OF ok i(2,3) d, of ?h p "p # zs'"])
      (use p ws el dz sub(1) ran in auto)
  let ?cs = "cs[i := ys @ p # zs']"
  have b: "but_chains h h1"
    by (rule but_chains_trans [OF _ w(3)]) (use p(2) in simp)
  have same: "h1 x = h x" if "x \<notin> insert p (ran M)" for x
    using w(4) [of x] sub(1) that by auto
  have set1: "set (concat ?cs) = insert p (set (concat cs) - set_option (M (ident e)))"
    and d1: "distinct (concat ?cs)"
    using d zs p(4) unfolding ran split i(3) by (auto simp: zs'_def split: option.splits)
  have M1: "(M(ident e \<mapsto> p)) k = Some y \<longleftrightarrow> y \<in> set (concat ?cs) \<and> ident_at h1 y = Some k" for k y
  proof -
    have "ident_at h p = Some (ident e)"
      using p(2) by simp
    moreover have "x = y" if "M (ident e) = Some x" "M (ident e) = Some y" for x y
      using that by simp
    ultimately show ?thesis
      unfolding set1 but_chains_ident [OF b] using M [of k y] M [of "ident e" y] p(4) ran
      by (cases "M (ident e)") auto
  qed
  have size': "length (concat cs) < 2 ^ 31"
    using size distinct_card [OF d] unfolding ran by simp
  show ?thesis
  proof (cases "M (ident e)")
    case None
    let ?t = "t \<lparr> t_list := list1, t_elems := t_elems t + 1 \<rparr>"
    have len: "length (concat ?cs) = Suc (length (concat cs))"
      using zs None unfolding split i(3) by (simp add: zs'_def)
    have "Suc (unat (t_elems t)) < 2 ^ 32"
      using n size' by simp
    then have n1: "unat (t_elems ?t) = length (concat ?cs)"
      using n len by (simp add: unat_word_ariths)
    have head: "HandleTable_Insert p h t = do {
        (h, t) \<leftarrow> (if t_elems ?t > t_length ?t then Resize h1 ?t else Some (h1, ?t)); Some (0, h, t) }"
      using key p(2) fp nxt(1) w(1) None by (simp add: HandleTable_Insert_def)
    show ?thesis
    proof (cases "t_elems ?t > t_length ?t")
      case True
      obtain h2 t2 where r: "Resize h1 ?t = Some (h2, t2)" "table_rep h2 t2 (M(ident e \<mapsto> p))" "but_chains h1 h2"
        "\<And>x. x \<notin> set (concat ?cs) \<Longrightarrow> h2 x = h1 x"
        by (rule Resize_map [of h1 ?t ?cs "M(ident e \<mapsto> p)"])
          (use w(2) d1 n1 M1 len size' in \<open>simp_all only: HandleTable.select_convs HandleTable.update_convs, simp_all\<close>)
      show ?thesis
      proof (rule that)
        show "h2 x = h x" if "x \<notin> insert p (ran M)" for x
          using same [OF that] r(4) [of x] that unfolding set1 ran by auto
        show "HandleTable_Insert p h t = Some (ptr_of (M (ident e)), h2, t2)"
          using head True r(1) None by simp
      qed (use r(2) but_chains_trans [OF b r(3)] in auto)
    next
      case False
      have "wf_table h1 ?t ?cs"
        using wf w(2) d1 n1 by (simp add: wf_table_def)
      then have "table_rep h1 ?t (M(ident e \<mapsto> p))"
        unfolding table_rep_def using M1 by blast
      then show ?thesis
        using that [of h1 ?t] head False None b same by simp
    qed
  next
    case (Some x)
    let ?t = "t \<lparr> t_list := list1 \<rparr>"
    have "x \<noteq> 0"
    proof -
      have "lseg h (t_list t ! i) (ys @ zs) 0"
        using ok i(2,3) by (metis buckets_ok_def)
      then show ?thesis
        using zs Some by (auto simp: lseg_append)
    qed
    then have head: "HandleTable_Insert p h t = Some (x, h1, ?t)"
      using key p(2) fp nxt(1) w(1) Some by (auto simp: HandleTable_Insert_def)
    have "length (concat ?cs) = length (concat cs)"
      using zs Some unfolding split i(3) by (auto simp: zs'_def)
    then have "wf_table h1 ?t ?cs"
      using wf w(2) d1 n by (simp add: wf_table_def)
    then have "table_rep h1 ?t (M(ident e \<mapsto> p))"
      unfolding table_rep_def using M1 by blast
    then show ?thesis
      using that [of h1 ?t] head Some b same by simp
  qed
qed

subsection \<open>The interface\<close>

text \<open>
  What the cache relies on: a table of handles stands for a map from hash and key to handles;
  its operations return, act on the map, and change no handle but for its chain field.
\<close>

locale handle_map =
  fixes rep :: "handles \<Rightarrow> 't \<Rightarrow> (u32 \<times> bytes \<rightharpoonup> nat) \<Rightarrow> bool"
    and lookup :: "handles \<Rightarrow> 't \<Rightarrow> bytes \<Rightarrow> u32 \<Rightarrow> nat option"
    and insert_handle :: "nat \<Rightarrow> handles \<Rightarrow> 't \<Rightarrow> (nat \<times> handles \<times> 't) option"
    and remove_key :: "bytes \<Rightarrow> u32 \<Rightarrow> handles \<Rightarrow> 't \<Rightarrow> (nat \<times> handles \<times> 't) option"
  assumes lookup_law: "rep h t M \<Longrightarrow> keyable h (ran M) \<Longrightarrow> lookup h t key hash = Some (ptr_of (M (hash, key)))"
    and remove_law: "rep h t M \<Longrightarrow> keyable h (ran M) \<Longrightarrow>
      \<exists>h' t'. remove_key key hash h t = Some (ptr_of (M (hash, key)), h', t') \<and>
        rep h' t' (M((hash, key) := None)) \<and> but_chains h h'"
    and insert_law: "rep h t M \<Longrightarrow> keyable h (ran M) \<Longrightarrow> p \<noteq> 0 \<Longrightarrow> h p = Some e \<Longrightarrow> h_next e \<noteq> p \<Longrightarrow>
      p \<notin> ran M \<Longrightarrow> card (ran M) < 2 ^ 31 \<Longrightarrow>
      \<exists>h' t'. insert_handle p h t = Some (ptr_of (M (ident e)), h', t') \<and>
        rep h' t' (M(ident e \<mapsto> p)) \<and> but_chains h h'"
begin

lemma remove_then_lookup:
  assumes "rep h t M" and "keyable h (ran M)"
  shows "\<exists>h' t'. remove_key key hash h t = Some (ptr_of (M (hash, key)), h', t') \<and>
    rep h' t' (M((hash, key) := None)) \<and>
    (\<forall>key' hash'. lookup h' t' key' hash' =
       Some (if (hash', key') = (hash, key) then 0 else ptr_of (M (hash', key'))))"
proof -
  obtain h' t' where r: "remove_key key hash h t = Some (ptr_of (M (hash, key)), h', t')"
    "rep h' t' (M((hash, key) := None))" "but_chains h h'"
    using remove_law [OF assms] by blast
  have "ran (M((hash, key) := None)) \<subseteq> ran M"
    by (auto simp: ran_def)
  then have "keyable h' (ran (M((hash, key) := None)))"
    using but_chains_keyable [OF r(3) assms(2)] unfolding keyable_def by blast
  from lookup_law [OF r(2) this] show ?thesis
    using r(1,2) by (intro exI [of _ h'] exI [of _ t']) auto
qed

lemma insert_then_lookup:
  assumes "rep h t M" and "keyable h (ran M)" and "p \<noteq> 0" and "h p = Some e" and "h_next e \<noteq> p" and "p \<notin> ran M"
    and "card (ran M) < 2 ^ 31"
  shows "\<exists>h' t'. insert_handle p h t = Some (ptr_of (M (ident e)), h', t') \<and> rep h' t' (M(ident e \<mapsto> p)) \<and>
    (\<forall>key hash. lookup h' t' key hash = Some (if (hash, key) = ident e then p else ptr_of (M (hash, key))))"
proof -
  obtain h' t' where r: "insert_handle p h t = Some (ptr_of (M (ident e)), h', t')"
    "rep h' t' (M(ident e \<mapsto> p))" "but_chains h h'"
    using insert_law [OF assms] by blast
  have "keyable h (insert p (ran M))"
    using assms(2,4,5) by (auto simp: keyable_def)
  moreover have "ran (M(ident e \<mapsto> p)) \<subseteq> insert p (ran M)"
    by (auto simp: ran_def)
  ultimately have "keyable h' (ran (M(ident e \<mapsto> p)))"
    using but_chains_keyable [OF r(3)] unfolding keyable_def by blast
  from lookup_law [OF r(2) this] show ?thesis
    using r(1,2) by (intro exI [of _ h'] exI [of _ t']) auto
qed

end

interpretation ht: handle_map table_rep HandleTable_Lookup HandleTable_Insert HandleTable_Remove
proof
  fix h t M key hash
  assume "table_rep h t M" "keyable h (ran M)"
  then show "HandleTable_Lookup h t key hash = Some (ptr_of (M (hash, key)))"
    "\<exists>h' t'. HandleTable_Remove key hash h t = Some (ptr_of (M (hash, key)), h', t') \<and>
       table_rep h' t' (M((hash, key) := None)) \<and> but_chains h h'"
    using HandleTable_Lookup_map HandleTable_Remove_map by blast+
next
  fix h t M p e
  assume "table_rep h t M" "keyable h (ran M)" "p \<noteq> 0" "h p = Some e" "h_next e \<noteq> p" "p \<notin> ran M" "card (ran M) < 2 ^ 31"
  then show "\<exists>h' t'. HandleTable_Insert p h t = Some (ptr_of (M (ident e)), h', t') \<and>
      table_rep h' t' (M(ident e \<mapsto> p)) \<and> but_chains h h'"
    using HandleTable_Insert_map by metis
qed

subsection \<open>Properties\<close>

text \<open>C12: the chained hash table is a map from hash and key to handles: inserting a handle returns the
  handle it replaces, if any, and afterwards every lookup answers as the updated map, also when
  keys collide and when the insertion resizes the table; the same holds for removing a key.\<close>

theorem HandleTable_is_map:
  assumes "table_rep h t M" and "keyable h (ran M)"
  shows "(\<exists>h' t'. HandleTable_Remove key hash h t = Some (ptr_of (M (hash, key)), h', t') \<and>
      table_rep h' t' (M((hash, key) := None)) \<and>
      (\<forall>key' hash'. HandleTable_Lookup h' t' key' hash' =
         Some (if (hash', key') = (hash, key) then 0 else ptr_of (M (hash', key'))))) \<and>
    (p \<noteq> 0 \<and> h p = Some e \<and> h_next e \<noteq> p \<and> p \<notin> ran M \<and> card (ran M) < 2 ^ 31 \<longrightarrow>
      (\<exists>h' t'. HandleTable_Insert p h t = Some (ptr_of (M (ident e)), h', t') \<and> table_rep h' t' (M(ident e \<mapsto> p)) \<and>
        (\<forall>key hash. HandleTable_Lookup h' t' key hash =
           Some (if (hash, key) = ident e then p else ptr_of (M (hash, key))))))"
  using ht.remove_then_lookup [OF assms] ht.insert_then_lookup [OF assms, of p e] by blast

definition a_handle :: "u32 \<Rightarrow> bytes \<Rightarrow> LRUHandle" where
  "a_handle hash key = \<lparr> h_value = 0, h_deleter = 0, h_next_hash = 0, h_next = 0, h_prev = 0, h_charge = 0,
     h_in_cache = False, h_refs = 0, h_hash = hash, h_key_data = key \<rparr>"

theorem HandleTable_is_map_witness:
  "\<exists>t h' t'. new_HandleTable [7 \<mapsto> a_handle 5 [1]] = Some ([7 \<mapsto> a_handle 5 [1]], t) \<and>
    HandleTable_Insert 7 [7 \<mapsto> a_handle 5 [1]] t = Some (0, h', t') \<and>
    HandleTable_Lookup h' t' [1] 5 = Some 7 \<and> HandleTable_Lookup h' t' [2] 5 = Some 0"
proof -
  let ?h = "[7 \<mapsto> a_handle 5 [1]]"
  obtain t where t: "new_HandleTable ?h = Some (?h, t)" "table_rep ?h t Map.empty"
    by (rule new_HandleTable_map)
  have "keyable ?h (ran Map.empty)"
    by (simp add: keyable_def)
  from HandleTable_is_map [OF t(2) this, where p = 7 and e = "a_handle 5 [1]" and key = "[]" and hash = 0]
  obtain h' t' where "HandleTable_Insert 7 ?h t = Some (0, h', t')"
    "\<And>key hash. HandleTable_Lookup h' t' key hash = Some (if (hash, key) = (5, [1]) then 7 else ptr_of None)"
    by (auto simp: a_handle_def ident_def)
  then show ?thesis
    using t(1) by (intro exI [of _ t] exI [of _ h'] exI [of _ t']) simp
qed

end
