(* ===== verification/LRUCache.thy ===== *)
theory LRUCache
  imports HandleTable
begin

text \<open>
  One shard of the cache: \<^verbatim>\<open>LRUCache\<close> of \<^verbatim>\<open>util/cache.cpp\<close>, on the heap of handles of theory
  \<open>HandleTable\<close>. The list heads \<^verbatim>\<open>lru_\<close> and \<^verbatim>\<open>in_use_\<close> are handles at fixed addresses; the two
  circular doubly linked lists, the reference counts, \<^verbatim>\<open>malloc\<close> and \<^verbatim>\<open>free\<close> are modelled as the
  code has them. A freed handle leaves the heap, so a use after free is \<^term>\<open>None\<close>, as are a
  failed assertion and a loop that does not end. Calls of a deleter are recorded in order.
  The mutex makes every call atomic, so an execution is a sequence of calls.

  The address that \<^verbatim>\<open>malloc\<close> returns and the content of the fresh block are arguments of
  \<^verbatim>\<open>Insert\<close>.
\<close>

subsection \<open>State\<close>

record LRUCache =
  c_capacity :: u64
  c_usage :: u64
  c_lru :: nat
  c_in_use :: nat
  c_table :: HandleTable

text \<open>A call of a deleter: the function, the key and the value.\<close>

type_synonym deletion = "u64 \<times> bytes \<times> u64"

type_synonym memory = "handles \<times> deletion list"

definition upd :: "nat \<Rightarrow> (LRUHandle \<Rightarrow> LRUHandle) \<Rightarrow> handles \<Rightarrow> handles option" where
  "upd p f h = do { e \<leftarrow> h p; Some (h(p \<mapsto> f e)) }"

subsection \<open>The lists\<close>

definition LRU_Remove :: "nat \<Rightarrow> handles \<Rightarrow> handles option" where
  "LRU_Remove e h = do {
     x \<leftarrow> h e;
     h \<leftarrow> upd (h_next x) (h_prev_update (\<lambda>_. h_prev x)) h;
     x \<leftarrow> h e;
     upd (h_prev x) (h_next_update (\<lambda>_. h_next x)) h
   }"

definition LRU_Append :: "nat \<Rightarrow> nat \<Rightarrow> handles \<Rightarrow> handles option" where
  "LRU_Append list e h = do {
     h \<leftarrow> upd e (h_next_update (\<lambda>_. list)) h;
     l \<leftarrow> h list;
     h \<leftarrow> upd e (h_prev_update (\<lambda>_. h_prev l)) h;
     x \<leftarrow> h e;
     h \<leftarrow> upd (h_prev x) (h_next_update (\<lambda>_. e)) h;
     x \<leftarrow> h e;
     upd (h_next x) (h_prev_update (\<lambda>_. e)) h
   }"

subsection \<open>References\<close>

definition LRU_Ref :: "LRUCache \<Rightarrow> nat \<Rightarrow> handles \<Rightarrow> handles option" where
  "LRU_Ref c e h = do {
     x \<leftarrow> h e;
     h \<leftarrow> (if h_refs x = 1 \<and> h_in_cache x
           then do { h \<leftarrow> LRU_Remove e h; LRU_Append (c_in_use c) e h }
           else Some h);
     upd e (\<lambda>x. x \<lparr> h_refs := h_refs x + 1 \<rparr>) h
   }"

definition LRU_Unref :: "LRUCache \<Rightarrow> nat \<Rightarrow> memory \<Rightarrow> memory option" where
  "LRU_Unref c e m = (case m of (h, d) \<Rightarrow> do {
     x \<leftarrow> h e;
     asserting (h_refs x > 0) (do {
       h \<leftarrow> upd e (\<lambda>x. x \<lparr> h_refs := h_refs x - 1 \<rparr>) h;
       x \<leftarrow> h e;
       if h_refs x = 0 then
         asserting (\<not> h_in_cache x) (do {
           key \<leftarrow> LRUHandle_key h e;
           Some (h(e := None), d @ [(h_deleter x, key, h_value x)])
         })
       else if h_in_cache x \<and> h_refs x = 1 then do {
         h \<leftarrow> LRU_Remove e h;
         h \<leftarrow> LRU_Append (c_lru c) e h;
         Some (h, d)
       }
       else Some (h, d)
     })
   })"

definition FinishErase :: "nat \<Rightarrow> memory \<Rightarrow> LRUCache \<Rightarrow> (bool \<times> memory \<times> LRUCache) option" where
  "FinishErase e m c =
     (if e \<noteq> 0 then do {
        x \<leftarrow> fst m e;
        asserting (h_in_cache x) (do {
          h \<leftarrow> LRU_Remove e (fst m);
          h \<leftarrow> upd e (\<lambda>x. x \<lparr> h_in_cache := False \<rparr>) h;
          x \<leftarrow> h e;
          let c = c \<lparr> c_usage := c_usage c - h_charge x \<rparr>;
          m \<leftarrow> LRU_Unref c e (h, snd m);
          Some (True, m, c)
        })
      } else Some (False, m, c))"

subsection \<open>Operations\<close>

text \<open>The constructor; \<open>lru\<close> and \<open>in_use\<close> are the addresses of the two list heads, \<open>s\<close> and \<open>s'\<close>
  the content of their other fields, which is never read.\<close>

definition new_LRUCache :: "nat \<Rightarrow> nat \<Rightarrow> LRUHandle \<Rightarrow> LRUHandle \<Rightarrow> handles \<Rightarrow> (handles \<times> LRUCache) option" where
  "new_LRUCache lru in_use s s' h = do {
     let h = h(lru \<mapsto> s \<lparr> h_next := lru, h_prev := lru \<rparr>, in_use \<mapsto> s' \<lparr> h_next := in_use, h_prev := in_use \<rparr>);
     (h, t) \<leftarrow> new_HandleTable h;
     Some (h, \<lparr> c_capacity = 0, c_usage = 0, c_lru = lru, c_in_use = in_use, c_table = t \<rparr>)
   }"

definition SetCapacity :: "u64 \<Rightarrow> LRUCache \<Rightarrow> LRUCache" where
  "SetCapacity capacity c = c \<lparr> c_capacity := capacity \<rparr>"

definition LRUCache_TotalCharge :: "LRUCache \<Rightarrow> u64" where
  "LRUCache_TotalCharge c = c_usage c"

definition LRUCache_Lookup :: "bytes \<Rightarrow> u32 \<Rightarrow> memory \<Rightarrow> LRUCache \<Rightarrow> (nat \<times> memory \<times> LRUCache) option" where
  "LRUCache_Lookup key hash m c = do {
     e \<leftarrow> HandleTable_Lookup (fst m) (c_table c) key hash;
     h \<leftarrow> (if e \<noteq> 0 then LRU_Ref c e (fst m) else Some (fst m));
     Some (e, (h, snd m), c)
   }"

definition LRUCache_Release :: "nat \<Rightarrow> memory \<Rightarrow> LRUCache \<Rightarrow> (memory \<times> LRUCache) option" where
  "LRUCache_Release handle m c = do { m \<leftarrow> LRU_Unref c handle m; Some (m, c) }"

text \<open>\<^verbatim>\<open>FinishErase(table_.Remove(key, hash))\<close>.\<close>

definition RemoveAndFinish :: "bytes \<Rightarrow> u32 \<Rightarrow> memory \<Rightarrow> LRUCache \<Rightarrow> (bool \<times> memory \<times> LRUCache) option" where
  "RemoveAndFinish key hash m c = do {
     (e, h, t) \<leftarrow> HandleTable_Remove key hash (fst m) (c_table c);
     FinishErase e (h, snd m) (c \<lparr> c_table := t \<rparr>)
   }"

definition LRUCache_Erase :: "bytes \<Rightarrow> u32 \<Rightarrow> memory \<Rightarrow> LRUCache \<Rightarrow> (memory \<times> LRUCache) option" where
  "LRUCache_Erase key hash m c = map_option snd (RemoveAndFinish key hash m c)"

text \<open>The body of the two eviction loops, on the first handle of the list.\<close>

definition evict_oldest :: "memory \<Rightarrow> LRUCache \<Rightarrow> (memory \<times> LRUCache) option" where
  "evict_oldest m c = do {
     l \<leftarrow> fst m (c_lru c);
     let old = h_next l;
     o' \<leftarrow> fst m old;
     asserting (h_refs o' = 1) (do {
       key \<leftarrow> LRUHandle_key (fst m) old;
       (erased, m, c) \<leftarrow> RemoveAndFinish key (h_hash o') m c;
       asserting erased (Some (m, c))
     })
   }"

partial_function (option) evict_loop :: "memory \<Rightarrow> LRUCache \<Rightarrow> (memory \<times> LRUCache) option" where
  [code]: "evict_loop m c = do {
     l \<leftarrow> fst m (c_lru c);
     if c_usage c > c_capacity c \<and> h_next l \<noteq> c_lru c
     then do { (m, c) \<leftarrow> evict_oldest m c; evict_loop m c }
     else Some (m, c)
   }"

partial_function (option) LRUCache_Prune :: "memory \<Rightarrow> LRUCache \<Rightarrow> (memory \<times> LRUCache) option" where
  [code]: "LRUCache_Prune m c = do {
     l \<leftarrow> fst m (c_lru c);
     if h_next l \<noteq> c_lru c
     then do { (m, c) \<leftarrow> evict_oldest m c; LRUCache_Prune m c }
     else Some (m, c)
   }"

text \<open>\<open>e\<close> is the address \<^verbatim>\<open>malloc\<close> returned and \<open>block\<close> what the block contains.\<close>

definition LRUCache_Insert ::
    "nat \<Rightarrow> LRUHandle \<Rightarrow> bytes \<Rightarrow> u32 \<Rightarrow> u64 \<Rightarrow> u64 \<Rightarrow> u64 \<Rightarrow> memory \<Rightarrow> LRUCache \<Rightarrow>
     (nat \<times> memory \<times> LRUCache) option" where
  "LRUCache_Insert e block key hash val charge deleter m c = do {
     let h = (fst m)(e \<mapsto> block \<lparr> h_value := val, h_deleter := deleter, h_charge := charge, h_hash := hash,
                                  h_in_cache := False, h_refs := 1, h_key_data := key \<rparr>);
     (m, c) \<leftarrow>
       (if c_capacity c > 0 then do {
          h \<leftarrow> upd e (\<lambda>x. x \<lparr> h_refs := h_refs x + 1, h_in_cache := True \<rparr>) h;
          h \<leftarrow> LRU_Append (c_in_use c) e h;
          let c = c \<lparr> c_usage := c_usage c + charge \<rparr>;
          (old, h, t) \<leftarrow> HandleTable_Insert e h (c_table c);
          (_, m, c) \<leftarrow> FinishErase old (h, snd m) (c \<lparr> c_table := t \<rparr>);
          Some (m, c)
        } else do {
          h \<leftarrow> upd e (h_next_update (\<lambda>_. 0)) h;
          Some ((h, snd m), c)
        });
     (m, c) \<leftarrow> evict_loop m c;
     Some (e, m, c)
   }"

text \<open>The destructor: the loop over the list \<^verbatim>\<open>lru_\<close>.\<close>

partial_function (option) LRUCache_destructor_loop :: "LRUCache \<Rightarrow> nat \<Rightarrow> memory \<Rightarrow> memory option" where
  [code]: "LRUCache_destructor_loop c e m =
     (if e \<noteq> c_lru c then do {
        x \<leftarrow> fst m e;
        let nxt = h_next x;
        asserting (h_in_cache x) (do {
          h \<leftarrow> upd e (\<lambda>x. x \<lparr> h_in_cache := False \<rparr>) (fst m);
          x \<leftarrow> h e;
          asserting (h_refs x = 1) (do {
            m \<leftarrow> LRU_Unref c e (h, snd m);
            LRUCache_destructor_loop c nxt m
          })
        })
      } else Some m)"

definition LRUCache_destructor :: "memory \<Rightarrow> LRUCache \<Rightarrow> memory option" where
  "LRUCache_destructor m c = do {
     u \<leftarrow> fst m (c_in_use c);
     asserting (h_next u = c_in_use c) (do {
       l \<leftarrow> fst m (c_lru c);
       LRUCache_destructor_loop c (h_next l) m
     })
   }"

subsection \<open>Circular lists\<close>

abbreviation nxt :: "handles \<Rightarrow> nat \<Rightarrow> nat option" where
  "nxt h x \<equiv> map_option h_next (h x)"

abbreviation prv :: "handles \<Rightarrow> nat \<Rightarrow> nat option" where
  "prv h x \<equiv> map_option h_prev (h x)"

fun links :: "handles \<Rightarrow> nat list \<Rightarrow> bool" where
  "links h (a # b # xs) \<longleftrightarrow> nxt h a = Some b \<and> prv h b = Some a \<and> links h (b # xs)"
| "links h xs \<longleftrightarrow> True"

definition ring :: "handles \<Rightarrow> nat \<Rightarrow> nat list \<Rightarrow> bool" where
  "ring h l xs \<longleftrightarrow> distinct (l # xs) \<and> links h (l # xs @ [l])"

lemma links_append: "links h (xs @ a # ys) \<longleftrightarrow> links h (xs @ [a]) \<and> links h (a # ys)"
  by (induction h "xs @ [a]" arbitrary: xs rule: links.induct) (auto simp: Cons_eq_append_conv neq_Nil_conv)

lemma links_frame:
  assumes "links h xs" and "\<forall>x \<in> set (butlast xs). nxt h' x = nxt h x" and "\<forall>x \<in> set (tl xs). prv h' x = prv h x"
  shows "links h' xs"
  using assms by (induction h xs rule: links.induct) auto

text \<open>Two heaps that differ in the list links only.\<close>

definition but_links :: "handles \<Rightarrow> handles \<Rightarrow> bool" where
  "but_links h h' \<longleftrightarrow>
     (\<forall>x. map_option (\<lambda>e. e \<lparr> h_next := 0, h_prev := 0 \<rparr>) (h' x) = map_option (\<lambda>e. e \<lparr> h_next := 0, h_prev := 0 \<rparr>) (h x))"

lemma but_links_refl [simp]: "but_links h h"
  by (simp add: but_links_def)

lemma but_links_trans: "but_links h h' \<Longrightarrow> but_links h' h'' \<Longrightarrow> but_links h h''"
  by (simp add: but_links_def)

lemma but_links_same:
  assumes "but_links h h'" and f: "\<And>e n p. f (e \<lparr> h_next := n, h_prev := p \<rparr>) = f e"
  shows "map_option f (h' x) = map_option f (h x)"
proof -
  have "map_option f (map_option (\<lambda>e. e \<lparr> h_next := 0, h_prev := 0 \<rparr>) (h' x)) =
      map_option f (map_option (\<lambda>e. e \<lparr> h_next := 0, h_prev := 0 \<rparr>) (h x))"
    using assms(1) by (simp add: but_links_def)
  then show ?thesis
    using f [where n = 0 and p = 0] by (simp add: option.map_comp o_def)
qed

lemma ring_frame:
  assumes "ring h l xs" and "\<And>x. x \<in> set (l # xs) \<Longrightarrow> nxt h' x = nxt h x \<and> prv h' x = prv h x"
  shows "ring h' l xs"
  using assms links_frame [of h "l # xs @ [l]" h'] by (auto simp: ring_def butlast_append)

lemma ring_same: "ring h l xs \<Longrightarrow> (\<And>x. x \<in> set (l # xs) \<Longrightarrow> h' x = h x) \<Longrightarrow> ring h' l xs"
  by (rule ring_frame) simp_all

lemma ring_upd:
  "ring h l xs \<Longrightarrow> h x = Some f \<Longrightarrow> h_next f' = h_next f \<Longrightarrow> h_prev f' = h_prev f \<Longrightarrow> ring (h(x \<mapsto> f')) l xs"
  by (rule ring_frame [of h]) simp_all

lemma ring_member: "ring h l xs \<Longrightarrow> x \<in> set (l # xs) \<Longrightarrow> \<exists>e. h x = Some e"
proof -
  assume r: "ring h l xs" and x: "x \<in> set (l # xs)"
  obtain ys zs where "l # xs = ys @ x # zs"
    using split_list [OF x] by blast
  then have "links h (ys @ x # (zs @ [l]))"
    using r unfolding ring_def by (metis append_Cons append_assoc)
  then have "links h (x # zs @ [l])"
    using links_append [of h ys x] by blast
  then show ?thesis
    by (cases zs) auto
qed

lemma ring_first: "ring h l xs \<Longrightarrow> nxt h l = Some (if xs = [] then l else hd xs)"
  by (cases xs) (auto simp: ring_def)

lemma LRU_Remove_ring:
  assumes ring: "ring h l (ys @ e # zs)"
  obtains h' where "LRU_Remove e h = Some h'" and "ring h' l (ys @ zs)" and "but_links h h'"
    and "h' e = h e" and "nxt h e \<noteq> Some e" and "\<And>x. x \<notin> set (l # ys @ zs) \<Longrightarrow> h' x = h x"
proof -
  define p where "p = last (l # ys)"
  define ys' where "ys' = butlast (l # ys)"
  define n where "n = hd (zs @ [l])"
  define zs' where "zs' = tl (zs @ [l])"
  have eqs: "l # ys = ys' @ [p]" "zs @ [l] = n # zs'"
    by (simp_all add: p_def ys'_def n_def zs'_def del: butlast.simps last.simps)
  have distinct: "distinct (l # ys @ e # zs)" and links: "links h (ys' @ p # e # n # zs')"
    using ring unfolding ring_def by (simp, metis append.assoc append_Cons append_Nil eqs)
  have pn: "p \<in> set (l # ys)" "n \<in> set (l # zs)" "e \<noteq> p" "e \<noteq> n"
    using distinct by (auto simp: p_def n_def hd_append)
  have l1: "links h (ys' @ [p])" and "links h (p # e # n # zs')"
    using links links_append [of h ys' p "e # n # zs'"] by blast+
  then have at: "nxt h p = Some e" "prv h e = Some p" "nxt h e = Some n" "prv h n = Some e" and l2: "links h (n # zs')"
    by simp_all
  obtain xe where xe: "h e = Some xe" "h_next xe = n" "h_prev xe = p"
    using at(2,3) by (cases "h e") simp_all
  obtain xp xn where "h p = Some xp" "h n = Some xn"
    using at(1,4) by (cases "h p"; cases "h n") simp_all
  with xe have x: "h e = Some xe" "h p = Some xp" "h n = Some xn" "h_next xe = n" "h_prev xe = p"
    by simp_all
  define h1 where "h1 = h(n \<mapsto> xn \<lparr> h_prev := p \<rparr>)"
  obtain yp where yp: "h1 p = Some yp"
    using x(2) by (cases "p = n") (simp_all add: h1_def)
  define h2 where "h2 = h1(p \<mapsto> yp \<lparr> h_next := n \<rparr>)"
  have run: "LRU_Remove e h = Some h2"
    using x pn yp by (auto simp: LRU_Remove_def upd_def h1_def h2_def split: if_splits)
  have N: "nxt h2 x = (if x = p then Some n else nxt h x)" for x
    using x by (auto simp: h2_def h1_def)
  have P: "prv h2 x = (if x = n then Some p else prv h x)" for x
    using x yp by (auto simp: h2_def h1_def split: if_splits)
  have "distinct (l # ys)" "distinct (zs @ [l])"
    using distinct by auto
  then have fresh: "p \<notin> set ys'" "n \<notin> set zs'"
    unfolding eqs by simp_all
  have "links h2 (ys' @ [p])"
    by (rule links_frame [OF l1]) (use distinct eqs pn fresh in \<open>auto simp: N P butlast_append tl_append split: list.splits\<close>)
  moreover have "links h2 (n # zs')"
  proof (rule links_frame [OF l2])
    have "butlast (n # zs') = zs"
      by (metis butlast_snoc eqs(2))
    moreover have "p \<notin> set zs"
      using pn(1) distinct by auto
    ultimately show "\<forall>x \<in> set (butlast (n # zs')). nxt h2 x = nxt h x"
      by (metis N)
  qed (use fresh in \<open>auto simp: P\<close>)
  moreover have "nxt h2 p = Some n" "prv h2 n = Some p"
    by (simp_all add: N P)
  ultimately have "links h2 (ys' @ p # n # zs')"
    using links_append [of h2 ys' p "n # zs'"] by simp
  then have "links h2 (l # (ys @ zs) @ [l])"
    using eqs by (metis append.assoc append_Cons append_Nil)
  then have "ring h2 l (ys @ zs)"
    using distinct by (simp add: ring_def)
  moreover have "but_links h h2"
    using x yp by (auto simp: but_links_def h1_def h2_def split: if_splits)
  moreover have "h2 e = h e" "nxt h e \<noteq> Some e"
    using pn x by (auto simp: h1_def h2_def)
  moreover have "h2 x = h x" if "x \<notin> set (l # ys @ zs)" for x
    using that pn by (auto simp: h1_def h2_def)
  ultimately show ?thesis
    using that run by blast
qed

lemma LRU_Append_ring:
  assumes ring: "ring h l xs" and e: "e \<notin> set (l # xs)" "h e = Some xe"
  obtains h' where "LRU_Append l e h = Some h'" and "ring h' l (xs @ [e])" and "but_links h h'"
    and "\<And>x. x \<notin> set (e # l # xs) \<Longrightarrow> h' x = h x"
proof -
  define p where "p = last (l # xs)"
  define xs' where "xs' = butlast (l # xs)"
  have eqs: "l # xs = xs' @ [p]"
    by (simp add: p_def xs'_def del: butlast.simps last.simps)
  have distinct: "distinct (l # xs)" and links: "links h (xs' @ p # [l])"
    using ring unfolding ring_def by (simp, metis append.assoc append_Cons append_Nil eqs)
  have pe: "e \<noteq> p" "e \<noteq> l" "p \<in> set (l # xs)"
    using e(1) by (auto simp: p_def)
  have l1: "links h (xs' @ [p])" and "links h (p # [l])"
    using links links_append [of h xs' p "[l]"] by blast+
  then have at: "nxt h p = Some l" "prv h l = Some p"
    by simp_all
  obtain xl xp where x: "h l = Some xl" "h p = Some xp" "h_prev xl = p"
    using at by (cases "h l"; cases "h p") simp_all
  define h2 where "h2 = h(e \<mapsto> xe \<lparr> h_next := l, h_prev := p \<rparr>)"
  define h3 where "h3 = h2(p \<mapsto> xp \<lparr> h_next := e \<rparr>)"
  obtain yl where yl: "h3 l = Some yl"
    using x pe by (cases "l = p") (simp_all add: h2_def h3_def)
  define h4 where "h4 = h3(l \<mapsto> yl \<lparr> h_prev := e \<rparr>)"
  have run: "LRU_Append l e h = Some h4"
    using x pe e(2) yl by (auto simp: LRU_Append_def upd_def h2_def h3_def h4_def split: if_splits)
  have N: "nxt h4 y = (if y = p then Some e else if y = e then Some l else nxt h y)" for y
    using x pe yl by (auto simp: h4_def h3_def h2_def split: if_splits)
  have P: "prv h4 y = (if y = l then Some e else if y = e then Some p else prv h y)" for y
    using x pe yl by (auto simp: h4_def h3_def h2_def split: if_splits)
  have "links h4 (xs' @ [p])"
    by (rule links_frame [OF l1]) (use distinct eqs e(1) in \<open>auto simp: N P butlast_append tl_append split: list.splits\<close>)
  moreover have "nxt h4 p = Some e" "prv h4 e = Some p" "nxt h4 e = Some l" "prv h4 l = Some e"
    using pe by (simp_all add: N P)
  ultimately have "links h4 (xs' @ p # [e, l])"
    using links_append [of h4 xs' p "[e, l]"] by simp
  then have "links h4 (l # (xs @ [e]) @ [l])"
    using eqs by (metis append.assoc append_Cons append_Nil)
  then have "ring h4 l (xs @ [e])"
    using distinct e(1) by (simp add: ring_def)
  moreover have "but_links h h4"
    using x e(2) pe yl by (auto simp: but_links_def h4_def h3_def h2_def split: if_splits)
  moreover have "h4 y = h y" if "y \<notin> set (e # l # xs)" for y
    using that pe by (auto simp: h4_def h3_def h2_def)
  ultimately show ?thesis
    using that run by blast
qed

lemma ring_next_other: "ring h l xs \<Longrightarrow> x \<in> set xs \<Longrightarrow> nxt h x \<noteq> Some x"
proof -
  assume r: "ring h l xs" and x: "x \<in> set xs"
  obtain ys zs where "xs = ys @ x # zs"
    using split_list [OF x] by blast
  then show ?thesis
    using r by (metis LRU_Remove_ring)
qed

subsection \<open>The abstract cache\<close>

text \<open>
  What a client can observe: the entries, the references it holds, and which entries are cached,
  in the order in which they will be evicted (\<open>a_lru\<close>), cached and referenced (\<open>a_use\<close>), or
  only still referenced (\<open>a_loose\<close>).
\<close>

record Entry =
  e_value :: u64
  e_deleter :: u64
  e_charge :: u64
  e_hash :: u32
  e_key :: bytes

definition entry_of :: "LRUHandle \<Rightarrow> Entry" where
  "entry_of e = \<lparr> e_value = h_value e, e_deleter = h_deleter e, e_charge = h_charge e, e_hash = h_hash e,
                  e_key = h_key_data e \<rparr>"

definition deletion_of :: "Entry \<Rightarrow> deletion" where
  "deletion_of e = (e_deleter e, e_key e, e_value e)"

record ACache =
  a_capacity :: u64
  a_usage :: u64
  a_lru :: "nat list"
  a_use :: "nat list"
  a_loose :: "nat list"
  a_entry :: "nat \<rightharpoonup> Entry"
  a_refs :: "nat \<Rightarrow> nat"
  a_deleted :: "deletion list"

definition a_cached :: "ACache \<Rightarrow> nat list" where
  "a_cached A = a_lru A @ a_use A"

definition key_at :: "ACache \<Rightarrow> nat \<Rightarrow> (u32 \<times> bytes) option" where
  "key_at A x = map_option (\<lambda>e. (e_hash e, e_key e)) (a_entry A x)"

definition a_find :: "ACache \<Rightarrow> u32 \<times> bytes \<Rightarrow> nat option" where
  "a_find A k = List.find (\<lambda>x. key_at A x = Some k) (a_cached A)"

text \<open>A client takes a reference; a reference is given back; the cache turns its own reference to
  an entry into an ordinary one; the cache drops an entry.\<close>

definition a_ref :: "nat \<Rightarrow> ACache \<Rightarrow> ACache" where
  "a_ref x A = (let A' = A \<lparr> a_refs := (a_refs A)(x := a_refs A x + 1) \<rparr> in
     if x \<in> set (a_lru A) then A' \<lparr> a_lru := remove1 x (a_lru A), a_use := a_use A @ [x] \<rparr> else A')"

lemma a_ref_simps [simp]:
  "a_capacity (a_ref x A) = a_capacity A" "a_usage (a_ref x A) = a_usage A" "a_loose (a_ref x A) = a_loose A"
  "a_entry (a_ref x A) = a_entry A" "a_deleted (a_ref x A) = a_deleted A"
  "a_refs (a_ref x A) = (a_refs A)(x := a_refs A x + 1)" "a_lru (a_ref x A) = remove1 x (a_lru A)"
  "x \<in> set (a_lru A) \<Longrightarrow> a_use (a_ref x A) = a_use A @ [x]" "x \<notin> set (a_lru A) \<Longrightarrow> a_use (a_ref x A) = a_use A"
  by (simp_all add: a_ref_def Let_def remove1_idem)

definition a_unref :: "nat \<Rightarrow> ACache \<Rightarrow> ACache" where
  "a_unref x A = (let A' = A \<lparr> a_refs := (a_refs A)(x := a_refs A x - 1) \<rparr> in
     if a_refs A x > 1 then A'
     else if x \<in> set (a_loose A)
     then A' \<lparr> a_loose := remove1 x (a_loose A), a_entry := (a_entry A)(x := None),
               a_deleted := a_deleted A @ (case a_entry A x of None \<Rightarrow> [] | Some e \<Rightarrow> [deletion_of e]) \<rparr>
     else A' \<lparr> a_use := remove1 x (a_use A), a_lru := a_lru A @ [x] \<rparr>)"

lemma a_unref_keep:
  assumes "a_refs A x > 1"
  shows "a_unref x A = A \<lparr> a_refs := (a_refs A)(x := a_refs A x - 1) \<rparr>"
  using assms by (simp add: a_unref_def)

lemma a_unref_free:
  assumes "a_refs A x = 1" and "x \<in> set (a_loose A)" and "a_entry A x = Some e"
  shows "a_unref x A = A \<lparr> a_refs := (a_refs A)(x := 0), a_loose := remove1 x (a_loose A),
    a_entry := (a_entry A)(x := None), a_deleted := a_deleted A @ [deletion_of e] \<rparr>"
  using assms by (simp add: a_unref_def)

lemma a_unref_retire:
  assumes "a_refs A x = 1" and "x \<notin> set (a_loose A)"
  shows "a_unref x A = A \<lparr> a_refs := (a_refs A)(x := 0), a_use := remove1 x (a_use A), a_lru := a_lru A @ [x] \<rparr>"
  using assms by (simp add: a_unref_def)

definition a_detach :: "nat \<Rightarrow> ACache \<Rightarrow> ACache" where
  "a_detach x A = A \<lparr> a_usage := a_usage A - (case a_entry A x of None \<Rightarrow> 0 | Some e \<Rightarrow> e_charge e),
     a_lru := remove1 x (a_lru A), a_use := remove1 x (a_use A), a_loose := a_loose A @ [x],
     a_refs := (a_refs A)(x := a_refs A x + 1) \<rparr>"

definition a_drop :: "nat \<Rightarrow> ACache \<Rightarrow> ACache" where
  "a_drop x A = a_unref x (a_detach x A)"

lemma a_detach_simps [simp]:
  "a_capacity (a_detach x A) = a_capacity A" "a_lru (a_detach x A) = remove1 x (a_lru A)"
  "a_use (a_detach x A) = remove1 x (a_use A)" "a_loose (a_detach x A) = a_loose A @ [x]"
  "a_entry (a_detach x A) = a_entry A" "a_deleted (a_detach x A) = a_deleted A"
  "a_refs (a_detach x A) = (a_refs A)(x := a_refs A x + 1)"
  "a_entry A x = Some e \<Longrightarrow> a_usage (a_detach x A) = a_usage A - e_charge e"
  by (simp_all add: a_detach_def)

lemma a_drop_simps [simp]:
  "a_capacity (a_drop x A) = a_capacity A" "a_lru (a_drop x A) = remove1 x (a_lru A)"
  "a_use (a_drop x A) = remove1 x (a_use A)" "a_entry A x = Some e \<Longrightarrow> a_usage (a_drop x A) = a_usage A - e_charge e"
  "y \<noteq> x \<Longrightarrow> a_entry (a_drop x A) y = a_entry A y"
  by (simp_all add: a_drop_def a_unref_def Let_def)

text \<open>A new entry: cached, or only handed to the client when caching is turned off.\<close>

definition a_add :: "nat \<Rightarrow> Entry \<Rightarrow> ACache \<Rightarrow> ACache" where
  "a_add p e A = A \<lparr> a_usage := a_usage A + e_charge e, a_use := a_use A @ [p], a_entry := (a_entry A)(p \<mapsto> e),
     a_refs := (a_refs A)(p := 1) \<rparr>"

definition a_keep :: "nat \<Rightarrow> Entry \<Rightarrow> ACache \<Rightarrow> ACache" where
  "a_keep p e A = A \<lparr> a_loose := a_loose A @ [p], a_entry := (a_entry A)(p \<mapsto> e), a_refs := (a_refs A)(p := 1) \<rparr>"

text \<open>Eviction, oldest entry first.\<close>

function a_evict :: "ACache \<Rightarrow> ACache" where
  "a_evict A =
     (if a_usage A > a_capacity A \<and> a_lru A \<noteq> [] then a_evict (a_drop (hd (a_lru A)) A) else A)"
  by pat_completeness auto
termination
  by (relation "measure (length \<circ> a_lru)") (auto simp: length_remove1)

function a_prune :: "ACache \<Rightarrow> ACache" where
  "a_prune A = (if a_lru A \<noteq> [] then a_prune (a_drop (hd (a_lru A)) A) else A)"
  by pat_completeness auto
termination
  by (relation "measure (length \<circ> a_lru)") (auto simp: length_remove1)

declare a_evict.simps [simp del] a_prune.simps [simp del]

subsection \<open>The representation\<close>

definition live :: "ACache \<Rightarrow> nat set" where
  "live A = set (a_lru A) \<union> set (a_use A) \<union> set (a_loose A)"

text \<open>What the abstract cache fixes of a handle.\<close>

definition view :: "LRUHandle \<Rightarrow> Entry \<times> u32 \<times> bool" where
  "view e = (entry_of e, h_refs e, h_in_cache e)"

definition handle_ok :: "handles \<Rightarrow> ACache \<Rightarrow> nat \<Rightarrow> bool" where
  "handle_ok h A x \<longleftrightarrow>
     (\<exists>e. h x = Some e \<and> a_entry A x = Some (entry_of e) \<and>
        h_in_cache e = (x \<notin> set (a_loose A)) \<and>
        unat (h_refs e) = a_refs A x + (if x \<in> set (a_loose A) then 0 else 1))"

definition cache_repT :: "memory \<Rightarrow> LRUCache \<Rightarrow> ACache \<Rightarrow> (u32 \<times> bytes \<rightharpoonup> nat) \<Rightarrow> bool" where
  "cache_repT m c A T \<longleftrightarrow>
     ring (fst m) (c_lru c) (a_lru A) \<and> ring (fst m) (c_in_use c) (a_use A) \<and>
     distinct (0 # c_lru c # c_in_use c # a_lru A @ a_use A @ a_loose A) \<and>
     (\<forall>x \<in> live A. handle_ok (fst m) A x) \<and> dom (a_entry A) = live A \<and>
     (\<forall>x \<in> set (a_lru A). a_refs A x = 0) \<and> (\<forall>x \<in> set (a_use A @ a_loose A). a_refs A x > 0) \<and>
     keyable (fst m) (set (a_loose A)) \<and>
     table_rep (fst m) (c_table c) T \<and> ran T \<subseteq> set (a_cached A) \<and>
     c_capacity c = a_capacity A \<and> c_usage c = a_usage A \<and> snd m = a_deleted A \<and>
     dom (fst m) = insert (c_lru c) (insert (c_in_use c) (live A))"

definition table_ok :: "ACache \<Rightarrow> (u32 \<times> bytes \<rightharpoonup> nat) \<Rightarrow> bool" where
  "table_ok A T \<longleftrightarrow>
     (\<forall>k x. T k = Some x \<longleftrightarrow> x \<in> set (a_cached A) \<and> key_at A x = Some k)"

definition charge_at :: "ACache \<Rightarrow> nat \<Rightarrow> u64" where
  "charge_at A x = (case a_entry A x of None \<Rightarrow> 0 | Some e \<Rightarrow> e_charge e)"

definition usage_ok :: "ACache \<Rightarrow> bool" where
  "usage_ok A \<longleftrightarrow> a_usage A = (\<Sum>x \<leftarrow> a_cached A. charge_at A x)"

definition cache_rep :: "memory \<Rightarrow> LRUCache \<Rightarrow> ACache \<Rightarrow> bool" where
  "cache_rep m c A \<longleftrightarrow> (\<exists>T. cache_repT m c A T \<and> table_ok A T) \<and> usage_ok A"

subsection \<open>Frames\<close>

lemma table_frame:
  assumes "table_rep h t T" and same: "\<And>x. x \<in> ran T \<Longrightarrow>
    map_option (\<lambda>e. (h_next_hash e, ident e)) (h' x) = map_option (\<lambda>e. (h_next_hash e, ident e)) (h x)"
  shows "table_rep h' t T"
proof -
  obtain cs where wf: "wf_table h t cs" and T: "\<And>k x. T k = Some x \<longleftrightarrow> x \<in> set (concat cs) \<and> ident_at h x = Some k"
    using assms(1) unfolding table_rep_def by blast
  have cs: "x \<in> ran T" if j: "j < length cs" "x \<in> set (cs ! j)" for j x
  proof -
    obtain e where "h x = Some e"
      using wf j unfolding wf_table_def buckets_ok_def by blast
    moreover have "x \<in> set (concat cs)"
      using j unfolding in_set_concat_nth by blast
    ultimately show ?thesis
      using T [of "ident e" x] by (auto intro: ranI)
  qed
  have parts: "map_option h_next_hash (h' x) = map_option h_next_hash (h x)" "ident_at h' x = ident_at h x"
    "map_option h_hash (h' x) = map_option h_hash (h x)" if "x \<in> ran T" for x
    using arg_cong [OF same [OF that], of "map_option fst"] arg_cong [OF same [OF that], of "map_option snd"]
      arg_cong [OF same [OF that], of "map_option (fst \<circ> snd)"]
    by (simp_all add: option.map_comp o_def) (simp add: ident_def)
  have "buckets_ok h' (t_length t) (t_list t) cs"
    unfolding buckets_ok_def
  proof (intro conjI allI impI ballI)
    fix j
    assume j: "j < length cs"
    show "lseg h' (t_list t ! j) (cs ! j) 0"
      by (rule lseg_frame [of h]) (use wf j parts(1) cs [OF j] in \<open>auto simp: wf_table_def buckets_ok_def\<close>)
    fix x
    assume x: "x \<in> set (cs ! j)"
    then obtain e where "h x = Some e" "unat (h_hash e AND (t_length t - 1)) = j"
      using wf j unfolding wf_table_def buckets_ok_def by blast
    then show "\<exists>e. h' x = Some e \<and> unat (h_hash e AND (t_length t - 1)) = j"
      using parts(3) [OF cs [OF j x]] by auto
  qed (use wf in \<open>simp_all add: wf_table_def buckets_ok_def\<close>)
  then have "wf_table h' t cs"
    using wf by (simp add: wf_table_def)
  moreover have "T k = Some x \<longleftrightarrow> x \<in> set (concat cs) \<and> ident_at h' x = Some k" for k x
    using T [of k x] parts(2) [of x] cs unfolding in_set_concat_nth by (metis ranI)
  ultimately show ?thesis
    unfolding table_rep_def by blast
qed

lemma view_links: "but_links h h' \<Longrightarrow> map_option view (h' x) = map_option view (h x)"
  by (rule but_links_same) (simp_all add: view_def entry_of_def)

lemma view_chains: "but_chains h h' \<Longrightarrow> map_option view (h' x) = map_option view (h x)"
  by (rule but_chains_same) (simp_all add: view_def entry_of_def)

lemma table_links:
  "but_links h h' \<Longrightarrow>
   map_option (\<lambda>e. (h_next_hash e, ident e)) (h' x) = map_option (\<lambda>e. (h_next_hash e, ident e)) (h x)"
  by (rule but_links_same) (simp_all add: ident_def)

lemma handle_ok_view:
  "handle_ok h A x \<longleftrightarrow>
     (\<exists>r. map_option view (h x) = Some (the (a_entry A x), r, x \<notin> set (a_loose A)) \<and> a_entry A x \<noteq> None \<and>
        unat r = a_refs A x + (if x \<in> set (a_loose A) then 0 else 1))"
  by (auto simp: handle_ok_def view_def)

subsection \<open>The primitives keep the representation\<close>

lemma move_ring:
  assumes ra: "ring h a (ys @ x # zs)" and rb: "ring h b us" and distinct: "distinct (a # b # (ys @ x # zs) @ us)"
  obtains h1 h2 where "LRU_Remove x h = Some h1" and "LRU_Append b x h1 = Some h2"
    and "ring h2 a (ys @ zs)" and "ring h2 b (us @ [x])" and "but_links h h2"
    and "\<And>y. y \<notin> set (a # b # (ys @ x # zs) @ us) \<Longrightarrow> h2 y = h y"
proof -
  obtain h1 where h1: "LRU_Remove x h = Some h1" "ring h1 a (ys @ zs)" "but_links h h1" "h1 x = h x"
    "\<And>y. y \<notin> set (a # ys @ zs) \<Longrightarrow> h1 y = h y"
    by (rule LRU_Remove_ring [OF ra]) blast
  have rb1: "ring h1 b us"
    by (rule ring_same [OF rb], rule h1(5)) (use distinct in auto)
  obtain e where "h1 x = Some e"
    using ring_member [OF ra, of x] h1(4) by auto
  moreover have "x \<notin> set (b # us)"
    using distinct by auto
  ultimately obtain h2 where h2: "LRU_Append b x h1 = Some h2" "ring h2 b (us @ [x])" "but_links h1 h2"
    "\<And>y. y \<notin> set (x # b # us) \<Longrightarrow> h2 y = h1 y"
    using LRU_Append_ring [OF rb1] by metis
  have "ring h2 a (ys @ zs)"
    by (rule ring_same [OF h1(2)], rule h2(4)) (use distinct in auto)
  moreover have "h2 y = h y" if "y \<notin> set (a # b # (ys @ x # zs) @ us)" for y
    using that h1(5) [of y] h2(4) [of y] by auto
  ultimately show ?thesis
    using that h1(1) h2(1,2) but_links_trans [OF h1(3) h2(3)] by blast
qed

lemma remove1_middle: "distinct (ys @ x # zs) \<Longrightarrow> remove1 x (ys @ x # zs) = ys @ zs"
  by (simp add: remove1_append)

lemma unat_plus_one: "unat w + 1 < 2 ^ 32 \<Longrightarrow> unat (w + 1) = unat w + 1" for w :: u32
  by (simp add: unat_word_ariths)

lemma unat_minus_one': "w \<noteq> 0 \<Longrightarrow> unat (w - 1) = unat w - 1" for w :: u32
  by (rule unat_minus_one)

text \<open>The table and the loose handles under a change of links, counts and flags.\<close>

lemma table_view_frame:
  assumes "table_rep h t T" and "\<And>y. y \<in> ran T \<Longrightarrow> \<exists>f g. h y = Some f \<and> h' y = Some g \<and>
    h_next_hash g = h_next_hash f \<and> h_hash g = h_hash f \<and> h_key_data g = h_key_data f"
  shows "table_rep h' t T"
  by (rule table_frame [OF assms(1)]) (use assms(2) in \<open>fastforce simp: ident_def\<close>)

lemma cache_repD:
  assumes "cache_repT m c A T"
  shows "ring (fst m) (c_lru c) (a_lru A)" and "ring (fst m) (c_in_use c) (a_use A)"
    and "distinct (0 # c_lru c # c_in_use c # a_lru A @ a_use A @ a_loose A)"
    and "\<And>x. x \<in> live A \<Longrightarrow> handle_ok (fst m) A x" and "dom (a_entry A) = live A"
    and "\<And>x. x \<in> set (a_lru A) \<Longrightarrow> a_refs A x = 0" and "\<And>x. x \<in> set (a_use A @ a_loose A) \<Longrightarrow> a_refs A x > 0"
    and "keyable (fst m) (set (a_loose A))" and "table_rep (fst m) (c_table c) T" and "ran T \<subseteq> set (a_cached A)"
    and "c_capacity c = a_capacity A" and "c_usage c = a_usage A" and "snd m = a_deleted A"
    and "dom (fst m) = insert (c_lru c) (insert (c_in_use c) (live A))"
  using assms unfolding cache_repT_def by blast+

abbreviation tview :: "LRUHandle \<Rightarrow> nat \<times> u32 \<times> bytes" where
  "tview e \<equiv> (h_next_hash e, ident e)"

text \<open>One handle \<open>x\<close> changes its count, its flag or its list.\<close>

lemma cache_repT_change:
  assumes rep: "cache_repT (h, d) c A T" and x: "x \<in> live A"
    and rings: "ring h' (c_lru c) (a_lru A')" "ring h' (c_in_use c) (a_use A')"
    and lists: "distinct (0 # c_lru c # c_in_use c # a_lru A' @ a_use A' @ a_loose A')"
    and sets: "live A' = live A" "set (a_loose A') - {x} = set (a_loose A) - {x}" "set (a_lru A') - {x} = set (a_lru A) - {x}"
    and view: "\<And>y. y \<noteq> x \<Longrightarrow> map_option view (h' y) = map_option view (h y)"
    and table: "\<And>y. y \<in> ran T \<Longrightarrow> map_option tview (h' y) = map_option tview (h y)" "ran T \<subseteq> set (a_cached A')"
    and loose: "\<And>y. y \<in> set (a_loose A) \<Longrightarrow> y \<noteq> x \<Longrightarrow> h' y = h y"
    and at_x: "handle_ok h' A' x" "x \<in> set (a_lru A') \<longleftrightarrow> a_refs A' x = 0" "x \<in> set (a_loose A') \<Longrightarrow> nxt h' x \<noteq> Some x"
    and abs: "a_entry A' = a_entry A" "a_capacity A' = a_capacity A" "a_deleted A' = a_deleted A"
      "\<And>y. y \<noteq> x \<Longrightarrow> a_refs A' y = a_refs A y"
    and c': "c_lru c' = c_lru c" "c_in_use c' = c_in_use c" "c_table c' = c_table c" "c_capacity c' = c_capacity c"
      "c_usage c' = a_usage A'"
  shows "cache_repT (h', d) c' A' T"
proof -
  note R = cache_repD [OF rep, unfolded fst_conv snd_conv]
  have other: "y \<in> set (a_loose A') \<longleftrightarrow> y \<in> set (a_loose A)" "y \<in> set (a_lru A') \<longleftrightarrow> y \<in> set (a_lru A)" if "y \<noteq> x" for y
    using sets(2,3) that by blast+
  have "handle_ok h' A' y" if "y \<in> live A" for y
  proof (cases "y = x")
    case False
    then show ?thesis
      using R(4) [OF that] other [OF False] view [OF False] abs by (simp add: handle_ok_view)
  qed (use at_x(1) in simp)
  moreover have "a_refs A' y = 0" if "y \<in> set (a_lru A')" for y
    using that R(6) [of y] other(2) [of y] at_x(2) abs(4) [of y] by (cases "y = x") auto
  moreover have "a_refs A' y > 0" if y: "y \<in> set (a_use A' @ a_loose A')" for y
  proof (cases "y = x")
    case True
    then have "x \<notin> set (a_lru A')"
      using y lists by auto
    then show ?thesis
      using True at_x(2) by simp
  next
    case False
    have "y \<in> live A" "y \<notin> set (a_lru A')"
      using y lists sets(1) unfolding live_def by auto
    then have "y \<in> set (a_use A @ a_loose A)"
      using other(2) [OF False] by (auto simp: live_def)
    then show ?thesis
      using R(7) abs(4) [OF False] by simp
  qed
  moreover have "keyable h' (set (a_loose A'))"
    unfolding keyable_def
  proof
    fix y
    assume y: "y \<in> set (a_loose A')"
    show "\<exists>e. h' y = Some e \<and> h_next e \<noteq> y"
    proof (cases "y = x")
      case True
      then show ?thesis
        using at_x(1,3) y by (auto simp: handle_ok_def)
    next
      case False
      then have "y \<in> set (a_loose A)"
        using other(1) y by simp
      then show ?thesis
        using R(8) loose False unfolding keyable_def by metis
    qed
  qed
  moreover have "table_rep h' (c_table c') T"
    unfolding c'(3) by (rule table_frame [OF R(9) table(1)])
  moreover have "dom h' = dom h"
  proof -
    have "h' y = None \<longleftrightarrow> h y = None" for y
      using view [of y] at_x(1) R(4) [OF x] by (cases "y = x") (auto simp: handle_ok_def)
    then show ?thesis
      unfolding dom_def by simp
  qed
  ultimately show ?thesis
    using rings lists table(2) sets(1) R(5,11,13,14) abs c' unfolding cache_repT_def by simp
qed

lemma LRU_Ref_rep:
  assumes rep: "cache_repT (h, d) c A T" and x: "x \<in> set (a_cached A)" and bound: "a_refs A x + 2 < 2 ^ 32"
  obtains h' where "LRU_Ref c x h = Some h'" and "cache_repT (h', d) c (a_ref x A) T"
proof -
  note R = cache_repD [OF rep, unfolded fst_conv snd_conv]
  have loose: "x \<notin> set (a_loose A)" "x \<in> live A"
    using x R(3) by (auto simp: a_cached_def live_def)
  then obtain e where e: "h x = Some e" "a_entry A x = Some (entry_of e)" "h_in_cache e"
    "unat (h_refs e) = a_refs A x + 1"
    using R(4) [of x] by (auto simp: handle_ok_def)
  have refs: "h_refs e = 1 \<longleftrightarrow> x \<in> set (a_lru A)"
  proof -
    have "h_refs e = 1 \<longleftrightarrow> a_refs A x = 0"
      using e(4) by (metis add_cancel_left_left unat_1 word_unat_eq_iff)
    then show ?thesis
      using R(6) [of x] R(7) [of x] x by (auto simp: a_cached_def)
  qed
  have plus: "unat (h_refs e + 1) = a_refs A x + 2"
    using e(4) bound by (simp add: unat_plus_one)
  obtain g where g: "(if h_refs e = 1 \<and> h_in_cache e
      then do { h \<leftarrow> LRU_Remove x h; LRU_Append (c_in_use c) x h } else Some h) = Some g"
    "ring g (c_lru c) (a_lru (a_ref x A))" "ring g (c_in_use c) (a_use (a_ref x A))" "but_links h g"
    "\<And>y. y \<in> set (a_loose A) \<Longrightarrow> g y = h y"
  proof (cases "x \<in> set (a_lru A)")
    case True
    then obtain ys zs where ys: "a_lru A = ys @ x # zs"
      using split_list by metis
    have "distinct (c_lru c # c_in_use c # (ys @ x # zs) @ a_use A)"
      using R(3) unfolding ys by auto
    then obtain h1 h2 where h2: "LRU_Remove x h = Some h1" "LRU_Append (c_in_use c) x h1 = Some h2"
      "ring h2 (c_lru c) (ys @ zs)" "ring h2 (c_in_use c) (a_use A @ [x])" "but_links h h2"
      "\<And>y. y \<notin> set (c_lru c # c_in_use c # (ys @ x # zs) @ a_use A) \<Longrightarrow> h2 y = h y"
      using move_ring [OF R(1) [unfolded ys] R(2)] by metis
    have "remove1 x (a_lru A) = ys @ zs"
      using R(3) unfolding ys by (intro remove1_middle) auto
    moreover have "h2 y = h y" if "y \<in> set (a_loose A)" for y
      by (rule h2(6)) (use R(3) that ys in auto)
    ultimately show ?thesis
      using that [of h2] h2(1-5) refs e(3) True by simp
  next
    case False
    then show ?thesis
      using that [of h] refs R(1,2) by (simp add: remove1_idem)
  qed
  obtain f where f: "g x = Some f" "view f = view e"
    using view_links [OF g(4), of x] e(1) by auto
  let ?h = "g(x \<mapsto> f \<lparr> h_refs := h_refs f + 1 \<rparr>)"
  have run: "LRU_Ref c x h = Some ?h"
    using e(1) g(1) f(1) by (simp add: LRU_Ref_def upd_def)
  have f': "entry_of f = entry_of e" "h_refs f = h_refs e" "h_in_cache f = h_in_cache e"
    using f(2) by (simp_all add: view_def)
  have "cache_repT (?h, d) c (a_ref x A) T"
  proof (rule cache_repT_change [OF rep loose(2)])
    show "ring ?h (c_lru c) (a_lru (a_ref x A))"
      by (rule ring_upd [OF g(2) f(1)]) simp_all
    show "ring ?h (c_in_use c) (a_use (a_ref x A))"
      by (rule ring_upd [OF g(3) f(1)]) simp_all
    show "map_option view (?h y) = map_option view (h y)" if "y \<noteq> x" for y
      using view_links [OF g(4), of y] that by simp
    show "map_option tview (?h y) = map_option tview (h y)" if "y \<in> ran T" for y
      using table_links [OF g(4), of y] f by (cases "y = x") (auto simp: ident_def)
    show "handle_ok ?h (a_ref x A) x"
      using e f' plus loose by (simp add: handle_ok_def entry_of_def)
    show "distinct (0 # c_lru c # c_in_use c # a_lru (a_ref x A) @ a_use (a_ref x A) @ a_loose (a_ref x A))"
      using R(3) loose(1) by (cases "x \<in> set (a_lru A)") auto
    show "live (a_ref x A) = live A" "set (a_lru (a_ref x A)) - {x} = set (a_lru A) - {x}"
      using R(3) by (cases "x \<in> set (a_lru A)"; auto simp: live_def)+
    show "ran T \<subseteq> set (a_cached (a_ref x A))"
      using R(3,10) by (cases "x \<in> set (a_lru A)") (auto simp: a_cached_def)
    show "?h y = h y" if "y \<in> set (a_loose A)" "y \<noteq> x" for y
      using g(5) that by simp
    show "x \<in> set (a_lru (a_ref x A)) \<longleftrightarrow> a_refs (a_ref x A) x = 0"
      using R(3) by auto
  qed (use R(12) loose(1) in simp_all)
  then show ?thesis
    using that run by blast
qed

lemma LRU_Unref_rep:
  assumes rep: "cache_repT (h, d) c A T" and x: "x \<in> set (a_use A @ a_loose A)"
  obtains m where "LRU_Unref c x (h, d) = Some m" and "cache_repT m c (a_unref x A) T"
proof -
  note R = cache_repD [OF rep, unfolded fst_conv snd_conv]
  have xl: "x \<in> live A" "x \<notin> set (a_lru A)" "x \<in> set (a_use A) \<longleftrightarrow> x \<notin> set (a_loose A)"
    using x R(3) by (auto simp: live_def)
  obtain e where e: "h x = Some e" "a_entry A x = Some (entry_of e)" "h_in_cache e = (x \<notin> set (a_loose A))"
    "unat (h_refs e) = a_refs A x + (if x \<in> set (a_loose A) then 0 else 1)"
    using R(4) [OF xl(1)] by (auto simp: handle_ok_def)
  have pos: "a_refs A x > 0"
    by (rule R(7) [OF x])
  then have nz: "h_refs e \<noteq> 0"
    using e(4) by (auto simp: unat_eq_0 split: if_splits)
  let ?e = "e \<lparr> h_refs := h_refs e - 1 \<rparr>"
  let ?h = "h(x \<mapsto> ?e)"
  have minus: "unat (h_refs e - 1) = unat (h_refs e) - 1"
    using nz by (rule unat_minus_one')
  have zero: "h_refs e - 1 = 0 \<longleftrightarrow> a_refs A x = 1 \<and> x \<in> set (a_loose A)"
    unfolding word_unat_eq_iff [of "h_refs e - 1" 0] minus unat_0 using pos e(4) by (auto split: if_splits)
  have one: "h_refs e - 1 = 1 \<longleftrightarrow> unat (h_refs e) = 2"
    unfolding word_unat_eq_iff [of "h_refs e - 1" 1] minus unat_1 using pos e(4) by (auto split: if_splits)
  have head: "LRU_Unref c x (h, d) =
     (if h_refs e - 1 = 0 then
        asserting (\<not> h_in_cache e) (do {
          key \<leftarrow> LRUHandle_key ?h x;
          Some (?h(x := None), d @ [(h_deleter e, key, h_value e)])
        })
      else if h_in_cache e \<and> h_refs e - 1 = 1 then do {
        h \<leftarrow> LRU_Remove x ?h; h \<leftarrow> LRU_Append (c_lru c) x h; Some (h, d)
      } else Some (?h, d))"
    using e(1) nz by (simp add: LRU_Unref_def upd_def word_neq_0_conv)
  have rings: "ring ?h (c_lru c) (a_lru A)" "ring ?h (c_in_use c) (a_use A)"
    using ring_upd [OF R(1) e(1), of ?e] ring_upd [OF R(2) e(1), of ?e] by simp_all
  consider "a_refs A x > 1" | "a_refs A x = 1" "x \<in> set (a_loose A)" | "a_refs A x = 1" "x \<notin> set (a_loose A)"
    using pos by linarith
  then show ?thesis
  proof cases
    case 1
    have run: "LRU_Unref c x (h, d) = Some (?h, d)"
      unfolding head using 1 zero one e(3,4) by auto
    have "cache_repT (?h, d) c (a_unref x A) T"
    proof (rule cache_repT_change [OF rep xl(1)])
      show "map_option tview (?h y) = map_option tview (h y)" if "y \<in> ran T" for y
        using e(1) by (simp add: ident_def)
      show "handle_ok ?h (a_unref x A) x"
        using e 1 minus by (simp add: a_unref_keep handle_ok_def entry_of_def)
      show "nxt ?h x \<noteq> Some x" if "x \<in> set (a_loose (a_unref x A))"
        using R(8) that 1 e(1) by (auto simp: a_unref_keep keyable_def)
    qed (use R(3,10,12) rings xl 1 in \<open>simp_all add: a_unref_keep live_def a_cached_def\<close>)
    then show ?thesis
      using that run by blast
  next
    case 2
    have un: "x \<notin> set (a_lru A)" "x \<notin> set (a_use A)" "x \<notin> ran T"
      using xl 2 R(3,10) by (auto simp: a_cached_def)
    have "LRUHandle_key ?h x = Some (h_key_data e)"
      using R(8) 2(2) e(1) by (auto simp: keyable_def LRUHandle_key_def)
    then have run: "LRU_Unref c x (h, d) = Some (h(x := None), d @ [deletion_of (entry_of e)])"
      unfolding head using 2 zero e(3) by (simp add: deletion_of_def entry_of_def)
    let ?A = "a_unref x A"
    note A' = a_unref_free [OF 2 e(2)]
    have "cache_repT (h(x := None), d @ [deletion_of (entry_of e)]) c ?A T"
      unfolding cache_repT_def fst_conv snd_conv
    proof (intro conjI ballI)
      have ne: "x \<noteq> c_lru c" "x \<noteq> c_in_use c"
        using R(3) 2(2) by auto
      show "ring (h(x := None)) (c_lru c) (a_lru ?A)"
        unfolding A' by (rule ring_same [of h]) (use R(1) ne un in auto)
      show "ring (h(x := None)) (c_in_use c) (a_use ?A)"
        unfolding A' by (rule ring_same [of h]) (use R(2) ne un in auto)
      show "distinct (0 # c_lru c # c_in_use c # a_lru ?A @ a_use ?A @ a_loose ?A)"
        unfolding A' using R(3) by (auto dest: notin_set_remove1)
      have live': "live ?A = live A - {x}"
        unfolding A' using R(3) un by (auto simp: live_def)
      show "handle_ok (h(x := None)) ?A y" if "y \<in> live ?A" for y
        using R(3) R(4) [of y] that live' unfolding A' by (auto simp: handle_ok_def)
      show "dom (a_entry ?A) = live ?A"
        unfolding live' unfolding A' using R(5) by auto
      show "a_refs ?A y = 0" if "y \<in> set (a_lru ?A)" for y
        using R(6) that unfolding A' by simp
      show "0 < a_refs ?A y" if "y \<in> set (a_use ?A @ a_loose ?A)" for y
        using R(3) R(7) [of y] that un unfolding A' by (auto dest: notin_set_remove1)
      show "keyable (h(x := None)) (set (a_loose ?A))"
        using R(3,8) unfolding A' by (auto simp: keyable_def)
      show "table_rep (h(x := None)) (c_table c) T"
        by (rule table_frame [OF R(9)]) (use un in auto)
      show "dom (h(x := None)) = insert (c_lru c) (insert (c_in_use c) (live ?A))"
        using R(14) ne unfolding live' by auto
    qed (use R(10-) in \<open>simp_all add: A' a_cached_def\<close>)
    then show ?thesis
      using that run by blast
  next
    case 3
    then have "x \<in> set (a_use A)"
      using xl by simp
    then obtain ys zs where ys: "a_use A = ys @ x # zs"
      using split_list by metis
    have "distinct (c_in_use c # c_lru c # (ys @ x # zs) @ a_lru A)"
      using R(3) unfolding ys by auto
    then obtain h1 h2 where h2: "LRU_Remove x ?h = Some h1" "LRU_Append (c_lru c) x h1 = Some h2"
      "ring h2 (c_in_use c) (ys @ zs)" "ring h2 (c_lru c) (a_lru A @ [x])" "but_links ?h h2"
      "\<And>y. y \<notin> set (c_in_use c # c_lru c # (ys @ x # zs) @ a_lru A) \<Longrightarrow> h2 y = ?h y"
      using move_ring [OF rings(2) [unfolded ys] rings(1)] by metis
    have rm: "remove1 x (a_use A) = ys @ zs"
      using R(3) unfolding ys by (intro remove1_middle) auto
    have refs: "unat (h_refs e) = 2"
      using e(4) 3 by simp
    have run: "LRU_Unref c x (h, d) = Some (h2, d)"
      unfolding head using 3 zero one refs e(3) h2(1,2) by simp
    note A' = a_unref_retire [OF 3]
    have "cache_repT (h2, d) c (a_unref x A) T"
    proof (rule cache_repT_change [OF rep xl(1)])
      show "ring h2 (c_lru c) (a_lru (a_unref x A))" "ring h2 (c_in_use c) (a_use (a_unref x A))"
        using h2(3,4) rm by (simp_all add: A')
      show "map_option view (h2 y) = map_option view (h y)" if "y \<noteq> x" for y
        using view_links [OF h2(5), of y] that by simp
      show "map_option tview (h2 y) = map_option tview (h y)" if "y \<in> ran T" for y
        using table_links [OF h2(5), of y] e(1) by (cases "y = x") (auto simp: ident_def)
      show "handle_ok h2 (a_unref x A) x"
        using view_links [OF h2(5), of x] e 3 minus refs unfolding handle_ok_view
        by (auto simp: A' view_def entry_of_def)
      show "h2 y = h y" if "y \<in> set (a_loose A)" "y \<noteq> x" for y
      proof -
        have "h2 y = ?h y"
          by (rule h2(6)) (use R(3) that ys in auto)
        then show ?thesis
          using that by simp
      qed
      show "distinct (0 # c_lru c # c_in_use c # a_lru (a_unref x A) @ a_use (a_unref x A) @ a_loose (a_unref x A))"
        using R(3) 3 xl unfolding A' ys by (auto simp: remove1_append)
      show "live (a_unref x A) = live A" "set (a_lru (a_unref x A)) - {x} = set (a_lru A) - {x}"
        using R(3) xl 3 unfolding A' live_def by auto
      show "ran T \<subseteq> set (a_cached (a_unref x A))"
        using R(3,10) by (auto simp: A' a_cached_def)
    qed (use R(12) 3 in \<open>simp_all add: A'\<close>)
    then show ?thesis
      using that run by blast
  qed
qed

subsection \<open>Erasing\<close>

lemma LRU_detach:
  assumes rep: "cache_repT (h, d) c A T" and x: "x \<in> set (a_cached A)"
  obtains h' where "LRU_Remove x h = Some h'" and "ring h' (c_lru c) (remove1 x (a_lru A))"
    and "ring h' (c_in_use c) (remove1 x (a_use A))" and "but_links h h'" and "h' x = h x" and "nxt h x \<noteq> Some x"
    and "\<And>y. y \<in> set (a_loose A) \<Longrightarrow> h' y = h y"
proof -
  note R = cache_repD [OF rep, unfolded fst_conv snd_conv]
  show ?thesis
  proof (cases "x \<in> set (a_lru A)")
    case True
    then obtain ys zs where ys: "a_lru A = ys @ x # zs"
      using split_list by metis
    obtain h' where h': "LRU_Remove x h = Some h'" "ring h' (c_lru c) (ys @ zs)" "but_links h h'" "h' x = h x"
      "nxt h x \<noteq> Some x" "\<And>y. y \<notin> set (c_lru c # ys @ zs) \<Longrightarrow> h' y = h y"
      by (rule LRU_Remove_ring [OF R(1) [unfolded ys]]) blast
    show ?thesis
    proof (rule that [OF h'(1)])
      show "ring h' (c_lru c) (remove1 x (a_lru A))"
        using h'(2) R(3) unfolding ys by (subst remove1_middle) auto
      show "ring h' (c_in_use c) (remove1 x (a_use A))"
        using R(3) True by (subst remove1_idem, force) (rule ring_same [OF R(2)], rule h'(6), auto simp: ys)
      show "h' y = h y" if "y \<in> set (a_loose A)" for y
        by (rule h'(6)) (use R(3) that ys in auto)
    qed (use h' in auto)
  next
    case False
    then have "x \<in> set (a_use A)"
      using x by (simp add: a_cached_def)
    then obtain ys zs where ys: "a_use A = ys @ x # zs"
      using split_list by metis
    obtain h' where h': "LRU_Remove x h = Some h'" "ring h' (c_in_use c) (ys @ zs)" "but_links h h'" "h' x = h x"
      "nxt h x \<noteq> Some x" "\<And>y. y \<notin> set (c_in_use c # ys @ zs) \<Longrightarrow> h' y = h y"
      by (rule LRU_Remove_ring [OF R(2) [unfolded ys]]) blast
    show ?thesis
    proof (rule that [OF h'(1)])
      show "ring h' (c_in_use c) (remove1 x (a_use A))"
        using h'(2) R(3) unfolding ys by (subst remove1_middle) auto
      show "ring h' (c_lru c) (remove1 x (a_lru A))"
        using R(3) False by (subst remove1_idem, force) (rule ring_same [OF R(1)], rule h'(6), auto simp: ys)
      show "h' y = h y" if "y \<in> set (a_loose A)" for y
        by (rule h'(6)) (use R(3) that ys in auto)
    qed (use h' in auto)
  qed
qed

lemma FinishErase_rep:
  assumes rep: "cache_repT (h, d) c A T" and x: "x \<in> set (a_cached A)" "x \<notin> ran T"
  obtains m' c' where "FinishErase x (h, d) c = Some (True, m', c')" and "cache_repT m' c' (a_drop x A) T"
    and "c_lru c' = c_lru c" and "c_in_use c' = c_in_use c"
proof -
  note R = cache_repD [OF rep, unfolded fst_conv snd_conv]
  have xl: "x \<in> live A" "x \<notin> set (a_loose A)" "x \<noteq> 0"
    using x(1) R(3) by (auto simp: live_def a_cached_def)
  obtain e where e: "h x = Some e" "a_entry A x = Some (entry_of e)" "h_in_cache e"
    "unat (h_refs e) = a_refs A x + 1"
    using R(4) [OF xl(1)] xl(2) by (auto simp: handle_ok_def)
  obtain h1 where h1: "LRU_Remove x h = Some h1" "ring h1 (c_lru c) (remove1 x (a_lru A))"
    "ring h1 (c_in_use c) (remove1 x (a_use A))" "but_links h h1" "h1 x = h x" "nxt h x \<noteq> Some x"
    "\<And>y. y \<in> set (a_loose A) \<Longrightarrow> h1 y = h y"
    by (rule LRU_detach [OF rep x(1)]) blast
  let ?e = "e \<lparr> h_in_cache := False \<rparr>"
  let ?h = "h1(x \<mapsto> ?e)"
  let ?c = "c \<lparr> c_usage := c_usage c - h_charge e \<rparr>"
  have h1x: "h1 x = Some e"
    using h1(5) e(1) by simp
  have rep': "cache_repT (?h, d) ?c (a_detach x A) T"
  proof (rule cache_repT_change [OF rep xl(1)])
    show "ring ?h (c_lru c) (a_lru (a_detach x A))"
      using ring_upd [OF h1(2) h1x, of ?e] by simp
    show "ring ?h (c_in_use c) (a_use (a_detach x A))"
      using ring_upd [OF h1(3) h1x, of ?e] by simp
    show "map_option view (?h y) = map_option view (h y)" if "y \<noteq> x" for y
      using view_links [OF h1(4), of y] that by simp
    show "map_option tview (?h y) = map_option tview (h y)" if "y \<in> ran T" for y
      using table_links [OF h1(4), of y] that x(2) by auto
    show "handle_ok ?h (a_detach x A) x"
      using e by (simp add: handle_ok_def entry_of_def)
    show "?h y = h y" if "y \<in> set (a_loose A)" "y \<noteq> x" for y
      using h1(7) that by simp
    show "distinct (0 # c_lru c # c_in_use c # a_lru (a_detach x A) @ a_use (a_detach x A) @ a_loose (a_detach x A))"
      using R(3) xl x(1) by (auto simp: a_cached_def)
    show "live (a_detach x A) = live A" "set (a_lru (a_detach x A)) - {x} = set (a_lru A) - {x}"
      using R(3) xl(1) by (auto simp: live_def)
    show "ran T \<subseteq> set (a_cached (a_detach x A))"
      using R(3,10) x(2) by (auto simp: a_cached_def)
    show "x \<in> set (a_lru (a_detach x A)) \<longleftrightarrow> a_refs (a_detach x A) x = 0"
      using R(3) by auto
    show "nxt ?h x \<noteq> Some x"
      using h1(6) e(1) by simp
  qed (use R(12) e in \<open>simp_all add: entry_of_def\<close>)
  obtain m' where m': "LRU_Unref ?c x (?h, d) = Some m'" "cache_repT m' ?c (a_unref x (a_detach x A)) T"
    by (rule LRU_Unref_rep [OF rep', of x]) (simp, blast)
  have "FinishErase x (h, d) c = Some (True, m', ?c)"
    using e(1,3) h1(1) h1x m'(1) xl(3) by (simp add: FinishErase_def upd_def)
  then show ?thesis
    using that m'(2) by (simp add: a_drop_def)
qed

lemma cache_repT_table:
  assumes rep: "cache_repT (h, d) c A T" and h': "but_chains h h'" "table_rep h' t' T'" and ran: "ran T' \<subseteq> set (a_cached A)"
  shows "cache_repT (h', d) (c \<lparr> c_table := t' \<rparr>) A T'"
proof -
  note R = cache_repD [OF rep, unfolded fst_conv snd_conv]
  have np: "nxt h' y = nxt h y" "prv h' y = prv h y" for y
    by (rule but_chains_same [OF h'(1)], simp)+
  have "h' y = None \<longleftrightarrow> h y = None" for y
    using np(1) [of y] by (cases "h y") auto
  then have d: "dom h' = dom h"
    unfolding dom_def by simp
  have "ring h' (c_lru c) (a_lru A)" "ring h' (c_in_use c) (a_use A)"
    using ring_frame [OF R(1)] ring_frame [OF R(2)] np by blast+
  moreover have "handle_ok h' A y" if "y \<in> live A" for y
    using R(4) [OF that] by (simp add: handle_ok_view view_chains [OF h'(1)])
  moreover have "keyable h' (set (a_loose A))"
    by (rule but_chains_keyable [OF h'(1) R(8)])
  ultimately show ?thesis
    using R(3,5-7,10-14) h'(2) ran d unfolding cache_repT_def by simp
qed

lemma cached_keyable: "cache_repT (h, d) c A T \<Longrightarrow> keyable h (set (a_cached A))"
proof -
  assume rep: "cache_repT (h, d) c A T"
  note R = cache_repD [OF rep, unfolded fst_conv snd_conv]
  show ?thesis
    unfolding keyable_def
  proof
    fix x
    assume x: "x \<in> set (a_cached A)"
    then obtain e where "h x = Some e"
      using R(4) [of x] by (auto simp: handle_ok_def live_def a_cached_def)
    then show "\<exists>e. h x = Some e \<and> h_next e \<noteq> x"
      using ring_next_other [OF R(1), of x] ring_next_other [OF R(2), of x] x by (auto simp: a_cached_def)
  qed
qed

text \<open>The table of a cache and the abstract search agree.\<close>

lemma find_unique:
  assumes "\<And>x y. x \<in> set xs \<Longrightarrow> y \<in> set xs \<Longrightarrow> P x \<Longrightarrow> P y \<Longrightarrow> x = y"
  shows "List.find P xs = Some x \<longleftrightarrow> x \<in> set xs \<and> P x"
  using assms by (induction xs) auto

lemma table_okD: "table_ok A T \<Longrightarrow> T k = Some x \<longleftrightarrow> x \<in> set (a_cached A) \<and> key_at A x = Some k"
  unfolding table_ok_def by blast

lemma table_ok_find:
  assumes "table_ok A T"
  shows "T k = a_find A k"
proof -
  have "a_find A k = Some x \<longleftrightarrow> T k = Some x" for x
    unfolding a_find_def table_okD [OF assms]
    by (rule find_unique) (metis table_okD [OF assms] option.inject)
  then show ?thesis
    by (metis not_None_eq)
qed

lemma table_ok_key: "table_ok A T \<Longrightarrow> T k = Some x \<Longrightarrow> T k' = Some x \<Longrightarrow> k' = k"
  by (simp add: table_okD)

lemma table_ok_ran:
  assumes "table_ok A T" and "set (a_cached A) \<subseteq> dom (a_entry A)"
  shows "ran T = set (a_cached A)"
proof -
  have "\<exists>k. T k = Some x" if "x \<in> set (a_cached A)" for x
    using that assms(2) by (auto simp: table_okD [OF assms(1)] key_at_def)
  then show ?thesis
    using table_okD [OF assms(1)] by (auto simp: ran_def)
qed

lemma sum_list_remove1:
  "x \<in> set xs \<Longrightarrow> (\<Sum>y \<leftarrow> remove1 x xs. f y) = (\<Sum>y \<leftarrow> xs. f y) - f x" for f :: "nat \<Rightarrow> u64"
  by (induction xs) (auto simp: algebra_simps)

lemma a_cached_drop: "x \<in> set (a_cached A) \<Longrightarrow> distinct (a_cached A) \<Longrightarrow> a_cached (a_drop x A) = remove1 x (a_cached A)"
  by (cases "x \<in> set (a_lru A)") (auto simp: a_cached_def remove1_append intro!: remove1_idem)

lemma usage_drop:
  assumes usage: "usage_ok A" and x: "x \<in> set (a_cached A)" and d: "distinct (a_cached A)" and e: "a_entry A x = Some e"
  shows "usage_ok (a_drop x A)"
proof -
  note cached = a_cached_drop [OF x d]
  have "(\<Sum>y \<leftarrow> remove1 x (a_cached A). charge_at (a_drop x A) y) = (\<Sum>y \<leftarrow> remove1 x (a_cached A). charge_at A y)"
    by (rule arg_cong [of _ _ sum_list], rule map_cong) (use d in \<open>auto simp: charge_at_def\<close>)
  moreover have "charge_at A x = e_charge e"
    using e by (simp add: charge_at_def)
  ultimately show ?thesis
    using x usage e unfolding usage_ok_def cached by (simp add: sum_list_remove1)
qed

lemma usage_add:
  assumes usage: "usage_ok A" and p: "p \<notin> set (a_cached A)"
  shows "usage_ok (a_add p e A)"
proof -
  have "(\<Sum>y \<leftarrow> a_cached A. charge_at (a_add p e A) y) = (\<Sum>y \<leftarrow> a_cached A. charge_at A y)"
    by (rule arg_cong [of _ _ sum_list], rule map_cong) (use p in \<open>auto simp: charge_at_def a_add_def\<close>)
  moreover have "a_cached (a_add p e A) = a_cached A @ [p]" "charge_at (a_add p e A) p = e_charge e"
    by (simp_all add: a_cached_def a_add_def charge_at_def)
  ultimately show ?thesis
    using usage by (simp add: usage_ok_def) (simp add: a_add_def)
qed

lemma drop_rep:
  assumes rep: "cache_repT m c (a_drop x A) T'" and ok: "table_ok A T" and T': "T' = T(k := None)" "T k = Some x"
    and d: "distinct (a_cached A)" and usage: "usage_ok A"
  shows "cache_rep m c (a_drop x A)"
proof -
  have x: "x \<in> set (a_cached A)" "key_at A x = Some k"
    using ok T'(2) unfolding table_ok_def by blast+
  note cached = a_cached_drop [OF x(1) d]
  have "table_ok (a_drop x A) T'"
    unfolding table_ok_def
  proof (intro allI)
    fix k' y
    show "T' k' = Some y \<longleftrightarrow> y \<in> set (a_cached (a_drop x A)) \<and>
        key_at (a_drop x A) y = Some k'"
    proof (cases "y = x")
      case True
      have "T k' = Some x \<longrightarrow> k' = k"
        using table_ok_key [OF ok T'(2)] by blast
      then show ?thesis
        using True cached d T' by auto
    next
      case False
      have "T k \<noteq> Some y"
        using T'(2) False by simp
      moreover have "key_at (a_drop x A) y = key_at A y"
        using False by (simp add: key_at_def)
      ultimately show ?thesis
        using table_okD [OF ok, of k' y] table_okD [OF ok, of k y] False cached T'(1) by auto
    qed
  qed
  moreover obtain e where "a_entry A x = Some e"
    using x(2) by (auto simp: key_at_def)
  ultimately show ?thesis
    using rep usage_drop [OF usage x(1) d] unfolding cache_rep_def by blast
qed

lemma RemoveAndFinish_rep:
  assumes "cache_rep (h, d) c A"
  obtains m' c' where "RemoveAndFinish key hash (h, d) c = Some (a_find A (hash, key) \<noteq> None, m', c')"
    and "cache_rep m' c' (case a_find A (hash, key) of None \<Rightarrow> A | Some x \<Rightarrow> a_drop x A)"
    and "c_lru c' = c_lru c" and "c_in_use c' = c_in_use c"
proof -
  obtain T where rep: "cache_repT (h, d) c A T" and ok: "table_ok A T"
    and usage: "usage_ok A"
    using assms unfolding cache_rep_def by blast
  note R = cache_repD [OF rep, unfolded fst_conv snd_conv]
  have key: "keyable h (ran T)"
    using cached_keyable [OF rep] R(10) unfolding keyable_def by blast
  obtain h' t' where rm: "HandleTable_Remove key hash h (c_table c) = Some (ptr_of (T (hash, key)), h', t')"
    "table_rep h' t' (T((hash, key) := None))" "but_chains h h'"
    by (rule HandleTable_Remove_map [OF R(9) key]) blast
  note find = table_ok_find [OF ok]
  have d: "distinct (a_cached A)" "0 \<notin> set (a_cached A)"
    using R(3) by (auto simp: a_cached_def)
  have ran: "ran (T((hash, key) := None)) \<subseteq> set (a_cached A)"
    using R(10) by (auto simp: ran_def split: if_splits)
  note rep1 = cache_repT_table [OF rep rm(3,2) ran]
  show ?thesis
  proof (cases "T (hash, key)")
    case None
    then have "T((hash, key) := None) = T"
      by auto
    then have "cache_rep (h', d) (c \<lparr> c_table := t' \<rparr>) A"
      using rep1 ok usage unfolding cache_rep_def by auto
    then show ?thesis
      using that rm(1) None find by (simp add: RemoveAndFinish_def FinishErase_def)
  next
    case (Some x)
    then have x: "x \<in> set (a_cached A)" "key_at A x = Some (hash, key)"
      using ok unfolding table_ok_def by blast+
    have "T k' \<noteq> Some x" if "k' \<noteq> (hash, key)" for k'
      using table_ok_key [OF ok Some] that by blast
    then have "x \<notin> ran (T((hash, key) := None))"
      by (auto simp: ran_def)
    then obtain m' c' where fe: "FinishErase x (h', d) (c \<lparr> c_table := t' \<rparr>) = Some (True, m', c')"
      "cache_repT m' c' (a_drop x A) (T((hash, key) := None))"
      "c_lru c' = c_lru c" "c_in_use c' = c_in_use c"
      using FinishErase_rep [OF rep1 x(1)] by auto
    have "cache_rep m' c' (a_drop x A)"
      by (rule drop_rep [OF fe(2) ok refl Some d(1) usage])
    then show ?thesis
      using that [of m' c'] rm(1) Some find fe by (simp add: RemoveAndFinish_def)
  qed
qed

subsection \<open>Evicting\<close>

lemma evict_oldest_rep:
  assumes rep: "cache_rep (h, d) c A" and lru: "a_lru A = x # xs"
  obtains m' c' where "evict_oldest (h, d) c = Some (m', c')" and "cache_rep m' c' (a_drop x A)"
    and "c_lru c' = c_lru c" and "c_in_use c' = c_in_use c"
proof -
  obtain T where repT: "cache_repT (h, d) c A T" and ok: "table_ok A T"
    using rep unfolding cache_rep_def by blast
  note R = cache_repD [OF repT, unfolded fst_conv snd_conv]
  have x: "x \<in> set (a_cached A)" "x \<in> live A" "x \<notin> set (a_loose A)"
    using lru R(3) by (auto simp: a_cached_def live_def)
  obtain e where e: "h x = Some e" "a_entry A x = Some (entry_of e)" "unat (h_refs e) = 1"
    using R(4) [OF x(2)] R(6) [of x] x(3) lru by (auto simp: handle_ok_def)
  have refs: "h_refs e = 1"
    using e(3) by (metis unat_1 word_unat_eq_iff)
  obtain l where l: "h (c_lru c) = Some l" "h_next l = x"
    using ring_first [OF R(1)] lru by auto
  have key: "LRUHandle_key h x = Some (h_key_data e)"
    by (rule keyable_key [OF cached_keyable [OF repT] x(1) e(1)])
  have "T (h_hash e, h_key_data e) = Some x"
    unfolding table_okD [OF ok] using x(1) e(2) by (simp add: key_at_def entry_of_def)
  then have find: "a_find A (h_hash e, h_key_data e) = Some x"
    using table_ok_find [OF ok] by simp
  obtain m' c' where rm: "RemoveAndFinish (h_key_data e) (h_hash e) (h, d) c = Some (True, m', c')"
    "cache_rep m' c' (a_drop x A)" "c_lru c' = c_lru c" "c_in_use c' = c_in_use c"
    by (rule RemoveAndFinish_rep [OF rep, of "h_key_data e" "h_hash e"]) (use find in auto)
  have "evict_oldest (h, d) c = Some (m', c')"
    using l e(1) refs key rm(1) by (simp add: evict_oldest_def)
  then show ?thesis
    using that rm by blast
qed

lemma lru_first:
  assumes "cache_rep m c A"
  obtains l where "fst m (c_lru c) = Some l" and "h_next l = c_lru c \<longleftrightarrow> a_lru A = []"
    and "c_usage c = a_usage A" and "c_capacity c = a_capacity A"
proof -
  obtain T where "cache_repT m c A T"
    using assms unfolding cache_rep_def by blast
  note R = cache_repD [OF this]
  obtain l where l: "fst m (c_lru c) = Some l" "h_next l = (if a_lru A = [] then c_lru c else hd (a_lru A))"
    using ring_first [OF R(1)] by auto
  have "hd (a_lru A) \<noteq> c_lru c" if "a_lru A \<noteq> []"
    using R(3) that by (cases "a_lru A") auto
  then show ?thesis
    using that l R(11,12) by auto
qed

lemma evict_loop_rep:
  assumes "cache_rep m c A"
  shows "\<exists>m' c'. evict_loop m c = Some (m', c') \<and> cache_rep m' c' (a_evict A) \<and> c_lru c' = c_lru c \<and> c_in_use c' = c_in_use c"
  using assms
proof (induction A arbitrary: m c rule: a_evict.induct)
  case (1 A)
  obtain l where l: "fst m (c_lru c) = Some l" "h_next l = c_lru c \<longleftrightarrow> a_lru A = []"
    "c_usage c = a_usage A" "c_capacity c = a_capacity A"
    by (rule lru_first [OF 1(2)])
  show ?case
  proof (cases "a_usage A > a_capacity A \<and> a_lru A \<noteq> []")
    case True
    then have "a_lru A = hd (a_lru A) # tl (a_lru A)"
      by simp
    then obtain m1 c1 where e: "evict_oldest m c = Some (m1, c1)" "cache_rep m1 c1 (a_drop (hd (a_lru A)) A)"
      "c_lru c1 = c_lru c" "c_in_use c1 = c_in_use c"
      using evict_oldest_rep [of "fst m" "snd m" c A] 1(2) by (metis prod.collapse)
    obtain m' c' where r: "evict_loop m1 c1 = Some (m', c')" "cache_rep m' c' (a_evict (a_drop (hd (a_lru A)) A))"
      "c_lru c' = c_lru c1" "c_in_use c' = c_in_use c1"
      using 1(1) [OF True e(2)] by blast
    have "evict_loop m c = Some (m', c')"
      using l True e(1) r(1) by (subst evict_loop.simps) simp
    then show ?thesis
      using r e True by (simp add: a_evict.simps [of A])
  next
    case False
    then have "evict_loop m c = Some (m, c)"
      using l by (subst evict_loop.simps) auto
    then show ?thesis
      using 1(2) False by (subst a_evict.simps) auto
  qed
qed

lemma Prune_rep:
  assumes "cache_rep m c A"
  shows "\<exists>m' c'. LRUCache_Prune m c = Some (m', c') \<and> cache_rep m' c' (a_prune A) \<and> c_lru c' = c_lru c \<and> c_in_use c' = c_in_use c"
  using assms
proof (induction A arbitrary: m c rule: a_prune.induct)
  case (1 A)
  obtain l where l: "fst m (c_lru c) = Some l" "h_next l = c_lru c \<longleftrightarrow> a_lru A = []"
    by (rule lru_first [OF 1(2)])
  show ?case
  proof (cases "a_lru A \<noteq> []")
    case True
    then have "a_lru A = hd (a_lru A) # tl (a_lru A)"
      by simp
    then obtain m1 c1 where e: "evict_oldest m c = Some (m1, c1)" "cache_rep m1 c1 (a_drop (hd (a_lru A)) A)"
      "c_lru c1 = c_lru c" "c_in_use c1 = c_in_use c"
      using evict_oldest_rep [of "fst m" "snd m" c A] 1(2) by (metis prod.collapse)
    obtain m' c' where r: "LRUCache_Prune m1 c1 = Some (m', c')" "cache_rep m' c' (a_prune (a_drop (hd (a_lru A)) A))"
      "c_lru c' = c_lru c1" "c_in_use c' = c_in_use c1"
      using 1(1) [OF True e(2)] by blast
    have "LRUCache_Prune m c = Some (m', c')"
      using l True e(1) r(1) by (subst LRUCache_Prune.simps) simp
    then show ?thesis
      using r e True by (simp add: a_prune.simps [of A])
  next
    case False
    then have "LRUCache_Prune m c = Some (m, c)"
      using l by (subst LRUCache_Prune.simps) auto
    then show ?thesis
      using 1(2) False by (subst a_prune.simps) auto
  qed
qed

subsection \<open>Inserting\<close>

definition a_insert :: "nat \<Rightarrow> Entry \<Rightarrow> ACache \<Rightarrow> ACache" where
  "a_insert p e A = a_evict
     (if a_capacity A > 0
      then (case a_find A (e_hash e, e_key e) of None \<Rightarrow> a_add p e A | Some x \<Rightarrow> a_drop x (a_add p e A))
      else a_keep p e A)"

text \<open>\<^verbatim>\<open>malloc\<close> returns an address that is not in use.\<close>

definition fresh :: "nat \<Rightarrow> LRUCache \<Rightarrow> ACache \<Rightarrow> bool" where
  "fresh p c A \<longleftrightarrow> p \<noteq> 0 \<and> p \<noteq> c_lru c \<and> p \<noteq> c_in_use c \<and> p \<notin> live A"

lemma add_rep:
  assumes rep: "cache_repT (h, d) c A T" and p: "fresh p c A"
    and e: "e0 p = Some e" "\<And>y. y \<noteq> p \<Longrightarrow> e0 y = h y" "h_refs e = 2" "h_in_cache e"
  obtains h' where "LRU_Append (c_in_use c) p e0 = Some h'"
    and "cache_repT (h', d) (c \<lparr> c_usage := c_usage c + h_charge e \<rparr>) (a_add p (entry_of e) A) T"
    and "h' p \<noteq> None" and "map_option view (h' p) = Some (view e)"
proof -
  note R = cache_repD [OF rep, unfolded fst_conv snd_conv]
  have ne: "p \<noteq> 0" "p \<noteq> c_lru c" "p \<noteq> c_in_use c" "p \<notin> set (a_lru A)" "p \<notin> set (a_use A)" "p \<notin> set (a_loose A)"
    using p by (auto simp: fresh_def live_def)
  have rings: "ring e0 (c_lru c) (a_lru A)" "ring e0 (c_in_use c) (a_use A)"
    by (rule ring_same [OF R(1)], rule e(2)) (use ne in auto, rule ring_same [OF R(2)], rule e(2), use ne in auto)
  have "p \<notin> set (c_in_use c # a_use A)"
    using ne by simp
  from LRU_Append_ring [OF rings(2) this e(1)] obtain h' where h': "LRU_Append (c_in_use c) p e0 = Some h'"
    "ring h' (c_in_use c) (a_use A @ [p])" "but_links e0 h'" "\<And>y. y \<notin> set (p # c_in_use c # a_use A) \<Longrightarrow> h' y = e0 y"
    by blast
  let ?A = "a_add p (entry_of e) A"
  have A: "a_lru ?A = a_lru A" "a_use ?A = a_use A @ [p]" "a_loose ?A = a_loose A"
    "a_entry ?A = (a_entry A)(p \<mapsto> entry_of e)" "a_refs ?A = (a_refs A)(p := 1)" "live ?A = insert p (live A)"
    by (auto simp: a_add_def live_def)
  have same: "h' y = h y" if "y \<in> set (a_loose A)" for y
  proof -
    have "h' y = e0 y"
      by (rule h'(4)) (use R(3) that ne in auto)
    then show ?thesis
      using e(2) that ne by metis
  qed
  have view: "map_option view (h' y) = map_option view (h y)" if "y \<noteq> p" for y
    using view_links [OF h'(3), of y] e(2) [OF that] by simp
  have viewp: "map_option view (h' p) = Some (view e)"
    using view_links [OF h'(3), of p] e(1) by simp
  have rl: "ring h' (c_lru c) (a_lru A)"
    by (rule ring_same [OF rings(1)], rule h'(4)) (use R(3) ne in auto)
  have tr: "table_rep h' (c_table c) T"
  proof (rule table_frame [OF R(9)])
    fix y
    assume "y \<in> ran T"
    then have "y \<noteq> p"
      using R(10) ne by (auto simp: a_cached_def)
    then show "map_option tview (h' y) = map_option tview (h y)"
      using table_links [OF h'(3), of y] e(2) by simp
  qed
  have "cache_repT (h', d) (c \<lparr> c_usage := c_usage c + h_charge e \<rparr>) ?A T"
    unfolding cache_repT_def fst_conv snd_conv
  proof (intro conjI ballI)
    show "ring h' (c_lru (c \<lparr> c_usage := c_usage c + h_charge e \<rparr>)) (a_lru ?A)"
      using rl by (simp add: A)
    show "ring h' (c_in_use (c \<lparr> c_usage := c_usage c + h_charge e \<rparr>)) (a_use ?A)"
      using h'(2) by (simp add: A)
    show "handle_ok h' ?A y" if "y \<in> live ?A" for y
    proof (cases "y = p")
      case True
      then show ?thesis
        using viewp e ne by (auto simp: handle_ok_view A view_def)
    next
      case False
      then show ?thesis
        using R(4) [of y] that view [OF False] by (simp add: handle_ok_view A)
    qed
    show "dom (a_entry ?A) = live ?A"
      using R(5) by (simp add: A)
    show "a_refs ?A y = 0" if "y \<in> set (a_lru ?A)" for y
      using R(6) that ne by (auto simp: A)
    show "0 < a_refs ?A y" if "y \<in> set (a_use ?A @ a_loose ?A)" for y
      using R(7) [of y] that by (auto simp: A)
    show "keyable h' (set (a_loose ?A))"
      using R(8) same by (simp add: keyable_def A)
    show "table_rep h' (c_table (c \<lparr> c_usage := c_usage c + h_charge e \<rparr>)) T"
      using tr by simp
    show "distinct (0 # c_lru (c \<lparr> c_usage := c_usage c + h_charge e \<rparr>) # c_in_use (c \<lparr> c_usage := c_usage c + h_charge e \<rparr>) #
        a_lru ?A @ a_use ?A @ a_loose ?A)"
      using R(3) ne by (auto simp: A)
    show "ran T \<subseteq> set (a_cached ?A)"
      using R(10) by (auto simp: A a_cached_def)
    have "h' y = None \<longleftrightarrow> y \<noteq> p \<and> h y = None" for y
      using view [of y] viewp by (cases "y = p") auto
    then have "dom h' = insert p (dom h)"
      unfolding dom_def by (auto simp del: not_None_eq)
    then show "dom h' = insert (c_lru (c \<lparr> c_usage := c_usage c + h_charge e \<rparr>))
        (insert (c_in_use (c \<lparr> c_usage := c_usage c + h_charge e \<rparr>)) (live ?A))"
      using R(14) by (simp add: A insert_commute)
  qed (use R(11-13) in \<open>simp_all add: a_add_def entry_of_def\<close>)
  then show ?thesis
    using that h'(1) viewp by auto
qed

lemma insert_cached:
  assumes rep: "cache_rep (h, d) c A" and p: "fresh p c A" and size: "length (a_cached A) < 2 ^ 31"
    and e: "e0 p = Some e" "\<And>y. y \<noteq> p \<Longrightarrow> e0 y = h y" "h_refs e = 2" "h_in_cache e"
  obtains h1 old h2 t2 b m' c' where "LRU_Append (c_in_use c) p e0 = Some h1"
    and "HandleTable_Insert p h1 (c_table c) = Some (old, h2, t2)"
    and "FinishErase old (h2, d) (c \<lparr> c_usage := c_usage c + h_charge e, c_table := t2 \<rparr>) = Some (b, m', c')"
    and "cache_rep m' c' (case a_find A (ident e) of None \<Rightarrow> a_add p (entry_of e) A
                           | Some x \<Rightarrow> a_drop x (a_add p (entry_of e) A))"
    and "c_lru c' = c_lru c" and "c_in_use c' = c_in_use c"
proof -
  obtain T where repT: "cache_repT (h, d) c A T" and ok: "table_ok A T" and usage: "usage_ok A"
    using rep unfolding cache_rep_def by blast
  note R = cache_repD [OF repT, unfolded fst_conv snd_conv]
  let ?A = "a_add p (entry_of e) A"
  let ?c = "c \<lparr> c_usage := c_usage c + h_charge e \<rparr>"
  obtain h1 where h1: "LRU_Append (c_in_use c) p e0 = Some h1" "cache_repT (h1, d) ?c ?A T" "map_option view (h1 p) = Some (view e)"
    by (rule add_rep [OF repT p e]) blast
  obtain f where f: "h1 p = Some f" "view f = view e"
    using h1(3) by auto
  then have idf: "ident f = ident e"
    by (simp add: view_def entry_of_def ident_def)
  have cached: "a_cached ?A = a_cached A @ [p]" and fresh_p: "p \<notin> set (a_cached A)" "p \<noteq> 0"
    using p by (auto simp: a_cached_def a_add_def fresh_def live_def)
  have key: "keyable h1 (set (a_cached A @ [p]))"
    using cached_keyable [OF h1(2)] by (simp only: cached)
  have keyT: "keyable h1 (ran T)" and nf: "h_next f \<noteq> p" and pT: "p \<notin> ran T"
    using key R(10) fresh_p f(1) by (auto simp: keyable_def)
  have "distinct (a_cached A)"
    using R(3) by (auto simp: a_cached_def)
  have "card (ran T) \<le> length (a_cached A)"
    using R(10) card_mono [OF _ R(10)] card_length [of "a_cached A"] by simp
  then have "card (ran T) < 2 ^ 31"
    using size by simp
  then obtain h2 t2 where h2: "HandleTable_Insert p h1 (c_table c) = Some (ptr_of (T (ident f)), h2, t2)"
    "table_rep h2 t2 (T(ident f \<mapsto> p))" "but_chains h1 h2"
    using HandleTable_Insert_map [OF cache_repD(9) [OF h1(2), unfolded fst_conv, simplified] keyT fresh_p(2) f(1) nf pT] by metis
  let ?T = "T(ident e \<mapsto> p)"
  have ranT: "ran ?T \<subseteq> set (a_cached ?A)"
    using R(10) cached by (auto simp: ran_def split: if_splits)
  have rep2: "cache_repT (h2, d) (?c \<lparr> c_table := t2 \<rparr>) ?A ?T"
    using cache_repT_table [OF h1(2) h2(3), of t2 ?T] h2(2) ranT idf by simp
  have keys: "key_at ?A y = (if y = p then Some (ident e) else key_at A y)" for y
    by (simp add: key_at_def a_add_def entry_of_def ident_def)
  show ?thesis
  proof (cases "T (ident e)")
    case None
    have "table_ok ?A ?T"
      unfolding table_ok_def
    proof (intro allI)
      fix k y
      show "?T k = Some y \<longleftrightarrow> y \<in> set (a_cached ?A) \<and> key_at ?A y = Some k"
        using table_okD [OF ok, of k y] None fresh_p(1) pT unfolding cached keys
        by (cases "y = p"; cases "k = ident e") (auto dest: ranI)
    qed
    then have "cache_rep (h2, d) (?c \<lparr> c_table := t2 \<rparr>) ?A"
      using rep2 usage_add [OF usage fresh_p(1)] unfolding cache_rep_def by blast
    then show ?thesis
      using that [OF h1(1), of 0 h2 t2 False] h2(1) None idf table_ok_find [OF ok, of "ident e"] by (simp add: FinishErase_def)
  next
    case (Some x)
    then have x: "x \<in> set (a_cached A)" "key_at A x = Some (ident e)" "x \<noteq> p"
      using table_okD [OF ok] fresh_p by auto
    have xT: "x \<notin> ran ?T"
      using table_ok_key [OF ok Some] x(3) by (auto simp: ran_def)
    have xA: "x \<in> set (a_cached ?A)"
      using x(1) cached by simp
    obtain m' c' where fe: "FinishErase x (h2, d) (?c \<lparr> c_table := t2 \<rparr>) = Some (True, m', c')"
      "cache_repT m' c' (a_drop x ?A) ?T" "c_lru c' = c_lru c" "c_in_use c' = c_in_use c"
      using FinishErase_rep [OF rep2 xA xT] by auto
    have dA: "distinct (a_cached ?A)"
      using \<open>distinct (a_cached A)\<close> fresh_p(1) cached by simp
    note cached' = a_cached_drop [OF xA dA]
    have "table_ok (a_drop x ?A) ?T"
      unfolding table_ok_def
    proof (intro allI)
      fix k y
      have "key_at (a_drop x ?A) y = key_at ?A y" if "y \<noteq> x"
        using that by (simp add: key_at_def)
      then show "?T k = Some y \<longleftrightarrow> y \<in> set (a_cached (a_drop x ?A)) \<and> key_at (a_drop x ?A) y = Some k"
        using table_okD [OF ok, of k y] table_okD [OF ok, of "ident e" y] Some x xT dA pT unfolding cached' cached
        by (cases "y = x"; cases "y = p"; cases "k = ident e") (auto simp: keys remove1_append dest: ranI)
    qed
    moreover obtain ex where "a_entry ?A x = Some ex"
      using x by (auto simp: key_at_def a_add_def)
    ultimately have "cache_rep m' c' (a_drop x ?A)"
      using fe(2) usage_drop [OF usage_add [OF usage fresh_p(1)] xA dA] unfolding cache_rep_def by blast
    then show ?thesis
      using that [OF h1(1), of x h2 t2] h2(1) Some idf table_ok_find [OF ok, of "ident e"] fe by simp
  qed
qed

lemma keep_rep:
  assumes rep: "cache_rep (h, d) c A" and p: "fresh p c A" and e: "h_refs e = 1" "\<not> h_in_cache e" "h_next e \<noteq> p"
  shows "cache_rep (h(p \<mapsto> e), d) c (a_keep p (entry_of e) A)"
proof -
  obtain T where repT: "cache_repT (h, d) c A T" and ok: "table_ok A T" and usage: "usage_ok A"
    using rep unfolding cache_rep_def by blast
  note R = cache_repD [OF repT, unfolded fst_conv snd_conv]
  let ?A = "a_keep p (entry_of e) A"
  let ?h = "h(p \<mapsto> e)"
  have ne: "p \<noteq> 0" "p \<noteq> c_lru c" "p \<noteq> c_in_use c" "p \<notin> set (a_lru A)" "p \<notin> set (a_use A)" "p \<notin> set (a_loose A)"
    using p by (auto simp: fresh_def live_def)
  have A: "a_lru ?A = a_lru A" "a_use ?A = a_use A" "a_loose ?A = a_loose A @ [p]" "a_cached ?A = a_cached A"
    "a_entry ?A = (a_entry A)(p \<mapsto> entry_of e)" "a_refs ?A = (a_refs A)(p := 1)" "live ?A = insert p (live A)"
    by (auto simp: a_keep_def live_def a_cached_def)
  have pc: "p \<notin> set (a_cached A)"
    using ne by (simp add: a_cached_def)
  have "cache_repT (?h, d) c ?A T"
    unfolding cache_repT_def fst_conv snd_conv
  proof (intro conjI ballI)
    show "ring ?h (c_lru c) (a_lru ?A)"
      unfolding A by (rule ring_same [OF R(1)]) (use ne in auto)
    show "ring ?h (c_in_use c) (a_use ?A)"
      unfolding A by (rule ring_same [OF R(2)]) (use ne in auto)
    show "distinct (0 # c_lru c # c_in_use c # a_lru ?A @ a_use ?A @ a_loose ?A)"
      using R(3) ne by (auto simp: A)
    show "handle_ok ?h ?A y" if "y \<in> live ?A" for y
      using R(4) [of y] that e by (cases "y = p") (auto simp: A handle_ok_def)
    show "dom (a_entry ?A) = live ?A"
      using R(5) by (simp add: A)
    show "a_refs ?A y = 0" if "y \<in> set (a_lru ?A)" for y
      using R(6) that ne by (auto simp: A)
    show "0 < a_refs ?A y" if "y \<in> set (a_use ?A @ a_loose ?A)" for y
      using R(7) [of y] that by (auto simp: A)
    show "keyable ?h (set (a_loose ?A))"
      using R(8) e(3) by (auto simp: A keyable_def)
    show "table_rep ?h (c_table c) T"
      by (rule table_frame [OF R(9)]) (use R(10) pc in auto)
    show "dom ?h = insert (c_lru c) (insert (c_in_use c) (live ?A))"
      using R(14) by (simp add: A insert_commute)
  qed (use R(10-13) in \<open>simp_all add: A, simp_all add: a_keep_def\<close>)
  moreover have "key_at ?A y = key_at A y" "charge_at ?A y = charge_at A y" if "y \<in> set (a_cached A)" for y
    using that pc by (auto simp: key_at_def charge_at_def A)
  then have "table_ok ?A T" "usage_ok ?A"
    using ok usage unfolding table_ok_def usage_ok_def A
    by (metis, simp add: a_keep_def cong: map_cong)
  ultimately show ?thesis
    unfolding cache_rep_def by blast
qed

lemma Insert_rep:
  assumes rep: "cache_rep m c A" and p: "fresh p c A" and size: "length (a_cached A) < 2 ^ 31"
  shows "\<exists>m' c'. LRUCache_Insert p block key hash val charge deleter m c = Some (p, m', c') \<and>
    cache_rep m' c' (a_insert p \<lparr> e_value = val, e_deleter = deleter, e_charge = charge, e_hash = hash, e_key = key \<rparr> A) \<and>
    c_lru c' = c_lru c \<and> c_in_use c' = c_in_use c"
proof -
  obtain h d where m: "m = (h, d)"
    by (cases m)
  let ?b = "block \<lparr> h_value := val, h_deleter := deleter, h_charge := charge, h_hash := hash,
    h_in_cache := False, h_refs := 1, h_key_data := key \<rparr>"
  let ?E = "\<lparr> e_value = val, e_deleter = deleter, e_charge = charge, e_hash = hash, e_key = key \<rparr>"
  have cap: "c_capacity c = a_capacity A"
    using rep unfolding cache_rep_def cache_repT_def by blast
  show ?thesis
  proof (cases "a_capacity A > 0")
    case True
    let ?e = "?b \<lparr> h_refs := 2, h_in_cache := True \<rparr>"
    let ?B = "case a_find A (hash, key) of None \<Rightarrow> a_add p ?E A | Some x \<Rightarrow> a_drop x (a_add p ?E A)"
    have e: "entry_of ?e = ?E" "ident ?e = (hash, key)" "h_charge ?e = charge"
      by (simp_all add: entry_of_def ident_def)
    have e0: "(h(p \<mapsto> ?e)) p = Some ?e" "\<And>y. y \<noteq> p \<Longrightarrow> (h(p \<mapsto> ?e)) y = h y" "h_refs ?e = 2" "h_in_cache ?e"
      by simp_all
    obtain h1 old h2 t2 b m1 c1 where r: "LRU_Append (c_in_use c) p (h(p \<mapsto> ?e)) = Some h1"
      "HandleTable_Insert p h1 (c_table c) = Some (old, h2, t2)"
      "FinishErase old (h2, d) (c \<lparr> c_usage := c_usage c + charge, c_table := t2 \<rparr>) = Some (b, m1, c1)"
      "cache_rep m1 c1 ?B" "c_lru c1 = c_lru c" "c_in_use c1 = c_in_use c"
      by (rule insert_cached [OF rep [unfolded m] p size e0, unfolded e])
    obtain m' c' where v: "evict_loop m1 c1 = Some (m', c')" "cache_rep m' c' (a_evict ?B)"
      "c_lru c' = c_lru c1" "c_in_use c' = c_in_use c1"
      using evict_loop_rep [OF r(4)] by blast
    have "LRUCache_Insert p block key hash val charge deleter m c = Some (p, m', c')"
      using True cap r(1-3) v(1) by (simp add: LRUCache_Insert_def m upd_def)
    then show ?thesis
      using v r(5,6) True by (simp add: a_insert_def)
  next
    case False
    let ?e = "?b \<lparr> h_next := 0 \<rparr>"
    have "p \<noteq> 0"
      using p by (simp add: fresh_def)
    then have "cache_rep (h(p \<mapsto> ?e), d) c (a_keep p (entry_of ?e) A)"
      by (intro keep_rep [OF rep [unfolded m] p]) auto
    moreover have "entry_of ?e = ?E"
      by (simp add: entry_of_def)
    ultimately obtain m' c' where v: "evict_loop (h(p \<mapsto> ?e), d) c = Some (m', c')" "cache_rep m' c' (a_evict (a_keep p ?E A))"
      "c_lru c' = c_lru c" "c_in_use c' = c_in_use c"
      using evict_loop_rep by metis
    have "LRUCache_Insert p block key hash val charge deleter m c = Some (p, m', c')"
      using False cap v(1) by (simp add: LRUCache_Insert_def m upd_def)
    then show ?thesis
      using v False by (simp add: a_insert_def)
  qed
qed

subsection \<open>The other operations\<close>

definition a_new :: "u64 \<Rightarrow> ACache" where
  "a_new capacity = \<lparr> a_capacity = capacity, a_usage = 0, a_lru = [], a_use = [], a_loose = [], a_entry = Map.empty,
     a_refs = (\<lambda>_. 0), a_deleted = [] \<rparr>"

lemma new_LRUCache_rep:
  assumes "lru \<noteq> 0" and "in_use \<noteq> 0" and "lru \<noteq> in_use"
  obtains h' c where "new_LRUCache lru in_use s s' Map.empty = Some (h', c)"
    and "cache_rep (h', []) (SetCapacity capacity c) (a_new capacity)" and "c_lru c = lru" and "c_in_use c = in_use"
proof -
  let ?h = "[lru \<mapsto> s \<lparr> h_next := lru, h_prev := lru \<rparr>, in_use \<mapsto> s' \<lparr> h_next := in_use, h_prev := in_use \<rparr>]"
  obtain t where t: "new_HandleTable ?h = Some (?h, t)" "table_rep ?h t Map.empty"
    by (rule new_HandleTable_map)
  let ?c = "\<lparr> c_capacity = 0, c_usage = 0, c_lru = lru, c_in_use = in_use, c_table = t \<rparr>"
  have "cache_repT (?h, []) (SetCapacity capacity ?c) (a_new capacity) Map.empty"
    using t(2) assms
    by (simp add: cache_repT_def SetCapacity_def a_new_def ring_def live_def a_cached_def keyable_def insert_commute)
  moreover have "table_ok (a_new capacity) Map.empty" "usage_ok (a_new capacity)"
    by (simp_all add: table_ok_def usage_ok_def a_new_def a_cached_def)
  ultimately have "cache_rep (?h, []) (SetCapacity capacity ?c) (a_new capacity)"
    unfolding cache_rep_def by blast
  then show ?thesis
    using that [of ?h ?c] t(1) by (simp add: new_LRUCache_def)
qed

definition a_lookup :: "u32 \<times> bytes \<Rightarrow> ACache \<Rightarrow> nat \<times> ACache" where
  "a_lookup k A = (case a_find A k of None \<Rightarrow> (0, A) | Some x \<Rightarrow> (x, a_ref x A))"

lemma relist_ok:
  assumes "table_ok A T" and "usage_ok A" and "mset (a_cached B) = mset (a_cached A)" and "a_entry B = a_entry A"
    and "a_usage B = a_usage A"
  shows "table_ok B T" and "usage_ok B"
proof -
  have "set (a_cached B) = set (a_cached A)"
    using assms(3) by (metis set_mset_mset)
  then show "table_ok B T"
    using assms(1,4) by (simp add: table_ok_def key_at_def)
  have "mset (map (charge_at A) (a_cached B)) = mset (map (charge_at A) (a_cached A))"
    using assms(3) by simp
  then have "(\<Sum>x \<leftarrow> a_cached B. charge_at A x) = (\<Sum>x \<leftarrow> a_cached A. charge_at A x)"
    by (metis sum_mset_sum_list)
  moreover have "charge_at B = charge_at A"
    using assms(4) by (auto simp: charge_at_def)
  ultimately show "usage_ok B"
    using assms(2,5) by (simp add: usage_ok_def)
qed

lemma Lookup_rep:
  assumes rep: "cache_rep m c A" and bound: "\<And>x. a_find A (hash, key) = Some x \<Longrightarrow> a_refs A x + 2 < 2 ^ 32"
  shows "\<exists>m'. LRUCache_Lookup key hash m c = Some (fst (a_lookup (hash, key) A), m', c) \<and>
    cache_rep m' c (snd (a_lookup (hash, key) A))"
proof -
  obtain h d where m: "m = (h, d)"
    by (cases m)
  obtain T where repT: "cache_repT (h, d) c A T" and ok: "table_ok A T" and usage: "usage_ok A"
    using rep unfolding cache_rep_def m by blast
  note R = cache_repD [OF repT, unfolded fst_conv snd_conv]
  have "keyable h (ran T)"
    using cached_keyable [OF repT] R(10) unfolding keyable_def by blast
  then have look: "HandleTable_Lookup h (c_table c) key hash = Some (ptr_of (T (hash, key)))"
    by (rule HandleTable_Lookup_map [OF R(9)])
  note find = table_ok_find [OF ok]
  show ?thesis
  proof (cases "T (hash, key)")
    case None
    then show ?thesis
      using look rep find by (simp add: LRUCache_Lookup_def m a_lookup_def)
  next
    case (Some x)
    then have x: "x \<in> set (a_cached A)" "a_find A (hash, key) = Some x"
      using table_okD [OF ok] find by simp_all
    have "x \<noteq> 0"
      using x(1) R(3) by (auto simp: a_cached_def)
    obtain h' where h': "LRU_Ref c x h = Some h'" "cache_repT (h', d) c (a_ref x A) T"
      by (rule LRU_Ref_rep [OF repT x(1) bound [OF x(2)]])
    have "mset (a_cached (a_ref x A)) = mset (a_cached A)"
      by (cases "x \<in> set (a_lru A)") (auto simp: a_cached_def remove1_idem)
    from relist_ok [OF ok usage this] h'(2) have "cache_rep (h', d) c (a_ref x A)"
      unfolding cache_rep_def by auto
    then show ?thesis
      using look Some h'(1) x(2) \<open>x \<noteq> 0\<close> by (simp add: LRUCache_Lookup_def m a_lookup_def)
  qed
qed

lemma Release_rep:
  assumes rep: "cache_rep m c A" and x: "x \<in> live A" "a_refs A x > 0"
  shows "\<exists>m'. LRUCache_Release x m c = Some (m', c) \<and> cache_rep m' c (a_unref x A)"
proof -
  obtain h d where m: "m = (h, d)"
    by (cases m)
  obtain T where repT: "cache_repT (h, d) c A T" and ok: "table_ok A T" and usage: "usage_ok A"
    using rep unfolding cache_rep_def m by blast
  note R = cache_repD [OF repT, unfolded fst_conv snd_conv]
  have ul: "x \<in> set (a_use A @ a_loose A)"
    using x R(6) by (auto simp: live_def)
  obtain m' where m': "LRU_Unref c x (h, d) = Some m'" "cache_repT m' c (a_unref x A) T"
    by (rule LRU_Unref_rep [OF repT ul])
  have "cache_rep m' c (a_unref x A)"
  proof (cases "a_refs A x = 1 \<and> x \<in> set (a_loose A)")
    case True
    then obtain e where e: "a_entry A x = Some e"
      using R(5) x(1) by auto
    note A' = a_unref_free [of A x, OF conjunct1 [OF True] conjunct2 [OF True] e]
    have "x \<notin> set (a_cached A)"
      using True R(3) by (auto simp: a_cached_def)
    then have "key_at (a_unref x A) y = key_at A y" "charge_at (a_unref x A) y = charge_at A y" if "y \<in> set (a_cached A)" for y
      using that by (auto simp: A' key_at_def charge_at_def)
    moreover have "a_cached (a_unref x A) = a_cached A" "a_usage (a_unref x A) = a_usage A"
      by (simp_all add: A' a_cached_def)
    ultimately have "table_ok (a_unref x A) T" "usage_ok (a_unref x A)"
      using ok usage unfolding table_ok_def usage_ok_def by (metis, simp cong: map_cong)
    then show ?thesis
      using m'(2) unfolding cache_rep_def by blast
  next
    case False
    have "mset (a_cached (a_unref x A)) = mset (a_cached A)"
    proof (cases "a_refs A x > 1")
      case True
      then show ?thesis
        by (simp add: a_unref_keep a_cached_def)
    next
      case one: False
      then have "a_refs A x = 1" "x \<notin> set (a_loose A)"
        using False x(2) by auto
      moreover from this have "x \<in> set (a_use A)"
        using ul by simp
      ultimately show ?thesis
        by (simp add: a_unref_retire a_cached_def)
    qed
    moreover have "a_entry (a_unref x A) = a_entry A" "a_usage (a_unref x A) = a_usage A"
      using False x(2) by (auto simp: a_unref_def Let_def)
    ultimately show ?thesis
      using relist_ok [OF ok usage] m'(2) unfolding cache_rep_def by blast
  qed
  then show ?thesis
    using m'(1) by (simp add: LRUCache_Release_def m)
qed

end
