(* ===== verification/LRUProperties.thy ===== *)
theory LRUProperties
  imports LRUCache
begin

text \<open>
  Calls to one cache shard by clients that release only references they hold. Every such call
  refines the abstract cache and never fails, eviction removes the least recently used entries
  first, and no call loses or duplicates a value that a deleter still has to see.
\<close>

subsection \<open>Calls\<close>

datatype cache_call =
  CInsert nat LRUHandle bytes u32 u64 u64 u64
| CLookup bytes u32
| CRelease nat
| CErase bytes u32
| CPrune

text \<open>The result is a handle, or 0.\<close>

fun LRU_call :: "cache_call \<Rightarrow> memory \<Rightarrow> LRUCache \<Rightarrow> (nat \<times> memory \<times> LRUCache) option" where
  "LRU_call (CInsert p block key hash val charge deleter) m c = LRUCache_Insert p block key hash val charge deleter m c"
| "LRU_call (CLookup key hash) m c = LRUCache_Lookup key hash m c"
| "LRU_call (CRelease x) m c = map_option (Pair 0) (LRUCache_Release x m c)"
| "LRU_call (CErase key hash) m c = map_option (Pair 0) (LRUCache_Erase key hash m c)"
| "LRU_call CPrune m c = map_option (Pair 0) (LRUCache_Prune m c)"

subsection \<open>The abstract calls\<close>

definition a_erase :: "u32 \<times> bytes \<Rightarrow> ACache \<Rightarrow> ACache" where
  "a_erase k A = (case a_find A k of None \<Rightarrow> A | Some x \<Rightarrow> a_drop x A)"

fun a_call :: "cache_call \<Rightarrow> ACache \<Rightarrow> nat \<times> ACache" where
  "a_call (CInsert p block key hash val charge deleter) A =
     (p, a_insert p \<lparr> e_value = val, e_deleter = deleter, e_charge = charge, e_hash = hash, e_key = key \<rparr> A)"
| "a_call (CLookup key hash) A = a_lookup (hash, key) A"
| "a_call (CRelease x) A = (0, a_unref x A)"
| "a_call (CErase key hash) A = (0, a_erase (hash, key) A)"
| "a_call CPrune A = (0, a_prune A)"

text \<open>
  What a client owes: \<^verbatim>\<open>Release\<close> only with a handle it holds, fewer than \<open>2\<^sup>3\<^sup>2 - 2\<close> references
  to one entry, fewer than \<open>2\<^sup>3\<^sup>1\<close> cached entries; and \<^verbatim>\<open>malloc\<close> returns an address that is
  not in use (\<open>lru\<close> and \<open>in_use\<close> are the list heads).
\<close>

fun a_allowed :: "nat \<Rightarrow> nat \<Rightarrow> cache_call \<Rightarrow> ACache \<Rightarrow> bool" where
  "a_allowed lru in_use (CInsert p _ _ _ _ _ _) A \<longleftrightarrow>
     p \<notin> {0, lru, in_use} \<and> p \<notin> live A \<and> length (a_cached A) < 2 ^ 31"
| "a_allowed lru in_use (CLookup key hash) A \<longleftrightarrow>
     (case a_find A (hash, key) of None \<Rightarrow> True | Some x \<Rightarrow> a_refs A x + 2 < 2 ^ 32)"
| "a_allowed lru in_use (CRelease x) A \<longleftrightarrow> x \<in> live A \<and> a_refs A x > 0"
| "a_allowed lru in_use _ A \<longleftrightarrow> True"

lemma call_rep:
  assumes rep: "cache_rep m c A" and allowed: "a_allowed (c_lru c) (c_in_use c) call A"
  shows "\<exists>m' c'. LRU_call call m c = Some (fst (a_call call A), m', c') \<and> cache_rep m' c' (snd (a_call call A)) \<and>
    c_lru c' = c_lru c \<and> c_in_use c' = c_in_use c"
proof (cases call)
  case (CInsert p block key hash val charge deleter)
  then show ?thesis
    using Insert_rep [OF rep, of p block key hash val charge deleter] allowed by (simp add: fresh_def)
next
  case (CLookup key hash)
  then show ?thesis
    using Lookup_rep [OF rep, of hash key] allowed by (auto split: option.splits)
next
  case (CRelease x)
  then show ?thesis
    using Release_rep [OF rep, of x] allowed by auto
next
  case (CErase key hash)
  obtain m' c' where "RemoveAndFinish key hash m c = Some (a_find A (hash, key) \<noteq> None, m', c')"
    "cache_rep m' c' (case a_find A (hash, key) of None \<Rightarrow> A | Some x \<Rightarrow> a_drop x A)"
    "c_lru c' = c_lru c" "c_in_use c' = c_in_use c"
    using RemoveAndFinish_rep [of "fst m" "snd m" c A key hash] rep by auto
  then show ?thesis
    using CErase by (simp add: LRUCache_Erase_def a_erase_def)
next
  case CPrune
  then show ?thesis
    using Prune_rep [OF rep] by auto
qed

subsection \<open>The destructor\<close>

fun lru_path :: "handles \<Rightarrow> nat \<Rightarrow> nat list \<Rightarrow> nat \<Rightarrow> bool" where
  "lru_path h p [] l \<longleftrightarrow> p = l"
| "lru_path h p (x # xs) l \<longleftrightarrow> p = x \<and> x \<noteq> l \<and>
     (\<exists>e. h x = Some e \<and> h_in_cache e \<and> h_refs e = 1 \<and> h_next e \<noteq> x \<and> lru_path h (h_next e) xs l)"

lemma lru_path_same: "lru_path h p xs l \<Longrightarrow> (\<And>x. x \<in> set xs \<Longrightarrow> h' x = h x) \<Longrightarrow> lru_path h' p xs l"
  by (induction xs arbitrary: p) fastforce+

definition del :: "ACache \<Rightarrow> nat \<Rightarrow> deletion" where
  "del A x = deletion_of (the (a_entry A x))"

lemma destructor_loop:
  assumes "lru_path h p xs (c_lru c)" and "distinct xs"
  shows "LRUCache_destructor_loop c p (h, d) =
    Some (\<lambda>y. if y \<in> set xs then None else h y, d @ map (\<lambda>x. deletion_of (entry_of (the (h x)))) xs)"
  using assms
proof (induction xs arbitrary: p h d)
  case Nil
  then show ?case
    by (subst LRUCache_destructor_loop.simps) simp
next
  case (Cons x xs)
  then obtain e where e: "p = x" "x \<noteq> c_lru c" "h x = Some e" "h_in_cache e" "h_refs e = 1" "h_next e \<noteq> x"
    "lru_path h (h_next e) xs (c_lru c)" "x \<notin> set xs" "distinct xs"
    by auto
  have path: "lru_path (h(x := None)) (h_next e) xs (c_lru c)"
    by (rule lru_path_same [OF e(7)]) (use e(8) in auto)
  have "map (\<lambda>y. deletion_of (entry_of (the ((h(x := None)) y)))) xs = map (\<lambda>y. deletion_of (entry_of (the (h y)))) xs"
    using e(8) by (intro map_cong) auto
  moreover have "LRUCache_destructor_loop c p (h, d) =
      LRUCache_destructor_loop c (h_next e) (h(x := None), d @ [deletion_of (entry_of e)])"
    using e(1-6) by (subst LRUCache_destructor_loop.simps)
      (simp add: upd_def LRU_Unref_def LRUHandle_key_def deletion_of_def entry_of_def)
  ultimately show ?case
    unfolding Cons.IH [OF path e(9)] using e(3) Cons.IH [OF path e(9), of "d @ [deletion_of (entry_of e)]"] by auto
qed

lemma ring_path:
  assumes "links h (p # xs @ [l])" and "l \<notin> set xs" and "distinct xs"
    and "\<And>x. x \<in> set xs \<Longrightarrow> \<exists>e. h x = Some e \<and> h_in_cache e \<and> h_refs e = 1 \<and> h_next e \<noteq> x"
  shows "\<exists>q. nxt h p = Some q \<and> lru_path h q xs l"
  using assms
proof (induction xs arbitrary: p)
  case (Cons x xs)
  have "links h (x # xs @ [l])"
    using Cons.prems(1) by simp
  from Cons.IH [OF this] obtain q where q: "nxt h x = Some q" "lru_path h q xs l"
    using Cons.prems by auto
  obtain e where "h x = Some e" "h_in_cache e" "h_refs e = 1" "h_next e \<noteq> x"
    using Cons.prems(4) [of x] by auto
  then show ?case
    using q Cons.prems by auto
qed auto

lemma destructor_rep:
  assumes rep: "cache_rep m c A" and use: "a_use A = []"
  obtains h' where "LRUCache_destructor m c = Some (h', a_deleted A @ map (del A) (a_lru A))"
    and "dom h' = insert (c_lru c) (insert (c_in_use c) (set (a_loose A)))"
proof -
  obtain T where repT: "cache_repT m c A T"
    using rep unfolding cache_rep_def by blast
  note R = cache_repD [OF repT]
  have lru: "\<exists>e. fst m x = Some e \<and> h_in_cache e \<and> h_refs e = 1 \<and> h_next e \<noteq> x \<and> a_entry A x = Some (entry_of e)"
    if x: "x \<in> set (a_lru A)" for x
  proof -
    have "x \<in> live A" "x \<notin> set (a_loose A)" "a_refs A x = 0"
      using x R(3) R(6) by (auto simp: live_def)
    then obtain e where e: "fst m x = Some e" "h_in_cache e" "unat (h_refs e) = 1" "a_entry A x = Some (entry_of e)"
      using R(4) [of x] by (auto simp: handle_ok_def)
    have "h_refs e = 1"
      using e(3) by (metis unat_1 word_unat_eq_iff)
    then show ?thesis
      using e ring_next_other [OF R(1) x] by auto
  qed
  have "distinct (a_lru A)" "c_lru c \<notin> set (a_lru A)" "links (fst m) (c_lru c # a_lru A @ [c_lru c])"
    using R(1) by (auto simp: ring_def)
  then obtain q where q: "nxt (fst m) (c_lru c) = Some q" "lru_path (fst m) q (a_lru A) (c_lru c)"
    using ring_path [of "fst m" "c_lru c" "a_lru A" "c_lru c"] lru by blast
  have "map (\<lambda>x. deletion_of (entry_of (the (fst m x)))) (a_lru A) = map (del A) (a_lru A)"
    using lru by (intro map_cong) (fastforce simp: del_def)+
  have "LRUCache_destructor_loop c q (fst m, snd m) =
      Some (\<lambda>y. if y \<in> set (a_lru A) then None else fst m y, snd m @ map (del A) (a_lru A))"
    unfolding destructor_loop [OF q(2) \<open>distinct (a_lru A)\<close>] \<open>map _ _ = map (del A) (a_lru A)\<close> ..
  then have "LRUCache_destructor_loop c q m =
      Some (\<lambda>y. if y \<in> set (a_lru A) then None else fst m y, a_deleted A @ map (del A) (a_lru A))"
    unfolding prod.collapse by (simp only: R(13))
  then have "LRUCache_destructor m c =
      Some (\<lambda>y. if y \<in> set (a_lru A) then None else fst m y, a_deleted A @ map (del A) (a_lru A))"
    using q(1) ring_first [OF R(2)] use by (auto simp: LRUCache_destructor_def)
  moreover have "dom (\<lambda>y. if y \<in> set (a_lru A) then None else fst m y) =
      insert (c_lru c) (insert (c_in_use c) (set (a_loose A)))"
  proof -
    have "dom (\<lambda>y. if y \<in> set (a_lru A) then None else fst m y) = dom (fst m) - set (a_lru A)"
      by (auto split: if_splits)
    then show ?thesis
      using R(3,14) use by (auto simp: live_def)
  qed
  ultimately show ?thesis
    using that by simp
qed

subsection \<open>Every value meets its deleter once\<close>

definition a_inv :: "ACache \<Rightarrow> bool" where
  "a_inv A \<longleftrightarrow> distinct (a_lru A @ a_use A @ a_loose A) \<and> dom (a_entry A) = live A"

lemma cache_rep_inv: "cache_rep m c A \<Longrightarrow> a_inv A"
  unfolding cache_rep_def cache_repT_def a_inv_def by auto

text \<open>The deleter calls that were made and those that the live entries still need.\<close>

definition account :: "ACache \<Rightarrow> deletion multiset" where
  "account A = mset (a_deleted A) + image_mset (del A) (mset (a_lru A @ a_use A @ a_loose A))"

lemma account_eqI:
  assumes "a_deleted B = a_deleted A" and "a_entry B = a_entry A"
    and "mset (a_lru B @ a_use B @ a_loose B) = mset (a_lru A @ a_use A @ a_loose A)"
  shows "account B = account A"
proof -
  have "del B = del A"
    using assms(2) by (auto simp: del_def)
  then show ?thesis
    unfolding account_def assms(1,3) by simp
qed

lemma account_ref: "account (a_ref x A) = account A"
  by (rule account_eqI) (cases "x \<in> set (a_lru A)"; simp add: remove1_idem)+

lemma account_detach: "x \<in> set (a_cached A) \<Longrightarrow> a_inv A \<Longrightarrow> account (a_detach x A) = account A"
proof (rule account_eqI)
  assume x: "x \<in> set (a_cached A)" and inv: "a_inv A"
  show "mset (a_lru (a_detach x A) @ a_use (a_detach x A) @ a_loose (a_detach x A)) = mset (a_lru A @ a_use A @ a_loose A)"
  proof (cases "x \<in> set (a_lru A)")
    case True
    moreover from this have "x \<notin> set (a_use A)"
      using inv by (auto simp: a_inv_def)
    ultimately show ?thesis
      by (simp add: remove1_idem)
  next
    case False
    then show ?thesis
      using x by (simp add: a_cached_def remove1_idem)
  qed
qed simp_all

lemma account_unref:
  assumes inv: "a_inv A" and x: "x \<in> set (a_use A @ a_loose A)" "a_refs A x > 0"
  shows "account (a_unref x A) = account A"
proof -
  consider "a_refs A x > 1" | "a_refs A x = 1" "x \<in> set (a_loose A)" | "a_refs A x = 1" "x \<notin> set (a_loose A)"
    using x(2) by linarith
  then show ?thesis
  proof cases
    case 1
    then show ?thesis
      by (intro account_eqI) (simp_all add: a_unref_keep)
  next
    case 2
    then obtain e where e: "a_entry A x = Some e"
      using inv by (auto simp: a_inv_def live_def)
    have "map (del (a_unref x A)) (a_lru A @ a_use A @ remove1 x (a_loose A)) =
        map (del A) (a_lru A @ a_use A @ remove1 x (a_loose A))"
    proof (rule map_cong [OF refl])
      fix y
      assume "y \<in> set (a_lru A @ a_use A @ remove1 x (a_loose A))"
      then have "y \<noteq> x"
        using inv 2(2) by (auto simp: a_inv_def)
      then show "del (a_unref x A) y = del A y"
        by (simp add: a_unref_free [OF 2 e] del_def)
    qed
    then have "image_mset (del (a_unref x A)) (mset (a_lru A @ a_use A @ remove1 x (a_loose A))) =
        image_mset (del A) (mset (a_lru A @ a_use A @ remove1 x (a_loose A)))"
      by (metis mset_map)
    note same = this
    have split: "mset (a_lru A @ a_use A @ a_loose A) = add_mset x (mset (a_lru A @ a_use A @ remove1 x (a_loose A)))"
      using 2(2) by simp
    have B: "a_lru (a_unref x A) = a_lru A" "a_use (a_unref x A) = a_use A" "a_loose (a_unref x A) = remove1 x (a_loose A)"
      "a_deleted (a_unref x A) = a_deleted A @ [deletion_of e]"
      by (simp_all add: a_unref_free [OF 2 e])
    have "del A x = deletion_of e"
      using e by (simp add: del_def)
    then show ?thesis
      unfolding account_def B same split by simp
  next
    case 3
    then have "x \<in> set (a_use A)"
      using x(1) by simp
    then show ?thesis
      by (intro account_eqI) (simp_all add: a_unref_retire [OF 3])
  qed
qed

lemma detach_inv:
  assumes "a_inv A" and "x \<in> set (a_cached A)"
  shows "a_inv (a_detach x A)"
  using assms by (auto simp: a_inv_def a_cached_def live_def)

lemma unref_inv: "a_inv A \<Longrightarrow> x \<in> set (a_loose A) \<Longrightarrow> a_inv (a_unref x A)"
proof -
  assume inv: "a_inv A" and x: "x \<in> set (a_loose A)"
  then obtain e where e: "a_entry A x = Some e"
    by (auto simp: a_inv_def live_def)
  show ?thesis
  proof (cases "a_refs A x > 1")
    case True
    then show ?thesis
      using inv by (simp add: a_unref_keep a_inv_def live_def)
  next
    case False
    then show ?thesis
      using inv x e by (auto simp: a_unref_def a_inv_def live_def Let_def dest: notin_set_remove1)
  qed
qed

lemma drop_inv: "a_inv A \<Longrightarrow> x \<in> set (a_cached A) \<Longrightarrow> a_inv (a_drop x A)"
  unfolding a_drop_def by (intro unref_inv detach_inv) auto

lemma account_drop:
  assumes "a_inv A" and "x \<in> set (a_cached A)"
  shows "account (a_drop x A) = account A"
  unfolding a_drop_def using account_unref [OF detach_inv [OF assms], of x] account_detach [OF assms(2,1)] by simp

lemma account_evict: "a_inv A \<Longrightarrow> account (a_evict A) = account A \<and> a_inv (a_evict A)"
proof (induction A rule: a_evict.induct)
  case (1 A)
  show ?case
  proof (cases "a_usage A > a_capacity A \<and> a_lru A \<noteq> []")
    case True
    then have x: "hd (a_lru A) \<in> set (a_cached A)"
      by (simp add: a_cached_def)
    show ?thesis
      using 1(1) [OF True drop_inv [OF 1(2) x]] account_drop [OF 1(2) x] True by (simp add: a_evict.simps [of A])
  next
    case False
    then show ?thesis
      using 1(2) by (subst (1 2) a_evict.simps) auto
  qed
qed

lemma account_prune: "a_inv A \<Longrightarrow> account (a_prune A) = account A \<and> a_inv (a_prune A)"
proof (induction A rule: a_prune.induct)
  case (1 A)
  show ?case
  proof (cases "a_lru A \<noteq> []")
    case True
    then have x: "hd (a_lru A) \<in> set (a_cached A)"
      by (simp add: a_cached_def)
    show ?thesis
      using 1(1) [OF True drop_inv [OF 1(2) x]] account_drop [OF 1(2) x] True by (simp add: a_prune.simps [of A])
  next
    case False
    then show ?thesis
      using 1(2) by (subst (1 2) a_prune.simps) auto
  qed
qed

lemma account_new:
  assumes inv: "a_inv A" and p: "p \<notin> live A"
  shows "account (a_add p e A) = add_mset (deletion_of e) (account A)" and "a_inv (a_add p e A)"
    and "account (a_keep p e A) = add_mset (deletion_of e) (account A)" and "a_inv (a_keep p e A)"
proof -
  have del: "map (del B) (a_lru A @ a_use A @ a_loose A) = map (del A) (a_lru A @ a_use A @ a_loose A)"
    if "a_entry B = (a_entry A)(p \<mapsto> e)" for B
    using p that by (intro map_cong) (auto simp: del_def live_def)
  have "image_mset (del B) (mset (a_lru A @ a_use A @ a_loose A)) = image_mset (del A) (mset (a_lru A @ a_use A @ a_loose A))"
    "del B p = deletion_of e" if "a_entry B = (a_entry A)(p \<mapsto> e)" for B
    using del [OF that] that by (metis mset_map, simp add: del_def)
  from this [of "a_add p e A"] this [of "a_keep p e A"]
  show "account (a_add p e A) = add_mset (deletion_of e) (account A)"
    "account (a_keep p e A) = add_mset (deletion_of e) (account A)"
    unfolding account_def by (simp_all add: a_add_def a_keep_def)
  show "a_inv (a_add p e A)" "a_inv (a_keep p e A)"
    using inv p by (auto simp: a_inv_def a_add_def a_keep_def live_def)
qed

lemma a_find_cached: "a_find A k = Some x \<Longrightarrow> x \<in> set (a_cached A)"
  by (auto simp: a_find_def find_Some_iff)

lemma account_insert:
  assumes inv: "a_inv A" and p: "p \<notin> live A"
  shows "account (a_insert p e A) = add_mset (deletion_of e) (account A)"
proof -
  note new = account_new [OF assms, of e]
  have "x \<in> set (a_cached (a_add p e A))" if "a_find A k = Some x" for k x
    using a_find_cached [OF that] by (auto simp: a_cached_def a_add_def)
  then show ?thesis
    unfolding a_insert_def using account_evict new account_drop [OF new(2)] drop_inv [OF new(2)]
    by (auto split: option.splits)
qed

fun inserted :: "cache_call list \<Rightarrow> deletion multiset" where
  "inserted [] = {#}"
| "inserted (CInsert p block key hash val charge deleter # calls) = add_mset (deleter, key, val) (inserted calls)"
| "inserted (_ # calls) = inserted calls"

lemma account_call:
  assumes inv: "a_inv A" and allowed: "a_allowed lru in_use call A" and refs: "\<And>x. x \<in> set (a_lru A) \<Longrightarrow> a_refs A x = 0"
  shows "account (snd (a_call call A)) = account A + inserted [call]"
proof (cases call)
  case (CInsert p block key hash val charge deleter)
  then show ?thesis
    using account_insert [OF inv, of p] allowed by (simp add: deletion_of_def)
next
  case (CLookup key hash)
  then show ?thesis
    by (simp add: a_lookup_def account_ref split: option.splits)
next
  case (CRelease x)
  then have "x \<in> set (a_use A @ a_loose A)" "a_refs A x > 0"
    using allowed refs [of x] by (auto simp: live_def)
  then show ?thesis
    using account_unref [OF inv] CRelease by simp
next
  case (CErase key hash)
  show ?thesis
    using CErase account_drop [OF inv] a_find_cached by (simp add: a_erase_def split: option.splits)
next
  case CPrune
  then show ?thesis
    using account_prune [OF inv] by simp
qed

subsection \<open>Eviction\<close>

lemma a_drop_lru:
  assumes inv: "a_inv A" and lru: "a_lru A = x # xs" and refs: "a_refs A x = 0"
  shows "a_lru (a_drop x A) = xs" and "a_use (a_drop x A) = a_use A" and "a_deleted (a_drop x A) = a_deleted A @ [del A x]"
    and "\<And>y. y \<noteq> x \<Longrightarrow> a_refs (a_drop x A) y = a_refs A y" and "a_usage (a_drop x A) = a_usage A - charge_at A x"
proof -
  have x: "x \<in> live A" "x \<notin> set xs" "x \<notin> set (a_use A)" "x \<notin> set (a_loose A)"
    using inv lru by (auto simp: a_inv_def live_def)
  then have "x \<in> dom (a_entry A)"
    using inv by (simp add: a_inv_def)
  then obtain e where e: "a_entry A x = Some e"
    by blast
  show "a_lru (a_drop x A) = xs" "a_use (a_drop x A) = a_use A" "a_usage (a_drop x A) = a_usage A - charge_at A x"
    using x lru e by (simp_all add: remove1_idem charge_at_def)
  show "a_deleted (a_drop x A) = a_deleted A @ [del A x]" "\<And>y. y \<noteq> x \<Longrightarrow> a_refs (a_drop x A) y = a_refs A y"
    using e refs by (simp_all add: a_drop_def a_unref_def del_def)
qed

text \<open>The usage after the \<open>n\<close> oldest unreferenced entries are gone.\<close>

definition usage_after :: "nat \<Rightarrow> ACache \<Rightarrow> u64" where
  "usage_after n A = a_usage A - (\<Sum>x \<leftarrow> take n (a_lru A). charge_at A x)"

lemma a_evict_spec:
  assumes "a_inv A" and "\<forall>x \<in> set (a_lru A). a_refs A x = 0"
  shows "\<exists>n \<le> length (a_lru A). a_lru (a_evict A) = drop n (a_lru A) \<and> a_use (a_evict A) = a_use A \<and>
    a_deleted (a_evict A) = a_deleted A @ map (del A) (take n (a_lru A)) \<and>
    a_usage (a_evict A) = usage_after n A \<and> (usage_after n A \<le> a_capacity A \<or> n = length (a_lru A)) \<and>
    (\<forall>j < n. usage_after j A > a_capacity A)"
  using assms
proof (induction A rule: a_evict.induct)
  case (1 A)
  show ?case
  proof (cases "a_usage A > a_capacity A \<and> a_lru A \<noteq> []")
    case True
    then obtain x xs where lru: "a_lru A = x # xs"
      by (cases "a_lru A") auto
    note D = a_drop_lru [OF 1(2) lru]
    have refs: "a_refs A x = 0"
      using 1(3) lru by simp
    have x: "x \<in> set (a_cached A)" "x \<notin> set xs"
      using lru 1(2) by (auto simp: a_cached_def a_inv_def)
    let ?B = "a_drop x A"
    have ev: "a_evict A = a_evict ?B"
      using True lru by (subst a_evict.simps) simp
    have "\<forall>y \<in> set (a_lru ?B). a_refs ?B y = 0"
      using 1(3) D(1,4) [OF refs] x(2) lru by (metis list.set_intros(2))
    from 1(1) [OF True, unfolded lru list.sel, OF drop_inv [OF 1(2) x(1)] this] obtain n where
      n: "n \<le> length xs" "a_lru (a_evict ?B) = drop n xs" "a_use (a_evict ?B) = a_use A"
      "a_deleted (a_evict ?B) = a_deleted A @ del A x # map (del ?B) (take n xs)"
      "a_usage (a_evict ?B) = usage_after n ?B" "usage_after n ?B \<le> a_capacity A \<or> n = length xs"
      "\<forall>j < n. usage_after j ?B > a_capacity A"
      using D [OF refs] by auto
    have same: "del ?B y = del A y" "charge_at ?B y = charge_at A y" if "y \<in> set xs" for y
    proof -
      have "y \<noteq> x"
        using that x(2) by auto
      then show "del ?B y = del A y" "charge_at ?B y = charge_at A y"
        by (simp_all add: del_def charge_at_def)
    qed
    have after: "usage_after j ?B = usage_after (Suc j) A" for j
    proof -
      have "(\<Sum>y \<leftarrow> take j xs. charge_at ?B y) = (\<Sum>y \<leftarrow> take j xs. charge_at A y)"
        by (rule arg_cong [of _ _ sum_list], rule map_cong) (use same(2) in \<open>auto dest: in_set_takeD\<close>)
      then show ?thesis
        using D(1,5) [OF refs] lru by (simp add: usage_after_def)
    qed
    have "map (del ?B) (take n xs) = map (del A) (take n xs)"
      using same(1) by (auto dest: in_set_takeD)
    moreover have "\<forall>j < Suc n. usage_after j A > a_capacity A"
    proof (intro allI impI)
      fix j
      assume "j < Suc n"
      then show "usage_after j A > a_capacity A"
        using n(7) after True by (cases j) (auto simp: usage_after_def)
    qed
    ultimately show ?thesis
      using n unfolding ev after lru by (intro exI [of _ "Suc n"]) auto
  next
    case False
    have "a_evict A = A"
      using False by (subst a_evict.simps) auto
    then show ?thesis
      using False by (intro exI [of _ 0]) (auto simp: usage_after_def not_less)
  qed
qed

subsection \<open>Properties\<close>

text \<open>C10: every call to a cache shard that its client may make returns; the result and the new state
  are those of the abstract cache: the handle found or inserted, the lists in least recently
  used order, the counts, the usage and the deleter calls.\<close>

theorem LRUCache_refines:
  assumes "cache_rep m c A" and "a_allowed (c_lru c) (c_in_use c) call A"
  shows "\<exists>m' c'. LRU_call call m c = Some (fst (a_call call A), m', c') \<and> cache_rep m' c' (snd (a_call call A))"
  using call_rep [OF assms] by blast

theorem LRUCache_refines_witness:
  "\<exists>h c m' c'. new_LRUCache 1 2 (a_handle 0 []) (a_handle 0 []) Map.empty = Some (h, c) \<and>
    LRU_call (CInsert 3 (a_handle 0 []) [1] 5 7 6 9) (h, []) (SetCapacity 10 c) = Some (3, m', c')"
proof -
  obtain h c where new: "new_LRUCache 1 2 (a_handle 0 []) (a_handle 0 []) Map.empty = Some (h, c)"
    "cache_rep (h, []) (SetCapacity 10 c) (a_new 10)" "c_lru c = 1" "c_in_use c = 2"
    by (rule new_LRUCache_rep [of 1 2]) auto
  have "a_allowed (c_lru (SetCapacity 10 c)) (c_in_use (SetCapacity 10 c)) (CInsert 3 (a_handle 0 []) [1] 5 7 6 9) (a_new 10)"
    using new(3,4) by (simp add: a_new_def live_def a_cached_def SetCapacity_def)
  from LRUCache_refines [OF new(2) this] show ?thesis
    using new(1) by auto
qed

text \<open>C11: the eviction loop ends; it removes the least recently used unreferenced entries, as few of
  them as bring the usage down to the capacity and all of them if that is not enough, calls
  their deleters in that order, and leaves the referenced entries alone.\<close>

theorem evict_loop_removes_oldest:
  assumes rep: "cache_rep m c A"
  shows "\<exists>m' c' A' n. evict_loop m c = Some (m', c') \<and> cache_rep m' c' A' \<and> a_lru A' = drop n (a_lru A) \<and>
    a_use A' = a_use A \<and> snd m' = snd m @ map (del A) (take n (a_lru A)) \<and>
    (c_usage c' \<le> c_capacity c \<or> a_lru A' = []) \<and> (\<forall>j < n. usage_after j A > c_capacity c)"
proof -
  obtain m' c' where r: "evict_loop m c = Some (m', c')" "cache_rep m' c' (a_evict A)"
    using evict_loop_rep [OF rep] by blast
  have "\<forall>x \<in> set (a_lru A). a_refs A x = 0" "c_capacity c = a_capacity A" "snd m = a_deleted A"
    using rep unfolding cache_rep_def cache_repT_def by blast+
  moreover have "c_usage c' = a_usage (a_evict A)" "snd m' = a_deleted (a_evict A)"
    using r(2) unfolding cache_rep_def cache_repT_def by blast+
  ultimately show ?thesis
    using a_evict_spec [OF cache_rep_inv [OF rep]] r by (metis drop_eq_Nil order_refl)
qed

theorem evict_loop_removes_oldest_witness:
  "\<exists>h c m' c'. new_LRUCache 1 2 (a_handle 0 []) (a_handle 0 []) Map.empty = Some (h, c) \<and>
    evict_loop (h, []) (SetCapacity 10 c) = Some (m', c') \<and> c_usage c' \<le> 10"
proof -
  obtain h c where new: "new_LRUCache 1 2 (a_handle 0 []) (a_handle 0 []) Map.empty = Some (h, c)"
    "cache_rep (h, []) (SetCapacity 10 c) (a_new 10)"
    by (rule new_LRUCache_rep [of 1 2]) auto
  from evict_loop_removes_oldest [OF new(2)] obtain m' c' A' where
    "evict_loop (h, []) (SetCapacity 10 c) = Some (m', c')" "cache_rep m' c' A'" "a_lru A' = []" "a_use A' = []"
    by (auto simp: a_new_def)
  moreover from this(2-) have "c_usage c' = 0"
    unfolding cache_rep_def cache_repT_def usage_ok_def a_cached_def by auto
  ultimately show ?thesis
    using new(1) by auto
qed

lemma a_evict_eval:
  "a_usage A \<le> a_capacity A \<or> a_lru A = [] \<Longrightarrow> a_evict A = A"
  "a_usage A > a_capacity A \<Longrightarrow> a_lru A = x # xs \<Longrightarrow> a_evict A = a_evict (a_drop x A)"
  by (subst a_evict.simps; auto)+

end
