(* ===== verification/CacheFrame.thy ===== *)
theory CacheFrame
  imports LRUProperties
begin

text \<open>
  The operations of a cache shard work on the handles of that shard only: an operation that
  succeeds on a heap \<open>h\<close> does the same on every larger heap \<open>g ++ h\<close>, where \<open>g\<close> holds the handles
  of the other shards, and leaves \<open>g\<close> as it is. With these frame lemmas the results on one shard
  carry over to the shards of \<^verbatim>\<open>ShardedLRUCache\<close>, which share one heap.
\<close>

definition disjoint_heaps :: "handles \<Rightarrow> handles \<Rightarrow> bool" where
  "disjoint_heaps g h \<longleftrightarrow> dom g \<inter> dom h = {}"

lemma disjoint_heaps_mono: "disjoint_heaps g h \<Longrightarrow> dom h' \<subseteq> dom h \<Longrightarrow> disjoint_heaps g h'"
  unfolding disjoint_heaps_def by blast

lemma map_add_free: "g p = None \<Longrightarrow> (g ++ h)(p := None) = g ++ h(p := None)"
  by (auto simp: map_add_def)

lemma disjoint_heaps_free: "disjoint_heaps g h \<Longrightarrow> h p = Some e \<Longrightarrow> g p = None"
  by (auto simp: disjoint_heaps_def)

lemma bind_SomeE:
  assumes "Option.bind m f = Some r"
  obtains x where "m = Some x" and "f x = Some r"
  using assms by (cases m) auto

subsection \<open>The hash table\<close>

lemma LRUHandle_key_frame: "LRUHandle_key h p = Some k \<Longrightarrow> LRUHandle_key (g ++ h) p = Some k"
  by (auto simp: LRUHandle_key_def split: bind_splits)

lemma slot_read_frame: "slot_read h list s = Some p \<Longrightarrow> slot_read (g ++ h) list s = Some p"
  by (cases s) auto

lemma slot_write_frame:
  "slot_write s v h list = Some (h', list') \<Longrightarrow> slot_write s v (g ++ h) list = Some (g ++ h', list') \<and> dom h' = dom h"
  by (cases s) (auto split: bind_splits if_splits)

lemma FindPointer_loop_frame:
  assumes "FindPointer_loop h list key hash s = Some r"
  shows "FindPointer_loop (g ++ h) list key hash s = Some r"
  using _ assms
proof (rule FindPointer_loop.raw_induct [where P = "\<lambda>h list key hash s r. FindPointer_loop (g ++ h) list key hash s = Some r"])
  fix loop h list key hash s r
  assume IH: "\<And>h list key hash s r. loop h list key hash s = Some r \<Longrightarrow> FindPointer_loop (g ++ h) list key hash s = Some r"
    and run: "do {
      p \<leftarrow> slot_read h list s;
      if p = 0 then Some s
      else do {
        e \<leftarrow> h p;
        other \<leftarrow> (if h_hash e \<noteq> hash then Some True else map_option (\<lambda>k. \<not> Slice_eq key k) (LRUHandle_key h p));
        if other then loop h list key hash (NextHash p) else Some s
      }
    } = Some r"
  from run obtain p where p: "slot_read h list s = Some p"
    by (auto split: bind_splits)
  note p' = slot_read_frame [OF p, of g]
  show "FindPointer_loop (g ++ h) list key hash s = Some r"
  proof (cases "p = 0")
    case True
    then show ?thesis
      using run p p' by (simp add: FindPointer_loop.simps)
  next
    case False
    then obtain e other where e: "h p = Some e"
      "(if h_hash e \<noteq> hash then Some True else map_option (\<lambda>k. \<not> Slice_eq key k) (LRUHandle_key h p)) = Some other"
      "(if other then loop h list key hash (NextHash p) else Some s) = Some r"
      using run p by (auto split: bind_splits)
    have "(if h_hash e \<noteq> hash then Some True else map_option (\<lambda>k. \<not> Slice_eq key k) (LRUHandle_key (g ++ h) p)) = Some other"
      using e(2) LRUHandle_key_frame [of h p _ g] by (auto split: if_splits)
    then show ?thesis
      using False e(1,3) p' IH by (subst FindPointer_loop.simps) (auto split: if_splits)
  qed
qed

lemma HandleTable_Lookup_frame:
  "HandleTable_Lookup h t key hash = Some p \<Longrightarrow> HandleTable_Lookup (g ++ h) t key hash = Some p"
  by (auto simp: HandleTable_Lookup_def FindPointer_def FindPointer_loop_frame slot_read_frame split: bind_splits)

lemma Resize_chain_frame:
  assumes "Resize_chain n p h new_list cnt = Some r"
  shows "Resize_chain n p (g ++ h) new_list cnt = Some (g ++ fst r, snd r) \<and> dom (fst r) = dom h"
  using _ assms
proof (rule Resize_chain.raw_induct
    [where P = "\<lambda>n p h new_list cnt r. Resize_chain n p (g ++ h) new_list cnt = Some (g ++ fst r, snd r) \<and> dom (fst r) = dom h"])
  fix loop n p h new_list cnt r
  assume IH: "\<And>n p h new_list cnt r. loop n p h new_list cnt = Some r \<Longrightarrow>
      Resize_chain n p (g ++ h) new_list cnt = Some (g ++ fst r, snd r) \<and> dom (fst r) = dom h"
    and run: "(if p = 0 then Some (h, new_list, cnt)
      else do {
        e \<leftarrow> h p;
        let ptr = Bucket (unat (h_hash e AND (n - 1)));
        old \<leftarrow> slot_read h new_list ptr;
        (h, new_list) \<leftarrow> slot_write ptr p (h(p \<mapsto> e \<lparr> h_next_hash := old \<rparr>)) new_list;
        loop n (h_next_hash e) h new_list (cnt + 1)
      }) = Some r"
  show "Resize_chain n p (g ++ h) new_list cnt = Some (g ++ fst r, snd r) \<and> dom (fst r) = dom h"
  proof (cases "p = 0")
    case True
    then show ?thesis
      using run by (auto simp: Resize_chain.simps)
  next
    case False
    let ?i = "\<lambda>e. unat (h_hash e AND (n - 1))"
    obtain e where e: "h p = Some e" "?i e < length new_list"
      "loop n (h_next_hash e) (h(p \<mapsto> e \<lparr> h_next_hash := new_list ! ?i e \<rparr>)) (new_list[?i e := p]) (cnt + 1) = Some r"
      using False run by (auto simp: Let_def split: bind_splits)
    then show ?thesis
      using IH [OF e(3)] False by (subst Resize_chain.simps) (auto simp: Let_def)
  qed
qed

lemma Resize_buckets_frame:
  "Resize_buckets n list is h new_list cnt = Some r \<Longrightarrow>
   Resize_buckets n list is (g ++ h) new_list cnt = Some (g ++ fst r, snd r) \<and> dom (fst r) = dom h"
proof (induction "is" arbitrary: h new_list cnt)
  case (Cons i "is")
  then obtain q where q: "i < length list" "Resize_chain n (list ! i) h new_list cnt = Some q"
    "Resize_buckets n list is (fst q) (fst (snd q)) (snd (snd q)) = Some r"
    by (auto split: bind_splits prod.splits)
  show ?case
    using q(1) Resize_chain_frame [OF q(2), of g] Cons.IH [OF q(3)] by (auto split: prod.splits)
qed auto

lemma Resize_frame: "Resize h t = Some r \<Longrightarrow> Resize (g ++ h) t = Some (g ++ fst r, snd r) \<and> dom (fst r) = dom h"
proof -
  assume "Resize h t = Some r"
  then obtain n q where q: "Resize_length 4 (t_elems t) = Some n"
    "Resize_buckets n (t_list t) [0..<unat (t_length t)] h (replicate (unat n) 0) 0 = Some q"
    "t_elems t = snd (snd q)" "r = (fst q, t \<lparr> t_list := fst (snd q), t_length := n \<rparr>)"
    by (auto simp: Resize_def split: bind_splits prod.splits)
  then show ?thesis
    using Resize_buckets_frame [OF q(2), of g] by (auto simp: Resize_def split: prod.splits)
qed


lemma FindPointer_frame: "FindPointer h t key hash = Some s \<Longrightarrow> FindPointer (g ++ h) t key hash = Some s"
  by (simp add: FindPointer_def FindPointer_loop_frame)

lemma HandleTable_Insert_frame:
  assumes "HandleTable_Insert p h t = Some (old, h', t')"
  shows "HandleTable_Insert p (g ++ h) t = Some (old, g ++ h', t') \<and> dom h' = dom h"
proof -
  obtain key e s nxt h1 list where 1: "LRUHandle_key h p = Some key" "h p = Some e" "FindPointer h t key (h_hash e) = Some s"
    "slot_read h (t_list t) s = Some old" "(if old = 0 then Some 0 else map_option h_next_hash (h old)) = Some nxt"
    "slot_write s p (h(p \<mapsto> e \<lparr> h_next_hash := nxt \<rparr>)) (t_list t) = Some (h1, list)"
    and rest: "(if old = 0 \<and> t_elems t + 1 > t_length t
      then Resize h1 (t \<lparr> t_list := list, t_elems := t_elems t + 1 \<rparr>)
      else Some (h1, t \<lparr> t_list := list, t_elems := if old = 0 then t_elems t + 1 else t_elems t \<rparr>)) = Some (h', t')"
    using assms by (auto simp: HandleTable_Insert_def Let_def split: bind_splits if_splits)
  have 2: "LRUHandle_key (g ++ h) p = Some key" "(g ++ h) p = Some e" "FindPointer (g ++ h) t key (h_hash e) = Some s"
    "slot_read (g ++ h) (t_list t) s = Some old" "(if old = 0 then Some 0 else map_option h_next_hash ((g ++ h) old)) = Some nxt"
    using 1 by (auto simp: LRUHandle_key_frame FindPointer_frame slot_read_frame split: if_splits)
  have 3: "slot_write s p ((g ++ h)(p \<mapsto> e \<lparr> h_next_hash := nxt \<rparr>)) (t_list t) = Some (g ++ h1, list)" "dom h1 = dom h"
    using slot_write_frame [OF 1(6), of g] 1(2) by auto
  show ?thesis
  proof (cases "old = 0")
    case True
    then show ?thesis
      using 2 3 rest Resize_frame [of h1 _ "(h', t')" g] by (auto simp: HandleTable_Insert_def Let_def split: if_splits)
  next
    case False
    then obtain z where "h old = Some z" "nxt = h_next_hash z"
      using 1(5) by auto
    then show ?thesis
      using 2 3 rest False by (simp add: HandleTable_Insert_def Let_def)
  qed
qed

lemma HandleTable_Remove_frame:
  assumes "HandleTable_Remove key hash h t = Some (p, h', t')"
  shows "HandleTable_Remove key hash (g ++ h) t = Some (p, g ++ h', t') \<and> dom h' = dom h"
proof -
  obtain s where 1: "FindPointer h t key hash = Some s" "slot_read h (t_list t) s = Some p"
    using assms by (auto simp: HandleTable_Remove_def split: bind_splits if_splits)
  note 2 = FindPointer_frame [OF 1(1), of g] slot_read_frame [OF 1(2), of g]
  show ?thesis
  proof (cases "p = 0")
    case True
    then show ?thesis
      using assms 1 2 by (auto simp: HandleTable_Remove_def)
  next
    case False
    then obtain e list where 3: "h p = Some e" "slot_write s (h_next_hash e) h (t_list t) = Some (h', list)"
      "t' = t \<lparr> t_list := list, t_elems := t_elems t - 1 \<rparr>"
      using assms 1 by (auto simp: HandleTable_Remove_def split: bind_splits)
    show ?thesis
      using slot_write_frame [OF 3(2), of g] 2 3(1,3) False by (simp add: HandleTable_Remove_def)
  qed
qed

subsection \<open>The lists and the counts\<close>

lemma upd_frame: "upd p f h = Some h' \<Longrightarrow> upd p f (g ++ h) = Some (g ++ h') \<and> dom h' = dom h"
  by (auto simp: upd_def split: bind_splits if_splits)

lemma LRU_Remove_frame:
  assumes "LRU_Remove e h = Some h'"
  shows "LRU_Remove e (g ++ h) = Some (g ++ h') \<and> dom h' = dom h"
proof -
  obtain x h1 y where 1: "h e = Some x" "upd (h_next x) (h_prev_update (\<lambda>_. h_prev x)) h = Some h1" "h1 e = Some y"
    "upd (h_prev y) (h_next_update (\<lambda>_. h_next y)) h1 = Some h'"
    using assms by (auto simp: LRU_Remove_def split: bind_splits)
  then show ?thesis
    using upd_frame [OF 1(2), of g] upd_frame [OF 1(4), of g] by (simp add: LRU_Remove_def)
qed

lemma LRU_Append_frame:
  assumes "LRU_Append l e h = Some h'"
  shows "LRU_Append l e (g ++ h) = Some (g ++ h') \<and> dom h' = dom h"
proof -
  obtain h1 x h2 y h3 z where 1: "upd e (h_next_update (\<lambda>_. l)) h = Some h1" "h1 l = Some x"
    "upd e (h_prev_update (\<lambda>_. h_prev x)) h1 = Some h2" "h2 e = Some y"
    "upd (h_prev y) (h_next_update (\<lambda>_. e)) h2 = Some h3" "h3 e = Some z"
    "upd (h_next z) (h_prev_update (\<lambda>_. e)) h3 = Some h'"
    using assms by (auto simp: LRU_Append_def split: bind_splits)
  then show ?thesis
    using upd_frame [OF 1(1), of g] upd_frame [OF 1(3), of g] upd_frame [OF 1(5), of g] upd_frame [OF 1(7), of g]
    by (simp add: LRU_Append_def)
qed

lemma LRU_Ref_frame:
  assumes "LRU_Ref c e h = Some h'"
  shows "LRU_Ref c e (g ++ h) = Some (g ++ h') \<and> dom h' = dom h"
proof (cases "\<exists>x. h e = Some x \<and> h_refs x = 1 \<and> h_in_cache x")
  case True
  then obtain x h1 h2 where 1: "h e = Some x" "h_refs x = 1" "h_in_cache x" "LRU_Remove e h = Some h1"
    "LRU_Append (c_in_use c) e h1 = Some h2" "upd e (\<lambda>x. x \<lparr> h_refs := h_refs x + 1 \<rparr>) h2 = Some h'"
    using assms by (auto simp: LRU_Ref_def split: bind_splits)
  then show ?thesis
    using LRU_Remove_frame [OF 1(4), of g] LRU_Append_frame [OF 1(5), of g] upd_frame [OF 1(6), of g]
    by (simp add: LRU_Ref_def)
next
  case False
  then obtain x where 1: "h e = Some x" "\<not> (h_refs x = 1 \<and> h_in_cache x)" "upd e (\<lambda>x. x \<lparr> h_refs := h_refs x + 1 \<rparr>) h = Some h'"
    using assms by (auto simp: LRU_Ref_def split: bind_splits if_splits)
  then show ?thesis
    using upd_frame [OF 1(3), of g] by (auto simp: LRU_Ref_def)
qed

lemma LRU_Unref_frame:
  assumes run: "LRU_Unref c e (h, d) = Some (h', d')" and g: "disjoint_heaps g h"
  shows "LRU_Unref c e (g ++ h, d) = Some (g ++ h', d') \<and> dom h' \<subseteq> dom h"
proof -
  obtain x h1 y where 1: "h e = Some x" "h_refs x > 0" "upd e (\<lambda>x. x \<lparr> h_refs := h_refs x - 1 \<rparr>) h = Some h1" "h1 e = Some y"
    using run by (auto simp: LRU_Unref_def split: bind_splits)
  note f1 = upd_frame [OF 1(3), of g]
  show ?thesis
  proof (cases "h_refs y = 0")
    case True
    then obtain key where 2: "\<not> h_in_cache y" "LRUHandle_key h1 e = Some key" "h' = h1(e := None)" "d' = d @ [(h_deleter y, key, h_value y)]"
      using run 1 by (auto simp: LRU_Unref_def split: bind_splits)
    have "(g ++ h1)(e := None) = g ++ h'"
      unfolding 2(3) by (rule map_add_free) (rule disjoint_heaps_free [OF g 1(1)])
    then show ?thesis
      using True 1 2 f1 LRUHandle_key_frame [OF 2(2), of g] by (auto simp: LRU_Unref_def)
  next
    case False
    show ?thesis
    proof (cases "h_in_cache y \<and> h_refs y = 1")
      case True
      then obtain h2 where 2: "LRU_Remove e h1 = Some h2" "LRU_Append (c_lru c) e h2 = Some h'" "d' = d"
        using run 1 False by (auto simp: LRU_Unref_def split: bind_splits)
      show ?thesis
        using True False 1 f1 2(3) LRU_Remove_frame [OF 2(1), of g] LRU_Append_frame [OF 2(2), of g]
        by (simp add: LRU_Unref_def)
    next
      case more: False
      then show ?thesis
        using run False 1 f1 by (auto simp: LRU_Unref_def split: if_splits)
    qed
  qed
qed


lemma FinishErase_frame:
  assumes run: "FinishErase e (h, d) c = Some (b, (h', d'), c')" and g: "disjoint_heaps g h"
  shows "FinishErase e (g ++ h, d) c = Some (b, (g ++ h', d'), c') \<and> dom h' \<subseteq> dom h"
proof (cases "e = 0")
  case True
  then show ?thesis
    using run by (auto simp: FinishErase_def)
next
  case False
  then obtain x h1 h2 y where 1: "h e = Some x" "h_in_cache x" "LRU_Remove e h = Some h1"
    "upd e (\<lambda>x. x \<lparr> h_in_cache := False \<rparr>) h1 = Some h2" "h2 e = Some y" "c' = c \<lparr> c_usage := c_usage c - h_charge y \<rparr>"
    "LRU_Unref c' e (h2, d) = Some (h', d')" "b"
    using run by (auto simp: FinishErase_def Let_def split: bind_splits)
  note f = LRU_Remove_frame [OF 1(3), of g] upd_frame [OF 1(4), of g]
  have "disjoint_heaps g h2"
    using f g by (simp add: disjoint_heaps_def)
  then show ?thesis
    using LRU_Unref_frame [OF 1(7)] f False 1 by (simp add: FinishErase_def Let_def)
qed

lemma RemoveAndFinish_frame:
  assumes run: "RemoveAndFinish key hash (h, d) c = Some (b, (h', d'), c')" and g: "disjoint_heaps g h"
  shows "RemoveAndFinish key hash (g ++ h, d) c = Some (b, (g ++ h', d'), c') \<and> dom h' \<subseteq> dom h"
proof -
  obtain e h1 t where 1: "HandleTable_Remove key hash h (c_table c) = Some (e, h1, t)"
    "FinishErase e (h1, d) (c \<lparr> c_table := t \<rparr>) = Some (b, (h', d'), c')"
    using run by (auto simp: RemoveAndFinish_def split: bind_splits)
  note f = HandleTable_Remove_frame [OF 1(1), of g]
  have "disjoint_heaps g h1"
    using f g by (simp add: disjoint_heaps_def)
  then show ?thesis
    using FinishErase_frame [OF 1(2)] f by (simp add: RemoveAndFinish_def)
qed

lemma evict_oldest_frame:
  assumes run: "evict_oldest (h, d) c = Some ((h', d'), c')" and g: "disjoint_heaps g h"
  shows "evict_oldest (g ++ h, d) c = Some ((g ++ h', d'), c') \<and> dom h' \<subseteq> dom h"
proof -
  obtain l x key where 1: "h (c_lru c) = Some l" "h (h_next l) = Some x" "h_refs x = 1" "LRUHandle_key h (h_next l) = Some key"
    "RemoveAndFinish key (h_hash x) (h, d) c = Some (True, (h', d'), c')"
    using run by (auto simp: evict_oldest_def Let_def split: bind_splits)
  then show ?thesis
    using RemoveAndFinish_frame [OF 1(5) g] LRUHandle_key_frame [OF 1(4), of g] by (simp add: evict_oldest_def Let_def)
qed

text \<open>The two loops that evict share one scheme.\<close>

definition frames :: "handles \<Rightarrow> (memory \<Rightarrow> LRUCache \<Rightarrow> (memory \<times> LRUCache) option) \<Rightarrow> memory \<Rightarrow> LRUCache \<Rightarrow> memory \<times> LRUCache \<Rightarrow> bool" where
  "frames g f m c r \<longleftrightarrow> (disjoint_heaps g (fst m) \<longrightarrow>
     f (g ++ fst m, snd m) c = Some ((g ++ fst (fst r), snd (fst r)), snd r) \<and> dom (fst (fst r)) \<subseteq> dom (fst m))"

lemma frames_evict_step:
  assumes "evict_oldest m c = Some q" and "frames g f (fst q) (snd q) r"
    and "\<And>l. fst m (c_lru c) = Some l \<Longrightarrow>
      f (g ++ fst m, snd m) c = do { (m, c) \<leftarrow> evict_oldest (g ++ fst m, snd m) c; f m c }"
    and "fst m (c_lru c) = Some l"
  shows "frames g f m c r"
  unfolding frames_def
proof
  assume g: "disjoint_heaps g (fst m)"
  have "evict_oldest (fst m, snd m) c = Some ((fst (fst q), snd (fst q)), snd q)"
    using assms(1) by simp
  note e = evict_oldest_frame [OF this g]
  then have "disjoint_heaps g (fst (fst q))"
    using g disjoint_heaps_mono by blast
  then show "f (g ++ fst m, snd m) c = Some ((g ++ fst (fst r), snd (fst r)), snd r) \<and> dom (fst (fst r)) \<subseteq> dom (fst m)"
    using assms(2,3,4) e by (auto simp: frames_def)
qed

lemma evict_loop_frame:
  assumes "evict_loop m c = Some r"
  shows "frames g evict_loop m c r"
  using _ assms
proof (rule evict_loop.raw_induct [where P = "frames g evict_loop"])
  fix loop m c r
  assume IH: "\<And>m c r. loop m c = Some r \<Longrightarrow> frames g evict_loop m c r"
    and run: "do {
      l \<leftarrow> fst m (c_lru c);
      if c_usage c > c_capacity c \<and> h_next l \<noteq> c_lru c
      then do { (m, c) \<leftarrow> evict_oldest m c; loop m c }
      else Some (m, c)
    } = Some r"
  from run obtain l where l: "fst m (c_lru c) = Some l"
    by (auto split: bind_splits)
  show "frames g evict_loop m c r"
  proof (cases "c_usage c > c_capacity c \<and> h_next l \<noteq> c_lru c")
    case True
    then obtain q where q: "evict_oldest m c = Some q" "loop (fst q) (snd q) = Some r"
      using run l by (auto split: bind_splits prod.splits)
    show ?thesis
      by (rule frames_evict_step [OF q(1) IH [OF q(2)] _ l], subst evict_loop.simps) (use True l in simp)
  next
    case False
    then show ?thesis
      using run l by (auto simp: frames_def evict_loop.simps)
  qed
qed

lemma Prune_frame:
  assumes "LRUCache_Prune m c = Some r"
  shows "frames g LRUCache_Prune m c r"
  using _ assms
proof (rule LRUCache_Prune.raw_induct [where P = "frames g LRUCache_Prune"])
  fix loop m c r
  assume IH: "\<And>m c r. loop m c = Some r \<Longrightarrow> frames g LRUCache_Prune m c r"
    and run: "do {
      l \<leftarrow> fst m (c_lru c);
      if h_next l \<noteq> c_lru c
      then do { (m, c) \<leftarrow> evict_oldest m c; loop m c }
      else Some (m, c)
    } = Some r"
  from run obtain l where l: "fst m (c_lru c) = Some l"
    by (auto split: bind_splits)
  show "frames g LRUCache_Prune m c r"
  proof (cases "h_next l \<noteq> c_lru c")
    case True
    then obtain q where q: "evict_oldest m c = Some q" "loop (fst q) (snd q) = Some r"
      using run l by (auto split: bind_splits prod.splits)
    show ?thesis
      by (rule frames_evict_step [OF q(1) IH [OF q(2)] _ l], subst LRUCache_Prune.simps) (use True l in simp)
  next
    case False
    then show ?thesis
      using run l by (auto simp: frames_def LRUCache_Prune.simps)
  qed
qed


subsection \<open>Calls\<close>

fun allocates :: "cache_call \<Rightarrow> nat set" where
  "allocates (CInsert p _ _ _ _ _ _) = {p}"
| "allocates _ = {}"

lemma Lookup_frame:
  assumes "LRUCache_Lookup key hash (h, d) c = Some (r, (h', d'), c')"
  shows "LRUCache_Lookup key hash (g ++ h, d) c = Some (r, (g ++ h', d'), c') \<and> dom h' = dom h"
proof -
  have 1: "HandleTable_Lookup h (c_table c) key hash = Some r" "(if r \<noteq> 0 then LRU_Ref c r h else Some h) = Some h'" "d' = d" "c' = c"
    using assms by (auto simp: LRUCache_Lookup_def split: bind_splits)
  then show ?thesis
    using HandleTable_Lookup_frame [OF 1(1), of g] LRU_Ref_frame [of c r h h' g]
    by (auto simp: LRUCache_Lookup_def split: if_splits)
qed

lemma Insert_frame:
  assumes run: "LRUCache_Insert p block key hash val charge deleter (h, d) c = Some (r, (h', d'), c')"
    and g: "disjoint_heaps g h" and p: "g p = None"
  shows "LRUCache_Insert p block key hash val charge deleter (g ++ h, d) c = Some (r, (g ++ h', d'), c') \<and>
    dom h' \<subseteq> insert p (dom h)"
proof -
  define h1 where "h1 = h(p \<mapsto> block \<lparr> h_value := val, h_deleter := deleter, h_charge := charge, h_hash := hash,
                                  h_in_cache := False, h_refs := 1, h_key_data := key \<rparr>)"
  have h1: "(g ++ h)(p \<mapsto> block \<lparr> h_value := val, h_deleter := deleter, h_charge := charge, h_hash := hash,
      h_in_cache := False, h_refs := 1, h_key_data := key \<rparr>) = g ++ h1"
    by (simp add: h1_def)
  have d1: "dom h1 = insert p (dom h)" and g1: "disjoint_heaps g h1"
    using g p by (auto simp: h1_def disjoint_heaps_def)
  show ?thesis
  proof (cases "c_capacity c > 0")
    case True
    obtain h2 h3 old h4 t b m5 c5 where 1: "upd p (\<lambda>x. x \<lparr> h_refs := h_refs x + 1, h_in_cache := True \<rparr>) h1 = Some h2"
      "LRU_Append (c_in_use c) p h2 = Some h3"
      "HandleTable_Insert p h3 (c_table c) = Some (old, h4, t)"
      "FinishErase old (h4, d) (c \<lparr> c_usage := c_usage c + charge, c_table := t \<rparr>) = Some (b, m5, c5)"
      "evict_loop m5 c5 = Some ((h', d'), c')" "r = p"
      using run True unfolding LRUCache_Insert_def Let_def fst_conv snd_conv h1_def [symmetric] if_P [OF True]
      by (elim bind_SomeE) (auto elim!: bind_SomeE)
    note f = upd_frame [OF 1(1), of g] LRU_Append_frame [OF 1(2), of g] HandleTable_Insert_frame [OF 1(3), of g]
    have "disjoint_heaps g h4"
      using g1 f by (simp add: disjoint_heaps_def)
    then have f5: "FinishErase old (g ++ h4, d) (c \<lparr> c_usage := c_usage c + charge, c_table := t \<rparr>) = Some (b, (g ++ fst m5, snd m5), c5)"
        "dom (fst m5) \<subseteq> dom h4"
      using FinishErase_frame [of old h4 d _ b "fst m5" "snd m5" c5 g] 1(4) by simp_all
    then have "disjoint_heaps g (fst m5)"
      using \<open>disjoint_heaps g h4\<close> disjoint_heaps_mono by blast
    then have "evict_loop (g ++ fst m5, snd m5) c5 = Some ((g ++ h', d'), c')" "dom h' \<subseteq> dom (fst m5)"
      using evict_loop_frame [OF 1(5), of g] by (simp_all add: frames_def)
    moreover from this(2) have "dom h' \<subseteq> insert p (dom h)"
      using f f5(2) d1 by (metis subset_trans)
    ultimately show ?thesis
      using True f f5 1(6) unfolding LRUCache_Insert_def Let_def fst_conv h1 by simp
  next
    case False
    then obtain h2 where 1: "upd p (h_next_update (\<lambda>_. 0)) h1 = Some h2" "evict_loop (h2, d) c = Some ((h', d'), c')" "r = p"
      using run by (auto simp: LRUCache_Insert_def Let_def h1_def [symmetric] split: bind_splits)
    note f = upd_frame [OF 1(1), of g]
    have "disjoint_heaps g h2"
      using g1 f by (simp add: disjoint_heaps_def)
    then have "evict_loop (g ++ h2, d) c = Some ((g ++ h', d'), c')" "dom h' \<subseteq> dom h2"
      using evict_loop_frame [OF 1(2), of g] by (simp_all add: frames_def)
    moreover from this(2) have "dom h' \<subseteq> insert p (dom h)"
      using f d1 by blast
    ultimately show ?thesis
      using False f 1(3) unfolding LRUCache_Insert_def Let_def fst_conv h1 by simp
  qed
qed

lemma LRU_call_frame:
  assumes run: "LRU_call call (h, d) c = Some (r, (h', d'), c')"
    and g: "disjoint_heaps g h" and alloc: "dom g \<inter> allocates call = {}"
  shows "LRU_call call (g ++ h, d) c = Some (r, (g ++ h', d'), c') \<and> dom h' \<subseteq> allocates call \<union> dom h"
proof (cases call)
  case (CInsert p block key hash val charge deleter)
  then show ?thesis
    using Insert_frame [OF _ g] run alloc by (simp add: domIff)
next
  case (CLookup key hash)
  then show ?thesis
    using Lookup_frame [of key hash h d c r h' d' c' g] run by simp
next
  case (CRelease x)
  then show ?thesis
    using LRU_Unref_frame [OF _ g, of c x d h' d'] run by (auto simp: LRUCache_Release_def split: bind_splits)
next
  case (CErase key hash)
  then show ?thesis
    using RemoveAndFinish_frame [OF _ g, of key hash d c _ h' d' c'] run by (auto simp: LRUCache_Erase_def)
next
  case CPrune
  then show ?thesis
    using Prune_frame [of "(h, d)" c "((h', d'), c')" g] g run by (auto simp: frames_def)
qed

lemma destructor_loop_frame:
  assumes "LRUCache_destructor_loop c e m = Some r"
  shows "disjoint_heaps g (fst m) \<longrightarrow>
    LRUCache_destructor_loop c e (g ++ fst m, snd m) = Some (g ++ fst r, snd r) \<and> dom (fst r) \<subseteq> dom (fst m)"
  using _ assms
proof (rule LRUCache_destructor_loop.raw_induct [where P = "\<lambda>c e m r. disjoint_heaps g (fst m) \<longrightarrow>
    LRUCache_destructor_loop c e (g ++ fst m, snd m) = Some (g ++ fst r, snd r) \<and> dom (fst r) \<subseteq> dom (fst m)"], intro impI)
  fix loop c e m r
  assume IH: "\<And>c e m r. loop c e m = Some r \<Longrightarrow> disjoint_heaps g (fst m) \<longrightarrow>
      LRUCache_destructor_loop c e (g ++ fst m, snd m) = Some (g ++ fst r, snd r) \<and> dom (fst r) \<subseteq> dom (fst m)"
    and run: "(if e \<noteq> c_lru c then do {
        x \<leftarrow> fst m e;
        let nxt = h_next x;
        asserting (h_in_cache x) (do {
          h \<leftarrow> upd e (\<lambda>x. x \<lparr> h_in_cache := False \<rparr>) (fst m);
          x \<leftarrow> h e;
          asserting (h_refs x = 1) (do {
            m \<leftarrow> LRU_Unref c e (h, snd m);
            loop c nxt m
          })
        })
      } else Some m) = Some r"
    and g: "disjoint_heaps g (fst m)"
  show "LRUCache_destructor_loop c e (g ++ fst m, snd m) = Some (g ++ fst r, snd r) \<and> dom (fst r) \<subseteq> dom (fst m)"
  proof (cases "e = c_lru c")
    case True
    then show ?thesis
      using run by (subst LRUCache_destructor_loop.simps) simp
  next
    case False
    then obtain x h1 y m2 where 1: "fst m e = Some x" "h_in_cache x" "upd e (\<lambda>x. x \<lparr> h_in_cache := False \<rparr>) (fst m) = Some h1"
      "h1 e = Some y" "h_refs y = 1" "LRU_Unref c e (h1, snd m) = Some (fst m2, snd m2)" "loop c (h_next x) m2 = Some r"
      using run by (auto simp: Let_def split: bind_splits)
    note f = upd_frame [OF 1(3), of g]
    have g1: "disjoint_heaps g h1"
      using f g by (simp add: disjoint_heaps_def)
    note f2 = LRU_Unref_frame [OF 1(6) g1]
    have "disjoint_heaps g (fst m2)"
      using f2 g1 disjoint_heaps_mono by blast
    then have "LRUCache_destructor_loop c (h_next x) (g ++ fst m2, snd m2) = Some (g ++ fst r, snd r)" "dom (fst r) \<subseteq> dom (fst m2)"
      using IH [OF 1(7)] by blast+
    moreover from this(2) have "dom (fst r) \<subseteq> dom (fst m)"
      using f f2 by blast
    ultimately show ?thesis
      using False 1(1,2,4,5) f f2 by (subst LRUCache_destructor_loop.simps) (simp add: Let_def)
  qed
qed

lemma destructor_frame:
  assumes run: "LRUCache_destructor (h, d) c = Some (h', d')" and g: "disjoint_heaps g h"
  shows "LRUCache_destructor (g ++ h, d) c = Some (g ++ h', d') \<and> dom h' \<subseteq> dom h"
proof -
  obtain u l where 1: "h (c_in_use c) = Some u" "h_next u = c_in_use c" "h (c_lru c) = Some l"
    "LRUCache_destructor_loop c (h_next l) (h, d) = Some (h', d')"
    using run by (auto simp: LRUCache_destructor_def split: bind_splits)
  then show ?thesis
    using destructor_loop_frame [OF 1(4), of g] g by (simp add: LRUCache_destructor_def)
qed

end
