(* ===== verification/ShardedCache.thy ===== *)
theory ShardedCache
  imports CacheFrame Hash
begin

text \<open>
  \<^verbatim>\<open>ShardedLRUCache\<close> of \<^verbatim>\<open>util/cache.cpp\<close>: sixteen shards on one heap, the shard of a key chosen by
  the upper four bits of its hash. Every call refines the abstract call on the shard of its key
  and leaves the other shards as they are.
\<close>

subsection \<open>Definitions\<close>

definition kNumShardBits :: nat where
  "kNumShardBits = 4"

definition kNumShards :: nat where
  "kNumShards = push_bit kNumShardBits 1"

record ShardedLRUCache =
  s_shard :: "LRUCache list"
  s_last_id :: u64

definition HashSlice :: "bytes \<Rightarrow> u32" where
  "HashSlice s = Hash s 0"

definition Shard :: "u32 \<Rightarrow> u32" where
  "Shard hash = drop_bit (32 - kNumShardBits) hash"

text \<open>
  The array member: the shards are constructed in order, then their capacity is set. The list
  gives the addresses of the two list heads of each shard, \<open>junk\<close> the content of their other
  fields.
\<close>

fun new_shards :: "(nat \<times> nat) list \<Rightarrow> (nat \<Rightarrow> LRUHandle) \<Rightarrow> handles \<Rightarrow> (handles \<times> LRUCache list) option" where
  "new_shards [] junk h = Some (h, [])"
| "new_shards ((lru, in_use) # heads) junk h = do {
     (h, c) \<leftarrow> new_LRUCache lru in_use (junk lru) (junk in_use) h;
     (h, cs) \<leftarrow> new_shards heads junk h;
     Some (h, c # cs)
   }"

definition new_ShardedLRUCache ::
    "u64 \<Rightarrow> (nat \<times> nat) list \<Rightarrow> (nat \<Rightarrow> LRUHandle) \<Rightarrow> handles \<Rightarrow> (handles \<times> ShardedLRUCache) option" where
  "new_ShardedLRUCache capacity heads junk h = do {
     (h, cs) \<leftarrow> new_shards heads junk h;
     let per_shard = (capacity + (word_of_nat kNumShards - 1)) div word_of_nat kNumShards;
     Some (h, \<lparr> s_shard = map (SetCapacity per_shard) cs, s_last_id = 0 \<rparr>)
   }"

text \<open>A call of \<^verbatim>\<open>shard_[s]\<close>.\<close>

definition on_shard ::
    "nat \<Rightarrow> (memory \<Rightarrow> LRUCache \<Rightarrow> ('a \<times> memory \<times> LRUCache) option) \<Rightarrow> memory \<Rightarrow> ShardedLRUCache \<Rightarrow>
     ('a \<times> memory \<times> ShardedLRUCache) option" where
  "on_shard s f m S = asserting (s < length (s_shard S)) (do {
     (r, m, c) \<leftarrow> f m (s_shard S ! s);
     Some (r, m, S \<lparr> s_shard := (s_shard S)[s := c] \<rparr>)
   })"

definition ShardedLRUCache_Insert ::
    "nat \<Rightarrow> LRUHandle \<Rightarrow> bytes \<Rightarrow> u64 \<Rightarrow> u64 \<Rightarrow> u64 \<Rightarrow> memory \<Rightarrow> ShardedLRUCache \<Rightarrow> (nat \<times> memory \<times> ShardedLRUCache) option" where
  "ShardedLRUCache_Insert e block key val charge deleter =
     (let hash = HashSlice key in on_shard (unat (Shard hash)) (LRUCache_Insert e block key hash val charge deleter))"

definition ShardedLRUCache_Lookup :: "bytes \<Rightarrow> memory \<Rightarrow> ShardedLRUCache \<Rightarrow> (nat \<times> memory \<times> ShardedLRUCache) option" where
  "ShardedLRUCache_Lookup key = (let hash = HashSlice key in on_shard (unat (Shard hash)) (LRUCache_Lookup key hash))"

definition ShardedLRUCache_Release :: "nat \<Rightarrow> memory \<Rightarrow> ShardedLRUCache \<Rightarrow> (unit \<times> memory \<times> ShardedLRUCache) option" where
  "ShardedLRUCache_Release handle m S = do {
     h \<leftarrow> fst m handle;
     on_shard (unat (Shard (h_hash h))) (\<lambda>m c. map_option (Pair ()) (LRUCache_Release handle m c)) m S
   }"

definition ShardedLRUCache_Erase :: "bytes \<Rightarrow> memory \<Rightarrow> ShardedLRUCache \<Rightarrow> (unit \<times> memory \<times> ShardedLRUCache) option" where
  "ShardedLRUCache_Erase key =
     (let hash = HashSlice key in on_shard (unat (Shard hash)) (\<lambda>m c. map_option (Pair ()) (LRUCache_Erase key hash m c)))"

definition ShardedLRUCache_Value :: "nat \<Rightarrow> memory \<Rightarrow> u64 option" where
  "ShardedLRUCache_Value handle m = map_option h_value (fst m handle)"

definition ShardedLRUCache_NewId :: "ShardedLRUCache \<Rightarrow> u64 \<times> ShardedLRUCache" where
  "ShardedLRUCache_NewId S = (let S = S \<lparr> s_last_id := s_last_id S + 1 \<rparr> in (s_last_id S, S))"

fun Prune_shards :: "nat list \<Rightarrow> memory \<Rightarrow> ShardedLRUCache \<Rightarrow> (unit \<times> memory \<times> ShardedLRUCache) option" where
  "Prune_shards [] m S = Some ((), m, S)"
| "Prune_shards (s # ss) m S = do {
     (_, m, S) \<leftarrow> on_shard s (\<lambda>m c. map_option (Pair ()) (LRUCache_Prune m c)) m S;
     Prune_shards ss m S
   }"

definition ShardedLRUCache_Prune :: "memory \<Rightarrow> ShardedLRUCache \<Rightarrow> (unit \<times> memory \<times> ShardedLRUCache) option" where
  "ShardedLRUCache_Prune = Prune_shards [0..<kNumShards]"

definition ShardedLRUCache_TotalCharge :: "ShardedLRUCache \<Rightarrow> u64" where
  "ShardedLRUCache_TotalCharge S = foldl (\<lambda>total s. total + LRUCache_TotalCharge (s_shard S ! s)) 0 [0..<kNumShards]"

text \<open>The implicit destruction of the array member, last shard first.\<close>

fun destroy_shards :: "LRUCache list \<Rightarrow> memory \<Rightarrow> memory option" where
  "destroy_shards [] m = Some m"
| "destroy_shards (c # cs) m = do { m \<leftarrow> LRUCache_destructor m c; destroy_shards cs m }"

definition ShardedLRUCache_destructor :: "memory \<Rightarrow> ShardedLRUCache \<Rightarrow> memory option" where
  "ShardedLRUCache_destructor m S = destroy_shards (rev (s_shard S)) m"

subsection \<open>The representation\<close>

text \<open>The addresses that belong to a shard.\<close>

definition owned :: "LRUCache \<Rightarrow> ACache \<Rightarrow> nat set" where
  "owned c A = insert (c_lru c) (insert (c_in_use c) (live A))"

definition part :: "memory \<Rightarrow> LRUCache \<Rightarrow> ACache \<Rightarrow> memory" where
  "part m c A = (fst m |` owned c A, snd m)"

definition routed :: "nat \<Rightarrow> ACache \<Rightarrow> bool" where
  "routed s A \<longleftrightarrow> (\<forall>x e. a_entry A x = Some e \<longrightarrow> e_hash e = HashSlice (e_key e) \<and> unat (Shard (e_hash e)) = s)"

definition sharded_rep :: "memory \<Rightarrow> ShardedLRUCache \<Rightarrow> ACache list \<Rightarrow> bool" where
  "sharded_rep m S As \<longleftrightarrow>
     length (s_shard S) = kNumShards \<and> length As = kNumShards \<and>
     (\<forall>s < kNumShards. cache_rep (part m (s_shard S ! s) (As ! s)) (s_shard S ! s) (As ! s) \<and> routed s (As ! s)) \<and>
     (\<forall>s < kNumShards. \<forall>t < kNumShards. s \<noteq> t \<longrightarrow> owned (s_shard S ! s) (As ! s) \<inter> owned (s_shard S ! t) (As ! t) = {}) \<and>
     dom (fst m) = (\<Union>s < kNumShards. owned (s_shard S ! s) (As ! s))"

definition heads :: "ShardedLRUCache \<Rightarrow> (nat \<times> nat) list" where
  "heads S = map (\<lambda>c. (c_lru c, c_in_use c)) (s_shard S)"

text \<open>The calls of the deleters are recorded in one place.\<close>

definition with_log :: "deletion list \<Rightarrow> ACache \<Rightarrow> ACache" where
  "with_log d A = A \<lparr> a_deleted := d \<rparr>"

definition a_on :: "nat \<Rightarrow> cache_call \<Rightarrow> ACache list \<Rightarrow> nat \<times> ACache list" where
  "a_on s call As = (let (r, A) = a_call call (As ! s) in (r, map (with_log (a_deleted A)) (As[s := A])))"

lemma with_log_simps [simp]:
  "a_lru (with_log d A) = a_lru A" "a_use (with_log d A) = a_use A" "a_loose (with_log d A) = a_loose A"
  "a_entry (with_log d A) = a_entry A" "a_refs (with_log d A) = a_refs A" "a_capacity (with_log d A) = a_capacity A"
  "a_usage (with_log d A) = a_usage A" "a_deleted (with_log d A) = d"
  "live (with_log d A) = live A" "a_cached (with_log d A) = a_cached A" "owned c (with_log d A) = owned c A"
  "key_at (with_log d A) = key_at A" "charge_at (with_log d A) = charge_at A" "routed s (with_log d A) = routed s A"
  by (simp_all add: with_log_def live_def a_cached_def owned_def key_at_def charge_at_def routed_def fun_eq_iff)

lemma with_log_same: "a_deleted A = d \<Longrightarrow> with_log d A = A"
  by (auto simp: with_log_def)

lemma cache_rep_log:
  assumes "cache_rep (h, d) c A"
  shows "cache_rep (h, d') c (with_log d' A)"
proof -
  obtain T where "cache_repT (h, d) c A T" "table_ok A T" "usage_ok A"
    using assms unfolding cache_rep_def by blast
  moreover have "cache_repT (h, d') c (with_log d' A) T \<longleftrightarrow> cache_repT (h, d) c (with_log d A) T" for T
    unfolding cache_repT_def handle_ok_def by simp
  moreover have "with_log d A = A"
    using calculation(1) by (intro with_log_same) (simp add: cache_repT_def)
  ultimately show ?thesis
    unfolding cache_rep_def table_ok_def usage_ok_def by auto
qed

lemma cache_rep_owned: "cache_rep m c A \<Longrightarrow> dom (fst m) = owned c A"
  unfolding cache_rep_def cache_repT_def owned_def by blast

lemma cache_rep_deleted: "cache_rep m c A \<Longrightarrow> snd m = a_deleted A"
  unfolding cache_rep_def cache_repT_def by blast


text \<open>A call changes the handles of its shard and, for \<^verbatim>\<open>Insert\<close>, the new one.\<close>

lemma a_drop_entries: "a_entry (a_drop x A) \<subseteq>\<^sub>m a_entry A"
  by (auto simp: map_le_def a_drop_def a_unref_def Let_def split: if_splits)

lemma a_evict_entries: "a_entry (a_evict A) \<subseteq>\<^sub>m a_entry A"
proof (induction A rule: a_evict.induct)
  case (1 A)
  then show ?case
    using map_le_trans [OF _ a_drop_entries] by (subst a_evict.simps) auto
qed

lemma a_prune_entries: "a_entry (a_prune A) \<subseteq>\<^sub>m a_entry A"
proof (induction A rule: a_prune.induct)
  case (1 A)
  then show ?case
    using map_le_trans [OF _ a_drop_entries] by (subst a_prune.simps) auto
qed

fun call_entry :: "cache_call \<Rightarrow> nat \<rightharpoonup> Entry" where
  "call_entry (CInsert p block key hash val charge deleter) =
     [p \<mapsto> \<lparr> e_value = val, e_deleter = deleter, e_charge = charge, e_hash = hash, e_key = key \<rparr>]"
| "call_entry _ = Map.empty"

lemma a_call_entries: "a_entry (snd (a_call call A)) \<subseteq>\<^sub>m a_entry A ++ call_entry call"
proof (cases call)
  case (CInsert p block key hash val charge deleter)
  have "a_entry (a_insert p e A) \<subseteq>\<^sub>m (a_entry A)(p \<mapsto> e)" for e
    unfolding a_insert_def
    by (rule map_le_trans [OF a_evict_entries])
      (auto simp: a_keep_def a_add_def split: option.splits intro: map_le_trans [OF a_drop_entries])
  then show ?thesis
    using CInsert by simp
next
  case (CRelease x)
  then show ?thesis
    by (auto simp: map_le_def a_unref_def Let_def split: if_splits)
qed (auto simp: a_lookup_def a_erase_def a_drop_entries a_prune_entries split: option.splits)

fun call_routed :: "nat \<Rightarrow> cache_call \<Rightarrow> bool" where
  "call_routed s (CInsert p block key hash val charge deleter) \<longleftrightarrow> hash = HashSlice key \<and> unat (Shard hash) = s"
| "call_routed s _ \<longleftrightarrow> True"

lemma routed_call:
  assumes "routed s A" and "call_routed s call"
  shows "routed s (snd (a_call call A))"
  unfolding routed_def
proof (intro allI impI)
  fix x e
  assume "a_entry (snd (a_call call A)) x = Some e"
  then have "(a_entry A ++ call_entry call) x = Some e"
    using a_call_entries [of call A] by (auto simp: map_le_def dom_def)
  then have "a_entry A x = Some e \<or> call_entry call x = Some e"
    by auto
  then show "e_hash e = HashSlice (e_key e) \<and> unat (Shard (e_hash e)) = s"
  proof
    assume "call_entry call x = Some e"
    then show ?thesis
      using assms(2) by (cases call) (auto split: if_splits)
  qed (use assms(1) in \<open>unfold routed_def, blast\<close>)
qed

lemma part_split: "fst m = fst m |` (- owned c A) ++ fst (part m c A)"
  by (auto simp: part_def map_add_def restrict_map_def fun_eq_iff split: option.splits)

lemma map_add_restrict_dom: "(g ++ h) |` dom h = h"
proof
  fix x
  show "((g ++ h) |` dom h) x = h x"
    by (cases "h x") (auto simp: restrict_map_def domIff)
qed

lemma on_shard_rep:
  assumes rep: "sharded_rep m S As" and s: "s < kNumShards"
    and allowed: "a_allowed (c_lru (s_shard S ! s)) (c_in_use (s_shard S ! s)) call (As ! s)"
    and alloc: "allocates call \<inter> dom (fst m) = {}" and routed: "call_routed s call"
  shows "\<exists>m' S'. on_shard s (LRU_call call) m S = Some (fst (a_on s call As), m', S') \<and>
    sharded_rep m' S' (snd (a_on s call As)) \<and> s_last_id S' = s_last_id S \<and> heads S' = heads S"
proof -
  let ?c = "s_shard S ! s" and ?A = "As ! s"
  let ?g = "fst m |` (- owned ?c ?A)" and ?h = "fst m |` owned ?c ?A"
  note R = rep [unfolded sharded_rep_def]
  have rep_s: "cache_rep (?h, snd m) ?c ?A"
    using R s by (simp add: part_def)
  obtain r A' where A': "a_call call ?A = (r, A')"
    by fastforce
  from call_rep [OF rep_s allowed] obtain h' d' c' where run: "LRU_call call (?h, snd m) ?c = Some (r, (h', d'), c')"
    and rep': "cache_rep (h', d') c' A'" and same: "c_lru c' = c_lru ?c" "c_in_use c' = c_in_use ?c"
    using A' by auto
  have "disjoint_heaps ?g ?h"
    by (auto simp: disjoint_heaps_def restrict_map_def split: if_splits)
  moreover have "dom ?g \<inter> allocates call = {}"
    using alloc by auto
  ultimately have frame: "LRU_call call (?g ++ ?h, snd m) ?c = Some (r, (?g ++ h', d'), c')"
    "dom h' \<subseteq> allocates call \<union> dom ?h"
    using LRU_call_frame [OF run] by blast+
  have m: "?g ++ ?h = fst m"
    using part_split [of m ?c ?A] by (simp add: part_def)
  let ?m = "(?g ++ h', d')" and ?S = "S \<lparr> s_shard := (s_shard S)[s := c'] \<rparr>" and ?As = "map (with_log d') (As[s := A'])"
  have log: "d' = a_deleted A'" and own: "dom h' = owned c' A'"
    using cache_rep_deleted [OF rep'] cache_rep_owned [OF rep'] by simp_all
  have on: "on_shard s (LRU_call call) m S = Some (r, ?m, ?S)"
    using frame(1) R s unfolding on_shard_def m by simp
  have other: "owned c' A' \<inter> owned (s_shard S ! t) (As ! t) = {}" if t: "t < kNumShards" "t \<noteq> s" for t
  proof -
    have "owned ?c ?A \<inter> owned (s_shard S ! t) (As ! t) = {}" "owned (s_shard S ! t) (As ! t) \<subseteq> dom (fst m)"
      using R s t by blast+
    then show ?thesis
      using frame(2) alloc unfolding own dom_restrict by blast
  qed
  have "sharded_rep ?m ?S ?As"
    unfolding sharded_rep_def
  proof (intro conjI allI impI)
    fix t
    assume t: "t < kNumShards"
    show "cache_rep (part ?m (s_shard ?S ! t) (?As ! t)) (s_shard ?S ! t) (?As ! t)"
    proof (cases "t = s")
      case True
      have "(?g ++ h') |` owned c' A' = h'"
        unfolding own [symmetric] by (rule map_add_restrict_dom)
      then show ?thesis
        using True R s rep' log by (simp add: part_def with_log_same)
    next
      case False
      have "(?g ++ h') x = fst m x" if "x \<in> owned (s_shard S ! t) (As ! t)" for x
      proof -
        have "x \<notin> owned ?c ?A" "x \<notin> owned c' A'"
          using that other [OF t False] R s t False by blast+
        then show ?thesis
          using own by (auto simp: map_add_def restrict_map_def split: option.splits)
      qed
      then have "(?g ++ h') |` owned (s_shard S ! t) (As ! t) = fst m |` owned (s_shard S ! t) (As ! t)"
        by (auto simp: restrict_map_def)
      moreover have "cache_rep (fst m |` owned (s_shard S ! t) (As ! t), d') (s_shard S ! t) (with_log d' (As ! t))"
        by (rule cache_rep_log [of _ "snd m"]) (use R t in \<open>simp add: part_def\<close>)
      ultimately show ?thesis
        using False R t by (simp add: part_def)
    qed
    show "routed t (?As ! t)"
      using routed_call [OF _ routed, of ?A] R s t A' by (cases "t = s") auto
  next
    fix t u
    assume "t < kNumShards" "u < kNumShards" "t \<noteq> u"
    then show "owned (s_shard ?S ! t) (?As ! t) \<inter> owned (s_shard ?S ! u) (?As ! u) = {}"
      using R s other by (cases "t = s"; cases "u = s") (auto simp: Int_commute)
  next
    have "dom (?g ++ h') = owned c' A' \<union> (dom (fst m) - owned ?c ?A)"
      by (auto simp: own dom_map_add)
    also have "\<dots> = (\<Union>t < kNumShards. owned (s_shard ?S ! t) (?As ! t))"
    proof -
      have "dom (fst m) - owned ?c ?A = (\<Union>t \<in> {..<kNumShards} - {s}. owned (s_shard S ! t) (As ! t))"
        using R s by blast
      moreover have "(\<Union>t < kNumShards. owned (s_shard ?S ! t) (?As ! t)) =
          owned (s_shard ?S ! s) (?As ! s) \<union> (\<Union>t \<in> {..<kNumShards} - {s}. owned (s_shard ?S ! t) (?As ! t))"
        using s by blast
      moreover have "(\<Union>t \<in> {..<kNumShards} - {s}. owned (s_shard ?S ! t) (?As ! t)) =
          (\<Union>t \<in> {..<kNumShards} - {s}. owned (s_shard S ! t) (As ! t))"
        using R by (intro SUP_cong) auto
      ultimately show ?thesis
        using R s by simp
    qed
    finally show "dom (fst ?m) = (\<Union>t < kNumShards. owned (s_shard ?S ! t) (?As ! t))"
      by simp
  qed (use R in simp_all)
  moreover have "heads ?S = heads S"
    using same R s by (simp add: heads_def map_update list_update_same_conv)
  ultimately show ?thesis
    using on A' log by (intro exI [of _ ?m] exI [of _ ?S]) (simp add: a_on_def)
qed


subsection \<open>Calls\<close>

datatype sharded_call =
  SInsert nat LRUHandle bytes u64 u64 u64
| SLookup bytes
| SRelease nat
| SErase bytes
| SPrune

text \<open>The result is a handle, or 0.\<close>

definition no_handle :: "(unit \<times> 'm \<times> 'c) option \<Rightarrow> (nat \<times> 'm \<times> 'c) option" where
  "no_handle = map_option (\<lambda>(_, m, c). (0, m, c))"

fun Sharded_call :: "sharded_call \<Rightarrow> memory \<Rightarrow> ShardedLRUCache \<Rightarrow> (nat \<times> memory \<times> ShardedLRUCache) option" where
  "Sharded_call (SInsert p block key val charge deleter) m S = ShardedLRUCache_Insert p block key val charge deleter m S"
| "Sharded_call (SLookup key) m S = ShardedLRUCache_Lookup key m S"
| "Sharded_call (SRelease x) m S = no_handle (ShardedLRUCache_Release x m S)"
| "Sharded_call (SErase key) m S = no_handle (ShardedLRUCache_Erase key m S)"
| "Sharded_call SPrune m S = no_handle (ShardedLRUCache_Prune m S)"

definition shard_of :: "bytes \<Rightarrow> nat" where
  "shard_of key = unat (Shard (HashSlice key))"

text \<open>The shard that has a handle.\<close>

definition home :: "nat \<Rightarrow> ACache list \<Rightarrow> nat" where
  "home x As = length (takeWhile (\<lambda>A. x \<notin> live A) As)"

fun prune_on :: "nat list \<Rightarrow> ACache list \<Rightarrow> ACache list" where
  "prune_on [] As = As"
| "prune_on (s # ss) As = prune_on ss (snd (a_on s CPrune As))"

fun as_call :: "sharded_call \<Rightarrow> ACache list \<Rightarrow> nat \<times> ACache list" where
  "as_call (SInsert p block key val charge deleter) As =
     a_on (shard_of key) (CInsert p block key (HashSlice key) val charge deleter) As"
| "as_call (SLookup key) As = a_on (shard_of key) (CLookup key (HashSlice key)) As"
| "as_call (SRelease x) As = a_on (home x As) (CRelease x) As"
| "as_call (SErase key) As = a_on (shard_of key) (CErase key (HashSlice key)) As"
| "as_call SPrune As = (0, prune_on [0..<kNumShards] As)"

text \<open>What a client and \<^verbatim>\<open>malloc\<close> owe; \<open>used\<close> are the addresses in use.\<close>

fun as_allowed :: "nat set \<Rightarrow> sharded_call \<Rightarrow> ACache list \<Rightarrow> bool" where
  "as_allowed used (SInsert p block key val charge deleter) As \<longleftrightarrow>
     p \<noteq> 0 \<and> p \<notin> used \<and> length (a_cached (As ! shard_of key)) < 2 ^ 31"
| "as_allowed used (SLookup key) As \<longleftrightarrow>
     (case a_find (As ! shard_of key) (HashSlice key, key) of None \<Rightarrow> True
      | Some x \<Rightarrow> a_refs (As ! shard_of key) x + 2 < 2 ^ 32)"
| "as_allowed used (SRelease x) As \<longleftrightarrow> home x As < length As \<and> a_refs (As ! home x As) x > 0"
| "as_allowed used _ As \<longleftrightarrow> True"

lemma kNumShards_eq: "kNumShards = 16"
  by (simp add: kNumShards_def kNumShardBits_def push_bit_eq_mult)

lemma shard_of_less: "unat (Shard w) < kNumShards"
proof -
  have "unat (Shard w) = unat w div 2 ^ 28"
    by (simp add: Shard_def kNumShardBits_def drop_bit_eq_div unat_div unat_pow2)
  moreover have "unat w < 2 ^ 32"
    using unsigned_less [of w] by simp
  ultimately show ?thesis
    by (simp add: kNumShards_eq)
qed

lemma home_live: "home x As < length As \<Longrightarrow> x \<in> live (As ! home x As)"
  unfolding home_def by (metis (mono_tags, lifting) nth_length_takeWhile)

lemma LRU_call_Insert: "LRU_call (CInsert p block key hash val charge deleter) = LRUCache_Insert p block key hash val charge deleter"
  and LRU_call_Lookup: "LRU_call (CLookup key hash) = LRUCache_Lookup key hash"
  and LRU_call_Release: "LRU_call (CRelease x) = (\<lambda>m c. map_option (Pair 0) (LRUCache_Release x m c))"
  and LRU_call_Erase: "LRU_call (CErase key hash) = (\<lambda>m c. map_option (Pair 0) (LRUCache_Erase key hash m c))"
  by (simp_all add: fun_eq_iff)

lemma on_shard_no_handle:
  "no_handle (on_shard s (\<lambda>m c. map_option (Pair ()) (f m c)) m S) = on_shard s (\<lambda>m c. map_option (Pair 0) (f m c)) m S"
  by (auto simp: no_handle_def on_shard_def asserting_def map_option_case split: bind_splits option.splits)

lemma Prune_shards_rep:
  assumes "sharded_rep m S As" and "\<forall>s \<in> set ss. s < kNumShards"
  shows "\<exists>m' S'. Prune_shards ss m S = Some ((), m', S') \<and> sharded_rep m' S' (prune_on ss As) \<and> s_last_id S' = s_last_id S \<and> heads S' = heads S"
  using assms
proof (induction ss arbitrary: m S As)
  case (Cons s ss)
  obtain m1 S1 where 1: "on_shard s (LRU_call CPrune) m S = Some (fst (a_on s CPrune As), m1, S1)"
    "sharded_rep m1 S1 (snd (a_on s CPrune As))" "s_last_id S1 = s_last_id S" "heads S1 = heads S"
    using on_shard_rep [OF Cons.prems(1), of s CPrune] Cons.prems(2) by auto
  have "on_shard s (\<lambda>m c. map_option (Pair ()) (LRUCache_Prune m c)) m S = Some ((), m1, S1)"
    using 1(1) unfolding on_shard_def by (auto simp: asserting_def split: bind_splits if_splits)
  then show ?case
    using Cons.IH [OF 1(2)] Cons.prems(2) 1(3,4) by simp
qed simp

lemma Sharded_call_rep:
  assumes rep: "sharded_rep m S As" and allowed: "as_allowed (dom (fst m)) call As"
  shows "\<exists>m' S'. Sharded_call call m S = Some (fst (as_call call As), m', S') \<and> sharded_rep m' S' (snd (as_call call As)) \<and>
    s_last_id S' = s_last_id S \<and> heads S' = heads S"
proof -
  note R = rep [unfolded sharded_rep_def]
  have own: "owned (s_shard S ! s) (As ! s) \<subseteq> dom (fst m)" if "s < kNumShards" for s
    using R that by blast
  note on = on_shard_rep [OF rep shard_of_less]
  show ?thesis
  proof (cases call)
    case (SInsert p block key val charge deleter)
    then have "p \<notin> owned (s_shard S ! shard_of key) (As ! shard_of key)" "p \<notin> dom (fst m)"
      using own [OF shard_of_less, of "HashSlice key"] allowed by (auto simp: shard_of_def)
    then show ?thesis
      using on [of "HashSlice key" "CInsert p block key (HashSlice key) val charge deleter"] allowed SInsert
      by (simp add: ShardedLRUCache_Insert_def Let_def shard_of_def owned_def LRU_call_Insert)
  next
    case (SLookup key)
    then have "a_allowed lru in_use (CLookup key (HashSlice key)) (As ! unat (Shard (HashSlice key)))" for lru in_use
      using allowed by (simp add: shard_of_def [symmetric])
    from on [OF this] show ?thesis
      using SLookup by (simp add: ShardedLRUCache_Lookup_def Let_def shard_of_def LRU_call_Lookup)
  next
    case (SRelease x)
    let ?s = "home x As"
    have s: "?s < kNumShards" "x \<in> live (As ! ?s)" "a_refs (As ! ?s) x > 0"
      using allowed SRelease R home_live [of x As] by auto
    have "cache_rep (part m (s_shard S ! ?s) (As ! ?s)) (s_shard S ! ?s) (As ! ?s)" "routed ?s (As ! ?s)"
      using R s(1) by blast+
    then obtain e where e: "fst m x = Some e" "a_entry (As ! ?s) x = Some (entry_of e)"
      using s(2) unfolding cache_rep_def cache_repT_def handle_ok_def part_def by (fastforce simp: restrict_map_def split: if_splits)
    then have "unat (Shard (h_hash e)) = ?s"
      using \<open>routed ?s (As ! ?s)\<close> unfolding routed_def entry_of_def by fastforce
    then have "Sharded_call call m S = on_shard ?s (LRU_call (CRelease x)) m S"
      using SRelease e(1) by (simp add: ShardedLRUCache_Release_def on_shard_no_handle LRU_call_Release)
    then show ?thesis
      using on_shard_rep [OF rep s(1), of "CRelease x"] s SRelease by simp
  next
    case (SErase key)
    have "Sharded_call call m S = on_shard (unat (Shard (HashSlice key))) (LRU_call (CErase key (HashSlice key))) m S"
      using SErase by (simp add: ShardedLRUCache_Erase_def Let_def on_shard_no_handle LRU_call_Erase)
    then show ?thesis
      using on [of "HashSlice key" "CErase key (HashSlice key)"] SErase by (simp add: shard_of_def)
  next
    case SPrune
    then show ?thesis
      using Prune_shards_rep [OF rep, of "[0..<kNumShards]"] by (auto simp: ShardedLRUCache_Prune_def no_handle_def)
  qed
qed

end
