(* ===== verification/ShardedProperties.thy ===== *)
theory ShardedProperties
  imports ShardedCache
begin

text \<open>
  Executions of the whole cache, from its constructor through any sequence of calls that its
  clients may make to its destructor.
\<close>

subsection \<open>Construction\<close>

lemma new_LRUCache_frame:
  "new_LRUCache lru in_use s s' h = Some (h', c) \<Longrightarrow> new_LRUCache lru in_use s s' (g ++ h) = Some (g ++ h', c)"
  using Resize_frame [where g = g]
  by (fastforce simp: new_LRUCache_def new_HandleTable_def Let_def map_add_upd [symmetric] simp del: map_add_upd split: bind_splits)

fun flat :: "(nat \<times> nat) list \<Rightarrow> nat list" where
  "flat [] = []"
| "flat ((lru, in_use) # hs) = lru # in_use # flat hs"

lemma flat_nth: "i < length hs \<Longrightarrow> {fst (hs ! i), snd (hs ! i)} \<subseteq> set (flat hs)"
proof (induction hs arbitrary: i rule: flat.induct)
  case (2 lru in_use hs)
  then show ?case
    by (cases i) auto
qed simp

lemma flat_distinct:
  "distinct (flat hs) \<Longrightarrow> i < length hs \<Longrightarrow> j < length hs \<Longrightarrow> i \<noteq> j \<Longrightarrow>
   {fst (hs ! i), snd (hs ! i)} \<inter> {fst (hs ! j), snd (hs ! j)} = {}"
proof (induction hs arbitrary: i j rule: flat.induct)
  case (2 lru in_use hs)
  have "{fst (hs ! k), snd (hs ! k)} \<inter> {lru, in_use} = {}" if "k < length hs" for k
    using flat_nth [OF that] 2(2) by auto
  then show ?case
    using 2 by (cases i; cases j) (auto simp: Int_commute)
qed simp

lemma flat_set: "set (flat hs) = (\<Union>i < length hs. {fst (hs ! i), snd (hs ! i)})"
proof (induction hs rule: flat.induct)
  case (2 lru in_use hs)
  then show ?case
    by (simp add: lessThan_Suc_eq_insert_0 image_image)
qed simp

lemma new_shards_rep:
  assumes "distinct (0 # flat hs)"
  shows "\<exists>H cs. new_shards hs junk g = Some (g ++ H, cs) \<and> length cs = length hs \<and> dom H = set (flat hs) \<and>
    map (\<lambda>c. (c_lru c, c_in_use c)) cs = hs \<and>
    (\<forall>i < length hs. cache_rep (H |` {fst (hs ! i), snd (hs ! i)}, []) (SetCapacity capacity (cs ! i)) (a_new capacity))"
  using assms
proof (induction hs arbitrary: g rule: flat.induct)
  case 1
  then show ?case
    by (intro exI [of _ Map.empty] exI [of _ "[]"]) simp
next
  case (2 lru in_use hs)
  obtain h c where new: "new_LRUCache lru in_use (junk lru) (junk in_use) Map.empty = Some (h, c)"
    "cache_rep (h, []) (SetCapacity capacity c) (a_new capacity)" "c_lru c = lru" "c_in_use c = in_use"
    using new_LRUCache_rep [of lru in_use "junk lru" "junk in_use" capacity] 2(2) by auto
  have on: "new_LRUCache lru in_use (junk lru) (junk in_use) g = Some (g ++ h, c)"
    using new_LRUCache_frame [OF new(1), of g] by simp
  have dom: "dom h = {lru, in_use}"
    using cache_rep_owned [OF new(2)] new(3,4) by (simp add: owned_def SetCapacity_def a_new_def live_def)
  obtain H cs where IH: "new_shards hs junk (g ++ h) = Some ((g ++ h) ++ H, cs)" "length cs = length hs" "dom H = set (flat hs)"
    "map (\<lambda>c. (c_lru c, c_in_use c)) cs = hs"
    "\<forall>i < length hs. cache_rep (H |` {fst (hs ! i), snd (hs ! i)}, []) (SetCapacity capacity (cs ! i)) (a_new capacity)"
    using 2(1) [of "g ++ h"] 2(2) by auto
  have "(h ++ H) |` {lru, in_use} = h"
  proof
    fix x
    show "((h ++ H) |` {lru, in_use}) x = h x"
      using dom IH(3) 2(2) by (cases "x \<in> {lru, in_use}") (auto simp: restrict_map_def map_add_dom_app_simps)
  qed
  moreover have "(h ++ H) |` {fst (hs ! i), snd (hs ! i)} = H |` {fst (hs ! i), snd (hs ! i)}" if "i < length hs" for i
  proof
    fix x
    show "((h ++ H) |` {fst (hs ! i), snd (hs ! i)}) x = (H |` {fst (hs ! i), snd (hs ! i)}) x"
      using flat_nth [OF that] IH(3) by (cases "x \<in> set (flat hs)") (auto simp: restrict_map_def map_add_dom_app_simps)
  qed
  ultimately show ?case
    using on IH new dom
    by (intro exI [of _ "h ++ H"] exI [of _ "c # cs"]) (auto simp: map_add_assoc nth_Cons split: nat.splits)
qed

definition a_new_sharded :: "u64 \<Rightarrow> ACache list" where
  "a_new_sharded capacity = replicate kNumShards (a_new ((capacity + 15) div 16))"

lemma new_ShardedLRUCache_rep:
  assumes hs: "length hs = kNumShards" "distinct (0 # flat hs)"
  obtains h S where "new_ShardedLRUCache capacity hs junk Map.empty = Some (h, S)"
    and "sharded_rep (h, []) S (a_new_sharded capacity)" and "heads S = hs"
proof -
  let ?cap = "(capacity + 15) div 16"
  obtain H cs where new: "new_shards hs junk Map.empty = Some (H, cs)" "length cs = length hs" "dom H = set (flat hs)"
    and hs': "map (\<lambda>c. (c_lru c, c_in_use c)) cs = hs"
    and reps: "\<forall>i < length hs. cache_rep (H |` {fst (hs ! i), snd (hs ! i)}, []) (SetCapacity ?cap (cs ! i)) (a_new ?cap)"
    using new_shards_rep [OF hs(2), of junk Map.empty ?cap] by auto
  let ?S = "\<lparr> s_shard = map (SetCapacity ?cap) cs, s_last_id = 0 \<rparr>"
  have run: "new_ShardedLRUCache capacity hs junk Map.empty = Some (H, ?S)"
    using new(1) by (simp add: new_ShardedLRUCache_def kNumShards_eq Let_def)
  have at: "c_lru (cs ! i) = fst (hs ! i)" "c_in_use (cs ! i) = snd (hs ! i)" if "i < length hs" for i
    using arg_cong [OF hs', of "\<lambda>l. fst (l ! i)"] arg_cong [OF hs', of "\<lambda>l. snd (l ! i)"] new(2) that by simp_all
  have own: "owned (s_shard ?S ! i) (a_new_sharded capacity ! i) = {fst (hs ! i), snd (hs ! i)}" if "i < length hs" for i
    using that new(2) hs(1) at [OF that]
    by (simp add: owned_def SetCapacity_def a_new_sharded_def a_new_def live_def)
  have "sharded_rep (H, []) ?S (a_new_sharded capacity)"
    unfolding sharded_rep_def
  proof (intro conjI allI impI)
    fix s
    assume s: "s < kNumShards"
    show "cache_rep (part (H, []) (s_shard ?S ! s) (a_new_sharded capacity ! s)) (s_shard ?S ! s) (a_new_sharded capacity ! s)"
      using new(2) reps hs(1) s own [of s] by (simp add: part_def a_new_sharded_def)
    show "routed s (a_new_sharded capacity ! s)"
      using s by (simp add: routed_def a_new_sharded_def a_new_def)
    fix t
    assume "t < kNumShards" "s \<noteq> t"
    then show "owned (s_shard ?S ! s) (a_new_sharded capacity ! s) \<inter> owned (s_shard ?S ! t) (a_new_sharded capacity ! t) = {}"
      using flat_distinct [of hs s t] own [of s] own [of t] s hs by simp
  next
    show "dom (fst (H, [])) = (\<Union>s < kNumShards. owned (s_shard ?S ! s) (a_new_sharded capacity ! s))"
      unfolding fst_conv new(3) flat_set hs(1) [symmetric] by (rule SUP_cong [OF refl]) (use own in simp)
  qed (use new(2) hs(1) in \<open>simp_all add: a_new_sharded_def\<close>)
  moreover have "heads ?S = hs"
    using hs' by (simp add: heads_def SetCapacity_def comp_def)
  ultimately show ?thesis
    using run that by blast
qed


subsection \<open>Destruction\<close>

definition pending :: "ACache \<Rightarrow> deletion multiset" where
  "pending A = image_mset (del A) (mset (a_lru A @ a_use A @ a_loose A))"

lemma account_pending: "account A = mset (a_deleted A) + pending A"
  by (simp add: account_def pending_def)

lemma pending_log [simp]: "pending (with_log d A) = pending A"
  by (simp add: pending_def del_def [abs_def])

lemma destroy_shards_rep:
  assumes "\<forall>(c, A) \<in> set ps. cache_rep (h |` owned c A, d) c (with_log d A) \<and> a_use A = [] \<and> a_loose A = []"
    and "pairwise (\<lambda>p q. owned (fst p) (snd p) \<inter> owned (fst q) (snd q) = {}) (set ps)" and "distinct ps"
  shows "\<exists>h' ds. destroy_shards (map fst ps) (h, d) = Some (h', d @ ds) \<and>
    mset ds = (\<Sum>(c, A) \<leftarrow> ps. pending A) \<and> dom h' = dom h - (\<Union>(c, A) \<in> set ps. set (a_lru A))"
  using assms
proof (induction ps arbitrary: h d)
  case (Cons p ps)
  obtain c A where p: "p = (c, A)"
    by fastforce
  let ?h = "h |` owned c A" and ?g = "h |` (- owned c A)"
  have rep: "cache_rep (?h, d) c (with_log d A)" and none: "a_use A = []" "a_loose A = []"
    using Cons.prems(1) p by auto
  obtain h1 where "LRUCache_destructor (?h, d) c = Some (h1, d @ map (del (with_log d A)) (a_lru A))"
    and d1: "dom h1 = {c_lru c, c_in_use c}"
    using destructor_rep [OF rep] none by auto
  moreover have "del (with_log d A) = del A"
    by (simp add: del_def [abs_def])
  moreover have "disjoint_heaps ?g ?h"
    by (auto simp: disjoint_heaps_def restrict_map_def split: if_splits)
  moreover have "?g ++ ?h = h"
    by (auto simp: map_add_def restrict_map_def fun_eq_iff split: option.splits)
  ultimately have run: "LRUCache_destructor (h, d) c = Some (?g ++ h1, d @ map (del A) (a_lru A))"
    using destructor_frame by (metis (no_types, lifting))
  have "dom ?h = owned c A"
    using cache_rep_owned [OF rep] by simp
  then have own: "owned c A \<subseteq> dom h" "{c_lru c, c_in_use c} \<subseteq> owned c A" "owned c A = {c_lru c, c_in_use c} \<union> set (a_lru A)"
    using none by (auto simp: owned_def live_def)
  let ?d = "d @ map (del A) (a_lru A)"
  have "\<forall>(c', A') \<in> set ps. cache_rep ((?g ++ h1) |` owned c' A', ?d) c' (with_log ?d A') \<and> a_use A' = [] \<and> a_loose A' = []"
  proof (intro ballI, clarify)
    fix c' A'
    assume q: "(c', A') \<in> set ps"
    then have "owned c A \<inter> owned c' A' = {}"
      using Cons.prems(2,3) p by (fastforce simp: pairwise_def)
    note dis = this
    have "x \<notin> owned c A \<and> h1 x = None" if "x \<in> owned c' A'" for x
    proof -
      have "x \<notin> owned c A"
        using dis that by blast
      then have "x \<notin> dom h1"
        using d1 own(2) by blast
      then show ?thesis
        using \<open>x \<notin> owned c A\<close> by (simp add: domIff)
    qed
    then have "(?g ++ h1) |` owned c' A' = h |` owned c' A'"
      by (auto simp: restrict_map_def map_add_def fun_eq_iff split: option.splits)
    moreover have "cache_rep (h |` owned c' A', ?d) c' (with_log ?d (with_log d A'))"
      using Cons.prems(1) q by (intro cache_rep_log) auto
    moreover have "with_log ?d (with_log d A') = with_log ?d A'"
      by (simp add: with_log_def)
    ultimately show "cache_rep ((?g ++ h1) |` owned c' A', ?d) c' (with_log ?d A') \<and> a_use A' = [] \<and> a_loose A' = []"
      using Cons.prems(1) q by auto
  qed
  from Cons.IH [OF this] obtain h' ds where IH: "destroy_shards (map fst ps) (?g ++ h1, ?d) = Some (h', ?d @ ds)"
    "mset ds = (\<Sum>(c, A) \<leftarrow> ps. pending A)" "dom h' = dom (?g ++ h1) - (\<Union>(c, A) \<in> set ps. set (a_lru A))"
    using Cons.prems(2,3) by (auto simp: pairwise_insert)
  have "dom (?g ++ h1) = dom h - set (a_lru A)"
  proof -
    have "c_lru c \<notin> set (a_lru A)" "c_in_use c \<notin> set (a_lru A)"
      using rep unfolding cache_rep_def cache_repT_def by auto
    then show ?thesis
      unfolding dom_map_add d1 dom_restrict using own by blast
  qed
  then show ?case
    using run IH none p by (intro exI [of _ h'] exI [of _ "map (del A) (a_lru A) @ ds"]) (auto simp: pending_def)
qed simp

subsection \<open>Executions\<close>

fun Sharded_run :: "sharded_call list \<Rightarrow> memory \<Rightarrow> ShardedLRUCache \<Rightarrow> (nat list \<times> memory \<times> ShardedLRUCache) option" where
  "Sharded_run [] m S = Some ([], m, S)"
| "Sharded_run (call # calls) m S = do {
     (r, m, S) \<leftarrow> Sharded_call call m S;
     (rs, m, S) \<leftarrow> Sharded_run calls m S;
     Some (r # rs, m, S)
   }"

definition used :: "(nat \<times> nat) list \<Rightarrow> ACache list \<Rightarrow> nat set" where
  "used hs As = set (flat hs) \<union> (\<Union>A \<in> set As. live A)"

fun as_run :: "(nat \<times> nat) list \<Rightarrow> sharded_call list \<Rightarrow> ACache list \<Rightarrow> (nat list \<times> ACache list) option" where
  "as_run hs [] As = Some ([], As)"
| "as_run hs (call # calls) As =
     (if as_allowed (used hs As) call As then do {
        let (r, As) = as_call call As;
        (rs, As) \<leftarrow> as_run hs calls As;
        Some (r # rs, As)
      } else None)"

lemma sharded_used: "sharded_rep m S As \<Longrightarrow> dom (fst m) = used (heads S) As"
proof -
  assume rep: "sharded_rep m S As"
  then have l: "length (s_shard S) = kNumShards" "length As = kNumShards"
    "dom (fst m) = (\<Union>s < kNumShards. owned (s_shard S ! s) (As ! s))"
    by (simp_all add: sharded_rep_def)
  moreover have "set (flat (heads S)) = (\<Union>s < kNumShards. {c_lru (s_shard S ! s), c_in_use (s_shard S ! s)})"
    using l by (simp add: flat_set heads_def)
  moreover have "(\<Union>A \<in> set As. live A) = (\<Union>s < kNumShards. live (As ! s))"
    using l(2) by (auto simp: set_conv_nth)
  ultimately show ?thesis
    by (auto simp: used_def owned_def)
qed


lemma Sharded_run_rep:
  assumes "sharded_rep m S As" and "as_run (heads S) calls As = Some (rs, As')"
  shows "\<exists>m' S'. Sharded_run calls m S = Some (rs, m', S') \<and> sharded_rep m' S' As' \<and> heads S' = heads S"
  using assms
proof (induction calls arbitrary: m S As rs)
  case (Cons call calls)
  then obtain rs' where a: "as_allowed (dom (fst m)) call As"
    "as_run (heads S) calls (snd (as_call call As)) = Some (rs', As')" "rs = fst (as_call call As) # rs'"
    by (auto simp: sharded_used Let_def split: if_splits prod.splits bind_splits)
  obtain m1 S1 where 1: "Sharded_call call m S = Some (fst (as_call call As), m1, S1)" "sharded_rep m1 S1 (snd (as_call call As))"
    "heads S1 = heads S"
    using Sharded_call_rep [OF Cons.prems(1) a(1)] by blast
  then show ?case
    using Cons.IH [OF 1(2)] a(2,3) by auto
qed simp

subsection \<open>Every value meets its deleter once\<close>

fun s_inserted :: "sharded_call list \<Rightarrow> deletion multiset" where
  "s_inserted [] = {#}"
| "s_inserted (SInsert p block key val charge deleter # calls) = add_mset (deleter, key, val) (s_inserted calls)"
| "s_inserted (_ # calls) = s_inserted calls"

lemma sharded_log: "sharded_rep m S As \<Longrightarrow> A \<in> set As \<Longrightarrow> a_deleted A = snd m"
proof -
  assume rep: "sharded_rep m S As" and "A \<in> set As"
  then obtain s where "s < kNumShards" "A = As ! s"
    by (auto simp: sharded_rep_def set_conv_nth)
  then have "cache_rep (part m (s_shard S ! s) A) (s_shard S ! s) A"
    using rep by (simp add: sharded_rep_def)
  then show ?thesis
    using cache_rep_deleted by (fastforce simp: part_def)
qed

lemma mset_balance:
  fixes d :: "'a multiset"
  assumes "d' + p' = d + p + i" and "Y + p = Z + p'"
  shows "d' + Y = d + Z + i"
proof -
  have "(d' + Y) + p = d' + (Y + p)"
    by (simp add: ac_simps)
  also have "\<dots> = (d' + p') + Z"
    unfolding assms(2) by (simp add: ac_simps)
  also have "\<dots> = (d + Z + i) + p"
    unfolding assms(1) by (simp add: ac_simps)
  finally show ?thesis
    by simp
qed

lemma a_on_account:
  assumes rep: "sharded_rep m S As" and s: "s < kNumShards"
    and allowed: "a_allowed lru in_use call (As ! s)" and rep': "sharded_rep m' S' (snd (a_on s call As))"
  shows "mset (snd m') + sum_list (map pending (snd (a_on s call As))) =
    mset (snd m) + sum_list (map pending As) + inserted [call]"
proof -
  let ?A = "As ! s"
  obtain r A' where A': "a_call call ?A = (r, A')"
    by fastforce
  have len: "length As = kNumShards" and rep_s: "cache_rep (part m (s_shard S ! s) ?A) (s_shard S ! s) ?A"
    using rep s by (simp_all add: sharded_rep_def)
  have As: "As = take s As @ ?A # drop (Suc s) As" "As[s := A'] = take s As @ A' # drop (Suc s) As"
    using s len by (simp_all add: id_take_nth_drop [symmetric] upd_conv_take_nth_drop)
  have log: "a_deleted ?A = snd m"
    using sharded_log [OF rep, of ?A] s len by simp
  have "A' \<in> set (As[s := A'])"
    using s len by (simp add: set_update_memI)
  then have "with_log (a_deleted A') A' \<in> set (snd (a_on s call As))"
    using A' by (simp add: a_on_def)
  then have log': "snd m' = a_deleted A'"
    using sharded_log [OF rep'] by force
  have "account A' = account ?A + inserted [call]"
    using account_call [OF cache_rep_inv [OF rep_s] allowed] rep_s A'
    unfolding cache_rep_def cache_repT_def by auto
  then have bal: "mset (a_deleted A') + pending A' = mset (snd m) + pending ?A + inserted [call]"
    by (simp add: account_pending log)
  have sums: "sum_list (map pending (snd (a_on s call As))) = sum_list (map pending (As[s := A']))"
    using A' by (simp add: a_on_def comp_def)
  have "sum_list (map pending (As[s := A'])) + pending ?A = sum_list (map pending As) + pending A'"
  proof -
    have "sum_list (map pending As) = sum_list (map pending (take s As @ ?A # drop (Suc s) As))"
      by (rule arg_cong [OF As(1)])
    then show ?thesis
      unfolding As(2) by (simp only: map_append list.map sum_list.append sum_list.Cons ac_simps)
  qed
  then show ?thesis
    unfolding log' sums by (rule mset_balance [OF bal])
qed


lemma prune_account:
  assumes "sharded_rep m S As" and "\<forall>s \<in> set ss. s < kNumShards" and "sharded_rep m' S' (prune_on ss As)"
  shows "mset (snd m') + sum_list (map pending (prune_on ss As)) = mset (snd m) + sum_list (map pending As)"
  using assms
proof (induction ss arbitrary: m S As)
  case Nil
  have "As \<noteq> []"
    using Nil(1) by (auto simp: sharded_rep_def kNumShards_eq)
  then have "snd m' = snd m"
    using sharded_log [OF Nil(1), of "hd As"] sharded_log [OF Nil(3), of "hd As"] by simp
  then show ?case
    by simp
next
  case (Cons s ss)
  obtain m1 S1 where 1: "sharded_rep m1 S1 (snd (a_on s CPrune As))"
    using on_shard_rep [OF Cons.prems(1), of s CPrune] Cons.prems(2) by auto
  then show ?case
    using Cons.IH [OF 1] Cons.prems a_on_account [OF Cons.prems(1) _ _ 1, of 0 0] by simp
qed

lemma as_call_account:
  assumes rep: "sharded_rep m S As" and allowed: "as_allowed (dom (fst m)) call As"
    and rep': "sharded_rep m' S' (snd (as_call call As))"
  shows "mset (snd m') + sum_list (map pending (snd (as_call call As))) =
    mset (snd m) + sum_list (map pending As) + s_inserted [call]"
proof (cases call)
  case (SInsert p block key val charge deleter)
  let ?s = "shard_of key"
  have s: "?s < kNumShards"
    by (simp add: shard_of_def shard_of_less)
  then have "owned (s_shard S ! ?s) (As ! ?s) \<subseteq> dom (fst m)"
    using rep unfolding sharded_rep_def by blast
  then have "a_allowed (c_lru (s_shard S ! ?s)) (c_in_use (s_shard S ! ?s)) (CInsert p block key (HashSlice key) val charge deleter) (As ! ?s)"
    using allowed SInsert by (auto simp: owned_def)
  from a_on_account [OF rep s this] show ?thesis
    using rep' SInsert by simp
next
  case (SLookup key)
  have s: "shard_of key < kNumShards"
    by (simp add: shard_of_def shard_of_less)
  have "a_allowed 0 0 (CLookup key (HashSlice key)) (As ! shard_of key)"
    using allowed SLookup by simp
  from a_on_account [OF rep s this] show ?thesis
    using rep' SLookup by simp
next
  case (SRelease x)
  have s: "home x As < kNumShards" "a_allowed 0 0 (CRelease x) (As ! home x As)"
    using allowed SRelease rep home_live [of x As] by (auto simp: sharded_rep_def)
  from a_on_account [OF rep s] show ?thesis
    using rep' SRelease by simp
next
  case (SErase key)
  have s: "shard_of key < kNumShards"
    by (simp add: shard_of_def shard_of_less)
  from a_on_account [OF rep s, of 0 0 "CErase key (HashSlice key)"] show ?thesis
    using rep' SErase by simp
next
  case SPrune
  then show ?thesis
    using prune_account [OF rep, of "[0..<kNumShards]"] rep' by simp
qed

lemma as_run_account:
  assumes "sharded_rep m S As" and "as_run (heads S) calls As = Some (rs, As')" and "sharded_rep m' S' As'"
  shows "mset (snd m') + sum_list (map pending As') = mset (snd m) + sum_list (map pending As) + s_inserted calls"
  using assms
proof (induction calls arbitrary: m S As rs)
  case Nil
  then have "As' = As"
    by simp
  then show ?case
    using prune_account [OF Nil(1), of "[]"] Nil(3) by simp
next
  case (Cons call calls)
  then obtain rs' where a: "as_allowed (dom (fst m)) call As"
    "as_run (heads S) calls (snd (as_call call As)) = Some (rs', As')"
    by (auto simp: sharded_used Let_def split: if_splits prod.splits bind_splits)
  obtain m1 S1 where 1: "sharded_rep m1 S1 (snd (as_call call As))" "heads S1 = heads S"
    using Sharded_call_rep [OF Cons.prems(1) a(1)] by blast
  have "s_inserted (call # calls) = s_inserted [call] + s_inserted calls"
    by (cases call) simp_all
  then show ?case
    using Cons.IH [OF 1(1)] as_call_account [OF Cons.prems(1) a(1) 1(1)] 1(2) a(2) Cons.prems(3) by (simp add: ac_simps)
qed


subsection \<open>Properties\<close>

lemma sharded_destructor_rep:
  assumes rep: "sharded_rep m S As" and none: "\<forall>A \<in> set As. a_use A = [] \<and> a_loose A = []"
  shows "\<exists>h' d. ShardedLRUCache_destructor m S = Some (h', snd m @ d) \<and>
    mset d = sum_list (map pending As) \<and> dom h' = set (flat (heads S))"
proof -
  let ?ps = "rev (zip (s_shard S) As)"
  have len: "length (s_shard S) = kNumShards" "length As = kNumShards"
    using rep by (simp_all add: sharded_rep_def)
  have ps: "\<exists>s < kNumShards. p = (s_shard S ! s, As ! s)" if "p \<in> set ?ps" for p
    using that len by (auto simp: set_zip)
  have own: "owned (s_shard S ! s) (As ! s) \<inter> owned (s_shard S ! t) (As ! t) = {}"
    if "s < kNumShards" "t < kNumShards" "s \<noteq> t" for s t
    using rep that unfolding sharded_rep_def by blast
  have "\<forall>(c, A) \<in> set ?ps. cache_rep (fst m |` owned c A, snd m) c (with_log (snd m) A) \<and> a_use A = [] \<and> a_loose A = []"
  proof (intro ballI, clarify)
    fix c A
    assume "(c, A) \<in> set ?ps"
    then obtain s where s: "s < kNumShards" "c = s_shard S ! s" "A = As ! s"
      using ps by blast
    then have "A \<in> set As" "cache_rep (fst m |` owned c A, snd m) c A"
      using rep len by (simp_all add: sharded_rep_def part_def)
    then show "cache_rep (fst m |` owned c A, snd m) c (with_log (snd m) A) \<and> a_use A = [] \<and> a_loose A = []"
      using none sharded_log [OF rep] by (simp add: with_log_same)
  qed
  moreover have "pairwise (\<lambda>p q. owned (fst p) (snd p) \<inter> owned (fst q) (snd q) = {}) (set ?ps)"
    unfolding pairwise_def using ps own by (metis fst_conv snd_conv)
  moreover have "distinct ?ps"
  proof -
    have "c_lru (s_shard S ! s) \<noteq> c_lru (s_shard S ! t)" if "s < kNumShards" "t < kNumShards" "s \<noteq> t" for s t
      using own [OF that] by (auto simp: owned_def)
    then have "distinct (s_shard S)"
      using len(1) unfolding distinct_conv_nth by metis
    then show ?thesis
      by (simp add: distinct_zipI1)
  qed
  ultimately obtain h' ds where "destroy_shards (map fst ?ps) (fst m, snd m) = Some (h', snd m @ ds)"
    "mset ds = (\<Sum>(c, A) \<leftarrow> ?ps. pending A)" "dom h' = dom (fst m) - (\<Union>(c, A) \<in> set ?ps. set (a_lru A))"
    using destroy_shards_rep by blast
  moreover have "map fst ?ps = rev (s_shard S)" "map snd ?ps = rev As"
    using len by (simp_all add: rev_map [symmetric])
  moreover have "(\<Sum>(c, A) \<leftarrow> ?ps. pending A) = sum_list (map pending (map snd ?ps))"
    by (simp add: case_prod_unfold comp_def)
  moreover have "(\<Union>(c, A) \<in> set ?ps. set (a_lru A)) = (\<Union>A \<in> set (map snd ?ps). set (a_lru A))"
    by force
  moreover have "dom (fst m) - (\<Union>A \<in> set As. set (a_lru A)) = set (flat (heads S))"
  proof -
    have "(\<Union>A \<in> set As. live A) = (\<Union>A \<in> set As. set (a_lru A))"
      using none by (intro SUP_cong) (auto simp: live_def)
    moreover have "set (flat (heads S)) \<inter> set (a_lru A) = {}" if A: "A \<in> set As" for A
    proof -
      obtain s where s: "s < kNumShards" "A = As ! s"
        using A len by (auto simp: set_conv_nth)
      have "c_lru (s_shard S ! t) \<notin> set (a_lru A) \<and> c_in_use (s_shard S ! t) \<notin> set (a_lru A)" if t: "t < kNumShards" for t
      proof (cases "t = s")
        case True
        have "cache_rep (part m (s_shard S ! s) A) (s_shard S ! s) A"
          using rep s by (simp add: sharded_rep_def)
        then show ?thesis
          unfolding True cache_rep_def cache_repT_def by auto
      next
        case False
        then show ?thesis
          using own [OF t s(1) False] unfolding s(2) by (auto simp: owned_def live_def)
      qed
      then show ?thesis
        using len by (auto simp: flat_set heads_def)
    qed
    ultimately show ?thesis
      unfolding sharded_used [OF rep] used_def by blast
  qed
  ultimately show ?thesis
    unfolding ShardedLRUCache_destructor_def by (auto simp: rev_map [symmetric] sum_list_rev)
qed

text \<open>C8: every call to the sharded cache that its client may make returns; the result and the state of
  the shard that the hash of the key selects are those of the abstract cache, every other shard
  keeps its entries, and a handle is given back to the shard it came from.\<close>

theorem ShardedLRUCache_refines:
  assumes "sharded_rep m S As" and "as_allowed (dom (fst m)) call As"
  shows "\<exists>m' S'. Sharded_call call m S = Some (fst (as_call call As), m', S') \<and> sharded_rep m' S' (snd (as_call call As))"
  using Sharded_call_rep [OF assms] by blast

definition some_heads :: "(nat \<times> nat) list" where
  "some_heads = map (\<lambda>s. (2 * s + 1, 2 * s + 2)) [0..<16]"

lemma some_heads_ok: "length some_heads = kNumShards" "distinct (0 # flat some_heads)"
  by (simp_all add: some_heads_def kNumShards_eq upt_rec)

lemma shard_of_Nil: "HashSlice [] = 0" "shard_of [] = 0"
  by (simp_all add: HashSlice_def shard_of_def Hash_def Hash_data.simps Shard_def)

theorem ShardedLRUCache_refines_witness:
  "\<exists>h S m' S'. new_ShardedLRUCache 160 some_heads (\<lambda>_. a_handle 0 []) Map.empty = Some (h, S) \<and>
    Sharded_call (SInsert 100 (a_handle 0 []) [] 7 6 9) (h, []) S = Some (100, m', S')"
proof -
  obtain h S where new: "new_ShardedLRUCache 160 some_heads (\<lambda>_. a_handle 0 []) Map.empty = Some (h, S)"
    "sharded_rep (h, []) S (a_new_sharded 160)" "heads S = some_heads"
    by (rule new_ShardedLRUCache_rep [OF some_heads_ok])
  have "dom (fst (h, [] :: deletion list)) = set (flat some_heads)"
    unfolding sharded_used [OF new(2)] new(3) by (auto simp: used_def a_new_sharded_def a_new_def live_def)
  then have "as_allowed (dom (fst (h, [] :: deletion list))) (SInsert 100 (a_handle 0 []) [] 7 6 9) (a_new_sharded 160)"
    by (simp add: some_heads_def upt_rec shard_of_Nil a_new_sharded_def a_new_def a_cached_def kNumShards_eq)
  from ShardedLRUCache_refines [OF new(2) this] show ?thesis
    using new(1) by (auto simp: a_on_def)
qed

text \<open>C7: from a new sharded cache of any capacity, no sequence of calls that its clients may make fails
  an assertion, touches freed memory or runs forever; at every point each inserted value either
  has been passed to its deleter once or belongs to an entry that is still cached or referenced;
  and when no reference is left the destructor passes the remaining values to their deleters and
  leaves no entry allocated.\<close>

theorem ShardedLRUCache_deletes_once:
  assumes hs: "length hs = kNumShards" "distinct (0 # flat hs)"
    and run: "as_run hs calls (a_new_sharded capacity) = Some (rs, As)"
  shows "\<exists>h S m' S'. new_ShardedLRUCache capacity hs junk Map.empty = Some (h, S) \<and>
    Sharded_run calls (h, []) S = Some (rs, m', S') \<and>
    mset (snd m') + sum_list (map pending As) = s_inserted calls \<and>
    ((\<forall>A \<in> set As. a_use A = [] \<and> a_loose A = []) \<longrightarrow>
      (\<exists>h' d. ShardedLRUCache_destructor m' S' = Some (h', d) \<and> mset d = s_inserted calls \<and> dom h' = set (flat hs)))"
proof -
  obtain h S where new: "new_ShardedLRUCache capacity hs junk Map.empty = Some (h, S)"
    "sharded_rep (h, []) S (a_new_sharded capacity)" "heads S = hs"
    by (rule new_ShardedLRUCache_rep [OF hs])
  note run' = run [folded new(3)]
  obtain m' S' where r: "Sharded_run calls (h, []) S = Some (rs, m', S')" "sharded_rep m' S' As" "heads S' = hs"
    using Sharded_run_rep [OF new(2) run'] new(3) by auto
  have "sum_list (map pending (a_new_sharded capacity)) = {#}"
    by (simp add: a_new_sharded_def a_new_def pending_def kNumShards_eq numeral_eq_Suc)
  then have acc: "mset (snd m') + sum_list (map pending As) = s_inserted calls"
    using as_run_account [OF new(2) run' r(2)] by simp
  moreover have "\<exists>h' d. ShardedLRUCache_destructor m' S' = Some (h', d) \<and> mset d = s_inserted calls \<and> dom h' = set (flat hs)"
    if "\<forall>A \<in> set As. a_use A = [] \<and> a_loose A = []"
    using sharded_destructor_rep [OF r(2) that] acc r(3) by (metis mset_append)
  ultimately show ?thesis
    using new(1) r(1) by blast
qed

theorem ShardedLRUCache_deletes_once_witness:
  "\<exists>h S m' S' h' d. new_ShardedLRUCache 160 some_heads (\<lambda>_. a_handle 0 []) Map.empty = Some (h, S) \<and>
    Sharded_run [SInsert 100 (a_handle 0 []) [] 7 6 9, SRelease 100] (h, []) S = Some ([100, 0], m', S') \<and>
    ShardedLRUCache_destructor m' S' = Some (h', d) \<and> mset d = {#(9, [], 7)#}"
proof -
  let ?calls = "[SInsert 100 (a_handle 0 []) [] 7 6 9, SRelease 100]"
  let ?e = "\<lparr> e_value = 7, e_deleter = 9, e_charge = 6, e_hash = 0, e_key = [] \<rparr>"
  let ?A1 = "(a_new 10) \<lparr> a_usage := 6, a_use := [100], a_entry := [100 \<mapsto> ?e], a_refs := (\<lambda>_. 0)(100 := 1) \<rparr>"
  let ?A2 = "(a_new 10) \<lparr> a_usage := 6, a_lru := [100], a_entry := [100 \<mapsto> ?e], a_refs := \<lambda>_. 0 \<rparr>"
  have new: "a_new_sharded 160 = a_new 10 # replicate 15 (a_new 10)"
    unfolding a_new_sharded_def kNumShards_eq using replicate_Suc [of 15 "a_new 10"] by simp
  have log: "with_log [] (a_new 10) = a_new 10"
    by (simp add: with_log_def a_new_def)
  have "a_insert 100 ?e (a_new 10) = ?A1"
    by (simp add: a_insert_def a_new_def a_find_def a_cached_def a_add_def a_evict_eval)
  then have 1: "as_call (SInsert 100 (a_handle 0 []) [] 7 6 9) (a_new_sharded 160) = (100, ?A1 # replicate 15 (a_new 10))"
    using log by (simp add: new a_on_def shard_of_Nil)
  have "a_unref 100 ?A1 = ?A2"
    by (simp add: a_unref_def a_new_def fun_eq_iff)
  moreover have "home 100 (?A1 # replicate 15 (a_new 10)) = 0"
    by (simp add: home_def live_def)
  ultimately have 2: "as_call (SRelease 100) (?A1 # replicate 15 (a_new 10)) = (0, ?A2 # replicate 15 (a_new 10))"
    using log by (simp add: a_on_def)
  have "as_allowed (used some_heads (a_new_sharded 160)) (SInsert 100 (a_handle 0 []) [] 7 6 9) (a_new_sharded 160)"
    by (simp add: new shard_of_Nil used_def live_def a_cached_def a_new_def some_heads_def upt_rec)
  moreover have "as_allowed (used some_heads (?A1 # replicate 15 (a_new 10))) (SRelease 100) (?A1 # replicate 15 (a_new 10))"
    by (simp add: home_def live_def)
  ultimately have "as_run some_heads ?calls (a_new_sharded 160) = Some ([100, 0], ?A2 # replicate 15 (a_new 10))"
    using 1 2 by (simp only: as_run.simps) simp
  then have "map_option (\<lambda>(rs, As). (rs, map (\<lambda>A. (a_use A, a_loose A)) As)) (as_run some_heads ?calls (a_new_sharded 160)) =
      Some ([100, 0], ([], []) # replicate 15 ([], []))"
    by (simp add: a_new_def)
  then obtain As where As: "as_run some_heads ?calls (a_new_sharded 160) = Some ([100, 0], As)"
    "map (\<lambda>A. (a_use A, a_loose A)) As = ([], []) # replicate 15 ([], [])"
    by auto
  have none: "\<forall>A \<in> set As. a_use A = [] \<and> a_loose A = []"
  proof
    fix A
    assume "A \<in> set As"
    then have "(a_use A, a_loose A) \<in> set (map (\<lambda>A. (a_use A, a_loose A)) As)"
      by auto
    then show "a_use A = [] \<and> a_loose A = []"
      unfolding As(2) by simp
  qed
  from ShardedLRUCache_deletes_once [OF some_heads_ok As(1), of "\<lambda>_. a_handle 0 []"] none show ?thesis
    by auto
qed

end
