(* ===== verification/CacheInterface.thy ===== *)
theory CacheInterface
  imports ShardedProperties
begin

text \<open>
  The class \<^verbatim>\<open>Cache\<close> of \<^verbatim>\<open>include/lldb/cache.h\<close> as a record of methods, \<^verbatim>\<open>NewLRUCache\<close> as the
  implementation of it that the repository provides, and the promise on which the users of a cache build: while
  a client holds a handle, the entry stays where it is and lookups of its key find it.
\<close>

subsection \<open>The interface\<close>

text \<open>\<open>'c\<close> is the state behind the pointer to the cache and \<open>'b\<close> what \<^verbatim>\<open>malloc\<close> hands to \<^verbatim>\<open>Insert\<close>; a handle is
  the address of an entry, 0 for \<^verbatim>\<open>nullptr\<close>.\<close>

record ('c, 'b) Cache =
  Cache_Insert :: "'b \<Rightarrow> bytes \<Rightarrow> u64 \<Rightarrow> u64 \<Rightarrow> u64 \<Rightarrow> 'c \<Rightarrow> (nat \<times> 'c) option"
  Cache_Lookup :: "bytes \<Rightarrow> 'c \<Rightarrow> (nat \<times> 'c) option"
  Cache_Release :: "nat \<Rightarrow> 'c \<Rightarrow> 'c option"
  Cache_Value :: "nat \<Rightarrow> 'c \<Rightarrow> u64 option"
  Cache_Erase :: "bytes \<Rightarrow> 'c \<Rightarrow> 'c option"
  Cache_NewId :: "'c \<Rightarrow> u64 \<times> 'c"
  Cache_Prune :: "'c \<Rightarrow> 'c option"
  Cache_TotalCharge :: "'c \<Rightarrow> u64"

text \<open>The default implementation of \<^verbatim>\<open>Prune\<close>.\<close>

definition Cache_default_Prune :: "'c \<Rightarrow> 'c option" where
  "Cache_default_Prune c = Some c"

definition ShardedLRUCache_methods :: "(memory \<times> ShardedLRUCache, nat \<times> LRUHandle) Cache" where
  "ShardedLRUCache_methods = \<lparr>
     Cache_Insert = (\<lambda>(p, block) key val charge deleter (m, S). ShardedLRUCache_Insert p block key val charge deleter m S),
     Cache_Lookup = (\<lambda>key (m, S). ShardedLRUCache_Lookup key m S),
     Cache_Release = (\<lambda>x (m, S). map_option snd (ShardedLRUCache_Release x m S)),
     Cache_Value = (\<lambda>x (m, S). ShardedLRUCache_Value x m),
     Cache_Erase = (\<lambda>key (m, S). map_option snd (ShardedLRUCache_Erase key m S)),
     Cache_NewId = (\<lambda>(m, S). let (i, S) = ShardedLRUCache_NewId S in (i, m, S)),
     Cache_Prune = (\<lambda>(m, S). map_option snd (ShardedLRUCache_Prune m S)),
     Cache_TotalCharge = (\<lambda>(m, S). ShardedLRUCache_TotalCharge S)\<rparr>"

text \<open>\<open>hs\<close> are the addresses of the list heads inside the new object and \<open>junk\<close> what its memory holds.\<close>

definition NewLRUCache ::
    "u64 \<Rightarrow> (nat \<times> nat) list \<Rightarrow> (nat \<Rightarrow> LRUHandle) \<Rightarrow> (memory \<times> ShardedLRUCache) option" where
  "NewLRUCache capacity hs junk =
     map_option (\<lambda>(h, S). ((h, []), S)) (new_ShardedLRUCache capacity hs junk Map.empty)"

text \<open>A call through the interface.\<close>

fun Cache_call :: "('c, nat \<times> LRUHandle) Cache \<Rightarrow> sharded_call \<Rightarrow> 'c \<Rightarrow> (nat \<times> 'c) option" where
  "Cache_call C (SInsert p block key val charge deleter) c = Cache_Insert C (p, block) key val charge deleter c"
| "Cache_call C (SLookup key) c = Cache_Lookup C key c"
| "Cache_call C (SRelease x) c = map_option (Pair 0) (Cache_Release C x c)"
| "Cache_call C (SErase key) c = map_option (Pair 0) (Cache_Erase C key c)"
| "Cache_call C SPrune c = map_option (Pair 0) (Cache_Prune C c)"

fun Cache_run :: "('c, nat \<times> LRUHandle) Cache \<Rightarrow> sharded_call list \<Rightarrow> 'c \<Rightarrow> (nat list \<times> 'c) option" where
  "Cache_run C [] c = Some ([], c)"
| "Cache_run C (call # calls) c = do {
     (r, c) \<leftarrow> Cache_call C call c;
     (rs, c) \<leftarrow> Cache_run C calls c;
     Some (r # rs, c)
   }"

subsection \<open>Entries in use\<close>

text \<open>The references of the clients to the entry \<open>x\<close> for \<open>key\<close> after a call, if the call may be made while the
  entry is to stay: the key is neither inserted again nor erased, and the last reference is kept.\<close>

fun refs_after :: "bytes \<Rightarrow> nat \<Rightarrow> sharded_call \<Rightarrow> nat \<Rightarrow> nat option" where
  "refs_after key x (SInsert p block k val charge deleter) n = (if k = key then None else Some n)"
| "refs_after key x (SLookup k) n = Some (if k = key then n + 1 else n)"
| "refs_after key x (SRelease y) n = (if y \<noteq> x then Some n else if 1 < n then Some (n - 1) else None)"
| "refs_after key x (SErase k) n = (if k = key then None else Some n)"
| "refs_after key x SPrune n = Some n"

fun refs_after_all :: "bytes \<Rightarrow> nat \<Rightarrow> sharded_call list \<Rightarrow> nat \<Rightarrow> nat option" where
  "refs_after_all key x [] n = Some n"
| "refs_after_all key x (call # calls) n = refs_after key x call n \<bind> refs_after_all key x calls"

text \<open>
  The contract of a cache: its calls refine abstract ones (\<open>step\<close>), and an entry that is \<open>pinned\<close> by
  references of clients keeps its value, is found, and stays pinned.
\<close>

locale pinning_cache =
  fixes C :: "('c, nat \<times> LRUHandle) Cache" and rep :: "'c \<Rightarrow> 'a \<Rightarrow> bool"
    and allowed :: "sharded_call \<Rightarrow> 'a \<Rightarrow> bool" and step :: "sharded_call \<Rightarrow> 'a \<Rightarrow> nat \<times> 'a"
    and pinned :: "'a \<Rightarrow> bytes \<Rightarrow> nat \<Rightarrow> u64 \<Rightarrow> nat \<Rightarrow> bool"
  assumes call_refines: "rep c A \<Longrightarrow> allowed call A \<Longrightarrow>
      \<exists>c'. Cache_call C call c = Some (fst (step call A), c') \<and> rep c' (snd (step call A))"
    and insert_pins: "rep c A \<Longrightarrow> allowed (SInsert p block key v charge deleter) A \<Longrightarrow>
      pinned (snd (step (SInsert p block key v charge deleter) A)) key p v 1"
    and pinned_value: "rep c A \<Longrightarrow> pinned A key x v n \<Longrightarrow> Cache_Value C x c = Some v"
    and pinned_found: "rep c A \<Longrightarrow> pinned A key x v n \<Longrightarrow> fst (step (SLookup key) A) = x"
    and pinned_may_look: "rep c A \<Longrightarrow> pinned A key x v n \<Longrightarrow> n + 2 < 2 ^ 32 \<Longrightarrow> allowed (SLookup key) A"
    and pinned_stays: "rep c A \<Longrightarrow> pinned A key x v n \<Longrightarrow> allowed call A \<Longrightarrow> refs_after key x call n = Some n' \<Longrightarrow>
      pinned (snd (step call A)) key x v n'"
begin

fun a_run :: "sharded_call list \<Rightarrow> 'a \<Rightarrow> (nat list \<times> 'a) option" where
  "a_run [] A = Some ([], A)"
| "a_run (call # calls) A = (if allowed call A
     then map_option (\<lambda>(rs, A'). (fst (step call A) # rs, A')) (a_run calls (snd (step call A))) else None)"

lemma a_run_append:
  "a_run (calls @ calls') A = Some (rs, A') \<longleftrightarrow>
   (\<exists>rs1 A1 rs2. a_run calls A = Some (rs1, A1) \<and> a_run calls' A1 = Some (rs2, A') \<and> rs = rs1 @ rs2)"
  by (induction calls arbitrary: A rs) auto

lemma run_refines:
  "rep c A \<Longrightarrow> a_run calls A = Some (rs, A') \<Longrightarrow> \<exists>c'. Cache_run C calls c = Some (rs, c') \<and> rep c' A'"
proof (induction calls arbitrary: c A rs)
  case (Cons call calls)
  then obtain rs1 where a: "allowed call A" "a_run calls (snd (step call A)) = Some (rs1, A')" "rs = fst (step call A) # rs1"
    by (auto split: if_splits)
  obtain c1 where c1: "Cache_call C call c = Some (fst (step call A), c1)" "rep c1 (snd (step call A))"
    using call_refines [OF Cons.prems(1) a(1)] by blast
  then show ?case
    using Cons.IH [OF c1(2) a(2)] a(3) by auto
qed simp

lemma run_pinned:
  "rep c A \<Longrightarrow> pinned A key x v n \<Longrightarrow> a_run calls A = Some (rs, A') \<Longrightarrow> refs_after_all key x calls n = Some n' \<Longrightarrow>
   pinned A' key x v n'"
proof (induction calls arbitrary: c A n rs)
  case (Cons call calls)
  then obtain n1 rs1 where n1: "refs_after key x call n = Some n1" "refs_after_all key x calls n1 = Some n'"
    and a: "allowed call A" "a_run calls (snd (step call A)) = Some (rs1, A')"
    by (auto simp: bind_eq_Some_conv split: if_splits)
  obtain c1 where c1: "rep c1 (snd (step call A))"
    using call_refines [OF Cons.prems(1) a(1)] by blast
  show ?case
    by (rule Cons.IH [OF c1 pinned_stays [OF Cons.prems(1,2) a(1) n1(1)] a(2) n1(2)])
qed simp

lemma entry_in_use_found:
  assumes "rep c A" and "a_run (before @ SInsert p block key v charge deleter # after) A = Some (rs, A')"
    and "refs_after_all key p after 1 = Some n" and "n + 2 < 2 ^ 32"
  shows "\<exists>c' c''. Cache_run C (before @ SInsert p block key v charge deleter # after) c = Some (rs, c') \<and>
    Cache_Value C p c' = Some v \<and> Cache_Lookup C key c' = Some (p, c'')"
proof -
  let ?call = "SInsert p block key v charge deleter"
  obtain rs1 A1 rs2 where 1: "a_run before A = Some (rs1, A1)" "a_run (?call # after) A1 = Some (rs2, A')"
    using assms(2) unfolding a_run_append by blast
  then obtain rs3 where 2: "allowed ?call A1" "a_run after (snd (step ?call A1)) = Some (rs3, A')"
    by (auto split: if_splits)
  obtain c1 where c1: "rep c1 A1"
    using run_refines [OF assms(1) 1(1)] by blast
  obtain c2 where c2: "rep c2 (snd (step ?call A1))"
    using call_refines [OF c1 2(1)] by blast
  have pin: "pinned A' key p v n"
    by (rule run_pinned [OF c2 insert_pins [OF c1 2(1)] 2(2) assms(3)])
  obtain c' where c': "Cache_run C (before @ ?call # after) c = Some (rs, c')" "rep c' A'"
    using run_refines [OF assms(1,2)] by blast
  obtain c'' where "Cache_call C (SLookup key) c' = Some (p, c'')"
    using call_refines [OF c'(2) pinned_may_look [OF c'(2) pin assms(4)]] pinned_found [OF c'(2) pin] by auto
  then show ?thesis
    using c'(1) pinned_value [OF c'(2) pin] by auto
qed

end

subsection \<open>An entry in use in one shard\<close>

definition in_use_entry :: "ACache \<Rightarrow> u32 \<times> bytes \<Rightarrow> nat \<Rightarrow> u64 \<Rightarrow> nat \<Rightarrow> bool" where
  "in_use_entry A k x v n \<longleftrightarrow> x \<in> set (a_use A) \<and> x \<notin> set (a_lru A) \<and> a_refs A x = n \<and> 0 < n \<and>
     (\<exists>e. a_entry A x = Some e \<and> (e_hash e, e_key e) = k \<and> e_value e = v)"

lemma in_use_log [simp]: "in_use_entry (with_log d A) k x v n = in_use_entry A k x v n"
  by (simp add: in_use_entry_def)

lemma in_use_drop: "in_use_entry A k x v n \<Longrightarrow> y \<noteq> x \<Longrightarrow> in_use_entry (a_drop y A) k x v n"
  by (auto simp: in_use_entry_def a_drop_def a_unref_def a_detach_def Let_def dest: notin_set_remove1)

lemma in_use_evict: "in_use_entry A k x v n \<Longrightarrow> in_use_entry (a_evict A) k x v n"
proof (induction A rule: a_evict.induct)
  case (1 A)
  have "x \<noteq> hd (a_lru A)" if "a_lru A \<noteq> []"
    using 1(2) that by (auto simp: in_use_entry_def)
  then show ?case
    using 1 by (subst a_evict.simps) (auto intro: in_use_drop)
qed

lemma in_use_prune: "in_use_entry A k x v n \<Longrightarrow> in_use_entry (a_prune A) k x v n"
proof (induction A rule: a_prune.induct)
  case (1 A)
  have "x \<noteq> hd (a_lru A)" if "a_lru A \<noteq> []"
    using 1(2) that by (auto simp: in_use_entry_def)
  then show ?case
    using 1 by (subst a_prune.simps) (auto intro: in_use_drop)
qed

lemma a_find_SomeD: "a_find A k = Some y \<Longrightarrow> y \<in> set (a_cached A) \<and> key_at A y = Some k"
  by (auto simp: a_find_def find_Some_iff in_set_conv_nth)

lemma in_use_other: "in_use_entry A k x v n \<Longrightarrow> a_find A k' = Some y \<Longrightarrow> k' \<noteq> k \<Longrightarrow> y \<noteq> x"
  by (auto simp: in_use_entry_def key_at_def dest: a_find_SomeD)

lemma in_use_find:
  assumes "cache_rep m c A" and "in_use_entry A k x v n"
  shows "a_find A k = Some x"
proof -
  obtain T where T: "table_ok A T"
    using assms(1) by (auto simp: cache_rep_def)
  have x: "x \<in> set (a_cached A)" "key_at A x = Some k"
    using assms(2) by (auto simp: in_use_entry_def a_cached_def key_at_def)
  then obtain y where y: "a_find A k = Some y"
    by (cases "a_find A k") (auto simp: a_find_def find_None_iff)
  then have "T k = Some x" "T k = Some y"
    using T x a_find_SomeD [OF y] unfolding table_ok_def by blast+
  then show ?thesis
    using y by simp
qed

lemma in_use_insert:
  assumes "in_use_entry A k x v n" and "p \<noteq> x" and "(e_hash e, e_key e) \<noteq> k"
  shows "in_use_entry (a_insert p e A) k x v n"
proof -
  have "in_use_entry (a_add p e A) k x v n" "in_use_entry (a_keep p e A) k x v n"
    using assms by (auto simp: in_use_entry_def a_add_def a_keep_def)
  then show ?thesis
    using assms in_use_other [OF assms(1)] unfolding a_insert_def
    by (auto intro!: in_use_evict in_use_drop split: option.splits)
qed

lemma in_use_new:
  assumes "p \<notin> live A" and "0 < a_capacity A" and "\<And>x. x \<in> set (a_cached A) \<Longrightarrow> x \<in> live A"
  shows "in_use_entry (a_insert p e A) (e_hash e, e_key e) p (e_value e) 1"
proof -
  have "in_use_entry (a_add p e A) (e_hash e, e_key e) p (e_value e) 1"
    using assms(1) by (auto simp: in_use_entry_def a_add_def live_def)
  moreover have "y \<noteq> p" if "a_find A k = Some y" for y k
    using a_find_SomeD [OF that] assms by auto
  ultimately show ?thesis
    using assms(2) unfolding a_insert_def by (auto intro!: in_use_evict in_use_drop split: option.splits)
qed

lemma in_use_ref: "in_use_entry A k x v n \<Longrightarrow> in_use_entry (a_ref y A) k x v (if y = x then n + 1 else n)"
  by (auto simp: in_use_entry_def a_ref_def Let_def dest: notin_set_remove1)

lemma in_use_ref_other: "in_use_entry A k x v n \<Longrightarrow> y \<noteq> x \<Longrightarrow> in_use_entry (a_ref y A) k x v n"
  using in_use_ref [of A k x v n y] by simp

lemma in_use_unref:
  "in_use_entry A k x v n \<Longrightarrow> y \<noteq> x \<Longrightarrow> in_use_entry (a_unref y A) k x v n"
  "in_use_entry A k x v n \<Longrightarrow> 1 < n \<Longrightarrow> in_use_entry (a_unref x A) k x v (n - 1)"
  by (auto simp: in_use_entry_def a_unref_def Let_def)

subsection \<open>The sharded cache keeps the contract\<close>

definition sharded_pinned :: "ACache list \<Rightarrow> bytes \<Rightarrow> nat \<Rightarrow> u64 \<Rightarrow> nat \<Rightarrow> bool" where
  "sharded_pinned As key x v n \<longleftrightarrow> in_use_entry (As ! shard_of key) (HashSlice key, key) x v n"

text \<open>A cache whose shards have the capacity \<open>cap\<close> and whose list heads are at \<open>hs\<close>.\<close>

definition lru_rep :: "(nat \<times> nat) list \<Rightarrow> u64 \<Rightarrow> memory \<times> ShardedLRUCache \<Rightarrow> ACache list \<Rightarrow> bool" where
  "lru_rep hs cap c As \<longleftrightarrow> sharded_rep (fst c) (snd c) As \<and> heads (snd c) = hs \<and> 0 < cap \<and> (\<forall>A \<in> set As. a_capacity A = cap)"

lemma evict_capacity [simp]: "a_capacity (a_evict A) = a_capacity A"
proof (induction A rule: a_evict.induct)
  case (1 A)
  then show ?case
    by (subst a_evict.simps) simp
qed

lemma prune_capacity [simp]: "a_capacity (a_prune A) = a_capacity A"
proof (induction A rule: a_prune.induct)
  case (1 A)
  then show ?case
    by (subst a_prune.simps) simp
qed

lemma call_capacity: "a_capacity (snd (a_call call A)) = a_capacity A"
  by (cases call) (auto simp: a_insert_def a_add_def a_keep_def a_lookup_def a_unref_def a_erase_def Let_def split: option.splits)

definition all_capacity :: "u64 \<Rightarrow> ACache list \<Rightarrow> bool" where
  "all_capacity cap As \<longleftrightarrow> (\<forall>A \<in> set As. a_capacity A = cap)"

lemma on_capacity: "s < length As \<Longrightarrow> all_capacity cap As \<Longrightarrow> all_capacity cap (snd (a_on s call As))"
  using call_capacity [of call "As ! s"]
  by (auto simp: all_capacity_def a_on_def split: prod.splits dest!: set_update_subset_insert [THEN subsetD])

lemma on_length [simp]: "length (snd (a_on s call As)) = length As"
  by (simp add: a_on_def split: prod.splits)

lemma prune_on_capacity: "\<forall>s \<in> set ss. s < length As \<Longrightarrow> all_capacity cap As \<Longrightarrow> all_capacity cap (prune_on ss As)"
proof (induction ss arbitrary: As)
  case (Cons s ss)
  then show ?case
    using on_capacity [of s As cap CPrune] by simp
qed simp

lemma as_call_capacity:
  assumes "length As = kNumShards" and "as_allowed u call As" and "all_capacity cap As"
  shows "all_capacity cap (snd (as_call call As))"
  using assms shard_of_less by (cases call) (auto simp: shard_of_def intro!: on_capacity prune_on_capacity)

lemma pinned_on:
  assumes "s < length As" and "shard_of key < length As" and "sharded_pinned As key x v n"
    and "s = shard_of key \<Longrightarrow> in_use_entry (snd (a_call call (As ! s))) (HashSlice key, key) x v n'"
    and "s \<noteq> shard_of key \<Longrightarrow> n' = n"
  shows "sharded_pinned (snd (a_on s call As)) key x v n'"
  using assms by (cases "s = shard_of key") (auto simp: sharded_pinned_def a_on_def split: prod.splits)

lemma pinned_prune_on:
  "\<forall>s \<in> set ss. s < length As \<Longrightarrow> shard_of key < length As \<Longrightarrow> sharded_pinned As key x v n \<Longrightarrow>
   sharded_pinned (prune_on ss As) key x v n"
proof (induction ss arbitrary: As)
  case (Cons s ss)
  have "sharded_pinned (snd (a_on s CPrune As)) key x v n"
    using Cons.prems by (intro pinned_on) (auto simp: sharded_pinned_def intro: in_use_prune)
  then show ?case
    using Cons by simp
qed simp

lemma takeWhile_less: "length (takeWhile P xs) < length xs \<longleftrightarrow> (\<exists>x \<in> set xs. \<not> P x)"
  by (induction xs) auto

lemma home_unique:
  assumes "sharded_rep m S As" and "s < kNumShards" and "x \<in> live (As ! s)"
  shows "home x As = s"
proof -
  have len: "length As = kNumShards"
    using assms(1) by (simp add: sharded_rep_def)
  have "home x As < length As"
    unfolding home_def takeWhile_less using assms(2,3) len by (metis nth_mem)
  then have h: "home x As < kNumShards" "x \<in> owned (s_shard S ! home x As) (As ! home x As)"
    using home_live [of x As] len by (simp_all add: owned_def)
  have "x \<in> owned (s_shard S ! s) (As ! s)"
    using assms(3) by (simp add: owned_def)
  moreover have "\<forall>s < kNumShards. \<forall>t < kNumShards. s \<noteq> t \<longrightarrow> owned (s_shard S ! s) (As ! s) \<inter> owned (s_shard S ! t) (As ! t) = {}"
    using assms(1) by (simp add: sharded_rep_def)
  ultimately show ?thesis
    using h assms(2) by (metis IntI empty_iff)
qed

lemma pinned_live: "sharded_pinned As key x v n \<Longrightarrow> x \<in> live (As ! shard_of key)"
  by (auto simp: sharded_pinned_def in_use_entry_def live_def)

lemma pinned_find:
  assumes "sharded_rep m S As" and "sharded_pinned As key x v n"
  shows "a_find (As ! shard_of key) (HashSlice key, key) = Some x"
proof -
  have "cache_rep (part m (s_shard S ! shard_of key) (As ! shard_of key)) (s_shard S ! shard_of key) (As ! shard_of key)"
    using assms(1) shard_of_less [of "HashSlice key"] by (auto simp: sharded_rep_def shard_of_def)
  then show ?thesis
    using in_use_find assms(2) by (auto simp: sharded_pinned_def)
qed

lemma pinned_call:
  assumes rep: "sharded_rep m S As" and pin: "sharded_pinned As key x v n"
    and allowed: "as_allowed (dom (fst m)) call As" and refs: "refs_after key x call n = Some n'"
  shows "sharded_pinned (snd (as_call call As)) key x v n'"
proof -
  have len: "length As = kNumShards" and less: "\<And>k. shard_of k < kNumShards"
    using rep shard_of_less by (simp_all add: sharded_rep_def shard_of_def)
  note on = pinned_on [OF _ _ pin, unfolded len, OF _ less] and use = pin [unfolded sharded_pinned_def]
  show ?thesis
  proof (cases call)
    case (SInsert p block k val charge deleter)
    have "x \<in> dom (fst m)"
      using pinned_live [OF pin] nth_mem [of "shard_of key" As] len less unfolding sharded_used [OF rep] used_def by auto
    then have "p \<noteq> x"
      using allowed SInsert by auto
    moreover have "k \<noteq> key" "n' = n"
      using refs SInsert by (simp_all split: if_splits)
    ultimately show ?thesis
      unfolding SInsert as_call.simps by (intro on less) (simp_all add: in_use_insert [OF use])
  next
    case (SLookup k)
    have "in_use_entry (snd (a_call (CLookup k (HashSlice k)) (As ! shard_of k))) (HashSlice key, key) x v n'"
      if s: "shard_of k = shard_of key"
    proof (cases "k = key")
      case True
      then show ?thesis
        using pinned_find [OF rep pin] use refs SLookup in_use_ref [of _ _ x v n x] by (auto simp: a_lookup_def)
    next
      case False
      then show ?thesis
        using use s refs SLookup in_use_other [OF use, of "(HashSlice k, k)"] in_use_ref_other [OF use]
        by (cases "a_find (As ! shard_of key) (HashSlice k, k)") (simp_all add: a_lookup_def)
    qed
    moreover have "n' = n" if "shard_of k \<noteq> shard_of key"
      using refs SLookup that by auto
    ultimately show ?thesis
      unfolding SLookup as_call.simps by (intro on less)
  next
    case (SRelease y)
    have "home y As < kNumShards"
      using allowed SRelease len by simp
    moreover have "home x As = shard_of key"
      by (rule home_unique [OF rep less pinned_live [OF pin]])
    moreover have "in_use_entry (a_unref y (As ! shard_of key)) (HashSlice key, key) x v n'"
      using refs SRelease in_use_unref [OF use] by (auto split: if_splits)
    moreover have "y \<noteq> x \<Longrightarrow> n' = n"
      using refs SRelease by simp
    ultimately show ?thesis
      unfolding SRelease as_call.simps by (intro on) auto
  next
    case (SErase k)
    have "in_use_entry (snd (a_call (CErase k (HashSlice k)) (As ! shard_of k))) (HashSlice key, key) x v n"
      if "shard_of k = shard_of key"
      using that use refs SErase in_use_other [OF use, of "(HashSlice k, k)"]
      by (cases "a_find (As ! shard_of key) (HashSlice k, k)") (simp_all add: a_erase_def in_use_drop split: if_splits)
    moreover have "n' = n"
      using refs SErase by (simp split: if_splits)
    ultimately show ?thesis
      unfolding SErase as_call.simps by (intro on less) simp_all
  next
    case SPrune
    then show ?thesis
      using refs pinned_prune_on [OF _ _ pin, of "[0..<kNumShards]"] len less by simp
  qed
qed

lemma methods_call:
  "Cache_call ShardedLRUCache_methods call (m, S) = Sharded_call call m S"
  by (cases call) (auto simp: ShardedLRUCache_methods_def no_handle_def option.map_comp comp_def split_def)

interpretation lru: pinning_cache ShardedLRUCache_methods "lru_rep hs cap" "\<lambda>call As. as_allowed (used hs As) call As"
  as_call sharded_pinned for hs cap
proof unfold_locales
  fix c As call
  assume rep: "lru_rep hs cap c As" and allowed: "as_allowed (used hs As) call As"
  have r: "sharded_rep (fst c) (snd c) As" "heads (snd c) = hs" "length As = kNumShards" "all_capacity cap As" "0 < cap"
    using rep by (auto simp: lru_rep_def sharded_rep_def all_capacity_def)
  have "as_allowed (dom (fst (fst c))) call As"
    using allowed sharded_used [OF r(1)] r(2) by simp
  from Sharded_call_rep [OF r(1) this] show "\<exists>c'. Cache_call ShardedLRUCache_methods call c = Some (fst (as_call call As), c') \<and>
      lru_rep hs cap c' (snd (as_call call As))"
    using as_call_capacity [OF r(3) allowed r(4)] r(2,5) methods_call [of call "fst c" "snd c"]
    by (auto simp: lru_rep_def all_capacity_def)
next
  fix c As p block key v charge deleter
  assume rep: "lru_rep hs cap c As" and allowed: "as_allowed (used hs As) (SInsert p block key v charge deleter) As"
  have len: "shard_of key < length As"
    using rep shard_of_less by (auto simp: lru_rep_def sharded_rep_def shard_of_def)
  have "p \<notin> live (As ! shard_of key)"
    using allowed nth_mem [OF len] by (auto simp: used_def)
  moreover have "0 < a_capacity (As ! shard_of key)"
    using rep nth_mem [OF len] by (auto simp: lru_rep_def)
  ultimately show "sharded_pinned (snd (as_call (SInsert p block key v charge deleter) As)) key p v 1"
    using len in_use_new [of p "As ! shard_of key" "\<lparr> e_value = v, e_deleter = deleter, e_charge = charge, e_hash = HashSlice key, e_key = key \<rparr>"]
    by (auto simp: sharded_pinned_def a_on_def live_def a_cached_def)
next
  fix c As key x v n
  assume rep: "lru_rep hs cap c As" and pin: "sharded_pinned As key x v n"
  have r: "sharded_rep (fst c) (snd c) As"
    using rep by (simp add: lru_rep_def)
  let ?s = "shard_of key"
  have "cache_rep (part (fst c) (s_shard (snd c) ! ?s) (As ! ?s)) (s_shard (snd c) ! ?s) (As ! ?s)"
    using r shard_of_less [of "HashSlice key"] by (auto simp: sharded_rep_def shard_of_def)
  then have "handle_ok (fst (part (fst c) (s_shard (snd c) ! ?s) (As ! ?s))) (As ! ?s) x"
    using pinned_live [OF pin] unfolding cache_rep_def cache_repT_def by blast
  then show "Cache_Value ShardedLRUCache_methods x c = Some v"
    using pin by (auto simp: handle_ok_def part_def restrict_map_def sharded_pinned_def in_use_entry_def entry_of_def
        ShardedLRUCache_methods_def ShardedLRUCache_Value_def case_prod_beta split: if_splits)
  show "fst (as_call (SLookup key) As) = x"
    using pinned_find [OF r pin] by (simp add: a_on_def a_lookup_def)
  show "as_allowed (used hs As) (SLookup key) As" if "n + 2 < 2 ^ 32"
    using pinned_find [OF r pin] pin that by (auto simp: sharded_pinned_def in_use_entry_def)
next
  fix c As key x v n call n'
  assume rep: "lru_rep hs cap c As" and pin: "sharded_pinned As key x v n" and allowed: "as_allowed (used hs As) call As"
    and refs: "refs_after key x call n = Some n'"
  have r: "sharded_rep (fst c) (snd c) As" "heads (snd c) = hs"
    using rep by (auto simp: lru_rep_def)
  show "sharded_pinned (snd (as_call call As)) key x v n'"
    by (rule pinned_call [OF r(1) pin _ refs]) (use allowed sharded_used [OF r(1)] r(2) in simp)
qed

lemma as_run_eq: "as_run hs calls As = lru.a_run hs calls As"
  by (induction calls arbitrary: As) (auto simp: Let_def split_def map_option_case split: option.splits bind_splits)

lemma NewLRUCache_rep:
  assumes "length hs = kNumShards" and "distinct (0 # flat hs)" and "0 < (capacity + 15) div 16"
  obtains c where "NewLRUCache capacity hs junk = Some c" and "lru_rep hs ((capacity + 15) div 16) c (a_new_sharded capacity)"
proof -
  obtain h S where "new_ShardedLRUCache capacity hs junk Map.empty = Some (h, S)"
    "sharded_rep (h, []) S (a_new_sharded capacity)" "heads S = hs"
    by (rule new_ShardedLRUCache_rep [OF assms(1,2)])
  then show ?thesis
    using assms(3) by (intro that [of "((h, []), S)"])
      (auto simp: NewLRUCache_def lru_rep_def a_new_sharded_def a_new_def)
qed

text \<open>Ids that \<^verbatim>\<open>NewId\<close> gives out are new: the numbers from 1 on, until they wrap around.\<close>

fun NewId_run :: "nat \<Rightarrow> memory \<times> ShardedLRUCache \<Rightarrow> u64 list" where
  "NewId_run 0 c = []"
| "NewId_run (Suc k) c = (let (i, c) = Cache_NewId ShardedLRUCache_methods c in i # NewId_run k c)"

lemma NewId_run_eq: "NewId_run k (m, S) = map (\<lambda>i. s_last_id S + word_of_nat (Suc i)) [0..<k]"
proof (induction k arbitrary: S)
  case (Suc k)
  have "map (\<lambda>i. s_last_id S + word_of_nat (Suc i)) [0..<Suc k] =
      (s_last_id S + 1) # map (\<lambda>i. s_last_id S + 1 + word_of_nat (Suc i)) [0..<k]"
    by (simp add: map_upt_Suc add.assoc del: upt_Suc)
  then show ?case
    using Suc.IH by (simp add: ShardedLRUCache_methods_def ShardedLRUCache_NewId_def Let_def del: upt_Suc)
qed simp

lemma NewId_run_distinct:
  assumes "k \<le> 2 ^ 64"
  shows "distinct (NewId_run k (m, S))"
proof -
  have "inj_on (\<lambda>i. s_last_id S + word_of_nat (Suc i)) {0..<k}"
  proof (rule inj_onI)
    fix i j
    assume ij: "i \<in> {0..<k}" "j \<in> {0..<k}" "s_last_id S + word_of_nat (Suc i) = s_last_id S + word_of_nat (Suc j)"
    then have "(word_of_nat i :: u64) = word_of_nat j"
      by simp
    then show "i = j"
      using ij(1,2) assms by (simp add: of_nat_inverse word_of_nat_eq_iff take_bit_nat_eq_self)
  qed
  then show ?thesis
    unfolding NewId_run_eq distinct_map by simp
qed

subsection \<open>Properties\<close>

text \<open>C9: while a client keeps a reference to the handle that \<^verbatim>\<open>Insert\<close> gave it, and as long as nobody erases
  or inserts its key, whatever else happens to a cache made by
  \<^verbatim>\<open>NewLRUCache\<close> with a capacity that is not 0 -- insertions that overfill it, pruning, lookups and releases,
  erasing of other keys -- the entry is neither evicted nor moved: \<^verbatim>\<open>Value\<close> of the handle is the inserted
  value and \<^verbatim>\<open>Lookup\<close> of the key returns the same handle.\<close>

theorem NewLRUCache_keeps_entries_in_use:
  assumes "length hs = kNumShards" and "distinct (0 # flat hs)" and "0 < (capacity + 15) div 16"
    and "as_run hs (before @ SInsert p block key v charge deleter # after) (a_new_sharded capacity) = Some (rs, As)"
    and "refs_after_all key p after 1 = Some n" and "n + 2 < 2 ^ 32"
  shows "\<exists>c c' c''. NewLRUCache capacity hs junk = Some c \<and>
    Cache_run ShardedLRUCache_methods (before @ SInsert p block key v charge deleter # after) c = Some (rs, c') \<and>
    Cache_Value ShardedLRUCache_methods p c' = Some v \<and> Cache_Lookup ShardedLRUCache_methods key c' = Some (p, c'')"
proof -
  obtain c where "NewLRUCache capacity hs junk = Some c" "lru_rep hs ((capacity + 15) div 16) c (a_new_sharded capacity)"
    by (rule NewLRUCache_rep [OF assms(1-3)])
  then show ?thesis
    using lru.entry_in_use_found [OF _ assms(4) [unfolded as_run_eq] assms(5,6)] by blast
qed

theorem NewLRUCache_keeps_entries_in_use_witness:
  "\<exists>c c' c''. NewLRUCache 160 some_heads (\<lambda>_. a_handle 0 []) = Some c \<and>
    Cache_run ShardedLRUCache_methods [SInsert 100 (a_handle 0 []) [] 7 999 9, SPrune] c = Some ([100, 0], c') \<and>
    Cache_Value ShardedLRUCache_methods 100 c' = Some 7 \<and> Cache_Lookup ShardedLRUCache_methods [] c' = Some (100, c'')"
proof -
  have "as_allowed (used some_heads (a_new_sharded 160)) (SInsert 100 (a_handle 0 []) [] 7 999 9) (a_new_sharded 160)"
    by (simp add: a_new_sharded_def kNumShards_eq shard_of_Nil used_def live_def a_cached_def a_new_def some_heads_def upt_rec)
  then have "\<exists>As. as_run some_heads ([] @ SInsert 100 (a_handle 0 []) [] 7 999 9 # [SPrune]) (a_new_sharded 160) = Some ([100, 0], As)"
    by (simp add: a_on_def split_def)
  then obtain As where "as_run some_heads ([] @ SInsert 100 (a_handle 0 []) [] 7 999 9 # [SPrune]) (a_new_sharded 160) = Some ([100, 0], As)"
    by blast
  from NewLRUCache_keeps_entries_in_use [OF some_heads_ok _ this, of 1 "\<lambda>_. a_handle 0 []"] show ?thesis
    by simp
qed

end
