(* ===== verification/Guarded.thy ===== *)
theory Guarded
  imports Prelude
begin

text \<open>
  \<^verbatim>\<open>MutexLock\<close> (\<^verbatim>\<open>util/mutexlock.h\<close>): a local object that locks a mutex (\<^verbatim>\<open>port/port.h\<close>) when it is
  constructed and unlocks it when the scope ends. Threads run calls whose bodies are such scopes, one statement at
  a time and interleaved in any order. The result is that the calls are atomic: what has happened is
  what the finished calls do one after the other. On it rest the models in which a call under a mutex is
  one step.
\<close>

subsection \<open>Threads and the guard\<close>

text \<open>A thread is outside, waits in the constructor of the guard, or is in the scope: then the state of its local
  variables, control included, is recorded together with that at the start.\<close>

datatype 'l guard = Outside | Constructing 'l | Inside 'l 'l

record ('l, 's) guarded =
  mu :: "nat option"
  shared :: 's
  threads :: "nat \<Rightarrow> 'l guard"
  history :: "(nat \<times> 'l \<times> 'l) list"

definition new_MutexLock :: "nat \<Rightarrow> ('l, 's) guarded \<Rightarrow> ('l, 's) guarded option" where
  "new_MutexLock t s = (case mu s of None \<Rightarrow> Some (s\<lparr>mu := Some t\<rparr>) | Some _ \<Rightarrow> None)"

definition MutexLock_destructor :: "('l, 's) guarded \<Rightarrow> ('l, 's) guarded" where
  "MutexLock_destructor s = s\<lparr>mu := None\<rparr>"

text \<open>\<open>stmt\<close> executes the next statement of the scope and is \<^term>\<open>None\<close> at its end; \<open>may\<close> is what the callers
  owe. The history lists the finished calls.\<close>

inductive guarded_step ::
    "('l \<Rightarrow> 's \<Rightarrow> ('l \<times> 's) option) \<Rightarrow> (('l, 's) guarded \<Rightarrow> 'l \<Rightarrow> bool) \<Rightarrow>
     ('l, 's) guarded \<Rightarrow> ('l, 's) guarded \<Rightarrow> bool" for stmt may where
  call: "threads s t = Outside \<Longrightarrow> may s l \<Longrightarrow>
    guarded_step stmt may s (s\<lparr>threads := (threads s)(t := Constructing l)\<rparr>)"
| lock: "threads s t = Constructing l \<Longrightarrow> new_MutexLock t s = Some s' \<Longrightarrow>
    guarded_step stmt may s (s'\<lparr>threads := (threads s)(t := Inside l l)\<rparr>)"
| stmt: "threads s t = Inside l0 l \<Longrightarrow> stmt l (shared s) = Some (l', sh) \<Longrightarrow>
    guarded_step stmt may s (s\<lparr>shared := sh, threads := (threads s)(t := Inside l0 l')\<rparr>)"
| unlock: "threads s t = Inside l0 l \<Longrightarrow> stmt l (shared s) = None \<Longrightarrow>
    guarded_step stmt may s ((MutexLock_destructor s)\<lparr>threads := (threads s)(t := Outside), history := history s @ [(t, l0, l)]\<rparr>)"

text \<open>The call a thread is in, and what a step does to it.\<close>

fun started :: "'l guard \<Rightarrow> 'l option" where
  "started Outside = None"
| "started (Constructing l) = Some l"
| "started (Inside l0 l) = Some l0"

definition under_way :: "('l, 's) guarded \<Rightarrow> nat \<Rightarrow> 'l option" where
  "under_way s t = started (threads s t)"

lemma guarded_step_calls:
  assumes "guarded_step stmt may s s'"
  obtains (begins) t l where "under_way s t = None" "may s l" "under_way s' = (under_way s)(t := Some l)" "history s' = history s"
  | (stays) "under_way s' = under_way s" "history s' = history s"
  | (ends) t l0 l where "under_way s t = Some l0" "under_way s' = (under_way s)(t := None)" "history s' = history s @ [(t, l0, l)]"
  using assms
proof cases
  case (call t l)
  then show ?thesis
    by (intro begins [of t l]) (auto simp: under_way_def fun_eq_iff)
next
  case (lock t l s1)
  then have "s1 = s\<lparr>mu := Some t\<rparr>"
    by (auto simp: new_MutexLock_def split: option.splits)
  then show ?thesis
    using lock by (intro stays) (auto simp: under_way_def fun_eq_iff)
next
  case (stmt t l0 l l' sh)
  then show ?thesis
    by (intro stays) (auto simp: under_way_def fun_eq_iff)
next
  case (unlock t l0 l)
  then show ?thesis
    by (intro ends [of t l0 l]) (auto simp: under_way_def fun_eq_iff MutexLock_destructor_def)
qed

definition new_guarded :: "'s \<Rightarrow> ('l, 's) guarded" where
  "new_guarded sh = \<lparr>mu = None, shared = sh, threads = (\<lambda>_. Outside), history = []\<rparr>"

subsection \<open>One call at a time\<close>

inductive body :: "('l \<Rightarrow> 's \<Rightarrow> ('l \<times> 's) option) \<Rightarrow> 'l \<Rightarrow> 's \<Rightarrow> 'l \<Rightarrow> 's \<Rightarrow> bool" for stmt where
  start: "body stmt l s l s"
| more: "body stmt l s l1 s1 \<Longrightarrow> stmt l1 s1 = Some (l', s') \<Longrightarrow> body stmt l s l' s'"

text \<open>The whole call, from its start to the end of the scope.\<close>

definition atomic_call :: "('l \<Rightarrow> 's \<Rightarrow> ('l \<times> 's) option) \<Rightarrow> 'l \<Rightarrow> 's \<Rightarrow> 'l \<Rightarrow> 's \<Rightarrow> bool" where
  "atomic_call stmt l s l' s' \<longleftrightarrow> body stmt l s l' s' \<and> stmt l' s' = None"

lemma body_cases: "body stmt l s l' s' \<Longrightarrow>
   l' = l \<and> s' = s \<or> (\<exists>l1 s1. stmt l s = Some (l1, s1) \<and> body stmt l1 s1 l' s')"
proof (induction rule: body.induct)
  case (more l sh l1 s1 l' s')
  then show ?case
    by (metis body.intros option.inject prod.inject)
qed simp

lemma atomic_call_end: "stmt l s = None \<Longrightarrow> atomic_call stmt l s l' s' \<longleftrightarrow> l' = l \<and> s' = s"
  unfolding atomic_call_def using body_cases body.start by (metis option.discI)

lemma body_prefix: "body stmt l1 s1 l' s' \<Longrightarrow> stmt l s = Some (l1, s1) \<Longrightarrow> body stmt l s l' s'"
  by (induction rule: body.induct) (blast intro: body.intros)+

lemma atomic_call_step: "stmt l s = Some (l1, s1) \<Longrightarrow> atomic_call stmt l s l' s' \<longleftrightarrow> atomic_call stmt l1 s1 l' s'"
  unfolding atomic_call_def using body_cases body_prefix by (metis option.discI option.inject prod.inject)

text \<open>A call that nobody interrupts is one of the interleavings.\<close>

lemma body_runs:
  assumes "body stmt l sh l' sh'" and "threads s t = Inside l0 l" and "shared s = sh"
  shows "(guarded_step stmt may)\<^sup>*\<^sup>* s (s\<lparr>shared := sh', threads := (threads s)(t := Inside l0 l')\<rparr>)"
  using assms
proof (induction rule: body.induct)
  case (start l sh)
  then have "s\<lparr>shared := sh, threads := (threads s)(t := Inside l0 l)\<rparr> = s"
    by (cases s) (auto simp: fun_eq_iff)
  then show ?case
    by (simp only: rtranclp.rtrancl_refl)
next
  case (more l sh l1 s1 l' s')
  let ?s = "s\<lparr>shared := s1, threads := (threads s)(t := Inside l0 l1)\<rparr>"
  have "guarded_step stmt may ?s (?s\<lparr>shared := s', threads := (threads ?s)(t := Inside l0 l')\<rparr>)"
    using more.hyps(2) by (intro guarded_step.stmt) simp_all
  then have "guarded_step stmt may ?s (s\<lparr>shared := s', threads := (threads s)(t := Inside l0 l')\<rparr>)"
    by simp
  with more.IH [OF more.prems] show ?case
    by (rule rtranclp.rtrancl_into_rtrancl)
qed

lemma guarded_call_runs:
  assumes "atomic_call stmt l (shared s) l' sh'" and "mu s = None" and "threads s t = Outside" and "may s l"
  shows "(guarded_step stmt may)\<^sup>*\<^sup>* s (s\<lparr>shared := sh', history := history s @ [(t, l, l')]\<rparr>)"
proof -
  let ?s1 = "s\<lparr>threads := (threads s)(t := Constructing l)\<rparr>"
  let ?s2 = "s\<lparr>mu := Some t, threads := (threads s)(t := Inside l l)\<rparr>"
  let ?s3 = "s\<lparr>mu := Some t, shared := sh', threads := (threads s)(t := Inside l l')\<rparr>"
  have 1: "guarded_step stmt may s ?s1"
    using assms(3,4) by (rule guarded_step.call)
  have "guarded_step stmt may ?s1 (?s1\<lparr>mu := Some t\<rparr>\<lparr>threads := (threads ?s1)(t := Inside l l)\<rparr>)"
    using assms(2) by (intro guarded_step.lock) (simp_all add: new_MutexLock_def)
  then have 2: "guarded_step stmt may ?s1 ?s2"
    by simp
  have 3: "(guarded_step stmt may)\<^sup>*\<^sup>* ?s2 ?s3"
    using body_runs [of stmt l "shared s" l' sh' ?s2 t l may] assms(1) by (simp add: atomic_call_def)
  have "guarded_step stmt may ?s3 ((MutexLock_destructor ?s3)\<lparr>threads := (threads ?s3)(t := Outside), history := history ?s3 @ [(t, l, l')]\<rparr>)"
    using assms(1) by (intro guarded_step.unlock) (simp_all add: atomic_call_def)
  moreover have "(threads s)(t := Outside) = threads s"
    using assms(3) by (simp add: fun_upd_idem)
  moreover have "s\<lparr>shared := sh', mu := None, history := h\<rparr> = s\<lparr>shared := sh', history := h\<rparr>" for h
    using assms(2) by (cases s) simp
  ultimately have 4: "guarded_step stmt may ?s3 (s\<lparr>shared := sh', history := history s @ [(t, l, l')]\<rparr>)"
    by (simp add: MutexLock_destructor_def)
  show ?thesis
    by (rule converse_rtranclp_into_rtranclp [of "guarded_step stmt may", OF 1],
        rule converse_rtranclp_into_rtranclp [of "guarded_step stmt may", OF 2]) (rule rtranclp.rtrancl_into_rtrancl [OF 3 4])
qed

text \<open>Calls one after the other; the last call of the list is the last one.\<close>

fun sequential :: "('l \<Rightarrow> 's \<Rightarrow> ('l \<times> 's) option) \<Rightarrow> 's \<Rightarrow> (nat \<times> 'l \<times> 'l) list \<Rightarrow> 's \<Rightarrow> bool" where
  "sequential stmt s [] s' \<longleftrightarrow> s' = s"
| "sequential stmt s ((t, l, l') # calls) s' \<longleftrightarrow> (\<exists>s1. atomic_call stmt l s l' s1 \<and> sequential stmt s1 calls s')"

lemma sequential_append:
  "sequential stmt s (calls @ calls') s' \<longleftrightarrow> (\<exists>s1. sequential stmt s calls s1 \<and> sequential stmt s1 calls' s')"
proof (induction calls arbitrary: s)
  case (Cons c calls)
  then show ?case
    by (cases c) (simp, blast)
qed simp

subsection \<open>Mutual exclusion\<close>

definition guarded_inv :: "('l \<Rightarrow> 's \<Rightarrow> ('l \<times> 's) option) \<Rightarrow> 's \<Rightarrow> ('l, 's) guarded \<Rightarrow> bool" where
  "guarded_inv stmt sh0 s \<longleftrightarrow>
     (\<forall>t. mu s = Some t \<longleftrightarrow> (\<exists>l0 l. threads s t = Inside l0 l)) \<and>
     (\<exists>sh. sequential stmt sh0 (history s) sh \<and> (mu s = None \<longrightarrow> shared s = sh) \<and>
       (\<forall>t l0 l. threads s t = Inside l0 l \<longrightarrow> body stmt l0 sh l (shared s)))"

lemma guarded_exclusive:
  "guarded_inv stmt sh0 s \<Longrightarrow> threads s t = Inside l0 l \<Longrightarrow> mu s = Some t"
  "guarded_inv stmt sh0 s \<Longrightarrow> threads s t = Inside l0 l \<Longrightarrow> threads s u = Inside l0' l' \<Longrightarrow> u = t"
  unfolding guarded_inv_def by (metis option.inject)+

lemma new_guarded_inv: "guarded_inv stmt sh (new_guarded sh)"
  by (simp add: guarded_inv_def new_guarded_def)

lemma guarded_step_inv:
  assumes "guarded_step stmt may s s'" and "guarded_inv stmt sh0 s"
  shows "guarded_inv stmt sh0 s'"
  using assms(1)
proof cases
  case (call t l)
  then show ?thesis
    using assms(2) by (auto simp: guarded_inv_def)
next
  case (lock t l s1)
  then have "mu s = None" "s1 = s\<lparr>mu := Some t\<rparr>"
    by (auto simp: new_MutexLock_def split: option.splits)
  then show ?thesis
    using assms(2) lock by (auto simp: guarded_inv_def intro: body.start)
next
  case (stmt t l0 l l' sh)
  then have mu: "mu s = Some t" "\<And>u l0 l. threads s u = Inside l0 l \<Longrightarrow> u = t"
    using guarded_exclusive [OF assms(2)] by blast+
  obtain sh1 where "sequential stmt sh0 (history s) sh1" "body stmt l0 sh1 l (shared s)"
    using assms(2) stmt(2) unfolding guarded_inv_def by blast
  then have "sequential stmt sh0 (history s) sh1" "body stmt l0 sh1 l' sh"
    using stmt(3) by (auto intro: body.more)
  then show ?thesis
    using mu stmt(1) by (fastforce simp: guarded_inv_def)
next
  case (unlock t l0 l)
  then have mu: "\<And>u l0 l. threads s u = Inside l0 l \<Longrightarrow> u = t"
    using guarded_exclusive [OF assms(2)] by blast
  obtain sh where "sequential stmt sh0 (history s) sh" "body stmt l0 sh l (shared s)"
    using assms(2) unlock(2) unfolding guarded_inv_def by blast
  then have "sequential stmt sh0 (history s @ [(t, l0, l)]) (shared s)"
    using unlock(3) by (auto simp: sequential_append atomic_call_def)
  then show ?thesis
    using mu unlock(1) by (fastforce simp: guarded_inv_def MutexLock_destructor_def)
qed

lemma guarded_reachable_inv:
  "(guarded_step stmt may)\<^sup>*\<^sup>* (new_guarded sh) s \<Longrightarrow> guarded_inv stmt sh s"
  by (induction rule: rtranclp_induct) (auto intro: new_guarded_inv guarded_step_inv)

text \<open>
  A class whose methods are guarded scopes: \<open>ok\<close> relates the shared fields to the finished calls, under the
  callers' obligations, which \<open>legal\<close> states for the finished calls and \<open>owed\<close> for those under way. When one call
  at a time keeps \<open>ok\<close>, every interleaving does.
\<close>

locale guarded_class =
  fixes stmt :: "'l \<Rightarrow> 's \<Rightarrow> ('l \<times> 's) option" and may :: "('l, 's) guarded \<Rightarrow> 'l \<Rightarrow> bool" and sh0 :: 's
    and ok :: "(nat \<times> 'l \<times> 'l) list \<Rightarrow> 's \<Rightarrow> bool" and legal :: "(nat \<times> 'l \<times> 'l) list \<Rightarrow> bool"
    and owed :: "('l, 's) guarded \<Rightarrow> bool"
  assumes ok_new: "ok [] sh0" and owed_new: "owed (new_guarded sh0)"
    and owed_step: "owed s \<Longrightarrow> guarded_step stmt may s s' \<Longrightarrow> owed s'"
    and owed_legal: "owed s \<Longrightarrow> legal (history s)"
    and legal_prefix: "legal (calls @ [c]) \<Longrightarrow> legal calls"
    and ok_call: "ok calls sh \<Longrightarrow> legal (calls @ [(t, l, l')]) \<Longrightarrow> atomic_call stmt l sh l' sh' \<Longrightarrow> ok (calls @ [(t, l, l')]) sh'"
begin

lemma sequential_ok: "legal calls \<Longrightarrow> sequential stmt sh0 calls sh \<Longrightarrow> ok calls sh"
proof (induction calls arbitrary: sh rule: rev_induct)
  case Nil
  then show ?case
    using ok_new by simp
next
  case (snoc c calls)
  obtain t l l' where c: "c = (t, l, l')"
    by (metis prod_cases3)
  then obtain sh1 where "sequential stmt sh0 calls sh1" "atomic_call stmt l sh1 l' sh"
    using snoc.prems(2) by (auto simp: sequential_append)
  then show ?case
    using snoc.IH ok_call snoc.prems(1) legal_prefix c by blast
qed

lemma reachable_owed: "(guarded_step stmt may)\<^sup>*\<^sup>* (new_guarded sh0) s \<Longrightarrow> owed s"
  by (induction rule: rtranclp_induct) (auto intro: owed_new owed_step)

text \<open>At most one thread is in the scope. The shared fields are those that the finished calls leave, changed
  only by the statements of that thread.\<close>

lemma reachable_ok:
  assumes "(guarded_step stmt may)\<^sup>*\<^sup>* (new_guarded sh0) s"
  obtains sh where "ok (history s) sh" and "mu s = None \<Longrightarrow> shared s = sh"
    and "\<And>t l0 l. threads s t = Inside l0 l \<Longrightarrow> mu s = Some t \<and> body stmt l0 sh l (shared s)"
proof -
  obtain sh where sh: "sequential stmt sh0 (history s) sh" "mu s = None \<longrightarrow> shared s = sh"
    "\<forall>t l0 l. threads s t = Inside l0 l \<longrightarrow> body stmt l0 sh l (shared s)"
    "\<forall>t. mu s = Some t \<longleftrightarrow> (\<exists>l0 l. threads s t = Inside l0 l)"
    using guarded_reachable_inv [OF assms] unfolding guarded_inv_def by (elim conjE exE) (rule that)
  have "ok (history s) sh"
    by (rule sequential_ok [OF owed_legal [OF reachable_owed [OF assms]] sh(1)])
  then show ?thesis
    using sh(2-) by (intro that) blast+
qed

end

end
