(* ===== verification/MemFile.thy ===== *)
theory MemFile
  imports Status
begin

text \<open>
  The files of the in-memory environment: \<^verbatim>\<open>FileState\<close> of \<^verbatim>\<open>helper/memenv/memenv.cpp\<close> with its
  blocks of 8192 bytes, its size, its reference count, and the copying loops of \<^verbatim>\<open>Read\<close> and
  \<^verbatim>\<open>Append\<close>. Every copy is checked against the block and the caller's buffer. A file stands for
  the byte string it holds; the fresh blocks of \<^verbatim>\<open>new char[]\<close> have arbitrary content.
\<close>

subsection \<open>Definitions\<close>

definition FileState_kBlockSize :: u64 where
  "FileState_kBlockSize = 8 * 1024"

record FileState =
  fs_refs :: int
  fs_blocks :: "bytes list"
  fs_size :: u64

definition new_FileState :: FileState where
  "new_FileState = \<lparr> fs_refs = 0, fs_blocks = [], fs_size = 0 \<rparr>"

text \<open>The counter is a signed 32-bit integer, which must not overflow.\<close>

definition FileState_Ref :: "FileState \<Rightarrow> FileState option" where
  "FileState_Ref f = asserting (fs_refs f + 1 < 2 ^ 31) (Some (f \<lparr> fs_refs := fs_refs f + 1 \<rparr>))"

text \<open>The inner option is \<^term>\<open>None\<close> when the file is deleted.\<close>

definition FileState_Unref :: "FileState \<Rightarrow> FileState option option" where
  "FileState_Unref f = (let f = f \<lparr> fs_refs := fs_refs f - 1 \<rparr> in
     asserting (fs_refs f \<ge> 0) (Some (if fs_refs f \<le> 0 then None else Some f)))"

definition FileState_Size :: "FileState \<Rightarrow> u64" where
  "FileState_Size f = fs_size f"

definition FileState_Truncate :: "FileState \<Rightarrow> FileState" where
  "FileState_Truncate f = f \<lparr> fs_blocks := [], fs_size := 0 \<rparr>"

text \<open>The destination pointer is an offset into \<open>scratch\<close>.\<close>

partial_function (option) FileState_Read_loop ::
    "bytes list \<Rightarrow> u64 \<Rightarrow> u64 \<Rightarrow> u64 \<Rightarrow> nat \<Rightarrow> bytes \<Rightarrow> bytes option" where
  [code]: "FileState_Read_loop blocks block block_offset bytes_to_copy dst scratch =
     (if bytes_to_copy > 0 then do {
        let avail = FileState_kBlockSize - block_offset;
        let avail = (if avail > bytes_to_copy then bytes_to_copy else avail);
        src \<leftarrow> asserting (unat block < length blocks) (mem_read (blocks ! unat block) (unat block_offset) (unat avail));
        scratch \<leftarrow> mem_write scratch dst src;
        FileState_Read_loop blocks (block + 1) 0 (bytes_to_copy - avail) (dst + unat avail) scratch
      } else Some scratch)"

text \<open>\<open>result\<close> is what \<^verbatim>\<open>*result\<close> holds before the call; the answer is the status, what it holds
  afterwards, and the buffer.\<close>

definition FileState_Read ::
    "(nat \<Rightarrow> u8) \<Rightarrow> FileState \<Rightarrow> u64 \<Rightarrow> u64 \<Rightarrow> bytes \<Rightarrow> bytes \<Rightarrow> (status \<times> bytes \<times> bytes) option" where
  "FileState_Read junk f offset n result scratch =
     (if offset > fs_size f then do {
        s \<leftarrow> Status_IOError junk (ascii ''Offset greater than file size.'') [];
        Some (s, result, scratch)
      } else do {
        let available = fs_size f - offset;
        let n = (if n > available then available else n);
        if n = 0 then Some (Status_OK, [], scratch)
        else asserting (offset div FileState_kBlockSize \<le> - 1) (do {
          scratch \<leftarrow> FileState_Read_loop (fs_blocks f) (offset div FileState_kBlockSize) (offset mod FileState_kBlockSize) n 0 scratch;
          result \<leftarrow> mem_read scratch 0 (unat n);
          Some (Status_OK, result, scratch)
        })
      })"

text \<open>\<open>src\<close> is the data from the source pointer on; \<open>junk i\<close> is the content of the block that
  becomes the block number \<open>i\<close>.\<close>

partial_function (option) FileState_Append_loop ::
    "(nat \<Rightarrow> nat \<Rightarrow> u8) \<Rightarrow> FileState \<Rightarrow> bytes \<Rightarrow> u64 \<Rightarrow> FileState option" where
  [code]: "FileState_Append_loop junk f src src_len =
     (if src_len > 0 then do {
        let offset = fs_size f mod FileState_kBlockSize;
        let blocks = (if offset \<noteq> 0 then fs_blocks f
                      else fs_blocks f @ [mem_new (junk (length (fs_blocks f))) (unat FileState_kBlockSize)]);
        let avail = (if offset \<noteq> 0 then FileState_kBlockSize - offset else FileState_kBlockSize);
        let avail = (if avail > src_len then src_len else avail);
        from \<leftarrow> mem_read src 0 (unat avail);
        back \<leftarrow> asserting (blocks \<noteq> []) (mem_write (last blocks) (unat offset) from);
        FileState_Append_loop junk (f \<lparr> fs_blocks := butlast blocks @ [back], fs_size := fs_size f + avail \<rparr>)
          (drop (unat avail) src) (src_len - avail)
      } else Some f)"

definition FileState_Append :: "(nat \<Rightarrow> nat \<Rightarrow> u8) \<Rightarrow> FileState \<Rightarrow> bytes \<Rightarrow> (status \<times> FileState) option" where
  "FileState_Append junk f data = do {
     f \<leftarrow> FileState_Append_loop junk f data (word_of_nat (length data));
     Some (Status_OK, f)
   }"

subsection \<open>The content of a file\<close>

definition file_ok :: "FileState \<Rightarrow> bool" where
  "file_ok f \<longleftrightarrow> (\<forall>b \<in> set (fs_blocks f). length b = 8192) \<and>
     unat (fs_size f) \<le> 8192 * length (fs_blocks f) \<and> 8192 * length (fs_blocks f) < unat (fs_size f) + 8192"

definition content :: "FileState \<Rightarrow> bytes" where
  "content f = take (unat (fs_size f)) (concat (fs_blocks f))"

lemma unat_kBlockSize [simp]: "unat FileState_kBlockSize = 8192"
  by (simp add: FileState_kBlockSize_def)

lemma length_concat_blocks: "\<forall>b \<in> set bs. length b = k \<Longrightarrow> length (concat bs) = k * length bs"
  by (induction bs) auto

lemma drop_concat_blocks:
  "\<forall>b \<in> set bs. length b = k \<Longrightarrow> drop (k * i) (concat bs) = concat (drop i bs)"
proof (induction bs arbitrary: i)
  case (Cons b bs)
  then show ?case
    by (cases i) auto
qed simp

lemma length_content: "file_ok f \<Longrightarrow> length (content f) = unat (fs_size f)"
  using length_concat_blocks [of "fs_blocks f" 8192] by (simp add: content_def file_ok_def)

lemma file_new: "file_ok new_FileState" "content new_FileState = []"
  by (simp_all add: file_ok_def content_def new_FileState_def)

lemma Truncate_content: "file_ok (FileState_Truncate f)" "content (FileState_Truncate f) = []"
  by (simp_all add: file_ok_def content_def FileState_Truncate_def)

lemma refs_content [simp]:
  "file_ok (f \<lparr> fs_refs := r \<rparr>) = file_ok f" "content (f \<lparr> fs_refs := r \<rparr>) = content f"
  by (simp_all add: file_ok_def content_def)


subsection \<open>Reading\<close>

lemma block_slice:
  assumes "\<forall>b \<in> set bs. length b = k" and "i < length bs" and "o' + n \<le> k"
  shows "take n (drop o' (bs ! i)) = take n (drop (k * i + o') (concat bs))"
proof -
  have "drop (k * i + o') (concat bs) = drop o' (drop (k * i) (concat bs))"
    by (simp add: add.commute)
  also have "\<dots> = drop o' (bs ! i @ concat (drop (Suc i) bs))"
    using assms(2) by (simp add: drop_concat_blocks [OF assms(1)] Cons_nth_drop_Suc [symmetric])
  finally show ?thesis
    using assms by simp
qed

lemma unat_minus_u64: "w \<le> v \<Longrightarrow> unat (v - w :: u64) = unat v - unat w"
  by (simp add: unat_sub)

lemma unat_plus_u64: "unat v + unat w < 2 ^ 64 \<Longrightarrow> unat (v + w :: u64) = unat v + unat w"
  by (simp add: unat_word_ariths)

lemma FileState_Read_loop_eq:
  assumes "\<forall>b \<in> set blocks. length b = 8192" and "8192 * length blocks < 2 ^ 64 + 8192"
    and "unat block_offset < 8192" and "8192 * unat block + unat block_offset + unat n \<le> 8192 * length blocks"
    and "dst + unat n \<le> length scratch"
  shows "FileState_Read_loop blocks block block_offset n dst scratch =
    Some (take dst scratch @ take (unat n) (drop (8192 * unat block + unat block_offset) (concat blocks)) @ drop (dst + unat n) scratch)"
  using assms(3-5)
proof (induction "unat n" arbitrary: block block_offset n dst scratch rule: less_induct)
  case less
  show ?case
  proof (cases "n = 0")
    case True
    then show ?thesis
      by (subst FileState_Read_loop.simps) simp
  next
    case False
    let ?o = "unat block_offset" and ?i = "unat block" and ?c = "concat blocks"
    define avail where "avail = (if FileState_kBlockSize - block_offset > n then n else FileState_kBlockSize - block_offset)"
    have room: "unat (FileState_kBlockSize - block_offset) = 8192 - ?o"
      using less.prems(1) by (simp add: unat_minus_u64 word_le_nat_alt)
    have u: "unat avail = min (unat n) (8192 - ?o)"
      using room by (auto simp: avail_def min_def word_less_nat_alt)
    have pos: "unat n > 0" and le: "avail \<le> n"
      using False u unat_eq_zero [of n] by (auto simp: word_le_nat_alt)
    let ?a = "unat avail"
    have a: "?a > 0" "?a \<le> unat n" "?o + ?a \<le> 8192"
      using u pos less.prems(1) by auto
    have i: "?i < length blocks"
      using less.prems(2) pos by linarith
    have "?i + 1 < 2 ^ 64 \<or> unat n = ?a"
      using a u less.prems(2) assms(2) i by (auto simp: min_def split: if_splits)
    moreover have "unat (block + 1) = ?i + 1" if "?i + 1 < 2 ^ 64"
      using that by (simp add: unat_word_ariths)
    ultimately have next_i: "unat (block + 1) = ?i + 1 \<or> unat n = ?a"
      by blast
    have src: "mem_read (blocks ! ?i) ?o ?a = Some (take ?a (drop (8192 * ?i + ?o) ?c))"
      using a(3) assms(1) i block_slice [OF assms(1) i a(3)] by (simp add: mem_read_def)
    have len: "length (take ?a (drop (8192 * ?i + ?o) ?c)) = ?a"
      using less.prems(2) a(2) length_concat_blocks [OF assms(1)] by simp
    define scratch' where "scratch' = take dst scratch @ take ?a (drop (8192 * ?i + ?o) ?c) @ drop (dst + ?a) scratch"
    have w: "mem_write scratch dst (take ?a (drop (8192 * ?i + ?o) ?c)) = Some scratch'"
      using less.prems(3) a(2) len by (simp add: mem_write_def scratch'_def)
    have rest: "unat (n - avail) = unat n - ?a"
      by (rule unat_minus_u64 [OF le])
    have step: "FileState_Read_loop blocks block block_offset n dst scratch =
        FileState_Read_loop blocks (block + 1) 0 (n - avail) (dst + ?a) scratch'"
      using False i src w by (subst FileState_Read_loop.simps) (simp add: avail_def [symmetric] Let_def word_gt_0)
    show ?thesis
    proof (cases "unat n = ?a")
      case True
      then have "n - avail = 0"
        using rest unat_eq_zero [of "n - avail"] by simp
      then have "FileState_Read_loop blocks (block + 1) 0 (n - avail) (dst + ?a) scratch' = Some scratch'"
        by (simp add: FileState_Read_loop.simps)
      then show ?thesis
        using step True by (simp add: scratch'_def)
    next
      case more: False
      then have full: "?o + ?a = 8192" and nxt: "8192 * unat (block + 1) = 8192 * ?i + ?o + ?a"
        using u next_i less.prems(1) by (auto simp: min_def split: if_splits)
      have "FileState_Read_loop blocks (block + 1) 0 (n - avail) (dst + ?a) scratch' =
          Some (take (dst + ?a) scratch' @ take (unat n - ?a) (drop (8192 * ?i + ?o + ?a) ?c) @ drop (dst + unat n) scratch')"
        using less.hyps [of "n - avail" 0 "block + 1" "dst + ?a" scratch'] less.prems a rest nxt len
        by (simp add: scratch'_def)
      moreover have "take (dst + ?a) scratch' = take dst scratch @ take ?a (drop (8192 * ?i + ?o) ?c)"
        "drop (dst + unat n) scratch' = drop (dst + unat n) scratch"
        using less.prems(3) a(2) len by (simp_all add: scratch'_def add.commute)
      moreover have "take (unat n) (drop (8192 * ?i + ?o) ?c) =
          take ?a (drop (8192 * ?i + ?o) ?c) @ take (unat n - ?a) (drop (8192 * ?i + ?o + ?a) ?c)"
        using take_add [of ?a "unat n - ?a" "drop (8192 * ?i + ?o) ?c"] a(2) by (simp add: add.commute)
      ultimately show ?thesis
        using step by simp
    qed
  qed
qed

lemma FileState_Read_eq:
  assumes ok: "file_ok f" and room: "unat n \<le> length scratch" and offset: "offset \<le> fs_size f"
  defines "r \<equiv> take (unat n) (drop (unat offset) (content f))"
  shows "FileState_Read junk f offset n result scratch = Some (Status_OK, r, r @ drop (length r) scratch)"
proof -
  let ?n = "if n > fs_size f - offset then fs_size f - offset else n"
  have un: "unat ?n = min (unat n) (unat (fs_size f) - unat offset)"
    using offset by (simp add: min_def word_less_nat_alt unat_minus_u64)
  have r: "r = take (unat ?n) (drop (unat offset) (concat (fs_blocks f)))"
    by (simp add: r_def content_def un drop_take min.commute)
  have blocks: "\<forall>b \<in> set (fs_blocks f). length b = 8192" "unat (fs_size f) \<le> 8192 * length (fs_blocks f)"
    "8192 * length (fs_blocks f) < unat (fs_size f) + 8192"
    using ok by (simp_all add: file_ok_def)
  have inside: "\<not> fs_size f < offset"
    using offset by simp
  have lr: "length r = unat ?n"
    using length_content [OF ok] by (simp add: r_def un)
  show ?thesis
  proof (cases "?n = 0")
    case True
    then have "r = []"
      using lr by simp
    then show ?thesis
      using True inside by (simp add: FileState_Read_def Let_def)
  next
    case False
    let ?b = "offset div FileState_kBlockSize" and ?o = "offset mod FileState_kBlockSize"
    have parts: "8192 * unat ?b + unat ?o = unat offset" "unat ?o < 8192"
      by (simp_all add: unat_div unat_mod)
    have "FileState_Read_loop (fs_blocks f) ?b ?o ?n 0 scratch =
        Some (take 0 scratch @ take (unat ?n) (drop (8192 * unat ?b + unat ?o) (concat (fs_blocks f))) @ drop (0 + unat ?n) scratch)"
    proof (rule FileState_Read_loop_eq [OF blocks(1)])
      show "8192 * length (fs_blocks f) < 2 ^ 64 + 8192"
        using blocks(3) unat_u64_less [of "fs_size f"] by linarith
      show "8192 * unat ?b + unat ?o + unat ?n \<le> 8192 * length (fs_blocks f)"
        using parts(1) un blocks(2) offset by (simp add: word_le_nat_alt)
      show "0 + unat ?n \<le> length scratch"
        using room un by simp
    qed (rule parts(2))
    then have loop: "FileState_Read_loop (fs_blocks f) ?b ?o ?n 0 scratch = Some (r @ drop (length r) scratch)"
      unfolding parts(1) r [symmetric] lr by simp
    have "mem_read (r @ drop (length r) scratch) 0 (unat ?n) = Some r"
      using lr by (simp add: mem_read_def)
    then show ?thesis
      using False inside loop by (simp add: FileState_Read_def Let_def)
  qed
qed


lemma FileState_Read_cases:
  assumes ok: "file_ok f" and room: "unat n \<le> length scratch"
  shows "FileState_Read junk f offset n result scratch =
    (if unat offset \<le> length (content f)
     then (let r = take (unat n) (drop (unat offset) (content f)) in Some (Status_OK, r, r @ drop (length r) scratch))
     else Some (Some (status_block kIOError (ascii ''Offset greater than file size.'')), result, scratch))"
proof (cases "offset \<le> fs_size f")
  case True
  then show ?thesis
    using FileState_Read_eq [OF assms True] length_content [OF ok] by (simp add: word_le_nat_alt Let_def)
next
  case False
  have "Status_IOError junk (ascii ''Offset greater than file size.'') [] =
      Some (Some (status_block kIOError (ascii ''Offset greater than file size.'')))"
    using new_Status_eq [of kIOError "ascii ''Offset greater than file size.''" "[]" junk]
    by (simp add: Status_IOError_def status_message_def)
  then show ?thesis
    using False length_content [OF ok] by (simp add: FileState_Read_def word_le_nat_alt word_less_nat_alt)
qed

subsection \<open>Appending\<close>

text \<open>The block the next bytes go to: a new one when the file ends at a block boundary.\<close>

lemma file_last_block:
  fixes junk :: "nat \<Rightarrow> nat \<Rightarrow> u8"
  assumes ok: "file_ok f"
  defines "offset \<equiv> fs_size f mod FileState_kBlockSize"
  defines "blocks \<equiv> (if offset \<noteq> 0 then fs_blocks f
    else fs_blocks f @ [mem_new (junk (length (fs_blocks f))) (unat FileState_kBlockSize)])"
  obtains bs l where "blocks = bs @ [l]" and "\<forall>b \<in> set bs. length b = 8192" and "length l = 8192"
    and "unat offset < 8192" and "unat (fs_size f) = 8192 * length bs + unat offset"
    and "content f = concat bs @ take (unat offset) l"
proof -
  have o: "unat offset = unat (fs_size f) mod 8192"
    by (simp add: offset_def unat_mod)
  have blocks_ok: "\<forall>b \<in> set (fs_blocks f). length b = 8192" and sz: "unat (fs_size f) \<le> 8192 * length (fs_blocks f)"
    "8192 * length (fs_blocks f) < unat (fs_size f) + 8192"
    using ok by (simp_all add: file_ok_def)
  define q where "q = unat (fs_size f) div 8192"
  have q: "unat (fs_size f) = 8192 * q + unat offset"
    unfolding o q_def by simp
  show ?thesis
  proof (cases "offset = 0")
    case True
    then have "q = length (fs_blocks f)"
      using sz q by simp
    then have sz': "unat (fs_size f) = 8192 * length (fs_blocks f)"
      using q True by simp
    then have "content f = concat (fs_blocks f)"
      using length_concat_blocks [OF blocks_ok] by (simp add: content_def)
    then show ?thesis
      using that [of "fs_blocks f" "mem_new (junk (length (fs_blocks f))) 8192"] True sz' blocks_ok by (simp add: blocks_def)
  next
    case False
    then have pos: "unat offset > 0" "unat offset < 8192"
      using unat_eq_zero [of offset] o by auto
    then have "fs_blocks f \<noteq> []"
      using sz o by auto
    then obtain bs l where bl: "fs_blocks f = bs @ [l]"
      by (metis append_butlast_last_id)
    then have bs: "\<forall>b \<in> set bs. length b = 8192" "length l = 8192" "length (concat bs) = 8192 * length bs"
      using blocks_ok length_concat_blocks [of bs 8192] by auto
    have "q = length bs"
      using sz q bl pos by simp
    then have sz': "unat (fs_size f) = 8192 * length bs + unat offset"
      using q by simp
    then have "content f = concat bs @ take (unat offset) l"
      using bs(3) by (simp add: content_def bl)
    then show ?thesis
      using that [of bs l] False bl bs sz' pos by (simp add: blocks_def)
  qed
qed

lemma FileState_Append_loop_eq:
  assumes "file_ok f" and "unat src_len = length src" and "unat (fs_size f) + length src < 2 ^ 64"
  shows "\<exists>f'. FileState_Append_loop junk f src src_len = Some f' \<and> file_ok f' \<and> content f' = content f @ src \<and>
    fs_refs f' = fs_refs f"
  using assms
proof (induction "length src" arbitrary: f src src_len rule: less_induct)
  case less
  show ?case
  proof (cases "src_len = 0")
    case True
    then show ?thesis
      using less.prems by (subst FileState_Append_loop.simps) simp
  next
    case False
    then have len: "length src > 0"
      using less.prems(2) unat_eq_zero [of src_len] by auto
    let ?offset = "fs_size f mod FileState_kBlockSize"
    let ?blocks = "if ?offset \<noteq> 0 then fs_blocks f
      else fs_blocks f @ [mem_new (junk (length (fs_blocks f))) (unat FileState_kBlockSize)]"
    let ?room = "if ?offset \<noteq> 0 then FileState_kBlockSize - ?offset else FileState_kBlockSize"
    define avail where "avail = (if ?room > src_len then src_len else ?room)"
    obtain bs l where bl: "?blocks = bs @ [l]" "\<forall>b \<in> set bs. length b = 8192" "length l = 8192"
      "unat ?offset < 8192" "unat (fs_size f) = 8192 * length bs + unat ?offset"
      "content f = concat bs @ take (unat ?offset) l"
      by (rule file_last_block [OF less.prems(1)])
    have "unat ?room = 8192 - unat ?offset"
      using bl(4) unat_eq_zero [of ?offset] by (simp add: unat_minus_u64 word_le_nat_alt)
    then have u: "unat avail = min (length src) (8192 - unat ?offset)"
      using less.prems(2) by (auto simp: avail_def min_def word_less_nat_alt)
    let ?a = "unat avail" and ?o = "unat ?offset"
    have a: "?a > 0" "?a \<le> length src" "?o + ?a \<le> 8192" "avail \<le> src_len"
      using u len bl(4) less.prems(2) by (auto simp: word_le_nat_alt)
    define l' where "l' = take ?o l @ take ?a src @ drop (?o + ?a) l"
    have rd: "mem_read src 0 ?a = Some (take ?a src)"
      and wr: "mem_write l ?o (take ?a src) = Some l'"
      using a bl(3) by (simp_all add: mem_read_def mem_write_def l'_def)
    define f1 where "f1 = f \<lparr> fs_blocks := bs @ [l'], fs_size := fs_size f + avail \<rparr>"
    have step: "FileState_Append_loop junk f src src_len = FileState_Append_loop junk f1 (drop ?a src) (src_len - avail)"
      unfolding FileState_Append_loop.simps [of junk f] Let_def bl(1) avail_def [symmetric]
      using False rd wr by (simp add: f1_def word_gt_0)
    have "unat (fs_size f1) = unat (fs_size f) + ?a"
      unfolding f1_def using less.prems(3) a(2) by (simp add: unat_plus_u64)
    then have sz: "unat (fs_size f1) = 8192 * length bs + ?o + ?a"
      by (simp only: bl(5))
    have l': "length l' = 8192" "take (?o + ?a) l' = take ?o l @ take ?a src"
      using a bl(3) by (simp_all add: l'_def)
    then have ok1: "file_ok f1"
      using sz bl(2) a by (simp add: file_ok_def f1_def)
    have c1: "content f1 = content f @ take ?a src"
      using sz l'(2) length_concat_blocks [OF bl(2)] unfolding content_def [of f1] bl(6) by (simp add: f1_def)
    have "unat (src_len - avail) = length (drop ?a src)"
      using less.prems(2) unat_minus_u64 [OF a(4)] by simp
    moreover have "length (drop ?a src) < length src"
      using a(1) len by simp
    moreover have "unat (fs_size f1) + length (drop ?a src) < 2 ^ 64"
      using sz bl(5) less.prems(3) a(2) by simp
    ultimately obtain f' where "FileState_Append_loop junk f1 (drop ?a src) (src_len - avail) = Some f'" "file_ok f'"
      "content f' = content f1 @ drop ?a src" "fs_refs f' = fs_refs f1"
      using less.hyps [OF _ ok1] by blast
    then show ?thesis
      using step c1 by (auto simp: f1_def)
  qed
qed

lemma FileState_Append_eq:
  assumes "file_ok f" and "unat (fs_size f) + length data < 2 ^ 64"
  shows "\<exists>f'. FileState_Append junk f data = Some (Status_OK, f') \<and> file_ok f' \<and> content f' = content f @ data \<and>
    fs_refs f' = fs_refs f"
proof -
  have "unat (word_of_nat (length data) :: u64) = length data"
    using assms(2) by (simp add: unsigned_of_nat take_bit_nat_eq_self)
  then show ?thesis
    using FileState_Append_loop_eq [OF assms(1) _ assms(2), of "word_of_nat (length data)" junk] by (auto simp: FileState_Append_def)
qed


subsection \<open>Properties\<close>

text \<open>C17: a file of the in-memory environment stands for the byte string it holds. Appending adds the data
  at the end, whatever the boundaries of the blocks; reading returns the bytes from the offset
  on, as many as were asked for and exist, writes nothing else into the caller's buffer, and
  fails exactly when the offset lies behind the end; no copy leaves a block or the buffer, and
  the loops end.\<close>

theorem FileState_refines_bytes:
  assumes ok: "file_ok f"
  shows "(unat (fs_size f) + length data < 2 ^ 64 \<longrightarrow>
      (\<exists>f'. FileState_Append junk f data = Some (Status_OK, f') \<and> file_ok f' \<and> content f' = content f @ data)) \<and>
    (unat n \<le> length scratch \<longrightarrow> FileState_Read junk' f offset n result scratch =
      (if unat offset \<le> length (content f)
       then (let r = take (unat n) (drop (unat offset) (content f)) in Some (Status_OK, r, r @ drop (length r) scratch))
       else Some (Some (status_block kIOError (ascii ''Offset greater than file size.'')), result, scratch))) \<and>
    file_ok (FileState_Truncate f) \<and> content (FileState_Truncate f) = []"
  using FileState_Append_eq [OF ok, of data junk] FileState_Read_cases [OF ok, of n scratch junk' offset result] Truncate_content
  by blast

theorem FileState_refines_bytes_witness:
  "\<exists>f'. FileState_Append (\<lambda>_ _. 0) new_FileState [1, 2, 3] = Some (Status_OK, f') \<and>
    FileState_Read (\<lambda>_. 0) f' 1 9 [] (replicate 9 7) = Some (Status_OK, [2, 3], [2, 3] @ replicate 7 7)"
proof -
  have "unat (fs_size new_FileState) + length [1, 2, 3 :: u8] < 2 ^ 64"
    by (simp add: new_FileState_def)
  then obtain f' where f': "FileState_Append (\<lambda>_ _. 0) new_FileState [1, 2, 3] = Some (Status_OK, f')" "file_ok f'" "content f' = [1, 2, 3]"
    using FileState_refines_bytes [OF file_new(1), of "[1, 2, 3]" "\<lambda>_ _. 0" 0 "[]" "\<lambda>_. 0" 0 "[]"] file_new(2) by auto
  have "replicate 9 (7::u8) = 7 # 7 # replicate 7 7"
    by (simp add: numeral_eq_Suc)
  then show ?thesis
    using f' FileState_refines_bytes [OF f'(2), where n = 9 and scratch = "replicate 9 7" and junk' = "\<lambda>_. 0" and offset = 1 and result = "[]"]
    by (simp add: Let_def)
qed

end
