(* ===== verification/GuardedObjects.thy ===== *)
theory GuardedObjects
  imports Guarded MemFile ShardedCache
begin

text \<open>
  Two classes whose counters are shared by threads and guarded by \<^verbatim>\<open>MutexLock\<close>, statement by statement
  with loads and stores apart: \<^verbatim>\<open>ShardedLRUCache::NewId\<close> (\<^verbatim>\<open>util/cache.cpp\<close>) and the reference count of
  \<^verbatim>\<open>FileState\<close> (\<^verbatim>\<open>helper/memenv/memenv.cpp\<close>).
\<close>

subsection \<open>NewId\<close>

datatype new_id = NewId_load | NewId_store u64 | NewId_return u64

fun NewId_stmt :: "new_id \<Rightarrow> u64 \<Rightarrow> (new_id \<times> u64) option" where
  "NewId_stmt NewId_load last_id = Some (NewId_store last_id, last_id)"
| "NewId_stmt (NewId_store v) last_id = Some (NewId_return (v + 1), v + 1)"
| "NewId_stmt (NewId_return v) last_id = None"

text \<open>Run without interruption it is the method of theory \<open>ShardedCache\<close>.\<close>

lemma NewId_atomic:
  "atomic_call NewId_stmt NewId_load (s_last_id S) l' last_id' \<longleftrightarrow>
   (\<exists>i S'. ShardedLRUCache_NewId S = (i, S') \<and> l' = NewId_return i \<and> last_id' = s_last_id S')"
  by (auto simp: atomic_call_step atomic_call_end ShardedLRUCache_NewId_def Let_def)

definition NewId_ok :: "(nat \<times> new_id \<times> new_id) list \<Rightarrow> u64 \<Rightarrow> bool" where
  "NewId_ok calls last_id \<longleftrightarrow> last_id = word_of_nat (length calls) \<and>
     map (\<lambda>(t, l, l'). l') calls = map (\<lambda>i. NewId_return (word_of_nat (Suc i))) [0..<length calls]"

definition NewId_legal :: "(nat \<times> new_id \<times> new_id) list \<Rightarrow> bool" where
  "NewId_legal calls \<longleftrightarrow> (\<forall>(t, l, l') \<in> set calls. l = NewId_load)"

definition NewId_owed :: "(new_id, u64) guarded \<Rightarrow> bool" where
  "NewId_owed s \<longleftrightarrow> NewId_legal (history s) \<and>
     (\<forall>t l. under_way s t = Some l \<longrightarrow> l = NewId_load)"

interpretation ids: guarded_class NewId_stmt "\<lambda>s l. l = NewId_load" 0 NewId_ok NewId_legal NewId_owed
proof unfold_locales
  show "NewId_ok calls sh \<Longrightarrow> NewId_legal (calls @ [(t, l, l')]) \<Longrightarrow> atomic_call NewId_stmt l sh l' sh' \<Longrightarrow>
      NewId_ok (calls @ [(t, l, l')]) sh'" for calls sh t l l' sh'
    by (auto simp: NewId_ok_def NewId_legal_def atomic_call_step atomic_call_end)
  show "NewId_owed s \<Longrightarrow> guarded_step NewId_stmt (\<lambda>s l. l = NewId_load) s s' \<Longrightarrow> NewId_owed s'" for s s'
    by (erule guarded_step_calls) (auto simp: NewId_owed_def NewId_legal_def)
qed (auto simp: NewId_ok_def NewId_owed_def NewId_legal_def new_guarded_def under_way_def)

subsection \<open>Reference counting\<close>

text \<open>
  A reference is a number, so that the callers can say which reference they own: \<^verbatim>\<open>Ref\<close> makes the
  new reference \<open>r'\<close> on the strength of \<open>r\<close>, \<^verbatim>\<open>Unref\<close> gives \<open>r\<close> back. The numbers do not influence the
  statements. \<open>Unref_return\<close> carries \<^verbatim>\<open>do_delete\<close>; \<open>Refs_failed\<close> is a failed assertion or a signed overflow.
\<close>

datatype refs_call =
    Ref_load nat nat | Ref_store nat nat int | Ref_return nat nat
  | Unref_load nat | Unref_store nat int | Unref_assert nat | Unref_test nat | Unref_return nat bool
  | Refs_failed

fun refs_stmt :: "refs_call \<Rightarrow> int \<Rightarrow> (refs_call \<times> int) option" where
  "refs_stmt (Ref_load r r') refs = Some (Ref_store r r' refs, refs)"
| "refs_stmt (Ref_store r r' v) refs = Some (if v + 1 < 2 ^ 31 then (Ref_return r r', v + 1) else (Refs_failed, refs))"
| "refs_stmt (Ref_return r r') refs = None"
| "refs_stmt (Unref_load r) refs = Some (Unref_store r refs, refs)"
| "refs_stmt (Unref_store r v) refs = Some (Unref_assert r, v - 1)"
| "refs_stmt (Unref_assert r) refs = Some (if refs \<ge> 0 then Unref_test r else Refs_failed, refs)"
| "refs_stmt (Unref_test r) refs = Some (Unref_return r (refs \<le> 0), refs)"
| "refs_stmt (Unref_return r do_delete) refs = None"
| "refs_stmt Refs_failed refs = None"

text \<open>Run without interruption these are the methods of theory \<open>MemFile\<close>.\<close>

lemma Ref_atomic:
  "atomic_call refs_stmt (Ref_load r r') (fs_refs f) l' refs' \<longleftrightarrow>
   (case FileState_Ref f of Some f' \<Rightarrow> l' = Ref_return r r' \<and> refs' = fs_refs f' | None \<Rightarrow> l' = Refs_failed \<and> refs' = fs_refs f)"
  by (auto simp: atomic_call_step atomic_call_end FileState_Ref_def asserting_def)

lemma Unref_atomic:
  "atomic_call refs_stmt (Unref_load r) (fs_refs f) l' refs' \<longleftrightarrow> refs' = fs_refs f - 1 \<and>
   l' = (case FileState_Unref f of Some kept \<Rightarrow> Unref_return r (kept = None) | None \<Rightarrow> Refs_failed)"
  by (auto simp: atomic_call_step atomic_call_end FileState_Unref_def asserting_def Let_def)

text \<open>The references after a call, and what its caller owes: the reference it uses exists, the one it makes is
  new, and there are fewer than \<open>2\<^sup>3\<^sup>1\<close> of them.\<close>

fun refs_after_call :: "nat set \<Rightarrow> nat \<times> refs_call \<times> refs_call \<Rightarrow> nat set" where
  "refs_after_call R (t, Ref_load r r', l') = insert r' R"
| "refs_after_call R (t, Unref_load r, l') = R - {r}"
| "refs_after_call R _ = R"

fun call_ok :: "refs_call \<Rightarrow> nat set \<Rightarrow> bool" where
  "call_ok (Ref_load r r') R \<longleftrightarrow> r \<in> R \<and> r' \<notin> R \<and> r' < 2 ^ 31 - 1"
| "call_ok (Unref_load r) R \<longleftrightarrow> r \<in> R"
| "call_ok _ R \<longleftrightarrow> False"

fun tokens :: "refs_call \<Rightarrow> nat set" where
  "tokens (Ref_load r r') = {r, r'}"
| "tokens (Unref_load r) = {r}"
| "tokens _ = {}"

text \<open>The creator of the file owns reference 0.\<close>

definition references :: "(nat \<times> refs_call \<times> refs_call) list \<Rightarrow> nat set" where
  "references calls = foldl refs_after_call {0} calls"

definition refs_may :: "(refs_call, int) guarded \<Rightarrow> refs_call \<Rightarrow> bool" where
  "refs_may s l \<longleftrightarrow> call_ok l (references (history s)) \<and>
     (\<forall>t l'. under_way s t = Some l' \<longrightarrow> tokens l' \<inter> tokens l = {})"

fun legal_from :: "nat set \<Rightarrow> (nat \<times> refs_call \<times> refs_call) list \<Rightarrow> bool" where
  "legal_from R [] \<longleftrightarrow> True"
| "legal_from R ((t, l, l') # calls) \<longleftrightarrow> call_ok l R \<and> legal_from (refs_after_call R (t, l, l')) calls"

definition refs_owed :: "(refs_call, int) guarded \<Rightarrow> bool" where
  "refs_owed s \<longleftrightarrow> legal_from {0} (history s) \<and>
     (\<forall>t l. under_way s t = Some l \<longrightarrow> call_ok l (references (history s))) \<and>
     (\<forall>t u l l'. t \<noteq> u \<longrightarrow> under_way s t = Some l \<longrightarrow> under_way s u = Some l' \<longrightarrow> tokens l \<inter> tokens l' = {})"

text \<open>What the calls return.\<close>

fun outcome :: "nat set \<Rightarrow> refs_call \<Rightarrow> refs_call" where
  "outcome R (Ref_load r r') = Ref_return r r'"
| "outcome R (Unref_load r) = Unref_return r (R \<subseteq> {r})"
| "outcome R l = l"

fun results_from :: "nat set \<Rightarrow> (nat \<times> refs_call \<times> refs_call) list \<Rightarrow> bool" where
  "results_from R [] \<longleftrightarrow> True"
| "results_from R ((t, l, l') # calls) \<longleftrightarrow> l' = outcome R l \<and> results_from (refs_after_call R (t, l, l')) calls"

definition refs_ok :: "(nat \<times> refs_call \<times> refs_call) list \<Rightarrow> int \<Rightarrow> bool" where
  "refs_ok calls refs \<longleftrightarrow> references calls \<subseteq> {..<2 ^ 31 - 1} \<and> refs = int (card (references calls)) \<and> results_from {0} calls"

lemma references_append: "references (calls @ [c]) = refs_after_call (references calls) c"
  by (simp add: references_def)

lemma legal_append: "legal_from R (calls @ [(t, l, l')]) \<longleftrightarrow> legal_from R calls \<and> call_ok l (foldl refs_after_call R calls)"
  by (induction R calls rule: legal_from.induct) auto

lemma results_append:
  "results_from R (calls @ [(t, l, l')]) \<longleftrightarrow> results_from R calls \<and> l' = outcome (foldl refs_after_call R calls) l"
  by (induction R calls rule: results_from.induct) auto

lemma call_ok_other:
  "call_ok l R \<Longrightarrow> call_ok l0 R \<Longrightarrow> tokens l \<inter> tokens l0 = {} \<Longrightarrow> call_ok l (refs_after_call R (t, l0, l1))"
  by (cases l; cases l0) auto

lemma refs_ok_call:
  assumes "refs_ok calls refs" and "call_ok l (references calls)" and "atomic_call refs_stmt l refs l' refs'"
  shows "refs_ok (calls @ [(t, l, l')]) refs'"
proof -
  let ?R = "references calls"
  have R: "?R \<subseteq> {..<2 ^ 31 - 1}" "refs = int (card ?R)" and res: "results_from {0} calls"
    using assms(1) by (auto simp: refs_ok_def)
  then have fin: "finite ?R"
    using finite_subset by blast
  show ?thesis
  proof (cases l)
    case (Ref_load r r')
    have new: "r' \<notin> ?R" "insert r' ?R \<subseteq> {..<2 ^ 31 - 1}"
      using assms(2) R(1) Ref_load by auto
    then have "card (insert r' ?R) \<le> 2 ^ 31 - 1"
      using card_mono [OF _ new(2)] by simp
    then have "refs + 1 < 2 ^ 31"
      using R(2) fin new(1) by simp
    then show ?thesis
      using assms(3) Ref_load R(2) fin new res
      by (simp add: refs_ok_def atomic_call_step atomic_call_end references_append results_append)
  next
    case (Unref_load r)
    have r: "r \<in> ?R"
      using assms(2) Unref_load by simp
    then have pos: "0 < card ?R"
      using fin card_gt_0_iff by blast
    have "?R \<subseteq> {r} \<longleftrightarrow> card ?R \<le> 1"
      using r fin by (metis One_nat_def card_1_singleton_iff card_le_Suc0_iff_eq singletonD singletonI subset_singletonD subsetI empty_iff)
    then show ?thesis
      using assms(3) Unref_load R fin r pos res
      by (auto simp: refs_ok_def atomic_call_step atomic_call_end references_append results_append references_def [symmetric]
          int_ops card_Diff_singleton)
  qed (use assms(2) in simp_all)
qed

lemma refs_owed_step:
  assumes "refs_owed s" and "guarded_step refs_stmt refs_may s s'"
  shows "refs_owed s'"
  using assms(2)
proof (cases rule: guarded_step_calls)
  case (begins t l)
  have l: "call_ok l (references (history s))" "\<And>u l'. under_way s u = Some l' \<Longrightarrow> tokens l' \<inter> tokens l = {}"
    using begins(2) by (auto simp: refs_may_def)
  then show ?thesis
    using assms(1) by (auto simp: refs_owed_def begins(3,4) Int_commute)
next
  case stays
  then show ?thesis
    using assms(1) by (simp add: refs_owed_def)
next
  case (ends t l0 l)
  have l0: "call_ok l0 (references (history s))"
    using assms(1) ends(1) by (auto simp: refs_owed_def)
  have "call_ok l' (references (history s'))" if "under_way s u = Some l'" "u \<noteq> t" for u l'
    unfolding ends(3) references_append
    by (rule call_ok_other [OF _ l0]) (use assms(1) that ends(1) in \<open>auto simp: refs_owed_def\<close>)
  moreover have "legal_from {0} (history s')"
    using assms(1) l0 by (simp add: ends(3) legal_append refs_owed_def references_def)
  ultimately show ?thesis
    using assms(1) by (auto simp: refs_owed_def ends(2))
qed

interpretation refs: guarded_class refs_stmt refs_may 1 refs_ok "legal_from {0}" refs_owed
proof unfold_locales
  show "legal_from {0} (calls @ [c]) \<Longrightarrow> legal_from {0} calls" for calls c
    by (cases c) (simp add: legal_append)
  show "refs_ok calls sh \<Longrightarrow> legal_from {0} (calls @ [(t, l, l')]) \<Longrightarrow> atomic_call refs_stmt l sh l' sh' \<Longrightarrow>
      refs_ok (calls @ [(t, l, l')]) sh'" for calls sh t l l' sh'
    using refs_ok_call by (simp add: legal_append references_def)
  show "refs_owed s \<Longrightarrow> guarded_step refs_stmt refs_may s s' \<Longrightarrow> refs_owed s'" for s s'
    by (rule refs_owed_step)
qed (auto simp: refs_ok_def references_def refs_owed_def new_guarded_def under_way_def)

lemma legal_from_none: "legal_from {} calls \<longleftrightarrow> calls = []"
proof (cases calls)
  case (Cons c cs)
  then show ?thesis
    by (cases c; cases "fst (snd c)") auto
qed simp

text \<open>Only the last of all calls can ask for the deletion.\<close>

lemma deletion_last:
  "legal_from R calls \<Longrightarrow> results_from R calls \<Longrightarrow> (t, l, Unref_return r True) \<in> set calls \<Longrightarrow>
   last calls = (t, l, Unref_return r True) \<and> foldl refs_after_call R calls = {}"
proof (induction R calls rule: legal_from.induct)
  case (2 R t1 l1 l1' calls)
  show ?case
  proof (cases "(t1, l1, l1') = (t, l, Unref_return r True)")
    case True
    then have "l1 = Unref_load r" "R \<subseteq> {r}"
      using 2(2,3) by (cases l1; auto)+
    then have "refs_after_call R (t1, l1, l1') = {}"
      by auto
    then show ?thesis
      using 2(2) True legal_from_none by auto
  next
    case False
    then show ?thesis
      using 2 by (auto split: if_splits)
  qed
qed simp

lemma all_returned:
  "legal_from R calls \<Longrightarrow> results_from R calls \<Longrightarrow> (t, l, l') \<in> set calls \<Longrightarrow> l' \<noteq> Refs_failed"
proof (induction R calls rule: legal_from.induct)
  case (2 R t1 l1 l1' calls)
  then show ?case
    by (cases l1) auto
qed simp

lemma last_reference_deletes:
  "legal_from R calls \<Longrightarrow> results_from R calls \<Longrightarrow> R \<noteq> {} \<Longrightarrow> foldl refs_after_call R calls = {} \<Longrightarrow>
   \<exists>t r. last calls = (t, Unref_load r, Unref_return r True)"
proof (induction R calls rule: legal_from.induct)
  case (2 R t1 l1 l1' calls)
  show ?case
  proof (cases "refs_after_call R (t1, l1, l1') = {}")
    case True
    then obtain r where "l1 = Unref_load r" "R \<subseteq> {r}"
      using 2(4) by (cases l1) auto
    moreover have "calls = []"
      using 2(2) True legal_from_none by simp
    ultimately show ?thesis
      using 2(3) by simp
  next
    case False
    then show ?thesis
      using 2 by auto
  qed
qed simp

subsection \<open>Properties\<close>

text \<open>Threads that call \<^verbatim>\<open>NewId\<close> at the same time get different ids. In every interleaving of the loads and stores
  of \<^verbatim>\<open>last_id_\<close>, the calls that have returned got the numbers 1, 2, 3, \<dots> in the order in which they held the mutex.\<close>

theorem NewId_concurrent:
  assumes "(guarded_step NewId_stmt (\<lambda>s l. l = NewId_load))\<^sup>*\<^sup>* (new_guarded 0) s"
  shows "map (\<lambda>(t, l, l'). l') (history s) = map (\<lambda>i. NewId_return (word_of_nat (Suc i))) [0..<length (history s)] \<and>
    (length (history s) < 2 ^ 64 \<longrightarrow> distinct (map (\<lambda>(t, l, l'). l') (history s)))"
proof -
  have ids: "map (\<lambda>(t, l, l'). l') (history s) = map (\<lambda>i. NewId_return (word_of_nat (Suc i))) [0..<length (history s)]"
    by (rule ids.reachable_ok [OF assms]) (simp add: NewId_ok_def)
  have "inj_on (\<lambda>i. NewId_return (word_of_nat (Suc i))) {0..<k}" if "k < 2 ^ 64" for k
  proof (rule inj_onI)
    fix i j
    assume ij: "i \<in> {0..<k}" "j \<in> {0..<k}" "NewId_return (word_of_nat (Suc i)) = NewId_return (word_of_nat (Suc j))"
    then have "(word_of_nat i :: u64) = word_of_nat j"
      by simp
    then show "i = j"
      using ij(1,2) that by (simp add: word_of_nat_eq_iff take_bit_nat_eq_self)
  qed
  then show ?thesis
    using ids by (simp add: distinct_map)
qed

theorem NewId_concurrent_witness:
  "\<exists>s. (guarded_step NewId_stmt (\<lambda>s l. l = NewId_load))\<^sup>*\<^sup>* (new_guarded 0) s \<and>
    map (\<lambda>(t, l, l'). (t, l')) (history s) = [(7, NewId_return 1), (8, NewId_return 2)] \<and> distinct (map (\<lambda>(t, l, l'). l') (history s))"
proof -
  let ?step = "guarded_step NewId_stmt (\<lambda>s l. l = NewId_load)"
  let ?s = "\<lambda>v h. \<lparr>mu = None, shared = v, threads = \<lambda>_. Outside, history = h\<rparr>"
  have "?step\<^sup>*\<^sup>* (new_guarded 0) (?s 1 [(7, NewId_load, NewId_return 1)])"
    using guarded_call_runs [of NewId_stmt NewId_load "new_guarded 0" "NewId_return 1" 1 7]
    by (simp add: new_guarded_def atomic_call_step atomic_call_end)
  also have "?step\<^sup>*\<^sup>* (?s 1 [(7, NewId_load, NewId_return 1)]) (?s 2 [(7, NewId_load, NewId_return 1), (8, NewId_load, NewId_return 2)])"
    using guarded_call_runs [of NewId_stmt NewId_load "?s 1 [(7, NewId_load, NewId_return 1)]" "NewId_return 2" 2 8]
    by (simp add: atomic_call_step atomic_call_end)
  finally have run: "?step\<^sup>*\<^sup>* (new_guarded 0) (?s 2 [(7, NewId_load, NewId_return 1), (8, NewId_load, NewId_return 2)])" .
  show ?thesis
    using NewId_concurrent [OF run] run
    by (intro exI [of _ "?s 2 [(7, NewId_load, NewId_return 1), (8, NewId_load, NewId_return 2)]"]) simp
qed

text \<open>C13: the reference count of an in-memory file under any interleaving of \<^verbatim>\<open>Ref\<close> and \<^verbatim>\<open>Unref\<close> by threads that use
  references they own: the assertion in \<^verbatim>\<open>Unref\<close> never fails; the counter is the number of references whenever no
  thread is in a scope; and \<^verbatim>\<open>Unref\<close> asks for the deletion exactly when it gave back the last reference: then no
  call is under way and none is to come, so the file is deleted once and not used afterwards.\<close>

theorem FileState_deleted_once:
  assumes "(guarded_step refs_stmt refs_may)\<^sup>*\<^sup>* (new_guarded 1) s"
  shows "(\<forall>t l l'. (t, l, l') \<in> set (history s) \<longrightarrow> l' \<noteq> Refs_failed) \<and>
    (mu s = None \<longrightarrow> shared s = int (card (references (history s)))) \<and>
    (references (history s) = {} \<longleftrightarrow> (\<exists>t l r. (t, l, Unref_return r True) \<in> set (history s))) \<and>
    (\<forall>t l r. (t, l, Unref_return r True) \<in> set (history s) \<longrightarrow>
       last (history s) = (t, l, Unref_return r True) \<and> (\<forall>u. threads s u = Outside) \<and> (\<nexists>s'. guarded_step refs_stmt refs_may s s'))"
proof -
  obtain sh where ok: "refs_ok (history s) sh" "mu s = None \<Longrightarrow> shared s = sh"
    by (rule refs.reachable_ok [OF assms]) (rule that)
  have owed: "refs_owed s"
    by (rule refs.reachable_owed [OF assms])
  then have legal: "legal_from {0} (history s)" and res: "results_from {0} (history s)"
    using ok(1) by (auto simp: refs_owed_def refs_ok_def)
  note last = deletion_last [OF legal res, folded references_def]
  have out: "(\<forall>u. threads s u = Outside) \<and> (\<nexists>s'. guarded_step refs_stmt refs_may s s')" if none: "references (history s) = {}"
  proof -
    have bad: "\<not> call_ok l {}" for l
      by (cases l) auto
    have "under_way s u = None" for u
      using owed none bad by (cases "under_way s u") (auto simp: refs_owed_def)
    then have "threads s u = Outside" for u
      unfolding under_way_def by (metis started.elims option.discI)
    then show ?thesis
      using none bad by (auto simp: refs_may_def elim: guarded_step.cases)
  qed
  have "references (history s) = {} \<longleftrightarrow> (\<exists>t l r. (t, l, Unref_return r True) \<in> set (history s))"
  proof
    assume none: "references (history s) = {}"
    then obtain t r where "last (history s) = (t, Unref_load r, Unref_return r True)"
      using last_reference_deletes [OF legal res] by (auto simp: references_def)
    moreover have "history s \<noteq> []"
      using none by (auto simp: references_def)
    ultimately show "\<exists>t l r. (t, l, Unref_return r True) \<in> set (history s)"
      using last_in_set by metis
  qed (use last in blast)
  then show ?thesis
    using all_returned [OF legal res] ok last out by (auto simp: refs_ok_def)
qed

text \<open>One thread makes a second reference; both are given back.\<close>

theorem FileState_deleted_once_witness:
  "\<exists>s. (guarded_step refs_stmt refs_may)\<^sup>*\<^sup>* (new_guarded 1) s \<and>
    map (\<lambda>(t, l, l'). (t, l')) (history s) = [(1, Ref_return 0 1), (2, Unref_return 0 False), (1, Unref_return 1 True)] \<and>
    (\<nexists>s'. guarded_step refs_stmt refs_may s s')"
proof -
  let ?step = "guarded_step refs_stmt refs_may"
  let ?s = "\<lambda>v h. \<lparr>mu = None, shared = v, threads = \<lambda>_. Outside, history = h\<rparr>"
  let ?h1 = "[(1, Ref_load 0 1, Ref_return 0 1)]"
  let ?h2 = "?h1 @ [(2, Unref_load 0, Unref_return 0 False)]"
  let ?h3 = "?h2 @ [(1, Unref_load 1, Unref_return 1 True)]"
  note eval = atomic_call_step atomic_call_end refs_may_def references_def under_way_def
  have "?step\<^sup>*\<^sup>* (new_guarded 1) (?s 2 ?h1)"
    using guarded_call_runs [of refs_stmt "Ref_load 0 1" "new_guarded 1" "Ref_return 0 1" 2 1 refs_may]
    by (simp add: new_guarded_def eval)
  also have "?step\<^sup>*\<^sup>* (?s 2 ?h1) (?s 1 ?h2)"
    using guarded_call_runs [of refs_stmt "Unref_load 0" "?s 2 ?h1" "Unref_return 0 False" 1 2 refs_may]
    by (simp add: eval)
  also have "?step\<^sup>*\<^sup>* (?s 1 ?h2) (?s 0 ?h3)"
    using guarded_call_runs [of refs_stmt "Unref_load 1" "?s 1 ?h2" "Unref_return 1 True" 0 1 refs_may]
    by (simp add: eval)
  finally have run: "?step\<^sup>*\<^sup>* (new_guarded 1) (?s 0 ?h3)" .
  have "(1, Unref_load 1, Unref_return 1 True) \<in> set (history (?s 0 ?h3))"
    by simp
  then have "\<nexists>s'. ?step (?s 0 ?h3) s'"
    using FileState_deleted_once [OF run] by blast
  then show ?thesis
    using run by (intro exI [of _ "?s 0 ?h3"]) simp
qed

end
