(* ===== verification/EnvInterface.thy ===== *)
theory EnvInterface
  imports Status
begin

text \<open>
  The environment interface of \<^verbatim>\<open>include/lldb/env.h\<close> and the routines of \<^verbatim>\<open>util/env.cpp\<close> written
  against it. An implementation is a record of its methods over its own state \<open>'e\<close> and its own
  types of open files (\<open>'s\<close> sequential, \<open>'r\<close> random access, \<open>'w\<close> writable); deleting an open file
  is a method too. A null pointer in \<^verbatim>\<open>*result\<close> is \<^term>\<open>None\<close>. The methods for locks, threads, logs
  and time are a second record, over their own types of locks \<open>'l\<close>, logs \<open>'g\<close> and work items \<open>'f\<close>.

  The locale \<open>file_env\<close> states what the interface documents of named files and their contents;
  from it follows that \<^verbatim>\<open>ReadFileToString\<close> returns what \<^verbatim>\<open>WriteStringToFile\<close> wrote.
\<close>

subsection \<open>The interface\<close>

record ('e, 's, 'r, 'w) Env =
  NewSequentialFile :: "bytes \<Rightarrow> 'e \<Rightarrow> (status \<times> 's option \<times> 'e) option"
  NewRandomAccessFile :: "bytes \<Rightarrow> 'e \<Rightarrow> (status \<times> 'r option \<times> 'e) option"
  NewWritableFile :: "bytes \<Rightarrow> 'e \<Rightarrow> (status \<times> 'w option \<times> 'e) option"
  NewAppendableFile :: "bytes \<Rightarrow> 'e \<Rightarrow> (status \<times> 'w option \<times> 'e) option"
  FileExists :: "bytes \<Rightarrow> 'e \<Rightarrow> bool \<times> 'e"
  GetChildren :: "bytes \<Rightarrow> 'e \<Rightarrow> (status \<times> bytes list \<times> 'e) option"
  RemoveFile :: "bytes \<Rightarrow> 'e \<Rightarrow> (status \<times> 'e) option"
  CreateDir :: "bytes \<Rightarrow> 'e \<Rightarrow> (status \<times> 'e) option"
  RemoveDir :: "bytes \<Rightarrow> 'e \<Rightarrow> (status \<times> 'e) option"
  GetFileSize :: "bytes \<Rightarrow> u64 \<Rightarrow> 'e \<Rightarrow> (status \<times> u64 \<times> 'e) option"
  RenameFile :: "bytes \<Rightarrow> bytes \<Rightarrow> 'e \<Rightarrow> (status \<times> 'e) option"
  GetTestDirectory :: "'e \<Rightarrow> (status \<times> bytes \<times> 'e) option"
  SequentialFile_Read :: "'s \<Rightarrow> u64 \<Rightarrow> bytes \<Rightarrow> bytes \<Rightarrow> 'e \<Rightarrow> (status \<times> bytes \<times> bytes \<times> 's \<times> 'e) option"
  SequentialFile_Skip :: "'s \<Rightarrow> u64 \<Rightarrow> 'e \<Rightarrow> (status \<times> 's \<times> 'e) option"
  SequentialFile_delete :: "'s \<Rightarrow> 'e \<Rightarrow> 'e option"
  RandomAccessFile_Read :: "'r \<Rightarrow> u64 \<Rightarrow> u64 \<Rightarrow> bytes \<Rightarrow> bytes \<Rightarrow> 'e \<Rightarrow> (status \<times> bytes \<times> bytes \<times> 'e) option"
  RandomAccessFile_delete :: "'r \<Rightarrow> 'e \<Rightarrow> 'e option"
  WritableFile_Append :: "'w \<Rightarrow> bytes \<Rightarrow> 'e \<Rightarrow> (status \<times> 'w \<times> 'e) option"
  WritableFile_Close :: "'w \<Rightarrow> 'e \<Rightarrow> (status \<times> 'w \<times> 'e) option"
  WritableFile_Flush :: "'w \<Rightarrow> 'e \<Rightarrow> (status \<times> 'w \<times> 'e) option"
  WritableFile_Sync :: "'w \<Rightarrow> 'e \<Rightarrow> (status \<times> 'w \<times> 'e) option"
  WritableFile_delete :: "'w \<Rightarrow> 'e \<Rightarrow> 'e option"

text \<open>The default implementation of one method, which leaves \<^verbatim>\<open>*result\<close> as it was.\<close>

definition Env_NewAppendableFile :: "(nat \<Rightarrow> u8) \<Rightarrow> bytes \<Rightarrow> 'w option \<Rightarrow> 'e \<Rightarrow> (status \<times> 'w option \<times> 'e) option" where
  "Env_NewAppendableFile junk fname result e = do {
     s \<leftarrow> Status_NotSupported junk (ascii ''NewAppendableFile'') fname;
     Some (s, result, e)
   }"

text \<open>The forwarding methods of \<^verbatim>\<open>EnvWrapper\<close>, from which an environment that overrides only some of
  them is made by a record update.\<close>

definition EnvWrapper :: "('e, 's, 'r, 'w) Env \<Rightarrow> ('e, 's, 'r, 'w) Env" where
  "EnvWrapper target =
     \<lparr>NewSequentialFile = (\<lambda>f e. NewSequentialFile target f e),
      NewRandomAccessFile = (\<lambda>f e. NewRandomAccessFile target f e),
      NewWritableFile = (\<lambda>f e. NewWritableFile target f e),
      NewAppendableFile = (\<lambda>f e. NewAppendableFile target f e),
      FileExists = (\<lambda>f e. FileExists target f e),
      GetChildren = (\<lambda>dir e. GetChildren target dir e),
      RemoveFile = (\<lambda>f e. RemoveFile target f e),
      CreateDir = (\<lambda>d e. CreateDir target d e),
      RemoveDir = (\<lambda>d e. RemoveDir target d e),
      GetFileSize = (\<lambda>f s e. GetFileSize target f s e),
      RenameFile = (\<lambda>s t e. RenameFile target s t e),
      GetTestDirectory = (\<lambda>e. GetTestDirectory target e),
      SequentialFile_Read = SequentialFile_Read target, SequentialFile_Skip = SequentialFile_Skip target,
      SequentialFile_delete = SequentialFile_delete target,
      RandomAccessFile_Read = RandomAccessFile_Read target, RandomAccessFile_delete = RandomAccessFile_delete target,
      WritableFile_Append = WritableFile_Append target, WritableFile_Close = WritableFile_Close target,
      WritableFile_Flush = WritableFile_Flush target, WritableFile_Sync = WritableFile_Sync target,
      WritableFile_delete = WritableFile_delete target\<rparr>"

lemma EnvWrapper_forwards: "EnvWrapper target = target"
  by (simp add: EnvWrapper_def)

record ('e, 'l, 'g, 'f) EnvServices =
  Env_LockFile :: "bytes \<Rightarrow> 'e \<Rightarrow> (status \<times> 'l option \<times> 'e) option"
  Env_UnlockFile :: "'l \<Rightarrow> 'e \<Rightarrow> (status \<times> 'e) option"
  Env_Schedule :: "'f \<Rightarrow> 'e \<Rightarrow> 'e"
  Env_StartThread :: "'f \<Rightarrow> 'e \<Rightarrow> 'e"
  Env_NewLogger :: "bytes \<Rightarrow> 'e \<Rightarrow> (status \<times> 'g option \<times> 'e) option"
  Env_NowMicros :: "'e \<Rightarrow> u64 \<times> 'e"
  Env_SleepForMicroseconds :: "int \<Rightarrow> 'e \<Rightarrow> 'e"

definition EnvWrapper_services :: "('e, 'l, 'g, 'f) EnvServices \<Rightarrow> ('e, 'l, 'g, 'f) EnvServices" where
  "EnvWrapper_services target =
     \<lparr>Env_LockFile = (\<lambda>f e. Env_LockFile target f e),
      Env_UnlockFile = (\<lambda>l e. Env_UnlockFile target l e),
      Env_Schedule = (\<lambda>f e. Env_Schedule target f e),
      Env_StartThread = (\<lambda>f e. Env_StartThread target f e),
      Env_NewLogger = (\<lambda>fname e. Env_NewLogger target fname e),
      Env_NowMicros = (\<lambda>e. Env_NowMicros target e),
      Env_SleepForMicroseconds = (\<lambda>micros e. Env_SleepForMicroseconds target micros e)\<rparr>"

lemma EnvWrapper_services_forwards: "EnvWrapper_services target = target"
  by (simp add: EnvWrapper_services_def)

text \<open>
  The default implementations of \<^verbatim>\<open>RemoveDir\<close> and \<^verbatim>\<open>DeleteDir\<close> call each other, and so do those of \<^verbatim>\<open>RemoveFile\<close>
  and \<^verbatim>\<open>DeleteFile\<close>: an implementation overrides one of the two, \<open>removes\<close> or \<open>deletes\<close>.
\<close>

datatype removal = Remove | Delete

partial_function (option) Env_removal ::
    "(bytes \<Rightarrow> 'e \<Rightarrow> (status \<times> 'e) option) option \<Rightarrow> (bytes \<Rightarrow> 'e \<Rightarrow> (status \<times> 'e) option) option \<Rightarrow>
     removal \<Rightarrow> bytes \<Rightarrow> 'e \<Rightarrow> (status \<times> 'e) option" where
  [code]: "Env_removal removes deletes m path e =
     (case m of
        Remove \<Rightarrow> (case removes of Some f \<Rightarrow> f path e | None \<Rightarrow> Env_removal removes deletes Delete path e)
      | Delete \<Rightarrow> (case deletes of Some f \<Rightarrow> f path e | None \<Rightarrow> Env_removal removes deletes Remove path e))"

lemma Env_removal_Remove: "Env_removal (Some f) deletes Remove path e = f path e"
  by (subst Env_removal.simps) simp

lemma Env_removal_Delete: "Env_removal removes (Some f) Delete path e = f path e"
  by (subst Env_removal.simps) simp

text \<open>An override of either name serves both; without one the calls never return.\<close>

lemma Env_removal_one:
  "Env_removal (Some f) None m path e = f path e" "Env_removal None (Some f) m path e = f path e"
  by (cases m; subst Env_removal.simps; simp add: Env_removal_Remove Env_removal_Delete)+

lemma Env_removal_none: "Env_removal None None m path e = None"
proof (rule ccontr)
  have never: "removes = None \<longrightarrow> deletes = None \<longrightarrow> False"
    if "Env_removal removes deletes m path e = Some r" for removes deletes m path e r
    using that by (rule Env_removal.raw_induct [rotated]) (fastforce split: removal.splits option.splits)
  assume "Env_removal None None m path e \<noteq> None"
  then obtain r where "Env_removal None None m path e = Some r" by auto
  from never [OF this] show False by simp
qed

text \<open>\<^verbatim>\<open>Log\<close>: a null pointer takes no messages; \<open>logv\<close> is the method of the log.\<close>

definition Env_Log :: "('g \<Rightarrow> 'm \<Rightarrow> 'e \<Rightarrow> 'e) \<Rightarrow> 'g option \<Rightarrow> 'm \<Rightarrow> 'e \<Rightarrow> 'e" where
  "Env_Log logv info_log msg e = (case info_log of Some g \<Rightarrow> logv g msg e | None \<Rightarrow> e)"

subsection \<open>Whole files\<close>

definition DoWriteStringToFile ::
    "('e, 's, 'r, 'w) Env \<Rightarrow> bytes \<Rightarrow> bytes \<Rightarrow> bool \<Rightarrow> 'e \<Rightarrow> (status \<times> 'e) option" where
  "DoWriteStringToFile env data fname should_sync e = do {
     (s, result, e) \<leftarrow> NewWritableFile env fname e;
     if \<not> Status_ok s then Some (s, e)
     else do {
       file \<leftarrow> result;
       (s, file, e) \<leftarrow> WritableFile_Append env file data e;
       (s, file, e) \<leftarrow> (if Status_ok s \<and> should_sync then WritableFile_Sync env file e else Some (s, file, e));
       (s, file, e) \<leftarrow> (if Status_ok s then WritableFile_Close env file e else Some (s, file, e));
       e \<leftarrow> WritableFile_delete env file e;
       e \<leftarrow> (if \<not> Status_ok s then map_option snd (RemoveFile env fname e) else Some e);
       Some (s, e)
     }
   }"

definition WriteStringToFile :: "('e, 's, 'r, 'w) Env \<Rightarrow> bytes \<Rightarrow> bytes \<Rightarrow> 'e \<Rightarrow> (status \<times> 'e) option" where
  "WriteStringToFile env data fname = DoWriteStringToFile env data fname False"

definition WriteStringToFileSync :: "('e, 's, 'r, 'w) Env \<Rightarrow> bytes \<Rightarrow> bytes \<Rightarrow> 'e \<Rightarrow> (status \<times> 'e) option" where
  "WriteStringToFileSync env data fname = DoWriteStringToFile env data fname True"

definition kBufferSize :: u64 where
  "kBufferSize = 8192"

text \<open>The loop of \<^verbatim>\<open>ReadFileToString\<close>; a loop that does not end is \<^term>\<open>None\<close>.\<close>

partial_function (option) ReadFile_loop ::
    "('e, 's, 'r, 'w) Env \<Rightarrow> 's \<Rightarrow> bytes \<Rightarrow> bytes \<Rightarrow> 'e \<Rightarrow> (status \<times> bytes \<times> 's \<times> 'e) option" where
  [code]: "ReadFile_loop env file space data e = do {
     (s, fragment, space, file, e) \<leftarrow> SequentialFile_Read env file kBufferSize [] space e;
     if \<not> Status_ok s then Some (s, data, file, e)
     else do {
       let data = data @ fragment;
       if Slice_empty fragment then Some (s, data, file, e)
       else ReadFile_loop env file space data e
     }
   }"

definition ReadFileToString ::
    "(nat \<Rightarrow> u8) \<Rightarrow> ('e, 's, 'r, 'w) Env \<Rightarrow> bytes \<Rightarrow> 'e \<Rightarrow> (status \<times> bytes \<times> 'e) option" where
  "ReadFileToString junk env fname e = do {
     (s, result, e) \<leftarrow> NewSequentialFile env fname e;
     if \<not> Status_ok s then Some (s, [], e)
     else do {
       file \<leftarrow> result;
       (s, data, file, e) \<leftarrow> ReadFile_loop env file (mem_new junk (unat kBufferSize)) [] e;
       e \<leftarrow> SequentialFile_delete env file e;
       Some (s, data, e)
     }
   }"

subsection \<open>The contract of named files\<close>

text \<open>
  \<open>name\<close> is the directory, \<open>data\<close> the content of a file, \<open>opens\<close> the number of open files per file;
  \<open>wfile\<close>, \<open>sfile\<close> and \<open>spos\<close> are the file an open file belongs to and the position in it.
  \<open>already e f\<close> is how often the file named \<open>f\<close> is open, if there is one; \<open>inv\<close> is the
  implementation's invariant, \<open>limit\<close> how often a file may be open.
\<close>

locale file_env =
  fixes env :: "('e, 's, 'r, 'w) Env" and inv :: "'e \<Rightarrow> bool" and name :: "'e \<Rightarrow> bytes \<Rightarrow> 'i option"
    and data :: "'e \<Rightarrow> 'i \<Rightarrow> bytes" and opens :: "'e \<Rightarrow> 'i \<Rightarrow> nat" and limit :: nat
    and already :: "'e \<Rightarrow> bytes \<Rightarrow> nat" and wfile :: "'w \<Rightarrow> 'i" and sfile :: "'s \<Rightarrow> 'i" and spos :: "'s \<Rightarrow> nat"
  assumes already: "already e f = (case name e f of None \<Rightarrow> 0 | Some i \<Rightarrow> opens e i)"
    and new_writable: "inv e \<Longrightarrow> (\<And>i. name e f = Some i \<Longrightarrow> opens e i < limit) \<Longrightarrow>
      \<exists>w e'. NewWritableFile env f e = Some (Status_OK, Some w, e') \<and> inv e' \<and> name e' = (name e)(f \<mapsto> wfile w) \<and>
        data e' (wfile w) = [] \<and> opens e' (wfile w) = already e f + 1 \<and> wfile w \<notin> ran ((name e)(f := None)) \<and>
        (\<forall>i \<in> ran ((name e)(f := None)). data e' i = data e i \<and> opens e' i = opens e i)"
    and append: "inv e \<Longrightarrow> opens e (wfile w) > 0 \<Longrightarrow> length (data e (wfile w)) + length d < 2 ^ 64 \<Longrightarrow>
      \<exists>w' e'. WritableFile_Append env w d e = Some (Status_OK, w', e') \<and> wfile w' = wfile w \<and>
        inv e' \<and> name e' = name e \<and> opens e' = opens e \<and>
        data e' (wfile w) = data e (wfile w) @ d \<and> (\<forall>i \<in> ran (name e). i \<noteq> wfile w \<longrightarrow> data e' i = data e i)"
    and sync: "inv e \<Longrightarrow> opens e (wfile w) > 0 \<Longrightarrow> \<exists>w'. WritableFile_Sync env w e = Some (Status_OK, w', e) \<and> wfile w' = wfile w"
    and close: "inv e \<Longrightarrow> opens e (wfile w) > 0 \<Longrightarrow> \<exists>w'. WritableFile_Close env w e = Some (Status_OK, w', e) \<and> wfile w' = wfile w"
    and delete_writable: "inv e \<Longrightarrow> opens e (wfile w) > 0 \<Longrightarrow>
      \<exists>e'. WritableFile_delete env w e = Some e' \<and> inv e' \<and> name e' = name e \<and>
        (\<forall>i \<in> ran (name e). data e' i = data e i \<and> opens e' i = opens e i - (if i = wfile w then 1 else 0))"
    and new_sequential: "inv e \<Longrightarrow> name e f = Some i \<Longrightarrow> opens e i < limit \<Longrightarrow>
      \<exists>s e'. NewSequentialFile env f e = Some (Status_OK, Some s, e') \<and> inv e' \<and> name e' = name e \<and>
        sfile s = i \<and> spos s = 0 \<and> opens e' i = opens e i + 1 \<and>
        (\<forall>j \<in> ran (name e). data e' j = data e j \<and> (j \<noteq> i \<longrightarrow> opens e' j = opens e j))"
    and read: "inv e \<Longrightarrow> opens e (sfile s) > 0 \<Longrightarrow> spos s \<le> length (data e (sfile s)) \<Longrightarrow> unat n \<le> length scratch \<Longrightarrow>
      \<exists>s' scratch'. SequentialFile_Read env s n result scratch e =
          Some (Status_OK, take (unat n) (drop (spos s) (data e (sfile s))), scratch', s', e) \<and>
        length scratch' = length scratch \<and> sfile s' = sfile s \<and>
        spos s' = min (spos s + unat n) (length (data e (sfile s)))"
    and delete_sequential: "inv e \<Longrightarrow> opens e (sfile s) > 0 \<Longrightarrow>
      \<exists>e'. SequentialFile_delete env s e = Some e' \<and> inv e' \<and> name e' = name e \<and>
        (\<forall>i \<in> ran (name e). data e' i = data e i \<and> opens e' i = opens e i - (if i = sfile s then 1 else 0))"
begin

lemma write_file:
  assumes inv: "inv e" and limit: "\<And>i. name e f = Some i \<Longrightarrow> opens e i < limit" and len: "length d < 2 ^ 64"
  obtains i e' where "DoWriteStringToFile env d f should_sync e = Some (Status_OK, e')" and "inv e'"
    and "name e' = (name e)(f \<mapsto> i)" and "data e' i = d" and "opens e' i = already e f" and "i \<notin> ran ((name e)(f := None))"
    and "\<And>j. j \<in> ran ((name e)(f := None)) \<Longrightarrow> data e' j = data e j \<and> opens e' j = opens e j"
proof -
  obtain w e1 where 1: "NewWritableFile env f e = Some (Status_OK, Some w, e1)" "inv e1" "name e1 = (name e)(f \<mapsto> wfile w)"
    "data e1 (wfile w) = []" "opens e1 (wfile w) = already e f + 1" "wfile w \<notin> ran ((name e)(f := None))"
    "\<forall>i \<in> ran ((name e)(f := None)). data e1 i = data e i \<and> opens e1 i = opens e i"
    using new_writable [OF inv limit] by blast
  obtain w1 e2 where 2: "WritableFile_Append env w d e1 = Some (Status_OK, w1, e2)" "inv e2" "name e2 = name e1" "opens e2 = opens e1"
    "data e2 (wfile w) = d" "\<forall>i \<in> ran (name e1). i \<noteq> wfile w \<longrightarrow> data e2 i = data e1 i" "wfile w1 = wfile w"
    using append [OF 1(2), of w d] 1(4,5) len by auto
  have open2: "opens e2 (wfile w) > 0"
    using 1(5) 2(4) by simp
  obtain w2 where sync2: "WritableFile_Sync env w1 e2 = Some (Status_OK, w2, e2)" "wfile w2 = wfile w"
    using sync [OF 2(2), of w1] open2 2(7) by auto
  define w3 where "w3 = (if should_sync then w2 else w1)"
  have file3: "wfile w3 = wfile w"
    using 2(7) sync2(2) by (simp add: w3_def)
  obtain w4 where close2: "WritableFile_Close env w3 e2 = Some (Status_OK, w4, e2)" "wfile w4 = wfile w"
    using close [OF 2(2), of w3] open2 unfolding file3 by blast
  obtain e3 where 3: "WritableFile_delete env w4 e2 = Some e3" "inv e3" "name e3 = name e2"
    "\<forall>i \<in> ran (name e2). data e3 i = data e2 i \<and> opens e3 i = opens e2 i - (if i = wfile w then 1 else 0)"
    using delete_writable [OF 2(2), of w4] open2 unfolding close2(2) by blast
  have ran: "ran ((name e)(f := None)) \<subseteq> ran (name e1)" "wfile w \<in> ran (name e1)"
    unfolding 1(3) by (auto simp: ran_def split: if_splits)
  have "DoWriteStringToFile env d f should_sync e = Some (Status_OK, e3)"
    unfolding DoWriteStringToFile_def using 1(1) 2(1) 3(1) sync2(1) close2(1)
    by (simp add: Status_ok_def Status_OK_def w3_def split: if_splits)
  moreover have "data e3 j = data e j \<and> opens e3 j = opens e j" if j: "j \<in> ran ((name e)(f := None))" for j
  proof -
    have "j \<noteq> wfile w" "j \<in> ran (name e1)"
      using j 1(6) ran by auto
    then show ?thesis
      using 1(7) 2(3,4,6) 3(4) j by simp
  qed
  ultimately show ?thesis
    using that [of e3 "wfile w"] 1(3,5,6) 2(3-5) 3(2-4) ran by simp
qed

lemma read_loop:
  assumes inv: "inv e" and "opens e (sfile s) > 0" and "spos s \<le> length (data e (sfile s))" and "length space = 8192"
  shows "\<exists>s'. ReadFile_loop env s space acc e = Some (Status_OK, acc @ drop (spos s) (data e (sfile s)), s', e) \<and> sfile s' = sfile s"
  using assms(2-)
proof (induction "length (data e (sfile s)) - spos s" arbitrary: s space acc rule: less_induct)
  case less
  let ?d = "data e (sfile s)"
  obtain s1 space1 where 1: "SequentialFile_Read env s kBufferSize [] space e =
      Some (Status_OK, take 8192 (drop (spos s) ?d), space1, s1, e)" "length space1 = 8192"
    "sfile s1 = sfile s" "spos s1 = min (spos s + 8192) (length ?d)"
    using read [OF inv less.prems(1,2), of kBufferSize space "[]"] less.prems(3) by (auto simp: kBufferSize_def)
  show ?case
  proof (cases "drop (spos s) ?d = []")
    case True
    then show ?thesis
      using 1 by (subst ReadFile_loop.simps) (simp add: Status_ok_def Status_OK_def Slice_empty_def)
  next
    case False
    then have less: "length ?d - spos s1 < length ?d - spos s" "take 8192 (drop (spos s) ?d) \<noteq> []"
      using 1(4) by auto
    obtain s' where "ReadFile_loop env s1 space1 (acc @ take 8192 (drop (spos s) ?d)) e =
        Some (Status_OK, (acc @ take 8192 (drop (spos s) ?d)) @ drop (spos s1) ?d, s', e)" "sfile s' = sfile s1"
      using less.hyps [of s1 space1 "acc @ take 8192 (drop (spos s) ?d)"] less(1) less.prems 1 by auto
    moreover have "take 8192 (drop (spos s) ?d) @ drop (spos s1) ?d = drop (spos s) ?d"
      using 1(4) append_take_drop_id [of 8192 "drop (spos s) ?d"] by (auto simp: min_def add.commute)
    ultimately show ?thesis
      using 1 less(2) by (subst ReadFile_loop.simps) (simp add: Status_ok_def Status_OK_def Slice_empty_def)
  qed
qed

lemma read_file:
  assumes inv: "inv e" and f: "name e f = Some i" and limit: "opens e i < limit"
  obtains e' where "ReadFileToString junk env f e = Some (Status_OK, data e i, e')" and "inv e'" and "name e' = name e"
    and "\<And>j. j \<in> ran (name e) \<Longrightarrow> data e' j = data e j \<and> opens e' j = opens e j"
proof -
  obtain s e1 where 1: "NewSequentialFile env f e = Some (Status_OK, Some s, e1)" "inv e1" "name e1 = name e"
    "sfile s = i" "spos s = 0" "opens e1 i = opens e i + 1"
    "\<forall>j \<in> ran (name e). data e1 j = data e j \<and> (j \<noteq> i \<longrightarrow> opens e1 j = opens e j)"
    using new_sequential [OF inv f limit] by blast
  have i: "i \<in> ran (name e)"
    using f by (auto simp: ran_def)
  obtain s' where 2: "ReadFile_loop env s (mem_new junk (unat kBufferSize)) [] e1 = Some (Status_OK, data e i, s', e1)" "sfile s' = i"
    using read_loop [OF 1(2), of s "mem_new junk (unat kBufferSize)" "[]"] 1 i by (auto simp: kBufferSize_def)
  obtain e2 where 3: "SequentialFile_delete env s' e1 = Some e2" "inv e2" "name e2 = name e1"
    "\<forall>j \<in> ran (name e1). data e2 j = data e1 j \<and> opens e2 j = opens e1 j - (if j = sfile s' then 1 else 0)"
    using delete_sequential [OF 1(2), of s'] 1(6) 2(2) by auto
  have "ReadFileToString junk env f e = Some (Status_OK, data e i, e2)"
    unfolding ReadFileToString_def using 1(1) 2(1) 3(1) by (simp add: Status_ok_def Status_OK_def)
  moreover have "data e2 j = data e j \<and> opens e2 j = opens e j" if "j \<in> ran (name e)" for j
    using that 1(3,6,7) 2(2) 3(4) by auto
  ultimately show ?thesis
    using that 1(3) 3(2,3) by simp
qed

end

end
