(* ===== verification/MemEnv.thy ===== *)
theory MemEnv
  imports MemFile EnvInterface
begin

text \<open>
  The in-memory environment, \<^verbatim>\<open>InMemoryEnv\<close> of \<^verbatim>\<open>helper/memenv/memenv.cpp\<close>: a sorted map from names
  to reference-counted files on a heap, and the three classes of open files. Following a pointer
  to a deleted file gives \<^term>\<open>None\<close>. The address of a new file comes from an allocator that the
  definitions take as an argument.
\<close>

subsection \<open>State\<close>

text \<open>\<^verbatim>\<open>std::map\<close> as the list of its pairs in key order; \<open>map_at\<close> is \<^verbatim>\<open>operator[]\<close>, which inserts a null
  pointer for a new key.\<close>

type_synonym FileSystem = "(bytes \<times> nat) list"

fun map_put :: "bytes \<Rightarrow> nat \<Rightarrow> FileSystem \<Rightarrow> FileSystem" where
  "map_put k v [] = [(k, v)]"
| "map_put k v ((k', v') # m) =
     (if k < k' then (k, v) # (k', v') # m else if k = k' then (k, v) # m else (k', v') # map_put k v m)"

definition map_erase :: "bytes \<Rightarrow> FileSystem \<Rightarrow> FileSystem" where
  "map_erase k m = filter (\<lambda>kv. fst kv \<noteq> k) m"

definition map_at :: "bytes \<Rightarrow> FileSystem \<Rightarrow> nat \<times> FileSystem" where
  "map_at k m = (case map_of m k of None \<Rightarrow> (0, map_put k 0 m) | Some v \<Rightarrow> (v, m))"

record InMemoryEnv =
  m_files :: "nat \<rightharpoonup> FileState"
  file_map :: FileSystem

definition new_InMemoryEnv :: InMemoryEnv where
  "new_InMemoryEnv = \<lparr> m_files = Map.empty, file_map = [] \<rparr>"

subsection \<open>Open files\<close>

definition ref_file :: "nat \<Rightarrow> InMemoryEnv \<Rightarrow> InMemoryEnv option" where
  "ref_file p e = do {
     f \<leftarrow> m_files e p;
     f \<leftarrow> FileState_Ref f;
     Some (e \<lparr> m_files := (m_files e)(p \<mapsto> f) \<rparr>)
   }"

definition unref_file :: "nat \<Rightarrow> InMemoryEnv \<Rightarrow> InMemoryEnv option" where
  "unref_file p e = do {
     f \<leftarrow> m_files e p;
     r \<leftarrow> FileState_Unref f;
     Some (e \<lparr> m_files := (m_files e)(p := r) \<rparr>)
   }"

record SequentialFileImpl =
  sq_file :: nat
  sq_pos :: u64

definition new_SequentialFileImpl :: "nat \<Rightarrow> InMemoryEnv \<Rightarrow> (SequentialFileImpl \<times> InMemoryEnv) option" where
  "new_SequentialFileImpl file e = map_option (Pair \<lparr> sq_file = file, sq_pos = 0 \<rparr>) (ref_file file e)"

definition SequentialFileImpl_destructor :: "SequentialFileImpl \<Rightarrow> InMemoryEnv \<Rightarrow> InMemoryEnv option" where
  "SequentialFileImpl_destructor s = unref_file (sq_file s)"

definition SequentialFileImpl_Read ::
    "(nat \<Rightarrow> u8) \<Rightarrow> SequentialFileImpl \<Rightarrow> u64 \<Rightarrow> bytes \<Rightarrow> bytes \<Rightarrow> InMemoryEnv \<Rightarrow>
     (status \<times> bytes \<times> bytes \<times> SequentialFileImpl) option" where
  "SequentialFileImpl_Read junk s n result scratch e = do {
     f \<leftarrow> m_files e (sq_file s);
     (st, result, scratch) \<leftarrow> FileState_Read junk f (sq_pos s) n result scratch;
     let s = (if Status_ok st then s \<lparr> sq_pos := sq_pos s + word_of_nat (length result) \<rparr> else s);
     Some (st, result, scratch, s)
   }"

definition SequentialFileImpl_Skip ::
    "(nat \<Rightarrow> u8) \<Rightarrow> SequentialFileImpl \<Rightarrow> u64 \<Rightarrow> InMemoryEnv \<Rightarrow> (status \<times> SequentialFileImpl) option" where
  "SequentialFileImpl_Skip junk s n e = do {
     f \<leftarrow> m_files e (sq_file s);
     if sq_pos s > FileState_Size f then do {
       st \<leftarrow> Status_IOError junk (ascii ''pos_ > file_->Size()'') [];
       Some (st, s)
     } else do {
       let available = FileState_Size f - sq_pos s;
       let n = (if n > available then available else n);
       Some (Status_OK, s \<lparr> sq_pos := sq_pos s + n \<rparr>)
     }
   }"

record RandomAccessFileImpl =
  ra_file :: nat

definition new_RandomAccessFileImpl :: "nat \<Rightarrow> InMemoryEnv \<Rightarrow> (RandomAccessFileImpl \<times> InMemoryEnv) option" where
  "new_RandomAccessFileImpl file e = map_option (Pair \<lparr> ra_file = file \<rparr>) (ref_file file e)"

definition RandomAccessFileImpl_destructor :: "RandomAccessFileImpl \<Rightarrow> InMemoryEnv \<Rightarrow> InMemoryEnv option" where
  "RandomAccessFileImpl_destructor r = unref_file (ra_file r)"

definition RandomAccessFileImpl_Read ::
    "(nat \<Rightarrow> u8) \<Rightarrow> RandomAccessFileImpl \<Rightarrow> u64 \<Rightarrow> u64 \<Rightarrow> bytes \<Rightarrow> bytes \<Rightarrow> InMemoryEnv \<Rightarrow> (status \<times> bytes \<times> bytes) option" where
  "RandomAccessFileImpl_Read junk r offset n result scratch e = do {
     f \<leftarrow> m_files e (ra_file r);
     FileState_Read junk f offset n result scratch
   }"

record WritableFileImpl =
  wr_file :: nat

definition new_WritableFileImpl :: "nat \<Rightarrow> InMemoryEnv \<Rightarrow> (WritableFileImpl \<times> InMemoryEnv) option" where
  "new_WritableFileImpl file e = map_option (Pair \<lparr> wr_file = file \<rparr>) (ref_file file e)"

definition WritableFileImpl_destructor :: "WritableFileImpl \<Rightarrow> InMemoryEnv \<Rightarrow> InMemoryEnv option" where
  "WritableFileImpl_destructor w = unref_file (wr_file w)"

definition WritableFileImpl_Append ::
    "(nat \<Rightarrow> nat \<Rightarrow> u8) \<Rightarrow> WritableFileImpl \<Rightarrow> bytes \<Rightarrow> InMemoryEnv \<Rightarrow> (status \<times> InMemoryEnv) option" where
  "WritableFileImpl_Append junk w data e = do {
     f \<leftarrow> m_files e (wr_file w);
     (s, f) \<leftarrow> FileState_Append junk f data;
     Some (s, e \<lparr> m_files := (m_files e)(wr_file w \<mapsto> f) \<rparr>)
   }"

definition WritableFileImpl_Close :: "WritableFileImpl \<Rightarrow> InMemoryEnv \<Rightarrow> (status \<times> InMemoryEnv) option" where
  "WritableFileImpl_Close w e = Some (Status_OK, e)"

definition WritableFileImpl_Flush :: "WritableFileImpl \<Rightarrow> InMemoryEnv \<Rightarrow> (status \<times> InMemoryEnv) option" where
  "WritableFileImpl_Flush w e = Some (Status_OK, e)"

definition WritableFileImpl_Sync :: "WritableFileImpl \<Rightarrow> InMemoryEnv \<Rightarrow> (status \<times> InMemoryEnv) option" where
  "WritableFileImpl_Sync w e = Some (Status_OK, e)"

subsection \<open>The environment\<close>

type_synonym allocator = "(nat \<rightharpoonup> FileState) \<Rightarrow> nat"

definition file_not_found :: "(nat \<Rightarrow> u8) \<Rightarrow> bytes \<Rightarrow> status option" where
  "file_not_found junk fname = Status_IOError junk fname (ascii ''File not found'')"

definition MemEnv_NewSequentialFile ::
    "(nat \<Rightarrow> u8) \<Rightarrow> bytes \<Rightarrow> InMemoryEnv \<Rightarrow> (status \<times> SequentialFileImpl option \<times> InMemoryEnv) option" where
  "MemEnv_NewSequentialFile junk fname e =
     (case map_of (file_map e) fname of
        None \<Rightarrow> do { s \<leftarrow> file_not_found junk fname; Some (s, None, e) }
      | Some p \<Rightarrow> do { (s, e) \<leftarrow> new_SequentialFileImpl p e; Some (Status_OK, Some s, e) })"

definition MemEnv_NewRandomAccessFile ::
    "(nat \<Rightarrow> u8) \<Rightarrow> bytes \<Rightarrow> InMemoryEnv \<Rightarrow> (status \<times> RandomAccessFileImpl option \<times> InMemoryEnv) option" where
  "MemEnv_NewRandomAccessFile junk fname e =
     (case map_of (file_map e) fname of
        None \<Rightarrow> do { s \<leftarrow> file_not_found junk fname; Some (s, None, e) }
      | Some p \<Rightarrow> do { (r, e) \<leftarrow> new_RandomAccessFileImpl p e; Some (Status_OK, Some r, e) })"

text \<open>\<^verbatim>\<open>new FileState()\<close> followed by \<^verbatim>\<open>Ref()\<close>.\<close>

definition create_file :: "allocator \<Rightarrow> InMemoryEnv \<Rightarrow> (nat \<times> InMemoryEnv) option" where
  "create_file alloc e = (let p = alloc (m_files e) in
     map_option (Pair p) (ref_file p (e \<lparr> m_files := (m_files e)(p \<mapsto> new_FileState) \<rparr>)))"

definition MemEnv_NewWritableFile ::
    "allocator \<Rightarrow> bytes \<Rightarrow> InMemoryEnv \<Rightarrow> (status \<times> WritableFileImpl option \<times> InMemoryEnv) option" where
  "MemEnv_NewWritableFile alloc fname e = do {
     (file, e) \<leftarrow>
       (case map_of (file_map e) fname of
          None \<Rightarrow> do {
            (p, e) \<leftarrow> create_file alloc e;
            Some (p, e \<lparr> file_map := map_put fname p (file_map e) \<rparr>)
          }
        | Some p \<Rightarrow> do {
            f \<leftarrow> m_files e p;
            Some (p, e \<lparr> m_files := (m_files e)(p \<mapsto> FileState_Truncate f) \<rparr>)
          });
     (w, e) \<leftarrow> new_WritableFileImpl file e;
     Some (Status_OK, Some w, e)
   }"

definition MemEnv_NewAppendableFile ::
    "allocator \<Rightarrow> bytes \<Rightarrow> InMemoryEnv \<Rightarrow> (status \<times> WritableFileImpl option \<times> InMemoryEnv) option" where
  "MemEnv_NewAppendableFile alloc fname e = do {
     let (file, m) = map_at fname (file_map e);
     let e = e \<lparr> file_map := m \<rparr>;
     (file, e) \<leftarrow>
       (if file = 0 then do {
          (p, e) \<leftarrow> create_file alloc e;
          Some (p, e \<lparr> file_map := map_put fname p (file_map e) \<rparr>)
        } else Some (file, e));
     (w, e) \<leftarrow> new_WritableFileImpl file e;
     Some (Status_OK, Some w, e)
   }"

definition MemEnv_FileExists :: "bytes \<Rightarrow> InMemoryEnv \<Rightarrow> bool" where
  "MemEnv_FileExists fname e \<longleftrightarrow> map_of (file_map e) fname \<noteq> None"

definition MemEnv_GetChildren :: "bytes \<Rightarrow> InMemoryEnv \<Rightarrow> status \<times> bytes list" where
  "MemEnv_GetChildren dir e =
     (Status_OK,
      [drop (length dir + 1) filename. (filename, _) \<leftarrow> file_map e,
         length filename \<ge> length dir + 1 \<and> [filename ! length dir] = ascii ''/'' \<and> Slice_starts_with filename dir])"

definition RemoveFileInternal :: "bytes \<Rightarrow> InMemoryEnv \<Rightarrow> InMemoryEnv option" where
  "RemoveFileInternal fname e =
     (case map_of (file_map e) fname of
        None \<Rightarrow> Some e
      | Some p \<Rightarrow> do {
          e \<leftarrow> unref_file p e;
          Some (e \<lparr> file_map := map_erase fname (file_map e) \<rparr>)
        })"

definition MemEnv_RemoveFile :: "(nat \<Rightarrow> u8) \<Rightarrow> bytes \<Rightarrow> InMemoryEnv \<Rightarrow> (status \<times> InMemoryEnv) option" where
  "MemEnv_RemoveFile junk fname e =
     (if map_of (file_map e) fname = None then do { s \<leftarrow> file_not_found junk fname; Some (s, e) }
      else do { e \<leftarrow> RemoveFileInternal fname e; Some (Status_OK, e) })"

definition MemEnv_CreateDir :: "bytes \<Rightarrow> InMemoryEnv \<Rightarrow> (status \<times> InMemoryEnv) option" where
  "MemEnv_CreateDir dirname e = Some (Status_OK, e)"

definition MemEnv_RemoveDir :: "bytes \<Rightarrow> InMemoryEnv \<Rightarrow> (status \<times> InMemoryEnv) option" where
  "MemEnv_RemoveDir dirname e = Some (Status_OK, e)"

text \<open>\<open>file_size\<close> is what \<^verbatim>\<open>*file_size\<close> holds before the call.\<close>

definition MemEnv_GetFileSize :: "(nat \<Rightarrow> u8) \<Rightarrow> bytes \<Rightarrow> u64 \<Rightarrow> InMemoryEnv \<Rightarrow> (status \<times> u64) option" where
  "MemEnv_GetFileSize junk fname file_size e =
     (case map_of (file_map e) fname of
        None \<Rightarrow> do { s \<leftarrow> file_not_found junk fname; Some (s, file_size) }
      | Some p \<Rightarrow> do { f \<leftarrow> m_files e p; Some (Status_OK, FileState_Size f) })"

text \<open>In the assignment \<^verbatim>\<open>file_map_[target] = file_map_[src]\<close> the right operand is evaluated first.\<close>

definition MemEnv_RenameFile :: "(nat \<Rightarrow> u8) \<Rightarrow> bytes \<Rightarrow> bytes \<Rightarrow> InMemoryEnv \<Rightarrow> (status \<times> InMemoryEnv) option" where
  "MemEnv_RenameFile junk src target e =
     (if map_of (file_map e) src = None then do { s \<leftarrow> file_not_found junk src; Some (s, e) }
      else do {
        e \<leftarrow> RemoveFileInternal target e;
        let (p, m) = map_at src (file_map e);
        let m = map_put target p m;
        let m = map_erase src m;
        Some (Status_OK, e \<lparr> file_map := m \<rparr>)
      })"

definition MemEnv_GetTestDirectory :: "InMemoryEnv \<Rightarrow> status \<times> bytes" where
  "MemEnv_GetTestDirectory e = (Status_OK, ascii ''/test'')"

fun unref_all :: "FileSystem \<Rightarrow> InMemoryEnv \<Rightarrow> InMemoryEnv option" where
  "unref_all [] e = Some e"
| "unref_all ((_, p) # m) e = do { e \<leftarrow> unref_file p e; unref_all m e }"

definition InMemoryEnv_destructor :: "InMemoryEnv \<Rightarrow> InMemoryEnv option" where
  "InMemoryEnv_destructor e = unref_all (file_map e) e"

definition MemEnv ::
    "allocator \<Rightarrow> (nat \<Rightarrow> nat \<Rightarrow> u8) \<Rightarrow> (nat \<Rightarrow> u8) \<Rightarrow> (InMemoryEnv, SequentialFileImpl, RandomAccessFileImpl, WritableFileImpl) Env" where
  "MemEnv alloc junks junk = \<lparr>
     NewSequentialFile = MemEnv_NewSequentialFile junk,
     NewRandomAccessFile = MemEnv_NewRandomAccessFile junk,
     NewWritableFile = MemEnv_NewWritableFile alloc,
     NewAppendableFile = MemEnv_NewAppendableFile alloc,
     FileExists = (\<lambda>f e. (MemEnv_FileExists f e, e)),
     GetChildren = (\<lambda>dir e. let (s, result) = MemEnv_GetChildren dir e in Some (s, result, e)),
     RemoveFile = MemEnv_RemoveFile junk,
     CreateDir = MemEnv_CreateDir,
     RemoveDir = MemEnv_RemoveDir,
     GetFileSize = (\<lambda>f size e. map_option (\<lambda>(s, size). (s, size, e)) (MemEnv_GetFileSize junk f size e)),
     RenameFile = MemEnv_RenameFile junk,
     GetTestDirectory = (\<lambda>e. let (s, path) = MemEnv_GetTestDirectory e in Some (s, path, e)),
     SequentialFile_Read = (\<lambda>f n result scratch e. map_option (\<lambda>(s, result, scratch, f). (s, result, scratch, f, e))
       (SequentialFileImpl_Read junk f n result scratch e)),
     SequentialFile_Skip = (\<lambda>f n e. map_option (\<lambda>(s, f). (s, f, e)) (SequentialFileImpl_Skip junk f n e)),
     SequentialFile_delete = SequentialFileImpl_destructor,
     RandomAccessFile_Read = (\<lambda>f offset n result scratch e. map_option (\<lambda>(s, result, scratch). (s, result, scratch, e))
       (RandomAccessFileImpl_Read junk f offset n result scratch e)),
     RandomAccessFile_delete = RandomAccessFileImpl_destructor,
     WritableFile_Append = (\<lambda>f d e. map_option (\<lambda>(s, e). (s, f, e)) (WritableFileImpl_Append junks f d e)),
     WritableFile_Close = (\<lambda>f e. map_option (\<lambda>(s, e). (s, f, e)) (WritableFileImpl_Close f e)),
     WritableFile_Flush = (\<lambda>f e. map_option (\<lambda>(s, e). (s, f, e)) (WritableFileImpl_Flush f e)),
     WritableFile_Sync = (\<lambda>f e. map_option (\<lambda>(s, e). (s, f, e)) (WritableFileImpl_Sync f e)),
     WritableFile_delete = WritableFileImpl_destructor \<rparr>"

text \<open>
  The other methods are those of the environment it wraps, but for locks and logs. A \<^verbatim>\<open>FileLock\<close> is an object without
  content and a \<^verbatim>\<open>NoOpLogger\<close> ignores its messages: both are \<^typ>\<open>unit\<close> here.
\<close>

definition MemEnv_LockFile :: "bytes \<Rightarrow> 'e \<Rightarrow> (status \<times> unit option \<times> 'e) option" where
  "MemEnv_LockFile fname e = Some (Status_OK, Some (), e)"

definition MemEnv_UnlockFile :: "unit \<Rightarrow> 'e \<Rightarrow> (status \<times> 'e) option" where
  "MemEnv_UnlockFile lock e = Some (Status_OK, e)"

definition NoOpLogger_Logv :: "unit \<Rightarrow> 'm \<Rightarrow> 'e \<Rightarrow> 'e" where
  "NoOpLogger_Logv g msg e = e"

definition MemEnv_NewLogger :: "bytes \<Rightarrow> 'e \<Rightarrow> (status \<times> unit option \<times> 'e) option" where
  "MemEnv_NewLogger fname e = Some (Status_OK, Some (), e)"

definition MemEnv_services :: "('e, unit, unit, 'f) EnvServices \<Rightarrow> ('e, unit, unit, 'f) EnvServices" where
  "MemEnv_services base_env = (EnvWrapper_services base_env)
     \<lparr>Env_LockFile := MemEnv_LockFile, Env_UnlockFile := MemEnv_UnlockFile, Env_NewLogger := MemEnv_NewLogger\<rparr>"

lemma MemEnv_log_silent: "Env_Log NoOpLogger_Logv g msg e = e"
  by (cases g) (simp_all add: Env_Log_def NoOpLogger_Logv_def)

subsection \<open>The invariant\<close>

lemma map_of_put [simp]: "map_of (map_put k v m) = (map_of m)(k \<mapsto> v)"
  by (induction k v m rule: map_put.induct) (auto simp: fun_upd_twist)

lemma map_of_erase [simp]: "map_of (map_erase k m) = (map_of m)(k := None)"
  by (induction m) (auto simp: map_erase_def fun_eq_iff)

lemma keys_put: "fst ` set (map_put k v m) = insert k (fst ` set m)"
  by (induction k v m rule: map_put.induct) auto

lemma sorted_put: "sorted_wrt (<) (map fst m) \<Longrightarrow> sorted_wrt (<) (map fst (map_put k v m))"
proof (induction k v m rule: map_put.induct)
  case (2 k v k' v' m)
  have keys: "fst ` set (map_put k v m) = insert k (fst ` set m)"
    by (rule keys_put)
  show ?case
  proof (cases k k' rule: linorder_cases)
    case greater
    have "\<forall>x \<in> fst ` set (map_put k v m). k' < x"
      unfolding keys using 2(2) greater by auto
    then show ?thesis
      using 2 greater by (auto simp: not_less_iff_gr_or_eq)
  qed (use 2(2) in auto)
qed simp

lemma sorted_erase: "sorted_wrt (<) (map fst m) \<Longrightarrow> sorted_wrt (<) (map fst (map_erase k m))"
  by (induction m) (auto simp: map_erase_def)

lemma ran_move:
  assumes "m src = Some p" and "m target = None" and "src \<noteq> target"
  shows "ran (m(target \<mapsto> p, src := None)) = ran m"
proof (intro set_eqI iffI)
  fix q
  assume "q \<in> ran (m(target \<mapsto> p, src := None))"
  then obtain g where "(m(target \<mapsto> p, src := None)) g = Some q"
    by (auto simp: ran_def)
  then have "m g = Some q \<or> q = p"
    by (auto split: if_splits)
  then show "q \<in> ran m"
    using assms(1) by (auto intro: ranI)
next
  fix q
  assume "q \<in> ran m"
  then obtain g where g: "m g = Some q"
    by (auto simp: ran_def)
  show "q \<in> ran (m(target \<mapsto> p, src := None))"
  proof (cases "g = src")
    case True
    then have "(m(target \<mapsto> p, src := None)) target = Some q"
      using g assms by simp
    then show ?thesis
      by (rule ranI)
  next
    case False
    then have "(m(target \<mapsto> p, src := None)) g = Some q"
      using g assms by auto
    then show ?thesis
      by (rule ranI)
  qed
qed

lemma inj_move:
  assumes inj: "inj_on m (dom m)" and src: "m src = Some p"
  shows "inj_on (m(target \<mapsto> p, src := None)) (dom (m(target \<mapsto> p, src := None)))"
proof (rule inj_onI)
  fix x y
  assume xy: "x \<in> dom (m(target \<mapsto> p, src := None))" "y \<in> dom (m(target \<mapsto> p, src := None))"
    "(m(target \<mapsto> p, src := None)) x = (m(target \<mapsto> p, src := None)) y"
  have ne: "z \<noteq> src" if "z \<in> dom (m(target \<mapsto> p, src := None))" for z
    using that by auto
  have other: "m z \<noteq> Some p" if "z \<noteq> src" for z
    using inj_onD [OF inj, of z src] src that by auto
  show "x = y"
    using xy(3) ne [OF xy(1)] ne [OF xy(2)] xy(1,2) other inj_onD [OF inj, of x y]
    by (cases "x = target"; cases "y = target") auto
qed

lemma ran_drop:
  assumes "m f = Some p" and "q \<noteq> p"
  shows "q \<in> ran (m(f := None)) \<longleftrightarrow> q \<in> ran m"
proof
  assume "q \<in> ran m"
  then obtain g where "m g = Some q"
    by (auto simp: ran_def)
  then have "(m(f := None)) g = Some q"
    using assms by auto
  then show "q \<in> ran (m(f := None))"
    by (rule ranI)
qed (auto simp: ran_def split: if_splits)

text \<open>The directory, the content of a file and how often it is open.\<close>

definition m_name :: "InMemoryEnv \<Rightarrow> bytes \<Rightarrow> nat option" where
  "m_name e = map_of (file_map e)"

definition m_data :: "InMemoryEnv \<Rightarrow> nat \<Rightarrow> bytes" where
  "m_data e p = (case m_files e p of None \<Rightarrow> [] | Some f \<Rightarrow> content f)"

definition m_opens :: "InMemoryEnv \<Rightarrow> nat \<Rightarrow> nat" where
  "m_opens e p = (case m_files e p of None \<Rightarrow> 0 | Some f \<Rightarrow> nat (fs_refs f) - (if p \<in> ran (m_name e) then 1 else 0))"

definition fresh_alloc :: "allocator \<Rightarrow> bool" where
  "fresh_alloc alloc \<longleftrightarrow> (\<forall>h. finite (dom h) \<longrightarrow> alloc h \<noteq> 0 \<and> h (alloc h) = None)"

definition counted :: "nat \<Rightarrow> FileState \<Rightarrow> bool" where
  "counted p f \<longleftrightarrow> p \<noteq> 0 \<and> file_ok f \<and> 0 < fs_refs f \<and> fs_refs f < 2 ^ 31"

definition mem_inv :: "allocator \<Rightarrow> InMemoryEnv \<Rightarrow> bool" where
  "mem_inv alloc e \<longleftrightarrow> fresh_alloc alloc \<and> sorted_wrt (<) (map fst (file_map e)) \<and>
     inj_on (m_name e) (dom (m_name e)) \<and> ran (m_name e) \<subseteq> dom (m_files e) \<and> finite (dom (m_files e)) \<and>
     (\<forall>p f. m_files e p = Some f \<longrightarrow> counted p f)"

lemma mem_invD:
  assumes "mem_inv alloc e"
  shows "fresh_alloc alloc" "sorted_wrt (<) (map fst (file_map e))" "inj_on (m_name e) (dom (m_name e))"
    "ran (m_name e) \<subseteq> dom (m_files e)" "finite (dom (m_files e))" "m_files e p = Some f \<Longrightarrow> counted p f"
  using assms by (auto simp: mem_inv_def)

lemma named_file:
  assumes "mem_inv alloc e" and "m_name e g = Some p"
  obtains f where "m_files e p = Some f" and "counted p f"
  using mem_invD(4,6) [OF assms(1)] assms(2) by (auto simp: ran_def dom_def subset_iff)

lemma opened_file:
  assumes "mem_inv alloc e" and "m_opens e p > 0"
  obtains f where "m_files e p = Some f" and "counted p f" and "m_data e p = content f"
    and "nat (fs_refs f) = m_opens e p + (if p \<in> ran (m_name e) then 1 else 0)"
  using assms mem_invD(6) [OF assms(1), of p] by (auto simp: m_opens_def m_data_def split: option.splits)

text \<open>Changing one file.\<close>

lemma file_upd [simp]:
  "m_name (e \<lparr> m_files := h \<rparr>) = m_name e" "m_name (e \<lparr> file_map := m \<rparr>) = map_of m"
  by (simp_all add: m_name_def)

lemma inv_upd:
  assumes "mem_inv alloc e" and "counted p f"
  shows "mem_inv alloc (e \<lparr> m_files := (m_files e)(p \<mapsto> f) \<rparr>)"
  using assms by (auto simp: mem_inv_def)

lemma upd_other:
  assumes "q \<noteq> p"
  shows "m_data (e \<lparr> m_files := (m_files e)(p := r) \<rparr>) q = m_data e q"
    and "m_opens (e \<lparr> m_files := (m_files e)(p := r) \<rparr>) q = m_opens e q"
  using assms by (simp_all add: m_data_def m_opens_def)

lemma upd_this:
  "m_data (e \<lparr> m_files := (m_files e)(p \<mapsto> f) \<rparr>) p = content f"
  "m_opens (e \<lparr> m_files := (m_files e)(p \<mapsto> f) \<rparr>) p = nat (fs_refs f) - (if p \<in> ran (m_name e) then 1 else 0)"
  by (simp_all add: m_data_def m_opens_def)

lemma ref_file_inv:
  assumes inv: "mem_inv alloc e" and f: "m_files e p = Some f" and less: "fs_refs f + 1 < 2 ^ 31"
  obtains e' where "ref_file p e = Some e'" and "mem_inv alloc e'" and "m_name e' = m_name e"
    and "\<And>q. m_data e' q = m_data e q" and "\<And>q. m_opens e' q = m_opens e q + (if q = p then 1 else 0)"
proof -
  let ?f = "f \<lparr> fs_refs := fs_refs f + 1 \<rparr>"
  let ?e = "e \<lparr> m_files := (m_files e)(p \<mapsto> ?f) \<rparr>"
  have c: "counted p f"
    by (rule mem_invD(6) [OF inv f])
  then have "counted p ?f"
    using less by (simp add: counted_def)
  then have "mem_inv alloc ?e"
    by (rule inv_upd [OF inv])
  moreover have "ref_file p e = Some ?e"
    using f less by (simp add: ref_file_def FileState_Ref_def)
  moreover have "m_data ?e q = m_data e q" for q
    using f by (cases "q = p") (simp_all add: m_data_def)
  moreover have "m_opens ?e q = m_opens e q + (if q = p then 1 else 0)" for q
    using f c by (cases "q = p") (auto simp: m_opens_def counted_def nat_add_distrib)
  ultimately show ?thesis
    using that [of ?e] by simp
qed

lemma unref_file_inv:
  assumes inv: "mem_inv alloc e" and p: "m_opens e p > 0"
  obtains e' where "unref_file p e = Some e'" and "mem_inv alloc e'" and "m_name e' = m_name e"
    and "\<And>q. q \<noteq> p \<or> m_opens e q > 1 \<or> q \<in> ran (m_name e) \<Longrightarrow> m_data e' q = m_data e q"
    and "\<And>q. m_opens e' q = m_opens e q - (if q = p then 1 else 0)"
proof -
  obtain f where f: "m_files e p = Some f" "counted p f" "m_data e p = content f"
    "nat (fs_refs f) = m_opens e p + (if p \<in> ran (m_name e) then 1 else 0)"
    by (rule opened_file [OF inv p])
  let ?f = "f \<lparr> fs_refs := fs_refs f - 1 \<rparr>"
  show ?thesis
  proof (cases "fs_refs f = 1")
    case True
    then have gone: "p \<notin> ran (m_name e)" "m_opens e p = 1"
      using f(4) p by (auto split: if_splits)
    let ?e = "e \<lparr> m_files := (m_files e)(p := None) \<rparr>"
    have "unref_file p e = Some ?e"
      using f(1) True by (simp add: unref_file_def FileState_Unref_def Let_def)
    moreover have "mem_inv alloc ?e"
      using inv gone(1) by (auto simp: mem_inv_def)
    moreover have "m_opens ?e q = m_opens e q - (if q = p then 1 else 0)" for q
      using gone(2) by (cases "q = p") (simp_all add: m_opens_def)
    ultimately show ?thesis
      using that [of ?e] gone upd_other(1) by auto
  next
    case False
    then have r: "fs_refs f > 1"
      using f(2) by (simp add: counted_def)
    let ?e = "e \<lparr> m_files := (m_files e)(p \<mapsto> ?f) \<rparr>"
    have "unref_file p e = Some ?e"
      using f(1) r by (simp add: unref_file_def FileState_Unref_def Let_def)
    moreover have "mem_inv alloc ?e"
      by (rule inv_upd [OF inv]) (use f(2) r in \<open>simp add: counted_def\<close>)
    moreover have "m_data ?e q = m_data e q" for q
      using f(1) by (cases "q = p") (simp_all add: m_data_def)
    moreover have "m_opens ?e q = m_opens e q - (if q = p then 1 else 0)" for q
      using f(1,4) r by (cases "q = p") (auto simp: m_opens_def nat_diff_distrib)
    ultimately show ?thesis
      using that [of ?e] by simp
  qed
qed


subsection \<open>Opening files\<close>

text \<open>A new file, counted once, gets a name.\<close>

lemma create_inv:
  assumes inv: "mem_inv alloc e" and none: "m_name e f = None"
    and m: "sorted_wrt (<) (map fst m)" "map_of m = (m_name e)(f \<mapsto> alloc (m_files e))"
  defines "p \<equiv> alloc (m_files e)"
  defines "e1 \<equiv> e \<lparr> m_files := (m_files e)(p \<mapsto> new_FileState \<lparr> fs_refs := 1 \<rparr>), file_map := m \<rparr>"
  shows "mem_inv alloc e1" and "m_name e1 = (m_name e)(f \<mapsto> p)" and "m_data e1 p = []" and "m_opens e1 p = 0"
    and "p \<notin> ran (m_name e)" and "\<And>q. q \<noteq> p \<Longrightarrow> m_data e1 q = m_data e q \<and> m_opens e1 q = m_opens e q"
    and "p \<noteq> 0" and "m_files e1 p = Some (new_FileState \<lparr> fs_refs := 1 \<rparr>)"
proof -
  have p: "p \<noteq> 0" "m_files e p = None"
    using mem_invD(1,5) [OF inv] by (auto simp: fresh_alloc_def p_def)
  then show fresh: "p \<notin> ran (m_name e)" and "p \<noteq> 0"
    using mem_invD(4) [OF inv] by (auto simp: subset_iff dom_def)
  show name: "m_name e1 = (m_name e)(f \<mapsto> p)"
    using m(2) by (simp add: e1_def p_def)
  have ran: "ran (m_name e1) = insert p (ran (m_name e))"
    unfolding name by (rule ran_map_upd [where m = "m_name e", OF none])
  have "counted p (new_FileState \<lparr> fs_refs := 1 \<rparr>)"
    using p(1) file_new by (simp add: counted_def)
  moreover have "inj_on (m_name e1) (dom (m_name e1))"
    unfolding name using mem_invD(3) [OF inv] fresh by (auto simp: inj_on_def ran_def)
  ultimately show "mem_inv alloc e1"
    using inv m(1) ran unfolding mem_inv_def by (auto simp: e1_def)
  show "m_data e1 p = []" "m_opens e1 p = 0"
    using ran file_new(2) by (simp_all add: e1_def m_data_def m_opens_def)
  show "m_data e1 q = m_data e q \<and> m_opens e1 q = m_opens e q" if "q \<noteq> p" for q
    using that ran by (simp add: m_data_def m_opens_def) (simp add: e1_def)
  show "m_files e1 p = Some (new_FileState \<lparr> fs_refs := 1 \<rparr>)"
    by (simp add: e1_def)
qed

lemma one_name:
  assumes "mem_inv alloc e" and "m_name e f = Some p"
  shows "p \<notin> ran ((m_name e)(f := None))"
proof
  assume "p \<in> ran ((m_name e)(f := None))"
  then obtain g where "g \<noteq> f" "m_name e g = Some p"
    by (auto simp: ran_def split: if_splits)
  then show False
    using inj_onD [OF mem_invD(3) [OF assms(1)], of g f] assms(2) by auto
qed

definition m_limit :: nat where
  "m_limit = 2 ^ 31 - 2"

definition m_already :: "InMemoryEnv \<Rightarrow> bytes \<Rightarrow> nat" where
  "m_already e f = (case m_name e f of None \<Rightarrow> 0 | Some i \<Rightarrow> m_opens e i)"

lemma named_opens:
  assumes inv: "mem_inv alloc e" and f: "m_name e f = Some p" and "m_opens e p < m_limit"
  obtains fl where "m_files e p = Some fl" and "fs_refs fl + 1 < 2 ^ 31" and "m_data e p = content fl" and "counted p fl"
    and "nat (fs_refs fl) = m_opens e p + 1"
proof -
  obtain fl where fl: "m_files e p = Some fl" "counted p fl"
    by (rule named_file [OF inv f])
  moreover have "p \<in> ran (m_name e)"
    using f by (auto simp: ran_def)
  ultimately have "nat (fs_refs fl) = m_opens e p + 1"
    by (auto simp: m_opens_def counted_def)
  then show ?thesis
    using that [of fl] fl assms(3) by (auto simp: m_limit_def m_data_def)
qed

lemma NewWritableFile_inv:
  assumes inv: "mem_inv alloc e" and limit: "\<And>i. m_name e f = Some i \<Longrightarrow> m_opens e i < m_limit"
  shows "\<exists>w e'. MemEnv_NewWritableFile alloc f e = Some (Status_OK, Some w, e') \<and> mem_inv alloc e' \<and>
    m_name e' = (m_name e)(f \<mapsto> wr_file w) \<and> m_data e' (wr_file w) = [] \<and> m_opens e' (wr_file w) = m_already e f + 1 \<and>
    wr_file w \<notin> ran ((m_name e)(f := None)) \<and>
    (\<forall>i \<in> ran ((m_name e)(f := None)). m_data e' i = m_data e i \<and> m_opens e' i = m_opens e i)"
proof (cases "m_name e f")
  case None
  let ?p = "alloc (m_files e)" and ?m = "map_put f (alloc (m_files e)) (file_map e)"
  let ?e = "e \<lparr> m_files := (m_files e)(?p \<mapsto> new_FileState \<lparr> fs_refs := 1 \<rparr>), file_map := ?m \<rparr>"
  note C = create_inv [OF inv None, of ?m]
  have sorted: "sorted_wrt (<) (map fst ?m)"
    by (rule sorted_put [OF mem_invD(2) [OF inv]])
  have "map_of ?m = (m_name e)(f \<mapsto> ?p)"
    by (simp add: m_name_def)
  note C = C [OF sorted this]
  obtain e' where e': "ref_file ?p ?e = Some e'" "mem_inv alloc e'" "m_name e' = m_name ?e"
    "\<And>q. m_data e' q = m_data ?e q" "\<And>q. m_opens e' q = m_opens ?e q + (if q = ?p then 1 else 0)"
    by (rule ref_file_inv [OF C(1) C(8)]) auto
  have "create_file alloc e = Some (?p, e \<lparr> m_files := (m_files e)(?p \<mapsto> new_FileState \<lparr> fs_refs := 1 \<rparr>) \<rparr>)"
    by (simp add: create_file_def Let_def ref_file_def FileState_Ref_def new_FileState_def)
  then have "MemEnv_NewWritableFile alloc f e = Some (Status_OK, Some \<lparr> wr_file = ?p \<rparr>, e')"
    using None e'(1) by (simp add: MemEnv_NewWritableFile_def new_WritableFileImpl_def m_name_def)
  moreover have "(m_name e)(f := None) = m_name e"
    using None by auto
  moreover have "m_data e' i = m_data e i \<and> m_opens e' i = m_opens e i" if "i \<in> ran (m_name e)" for i
  proof -
    have "i \<noteq> ?p"
      using that C(5) by auto
    then show ?thesis
      using e'(4,5) C(6) by simp
  qed
  ultimately show ?thesis
    using e' C(2-5) None by (intro exI [of _ "\<lparr> wr_file = ?p \<rparr>"] exI [of _ e']) (simp add: m_already_def)
next
  case (Some p)
  obtain fl where fl: "m_files e p = Some fl" "fs_refs fl + 1 < 2 ^ 31" "counted p fl" "nat (fs_refs fl) = m_opens e p + 1"
    by (rule named_opens [OF inv Some limit [OF Some]])
  let ?f = "FileState_Truncate fl"
  let ?e = "e \<lparr> m_files := (m_files e)(p \<mapsto> ?f) \<rparr>"
  have refs: "fs_refs ?f = fs_refs fl"
    by (simp add: FileState_Truncate_def)
  have "counted p ?f"
    using fl(3) refs Truncate_content(1) by (simp add: counted_def)
  note inv1 = inv_upd [OF inv this]
  have named: "p \<in> ran (m_name e)"
    using Some by (auto simp: ran_def)
  obtain e' where e': "ref_file p ?e = Some e'" "mem_inv alloc e'" "m_name e' = m_name ?e"
    "\<And>q. m_data e' q = m_data ?e q" "\<And>q. m_opens e' q = m_opens ?e q + (if q = p then 1 else 0)"
    by (rule ref_file_inv [OF inv1, of p ?f]) (use fl(2) refs in auto)
  have other: "p \<notin> ran ((m_name e)(f := None))"
    by (rule one_name [OF inv Some])
  have "MemEnv_NewWritableFile alloc f e = Some (Status_OK, Some \<lparr> wr_file = p \<rparr>, e')"
    using Some fl(1) e'(1) by (simp add: MemEnv_NewWritableFile_def new_WritableFileImpl_def m_name_def)
  moreover have "m_data e' i = m_data e i \<and> m_opens e' i = m_opens e i" if "i \<in> ran ((m_name e)(f := None))" for i
  proof -
    have "i \<noteq> p"
      using that other by auto
    then show ?thesis
      using e'(4,5) upd_other by simp
  qed
  moreover have "m_data e' p = []" "m_opens e' p = m_opens e p + 1"
    using e'(4,5) upd_this [of e p ?f] Truncate_content(2) refs fl(4) named by simp_all
  ultimately show ?thesis
    using e'(2,3) Some other by (intro exI [of _ "\<lparr> wr_file = p \<rparr>"] exI [of _ e']) (auto simp: m_already_def)
qed


lemma NewSequentialFile_inv:
  assumes inv: "mem_inv alloc e" and f: "m_name e f = Some i" and limit: "m_opens e i < m_limit"
  shows "\<exists>s e'. MemEnv_NewSequentialFile junk f e = Some (Status_OK, Some s, e') \<and> mem_inv alloc e' \<and> m_name e' = m_name e \<and>
    sq_file s = i \<and> unat (sq_pos s) = 0 \<and> m_opens e' i = m_opens e i + 1 \<and>
    (\<forall>j \<in> ran (m_name e). m_data e' j = m_data e j \<and> (j \<noteq> i \<longrightarrow> m_opens e' j = m_opens e j))"
proof -
  obtain fl where fl: "m_files e i = Some fl" "fs_refs fl + 1 < 2 ^ 31"
    by (rule named_opens [OF assms])
  obtain e' where "ref_file i e = Some e'" "mem_inv alloc e'" "m_name e' = m_name e"
    "\<And>q. m_data e' q = m_data e q" "\<And>q. m_opens e' q = m_opens e q + (if q = i then 1 else 0)"
    using ref_file_inv [OF inv fl] by blast
  then show ?thesis
    using f by (simp add: MemEnv_NewSequentialFile_def new_SequentialFileImpl_def m_name_def)
qed

lemma Append_inv:
  assumes inv: "mem_inv alloc e" and w: "m_opens e (wr_file w) > 0" and len: "length (m_data e (wr_file w)) + length d < 2 ^ 64"
  shows "\<exists>e'. WritableFileImpl_Append junks w d e = Some (Status_OK, e') \<and> mem_inv alloc e' \<and> m_name e' = m_name e \<and>
    m_opens e' = m_opens e \<and> m_data e' (wr_file w) = m_data e (wr_file w) @ d \<and>
    (\<forall>i \<in> ran (m_name e). i \<noteq> wr_file w \<longrightarrow> m_data e' i = m_data e i)"
proof -
  let ?p = "wr_file w"
  obtain f where f: "m_files e ?p = Some f" "counted ?p f" "m_data e ?p = content f"
    by (rule opened_file [OF inv w])
  then have ok: "file_ok f"
    by (simp add: counted_def)
  then obtain f' where f': "FileState_Append junks f d = Some (Status_OK, f')" "file_ok f'" "content f' = content f @ d"
    "fs_refs f' = fs_refs f"
    using FileState_Append_eq [OF ok, of d junks] len f(3) length_content [OF ok] by auto
  let ?e = "e \<lparr> m_files := (m_files e)(?p \<mapsto> f') \<rparr>"
  have "mem_inv alloc ?e"
    by (rule inv_upd [OF inv]) (use f(2) f' in \<open>simp add: counted_def\<close>)
  moreover have "m_opens ?e = m_opens e"
    using f(1) f'(4) by (auto simp: m_opens_def fun_eq_iff)
  ultimately show ?thesis
    using f f' upd_this(1) [of e ?p f'] upd_other(1) [of _ ?p e "Some f'"]
    by (intro exI [of _ ?e]) (simp add: WritableFileImpl_Append_def)
qed

lemma Sequential_Read_inv:
  assumes inv: "mem_inv alloc e" and s: "m_opens e (sq_file s) > 0" and pos: "unat (sq_pos s) \<le> length (m_data e (sq_file s))"
    and room: "unat n \<le> length scratch"
  shows "\<exists>s' scratch'. SequentialFileImpl_Read junk s n result scratch e =
      Some (Status_OK, take (unat n) (drop (unat (sq_pos s)) (m_data e (sq_file s))), scratch', s') \<and>
    length scratch' = length scratch \<and> sq_file s' = sq_file s \<and>
    unat (sq_pos s') = min (unat (sq_pos s) + unat n) (length (m_data e (sq_file s)))"
proof -
  obtain f where f: "m_files e (sq_file s) = Some f" "counted (sq_file s) f" "m_data e (sq_file s) = content f"
    by (rule opened_file [OF inv s])
  then have ok: "file_ok f"
    by (simp add: counted_def)
  let ?r = "take (unat n) (drop (unat (sq_pos s)) (content f))"
  have len: "length (content f) < 2 ^ 64" "length ?r = min (unat n) (length (content f) - unat (sq_pos s))"
    using length_content [OF ok] unat_u64_less [of "fs_size f"] by simp_all
  have read: "FileState_Read junk f (sq_pos s) n result scratch = Some (Status_OK, ?r, ?r @ drop (length ?r) scratch)"
    using FileState_Read_cases [OF ok room, of junk "sq_pos s" result] pos f(3) by (simp add: Let_def)
  have sum: "unat (sq_pos s) + length ?r = min (unat (sq_pos s) + unat n) (length (content f))"
    unfolding len(2) using pos f(3) by (auto simp: min_def)
  have "unat (word_of_nat (length ?r) :: u64) = length ?r"
    using len by (simp add: unsigned_of_nat take_bit_nat_eq_self)
  then have adv: "unat (sq_pos s + word_of_nat (length ?r)) = unat (sq_pos s) + length ?r"
    using sum len(1) by (subst unat_plus_u64) auto
  have "length (?r @ drop (length ?r) scratch) = length scratch"
    using len(2) room by simp
  moreover have "SequentialFileImpl_Read junk s n result scratch e =
      Some (Status_OK, ?r, ?r @ drop (length ?r) scratch, s \<lparr> sq_pos := sq_pos s + word_of_nat (length ?r) \<rparr>)"
    using f(1) read by (simp add: SequentialFileImpl_Read_def Let_def Status_ok_def Status_OK_def)
  ultimately show ?thesis
    using adv sum f(3)
    by (intro exI [of _ "s \<lparr> sq_pos := sq_pos s + word_of_nat (length ?r) \<rparr>"] exI [of _ "?r @ drop (length ?r) scratch"]) simp
qed

lemma close_inv:
  assumes "mem_inv alloc e" and "m_opens e p > 0"
  shows "\<exists>e'. unref_file p e = Some e' \<and> mem_inv alloc e' \<and> m_name e' = m_name e \<and>
    (\<forall>i \<in> ran (m_name e). m_data e' i = m_data e i \<and> m_opens e' i = m_opens e i - (if i = p then 1 else 0))"
proof -
  obtain e' where e': "unref_file p e = Some e'" "mem_inv alloc e'" "m_name e' = m_name e"
    "\<And>q. q \<noteq> p \<or> m_opens e q > 1 \<or> q \<in> ran (m_name e) \<Longrightarrow> m_data e' q = m_data e q"
    "\<And>q. m_opens e' q = m_opens e q - (if q = p then 1 else 0)"
    using unref_file_inv [OF assms] by blast
  have "m_data e' i = m_data e i" if "i \<in> ran (m_name e)" for i
    by (rule e'(4)) (use that in blast)
  then show ?thesis
    using e' by blast
qed

interpretation mem_files: file_env "MemEnv alloc junks junk" "mem_inv alloc" m_name m_data m_opens m_limit m_already
    wr_file sq_file "\<lambda>s. unat (sq_pos s)"
  for alloc junks junk
proof (unfold_locales, goal_cases)
  case (1 e f)
  then show ?case
    by (simp add: m_already_def)
next
  case (2 e f)
  then show ?case
    using NewWritableFile_inv [of alloc e f] by (simp add: MemEnv_def)
next
  case (3 e w d)
  then show ?case
    using Append_inv [of alloc e w d junks] by (auto simp: MemEnv_def)
next
  case (4 e w)
  then show ?case
    by (simp add: MemEnv_def WritableFileImpl_Sync_def)
next
  case (5 e w)
  then show ?case
    by (simp add: MemEnv_def WritableFileImpl_Close_def)
next
  case (6 e w)
  then show ?case
    using close_inv [of alloc e "wr_file w"] by (simp add: MemEnv_def WritableFileImpl_destructor_def)
next
  case (7 e f i)
  then show ?case
    using NewSequentialFile_inv [of alloc e f i junk] by (simp add: MemEnv_def)
next
  case (8 e s n scratch result)
  then show ?case
    using Sequential_Read_inv [of alloc e s n scratch junk result] by (auto simp: MemEnv_def)
next
  case (9 e s)
  then show ?case
    using close_inv [of alloc e "sq_file s"] by (simp add: MemEnv_def SequentialFileImpl_destructor_def)
qed


subsection \<open>Names\<close>

text \<open>An operation on names leaves the contents of the files that remain, and of the files that are open, alone.\<close>

definition keeps_files :: "InMemoryEnv \<Rightarrow> InMemoryEnv \<Rightarrow> bool" where
  "keeps_files e e' \<longleftrightarrow> m_opens e' = m_opens e \<and>
     (\<forall>q. q \<in> ran (m_name e') \<or> m_opens e q > 0 \<longrightarrow> m_data e' q = m_data e q)"

lemma remove_named:
  assumes inv: "mem_inv alloc e" and f: "m_name e f = Some p"
  obtains e' where "RemoveFileInternal f e = Some e'" and "mem_inv alloc e'" and "keeps_files e e'"
    and "file_map e' = map_erase f (file_map e)"
proof -
  obtain fl where fl: "m_files e p = Some fl" "counted p fl"
    by (rule named_file [OF inv f])
  have named: "p \<in> ran (m_name e)"
    using f by (auto simp: ran_def)
  then have refs: "nat (fs_refs fl) = m_opens e p + 1" and data: "m_data e p = content fl"
    using fl by (auto simp: m_opens_def m_data_def counted_def)
  define r where "r = (if fs_refs fl = 1 then None else Some (fl \<lparr> fs_refs := fs_refs fl - 1 \<rparr>))"
  define e' where "e' = e \<lparr> m_files := (m_files e)(p := r), file_map := map_erase f (file_map e) \<rparr>"
  have run: "RemoveFileInternal f e = Some e'"
    using f fl by (simp add: RemoveFileInternal_def m_name_def [symmetric] unref_file_def FileState_Unref_def Let_def
        e'_def r_def counted_def)
  have name: "m_name e' = (m_name e)(f := None)"
    by (simp add: e'_def m_name_def)
  have at_p: "m_files e' p = r"
    by (simp add: e'_def)
  have gone: "p \<notin> ran (m_name e')"
    unfolding name by (rule one_name [OF inv f])
  have others: "q \<in> ran (m_name e') \<longleftrightarrow> q \<in> ran (m_name e)" if "q \<noteq> p" for q
    unfolding name using f that by (rule ran_drop [of "m_name e"])
  have sub: "ran (m_name e') \<subseteq> dom (m_files e')"
  proof
    fix q
    assume q: "q \<in> ran (m_name e')"
    then have "q \<noteq> p"
      using gone by blast
    then have "q \<noteq> p" "q \<in> ran (m_name e)"
      using others q by blast+
    then show "q \<in> dom (m_files e')"
      using mem_invD(4) [OF inv] by (auto simp: e'_def)
  qed
  have "counted q g" if "m_files e' q = Some g" for q g
    using that fl(2) mem_invD(6) [OF inv, of q g] by (auto simp: e'_def r_def counted_def split: if_splits)
  moreover have "inj_on (m_name e') (dom (m_name e'))"
    using mem_invD(3) [OF inv] unfolding name by (auto simp: inj_on_def)
  moreover have "finite (dom (m_files e'))"
    using mem_invD(5) [OF inv] by (cases r) (simp_all add: e'_def)
  ultimately have "mem_inv alloc e'"
    using mem_invD(1) [OF inv] sorted_erase [OF mem_invD(2) [OF inv]] sub unfolding mem_inv_def by (simp add: e'_def)
  moreover have "m_opens e' q = m_opens e q" for q
  proof (cases "q = p")
    case True
    then show ?thesis
      unfolding m_opens_def [of e'] True at_p using refs gone by (auto simp: r_def nat_diff_distrib)
  next
    case False
    then show ?thesis
      using others [OF False] by (simp add: m_opens_def) (simp add: e'_def)
  qed
  moreover have "m_data e' q = m_data e q" if "q \<in> ran (m_name e') \<or> m_opens e q > 0" for q
  proof (cases "q = p")
    case True
    then have "m_opens e p > 0"
      using that gone by auto
    then show ?thesis
      unfolding m_data_def [of e'] True at_p using refs data by (auto simp: r_def)
  next
    case False
    then show ?thesis
      by (simp add: m_data_def e'_def)
  qed
  ultimately show ?thesis
    using that [of e'] run by (auto simp: keeps_files_def e'_def)
qed


lemma remove_inv:
  assumes inv: "mem_inv alloc e"
  obtains e' where "RemoveFileInternal f e = Some e'" and "mem_inv alloc e'" and "keeps_files e e'"
    and "m_name e' = (m_name e)(f := None)"
proof (cases "m_name e f")
  case None
  then have "(m_name e)(f := None) = m_name e"
    by auto
  then show ?thesis
    using that [of e] inv None by (simp add: RemoveFileInternal_def m_name_def [symmetric] keeps_files_def)
next
  case (Some p)
  obtain e' where "RemoveFileInternal f e = Some e'" "mem_inv alloc e'" "keeps_files e e'" "file_map e' = map_erase f (file_map e)"
    by (rule remove_named [OF inv Some])
  then show ?thesis
    using that [of e'] by (simp add: m_name_def)
qed

lemma rename_inv:
  assumes inv: "mem_inv alloc e" and src: "m_name e src = Some p" and ne: "src \<noteq> target"
  obtains e' where "MemEnv_RenameFile junk src target e = Some (Status_OK, e')" and "mem_inv alloc e'" and "keeps_files e e'"
    and "m_name e' = (m_name e)(target \<mapsto> p, src := None)"
proof -
  obtain e1 where e1: "RemoveFileInternal target e = Some e1" "mem_inv alloc e1" "keeps_files e e1"
    "m_name e1 = (m_name e)(target := None)"
    by (rule remove_inv [OF inv])
  let ?m = "map_erase src (map_put target p (file_map e1))"
  let ?e = "e1 \<lparr> file_map := ?m \<rparr>"
  have src1: "map_of (file_map e1) src = Some p"
    using e1(4) src ne by (simp add: m_name_def [symmetric])
  have run: "MemEnv_RenameFile junk src target e = Some (Status_OK, ?e)"
    using src e1(1) src1 by (simp add: MemEnv_RenameFile_def m_name_def [symmetric] map_at_def)
  have name1: "m_name ?e = (m_name e1)(target \<mapsto> p, src := None)"
    by (simp add: m_name_def)
  have ran: "ran (m_name ?e) = ran (m_name e1)"
  proof -
    have "m_name e1 src = Some p" "m_name e1 target = None"
      using src1 e1(4) by (simp_all add: m_name_def)
    then show ?thesis
      unfolding name1 using ne by (rule ran_move)
  qed
  have "inj_on (m_name ?e) (dom (m_name ?e))"
    unfolding name1 using src1 by (intro inj_move [OF mem_invD(3) [OF e1(2)]]) (simp add: m_name_def)
  then have "mem_inv alloc ?e"
    using e1(2) sorted_erase [OF sorted_put [OF mem_invD(2) [OF e1(2)]]] ran unfolding mem_inv_def by simp
  moreover have "m_opens ?e = m_opens e1" "m_data ?e = m_data e1"
    unfolding fun_eq_iff m_opens_def m_data_def ran by simp_all
  then have "keeps_files e ?e"
    using e1(3) ran unfolding keeps_files_def by simp
  moreover have "m_name ?e = (m_name e)(target \<mapsto> p, src := None)"
    unfolding name1 e1(4) by simp
  ultimately show ?thesis
    using that run by blast
qed


lemma children_eq:
  "snd (MemEnv_GetChildren dir e) =
   map (\<lambda>kv. drop (length dir + 1) (fst kv)) (filter (\<lambda>kv. \<exists>x. fst kv = dir @ ascii ''/'' @ x) (file_map e))"
proof -
  let ?child = "\<lambda>k. length k \<ge> length dir + 1 \<and> [k ! length dir] = ascii ''/'' \<and> Slice_starts_with k dir"
  have child: "length k \<ge> length dir + 1 \<and> [k ! length dir] = ascii ''/'' \<and> Slice_starts_with k dir \<longleftrightarrow>
      (\<exists>x. k = dir @ ascii ''/'' @ x)" for k :: bytes
  proof
    assume k: "length k \<ge> length dir + 1 \<and> [k ! length dir] = ascii ''/'' \<and> Slice_starts_with k dir"
    then have "take (length dir) k = dir" and "length dir < length k"
      by (auto simp: Slice_starts_with_iff)
    then have "k = dir @ [k ! length dir] @ drop (Suc (length dir)) k"
      by (metis append_Cons append_Nil id_take_nth_drop)
    then show "\<exists>x. k = dir @ ascii ''/'' @ x"
      using k by metis
  qed (auto simp: Slice_starts_with_iff nth_append)
  have "concat (map (\<lambda>(k, _). if ?child k then [drop (length dir + 1) k] else []) m) =
      map (\<lambda>kv. drop (length dir + 1) (fst kv)) (filter (\<lambda>kv. ?child (fst kv)) m)" for m :: FileSystem
    by (induction m) auto
  then show ?thesis
    unfolding MemEnv_GetChildren_def snd_conv child .
qed


lemma sorted_drop_prefix:
  "sorted_wrt (<) (map fst m) \<Longrightarrow>
   sorted_wrt (<) (map (\<lambda>kv. drop (length d) (fst kv)) (filter (\<lambda>kv. \<exists>x. fst kv = d @ x) m))" for d :: bytes
proof (induction m)
  case (Cons kv m)
  show ?case
  proof (cases "\<exists>x. fst kv = d @ x")
    case True
    then obtain x where x: "fst kv = d @ x"
      by blast
    have "x < y" if "kv' \<in> set m" "fst kv' = d @ y" for kv' y
      using Cons.prems that x by (auto simp: append_less_same)
    then show ?thesis
      using Cons x by auto
  qed (use Cons in auto)
qed simp

lemma children_sorted:
  assumes "mem_inv alloc e"
  shows "sorted_wrt (<) (snd (MemEnv_GetChildren dir e))"
    and "set (snd (MemEnv_GetChildren dir e)) = {x. m_name e (dir @ ascii ''/'' @ x) \<noteq> None}"
proof -
  let ?d = "dir @ ascii ''/''"
  have eq: "snd (MemEnv_GetChildren dir e) = map (\<lambda>kv. drop (length ?d) (fst kv)) (filter (\<lambda>kv. \<exists>x. fst kv = ?d @ x) (file_map e))"
    unfolding children_eq by simp
  show "sorted_wrt (<) (snd (MemEnv_GetChildren dir e))"
    unfolding eq by (rule sorted_drop_prefix [OF mem_invD(2) [OF assms]])
  show "set (snd (MemEnv_GetChildren dir e)) = {x. m_name e (dir @ ascii ''/'' @ x) \<noteq> None}"
    unfolding eq by (force simp: m_name_def map_of_eq_None_iff image_iff)
qed

lemma not_found_eq:
  "length f + 30 < 2 ^ 32 \<Longrightarrow>
   file_not_found junk f = Some (Some (status_block kIOError (f @ ascii '': File not found'')))"
  unfolding file_not_found_def Status_IOError_def by (subst new_Status_eq) (simp_all add: status_message_def)

subsection \<open>Properties\<close>

text \<open>C15: what \<^verbatim>\<open>WriteStringToFile\<close> or \<^verbatim>\<open>WriteStringToFileSync\<close> writes to a file of the in-memory
  environment, \<^verbatim>\<open>ReadFileToString\<close> reads back, whatever the file held before; both calls return
  with success, every other file keeps its name and its content, and the environment stays well
  formed.\<close>

theorem MemEnv_write_read:
  assumes inv: "mem_inv alloc e" and limit: "m_already e f < m_limit" and len: "length d < 2 ^ 64"
  shows "\<exists>e1 e2. DoWriteStringToFile (MemEnv alloc junks junk) d f should_sync e = Some (Status_OK, e1) \<and>
    ReadFileToString junk' (MemEnv alloc junks junk) f e1 = Some (Status_OK, d, e2) \<and> mem_inv alloc e2 \<and>
    (\<forall>g. g \<noteq> f \<longrightarrow> m_name e2 g = m_name e g \<and> (\<forall>q. m_name e g = Some q \<longrightarrow> m_data e2 q = m_data e q \<and> m_opens e2 q = m_opens e q))"
proof -
  let ?env = "MemEnv alloc junks junk"
  have "m_opens e i < m_limit" if "m_name e f = Some i" for i
    using limit that by (simp add: m_already_def)
  from mem_files.write_file [OF inv this len, where should_sync = should_sync]
  obtain i e1 where w: "DoWriteStringToFile ?env d f should_sync e = Some (Status_OK, e1)" "mem_inv alloc e1"
    "m_name e1 = (m_name e)(f \<mapsto> i)" "m_data e1 i = d" "m_opens e1 i = m_already e f" "i \<notin> ran ((m_name e)(f := None))"
    "\<And>j. j \<in> ran ((m_name e)(f := None)) \<Longrightarrow> m_data e1 j = m_data e j \<and> m_opens e1 j = m_opens e j"
    by blast
  have "m_name e1 f = Some i" "m_opens e1 i < m_limit"
    using w(3,5) limit by simp_all
  from mem_files.read_file [OF w(2) this] obtain e2 where r: "ReadFileToString junk' ?env f e1 = Some (Status_OK, m_data e1 i, e2)"
    "mem_inv alloc e2" "m_name e2 = m_name e1" "\<And>j. j \<in> ran (m_name e1) \<Longrightarrow> m_data e2 j = m_data e1 j \<and> m_opens e2 j = m_opens e1 j"
    by blast
  have "m_name e2 g = m_name e g \<and> (\<forall>q. m_name e g = Some q \<longrightarrow> m_data e2 q = m_data e q \<and> m_opens e2 q = m_opens e q)" if g: "g \<noteq> f" for g
  proof -
    have "q \<in> ran ((m_name e)(f := None)) \<and> q \<in> ran (m_name e1)" if "m_name e g = Some q" for q
      using that g w(3) by (auto simp: ran_def)
    then show ?thesis
      using g r(3,4) w(3,7) by auto
  qed
  then show ?thesis
    using w(1,4) r(1,2) by blast
qed

definition an_alloc :: allocator where
  "an_alloc h = (LEAST p. p \<noteq> 0 \<and> h p = None)"

lemma an_alloc_fresh: "fresh_alloc an_alloc"
  unfolding fresh_alloc_def
proof (intro allI impI)
  fix h :: "nat \<rightharpoonup> FileState"
  assume "finite (dom h)"
  then have "\<exists>p. p \<notin> insert 0 (dom h)"
    by (intro ex_new_if_finite) auto
  then have "\<exists>p. p \<noteq> 0 \<and> h p = None"
    by auto
  then show "an_alloc h \<noteq> 0 \<and> h (an_alloc h) = None"
    unfolding an_alloc_def by (rule LeastI_ex)
qed

lemma new_env_inv: "fresh_alloc alloc \<Longrightarrow> mem_inv alloc new_InMemoryEnv" "m_name new_InMemoryEnv = Map.empty"
  by (simp_all add: mem_inv_def new_InMemoryEnv_def m_name_def)

theorem MemEnv_write_read_witness:
  "\<exists>e1 e2. DoWriteStringToFile (MemEnv an_alloc (\<lambda>_ _. 0) (\<lambda>_. 0)) [1, 2, 3] (ascii ''a'') True new_InMemoryEnv = Some (Status_OK, e1) \<and>
    ReadFileToString (\<lambda>_. 0) (MemEnv an_alloc (\<lambda>_ _. 0) (\<lambda>_. 0)) (ascii ''a'') e1 = Some (Status_OK, [1, 2, 3], e2)"
proof -
  have "m_already new_InMemoryEnv (ascii ''a'') < m_limit"
    by (simp add: m_already_def new_env_inv m_limit_def)
  from MemEnv_write_read [OF new_env_inv(1) [OF an_alloc_fresh] this, of "[1, 2, 3]" "\<lambda>_ _. 0" "\<lambda>_. 0" True "\<lambda>_. 0"]
  show ?thesis
    by auto
qed

text \<open>C16: the directory of the in-memory environment. An operation on a name that is not there reports
  an I/O error with that name and changes nothing (for the two calls that open a file to read it, the
  interface asks for \<^verbatim>\<open>NotFound\<close> instead). Otherwise \<^verbatim>\<open>GetFileSize\<close> returns the number of
  bytes, \<^verbatim>\<open>RemoveFile\<close> removes the name only, \<^verbatim>\<open>RenameFile\<close> to another name moves the file there and
  replaces what was there; the remaining files and all open files, also those that lost their
  name, keep their contents, and reference counts stay right. \<^verbatim>\<open>GetChildren\<close> lists, in order, the
  names below a directory.\<close>

theorem MemEnv_directory:
  assumes inv: "mem_inv alloc e" and len: "length f + 30 < 2 ^ 32"
  defines "missing \<equiv> Some (status_block kIOError (f @ ascii '': File not found''))"
  shows "(m_name e f = None \<longrightarrow> \<not> MemEnv_FileExists f e \<and>
      MemEnv_NewSequentialFile junk f e = Some (missing, None, e) \<and> MemEnv_NewRandomAccessFile junk f e = Some (missing, None, e) \<and>
      MemEnv_RemoveFile junk f e = Some (missing, e) \<and> MemEnv_RenameFile junk f g e = Some (missing, e) \<and>
      MemEnv_GetFileSize junk f sz e = Some (missing, sz)) \<and>
    (\<forall>p. m_name e f = Some p \<longrightarrow> MemEnv_FileExists f e \<and>
      MemEnv_GetFileSize junk f sz e = Some (Status_OK, word_of_nat (length (m_data e p))) \<and>
      (\<exists>e'. MemEnv_RemoveFile junk f e = Some (Status_OK, e') \<and> mem_inv alloc e' \<and> keeps_files e e' \<and>
        m_name e' = (m_name e)(f := None)) \<and>
      (f \<noteq> g \<longrightarrow> (\<exists>e'. MemEnv_RenameFile junk f g e = Some (Status_OK, e') \<and> mem_inv alloc e' \<and> keeps_files e e' \<and>
        m_name e' = (m_name e)(g \<mapsto> p, f := None)))) \<and>
    sorted_wrt (<) (snd (MemEnv_GetChildren f e)) \<and>
    set (snd (MemEnv_GetChildren f e)) = {x. m_name e (f @ ascii ''/'' @ x) \<noteq> None}"
proof (intro conjI allI impI)
  assume none: "m_name e f = None"
  note nf = not_found_eq [OF len, of junk]
  show "\<not> MemEnv_FileExists f e" "MemEnv_NewSequentialFile junk f e = Some (missing, None, e)"
    "MemEnv_NewRandomAccessFile junk f e = Some (missing, None, e)" "MemEnv_RemoveFile junk f e = Some (missing, e)"
    "MemEnv_RenameFile junk f g e = Some (missing, e)" "MemEnv_GetFileSize junk f sz e = Some (missing, sz)"
    using none nf unfolding missing_def
    by (simp_all add: MemEnv_FileExists_def MemEnv_NewSequentialFile_def MemEnv_NewRandomAccessFile_def MemEnv_RemoveFile_def
        MemEnv_RenameFile_def MemEnv_GetFileSize_def m_name_def del: ascii_simps)
next
  fix p
  assume p: "m_name e f = Some p"
  obtain fl where fl: "m_files e p = Some fl" "counted p fl"
    by (rule named_file [OF inv p])
  show "MemEnv_FileExists f e"
    using p by (simp add: MemEnv_FileExists_def m_name_def)
  show "MemEnv_GetFileSize junk f sz e = Some (Status_OK, word_of_nat (length (m_data e p)))"
    using p fl length_content [of fl] by (simp add: MemEnv_GetFileSize_def m_name_def m_data_def FileState_Size_def counted_def)
  obtain e1 where "RemoveFileInternal f e = Some e1" "mem_inv alloc e1" "keeps_files e e1" "m_name e1 = (m_name e)(f := None)"
    by (rule remove_inv [OF inv])
  then show "\<exists>e'. MemEnv_RemoveFile junk f e = Some (Status_OK, e') \<and> mem_inv alloc e' \<and> keeps_files e e' \<and>
      m_name e' = (m_name e)(f := None)"
    using p by (simp add: MemEnv_RemoveFile_def m_name_def)
  show "\<exists>e'. MemEnv_RenameFile junk f g e = Some (Status_OK, e') \<and> mem_inv alloc e' \<and> keeps_files e e' \<and>
      m_name e' = (m_name e)(g \<mapsto> p, f := None)" if "f \<noteq> g"
    using rename_inv [OF inv p that] by metis
qed (rule children_sorted [OF inv])+

theorem MemEnv_directory_witness:
  "\<exists>e1 e2. DoWriteStringToFile (MemEnv an_alloc (\<lambda>_ _. 0) (\<lambda>_. 0)) [1, 2, 3] (ascii ''d/a'') True new_InMemoryEnv = Some (Status_OK, e1) \<and>
    MemEnv_GetFileSize (\<lambda>_. 0) (ascii ''d/a'') 0 e1 = Some (Status_OK, 3) \<and>
    MemEnv_RenameFile (\<lambda>_. 0) (ascii ''d/a'') (ascii ''d/b'') e1 = Some (Status_OK, e2) \<and>
    snd (MemEnv_GetChildren (ascii ''d'') e2) = [ascii ''b''] \<and>
    MemEnv_NewSequentialFile (\<lambda>_. 0) (ascii ''d/a'') e2 = Some (Some (status_block kIOError (ascii ''d/a: File not found'')), None, e2)"
proof -
  let ?a = "ascii ''d/a''" and ?b = "ascii ''d/b''"
  have len: "length ?a + 30 < 2 ^ 32" "length (ascii ''d'') + 30 < 2 ^ 32" "?a \<noteq> ?b"
    by simp_all
  obtain i e1 where w: "DoWriteStringToFile (MemEnv an_alloc (\<lambda>_ _. 0) (\<lambda>_. 0)) [1, 2, 3] ?a True new_InMemoryEnv = Some (Status_OK, e1)"
    "mem_inv an_alloc e1" "m_name e1 = [?a \<mapsto> i]" "m_data e1 i = [1, 2, 3]"
    by (rule mem_files.write_file [OF new_env_inv(1) [OF an_alloc_fresh], where f = ?a and d = "[1, 2, 3]" and should_sync = True])
      (simp_all add: new_env_inv(2) del: ascii_simps)
  then have "MemEnv_GetFileSize (\<lambda>_. 0) ?a 0 e1 = Some (Status_OK, 3)"
    and "\<exists>e2. MemEnv_RenameFile (\<lambda>_. 0) ?a ?b e1 = Some (Status_OK, e2) \<and> mem_inv an_alloc e2 \<and> m_name e2 = [?b \<mapsto> i]"
    using MemEnv_directory [OF w(2) len(1), of "\<lambda>_. 0" ?b 0] len(3) by (auto simp del: ascii_simps)
  moreover from this(2) obtain e2 where r: "MemEnv_RenameFile (\<lambda>_. 0) ?a ?b e1 = Some (Status_OK, e2)" "mem_inv an_alloc e2" "m_name e2 = [?b \<mapsto> i]"
    by blast
  moreover have "MemEnv_NewSequentialFile (\<lambda>_. 0) ?a e2 = Some (Some (status_block kIOError (ascii ''d/a: File not found'')), None, e2)"
    using MemEnv_directory [OF r(2) len(1), of "\<lambda>_. 0" "[]" 0] r(3) by simp
  moreover have "set (snd (MemEnv_GetChildren (ascii ''d'') e2)) = {ascii ''b''}" "sorted_wrt (<) (snd (MemEnv_GetChildren (ascii ''d'') e2))"
    using MemEnv_directory [OF r(2) len(2), of "\<lambda>_. 0" "[]" 0] r(3) by auto
  then have "snd (MemEnv_GetChildren (ascii ''d'') e2) = [ascii ''b'']"
    by (intro strict_sorted_equal) (simp_all del: ascii_simps)
  ultimately show ?thesis
    using w(1) by blast
qed

text \<open>The exception: a file that is renamed to its own name is lost, although the call reports success.\<close>

theorem RenameFile_to_itself_loses_the_file:
  assumes inv: "mem_inv alloc e" and f: "m_name e f = Some p"
  shows "\<exists>e'. MemEnv_RenameFile junk f f e = Some (Status_OK, e') \<and> m_name e' f = None"
proof -
  obtain e1 where "RemoveFileInternal f e = Some e1" "m_name e1 = (m_name e)(f := None)"
    by (rule remove_inv [OF inv])
  then show ?thesis
    using f by (auto simp: MemEnv_RenameFile_def m_name_def map_at_def split: option.splits)
qed

end
