(* ===== verification/Limiter.thy ===== *)
theory Limiter
  imports Prelude "HOL-Library.Monad_Syntax"
begin

text \<open>
  The resource counter \<^verbatim>\<open>Limiter\<close> of \<^verbatim>\<open>util/env_posix.cpp\<close>, which bounds the number of open
  read-only descriptors and of mapped regions. Its counter is a 32-bit atomic integer, and
  \<^verbatim>\<open>Acquire\<close> is not one atomic action: it subtracts one and, where it finds nothing left, adds the
  one back later. The two halves are the definitions \<open>Acquire_sub\<close> and \<open>Acquire_add\<close>; \<open>Acquire\<close> is
  their composition for a caller that runs alone, and \<open>limiter_step\<close> interleaves the halves of any
  number of threads.
\<close>

record Limiter =
  max_acquires :: u32
  acquires_allowed :: u32

definition new_Limiter :: "u32 \<Rightarrow> Limiter option" where
  "new_Limiter n = asserting (0 \<le> sint n) (Some \<lparr>max_acquires = n, acquires_allowed = n\<rparr>)"

definition Acquire_sub :: "Limiter \<Rightarrow> bool \<times> Limiter" where
  "Acquire_sub l = (let old_acquires_allowed = acquires_allowed l in
     (0 < sint old_acquires_allowed, l\<lparr>acquires_allowed := old_acquires_allowed - 1\<rparr>))"

definition Acquire_add :: "Limiter \<Rightarrow> Limiter option" where
  "Acquire_add l = (let pre_increment_acquires_allowed = acquires_allowed l in
     asserting (sint pre_increment_acquires_allowed < sint (max_acquires l))
       (Some (l\<lparr>acquires_allowed := pre_increment_acquires_allowed + 1\<rparr>)))"

definition Acquire :: "Limiter \<Rightarrow> (bool \<times> Limiter) option" where
  "Acquire l = (let (granted, l) = Acquire_sub l in
     if granted then Some (True, l)
     else do { l \<leftarrow> Acquire_add l; Some (False, l) })"

definition Release :: "Limiter \<Rightarrow> Limiter option" where
  "Release l = (let old_acquires_allowed = acquires_allowed l in
     asserting (sint old_acquires_allowed < sint (max_acquires l))
       (Some (l\<lparr>acquires_allowed := old_acquires_allowed + 1\<rparr>)))"

subsection \<open>Threads\<close>

text \<open>
  \<open>held\<close> counts the resources that were granted and not yet released, by whichever thread;
  \<open>failing\<close> are the threads between the two halves of an \<^verbatim>\<open>Acquire\<close> that found nothing left.
  \<^verbatim>\<open>Release\<close> is called for a resource that was granted.
\<close>

record limiter_run =
  lim :: Limiter
  held :: nat
  failing :: "nat set"

definition limiter_start :: "Limiter \<Rightarrow> limiter_run" where
  "limiter_start l = \<lparr>lim = l, held = 0, failing = {}\<rparr>"

inductive limiter_step :: "nat \<Rightarrow> limiter_run \<Rightarrow> limiter_run \<Rightarrow> bool" for threads where
  grant: "limiter_step threads s (s\<lparr>lim := l, held := held s + 1\<rparr>)"
    if "t < threads" and "t \<notin> failing s" and "Acquire_sub (lim s) = (True, l)"
| refuse: "limiter_step threads s (s\<lparr>lim := l, failing := insert t (failing s)\<rparr>)"
    if "t < threads" and "t \<notin> failing s" and "Acquire_sub (lim s) = (False, l)"
| give_back: "limiter_step threads s (s\<lparr>lim := l, failing := failing s - {t}\<rparr>)"
    if "t \<in> failing s" and "Acquire_add (lim s) = Some l"
| release: "limiter_step threads s (s\<lparr>lim := l, held := held s - 1\<rparr>)"
    if "0 < held s" and "Release (lim s) = Some l"

inductive_cases limiter_stepE: "limiter_step threads s s'"

subsection \<open>Signed counting\<close>

lemma sint_minus_1:
  fixes x :: u32
  assumes "- (2 ^ 31) < sint x"
  shows "sint (x - 1) = sint x - 1"
proof -
  have "sint x < 2 ^ 31"
    using sint_lt [of x] by simp
  then show ?thesis
    using assms by (simp add: sint_word_ariths signed_take_bit_int_eq_self)
qed

lemma sint_plus_1:
  fixes x :: u32
  assumes "sint x < 2 ^ 31 - 1"
  shows "sint (x + 1) = sint x + 1"
proof -
  have "- (2 ^ 31) \<le> sint x"
    using sint_ge [of x] by simp
  then show ?thesis
    using assms by (simp add: sint_word_ariths signed_take_bit_int_eq_self)
qed

lemma sint_u32_less: "sint (x :: u32) < 2 ^ 31"
  using sint_lt [of x] by simp

subsection \<open>The invariant\<close>

definition limiter_inv :: "nat \<Rightarrow> u32 \<Rightarrow> limiter_run \<Rightarrow> bool" where
  "limiter_inv threads n s \<longleftrightarrow> max_acquires (lim s) = n \<and> failing s \<subseteq> {..<threads} \<and> int (held s) \<le> sint n \<and>
     sint (acquires_allowed (lim s)) = sint n - int (held s) - int (card (failing s))"

lemma limiter_invD:
  assumes "limiter_inv threads n s"
  shows "max_acquires (lim s) = n" and "finite (failing s)" and "card (failing s) \<le> threads" and "int (held s) \<le> sint n"
    and "sint (acquires_allowed (lim s)) = sint n - int (held s) - int (card (failing s))"
    and "t < threads \<Longrightarrow> t \<notin> failing s \<Longrightarrow> card (failing s) < threads"
proof -
  have sub: "failing s \<subseteq> {..<threads}"
    using assms by (simp add: limiter_inv_def)
  show fin: "finite (failing s)"
    using sub by (rule finite_subset) simp
  show "card (failing s) \<le> threads"
    using card_mono [OF _ sub] by simp
  show "card (failing s) < threads" if "t < threads" "t \<notin> failing s"
    using card_mono [of "{..<threads}" "insert t (failing s)"] that sub fin by auto
qed (use assms in \<open>auto simp: limiter_inv_def\<close>)

lemma limiter_step_inv:
  assumes "limiter_step threads s s'" and inv: "limiter_inv threads n s" and "sint n + int threads < 2 ^ 31"
  shows "limiter_inv threads n s'"
  using assms(1)
proof cases
  case (grant t l)
  have "sint (acquires_allowed (lim s) - 1) = sint (acquires_allowed (lim s)) - 1"
    using grant(4) by (intro sint_minus_1) (simp add: Acquire_sub_def Let_def)
  then show ?thesis
    using grant inv by (auto simp: limiter_inv_def Acquire_sub_def Let_def)
next
  case (refuse t l)
  note d = limiter_invD [OF inv]
  have "sint (acquires_allowed (lim s) - 1) = sint (acquires_allowed (lim s)) - 1"
    using d(4,5) d(6) [OF refuse(2,3)] assms(3) by (intro sint_minus_1) linarith
  then show ?thesis
    using refuse inv d(2) by (auto simp: limiter_inv_def Acquire_sub_def Let_def)
next
  case (give_back t l)
  note d = limiter_invD [OF inv]
  have card: "int (card (failing s - {t})) = int (card (failing s)) - 1"
    using give_back(2) d(2) by (simp add: card_Diff_singleton of_nat_diff card_gt_0_iff Suc_leI)
      (metis One_nat_def Suc_leI card_gt_0_iff empty_iff of_nat_1 of_nat_diff)
  have "sint (acquires_allowed (lim s)) < sint n"
    using give_back(3) d(1) by (simp add: Acquire_add_def Let_def)
  then have "sint (acquires_allowed (lim s) + 1) = sint (acquires_allowed (lim s)) + 1"
    using sint_u32_less [of n] by (intro sint_plus_1) linarith
  then show ?thesis
    using give_back inv card by (auto simp: limiter_inv_def Acquire_add_def Let_def)
next
  case (release l)
  have "sint (acquires_allowed (lim s)) < sint n"
    using release(3) limiter_invD(1) [OF inv] by (simp add: Release_def Let_def)
  then have "sint (acquires_allowed (lim s) + 1) = sint (acquires_allowed (lim s)) + 1"
    using sint_u32_less [of n] by (intro sint_plus_1) linarith
  then show ?thesis
    using release inv by (auto simp: limiter_inv_def Release_def Let_def)
qed

lemma limiter_reachable_inv:
  assumes "(limiter_step threads)\<^sup>*\<^sup>* (limiter_start l) s" and "new_Limiter n = Some l" and "sint n + int threads < 2 ^ 31"
  shows "limiter_inv threads n s"
  using assms(1)
proof (induction rule: rtranclp_induct)
  case base
  then show ?case
    using assms(2) by (auto simp: limiter_inv_def limiter_start_def new_Limiter_def)
next
  case (step s s')
  then show ?case
    using limiter_step_inv assms(3) by blast
qed

lemma Acquire_add_ok:
  assumes "limiter_inv threads n s" and "t \<in> failing s"
  shows "\<exists>l. Acquire_add (lim s) = Some l"
proof -
  have "0 < card (failing s)"
    using assms limiter_invD(2) [OF assms(1)] by (auto simp: card_gt_0_iff)
  then show ?thesis
    using limiter_invD(1,5) [OF assms(1)] by (simp add: Acquire_add_def Let_def)
qed

lemma Release_ok: "limiter_inv threads n s \<Longrightarrow> 0 < held s \<Longrightarrow> \<exists>l. Release (lim s) = Some l"
  by (simp add: limiter_inv_def Release_def Let_def)

lemma Acquire_alone:
  assumes "limiter_inv threads n s" and "failing s = {}" and "sint n < 2 ^ 31 - 1"
  shows "\<exists>l. Acquire (lim s) = Some (int (held s) < sint n, l)"
proof (cases "int (held s) < sint n")
  case True
  then show ?thesis
    using assms by (simp add: limiter_inv_def Acquire_def Acquire_sub_def Let_def)
next
  case False
  then have "sint (acquires_allowed (lim s)) = 0" "0 \<le> sint n"
    using assms by (auto simp: limiter_inv_def)
  moreover from this have "sint (acquires_allowed (lim s) - 1) = -1"
    by (subst sint_minus_1) simp_all
  ultimately show ?thesis
    using False assms limiter_invD(1) [OF assms(1)] by (simp add: Acquire_def Acquire_sub_def Acquire_add_def Let_def)
qed

subsection \<open>One thread\<close>

text \<open>A limiter of which \<open>k\<close> resources are out, for a client whose calls do not overlap.\<close>

definition lim_used :: "u32 \<Rightarrow> nat \<Rightarrow> Limiter \<Rightarrow> bool" where
  "lim_used n k l \<longleftrightarrow> limiter_inv 1 n \<lparr>lim = l, held = k, failing = {}\<rparr>"

lemma lim_used_iff: "lim_used n k l \<longleftrightarrow> max_acquires l = n \<and> int k \<le> sint n \<and> sint (acquires_allowed l) = sint n - int k"
  by (auto simp: lim_used_def limiter_inv_def)

lemma new_Limiter_used: "new_Limiter n = Some l \<Longrightarrow> lim_used n 0 l"
  by (auto simp: lim_used_iff new_Limiter_def)

lemma Acquire_used:
  assumes "lim_used n k l"
  obtains l' where "Acquire l = Some (int k < sint n, l')" and "lim_used n (if int k < sint n then k + 1 else k) l'"
proof (cases "int k < sint n")
  case True
  then have "sint (acquires_allowed l - 1) = sint (acquires_allowed l) - 1"
    using assms by (intro sint_minus_1) (simp add: lim_used_iff)
  then show ?thesis
    using that [of "l\<lparr>acquires_allowed := acquires_allowed l - 1\<rparr>"] True assms
    by (simp add: lim_used_iff Acquire_def Acquire_sub_def Let_def)
next
  case False
  then have 0: "sint (acquires_allowed l) = 0" "0 \<le> sint n"
    using assms by (auto simp: lim_used_iff)
  then have "sint (acquires_allowed l - 1) < sint (max_acquires l)"
    using assms by (subst sint_minus_1) (simp_all add: lim_used_iff)
  then have "Acquire_add (l\<lparr>acquires_allowed := acquires_allowed l - 1\<rparr>) = Some l"
    by (simp add: Acquire_add_def Let_def)
  moreover have "Acquire_sub l = (False, l\<lparr>acquires_allowed := acquires_allowed l - 1\<rparr>)"
    unfolding Acquire_sub_def Let_def 0(1) by simp
  ultimately show ?thesis
    using that [of l] False assms by (simp add: Acquire_def)
qed

lemma Release_used:
  assumes "lim_used n k l" and "0 < k"
  obtains l' where "Release l = Some l'" and "lim_used n (k - 1) l'"
proof -
  have less: "sint (acquires_allowed l) < sint n"
    using assms by (simp add: lim_used_iff)
  then have "sint (acquires_allowed l + 1) = sint (acquires_allowed l) + 1"
    using sint_u32_less [of n] by (intro sint_plus_1) linarith
  then show ?thesis
    using that [of "l\<lparr>acquires_allowed := acquires_allowed l + 1\<rparr>"] less assms
    by (simp add: lim_used_iff Release_def Let_def of_nat_diff)
qed

subsection \<open>Properties\<close>

text \<open>C21: however the calls of any number of threads interleave, never more resources are out than
  the limit, no assertion of \<^verbatim>\<open>Acquire\<close> or \<^verbatim>\<open>Release\<close> fails, and whenever no refused call is under way
  nothing has been lost: the next \<^verbatim>\<open>Acquire\<close> succeeds exactly if fewer than the limit are out.\<close>

theorem Limiter_bounds_holders:
  assumes "new_Limiter n = Some l" and "sint n + int threads < 2 ^ 31" and "0 < threads"
    and "(limiter_step threads)\<^sup>*\<^sup>* (limiter_start l) s"
  shows "int (held s) \<le> sint n \<and>
    (\<forall>t \<in> failing s. \<exists>l'. Acquire_add (lim s) = Some l') \<and>
    (0 < held s \<longrightarrow> (\<exists>l'. Release (lim s) = Some l')) \<and>
    (failing s = {} \<longrightarrow> (\<exists>l'. Acquire (lim s) = Some (int (held s) < sint n, l')))"
proof -
  have inv: "limiter_inv threads n s"
    using limiter_reachable_inv [OF assms(4,1,2)] .
  then show ?thesis
    using Acquire_add_ok [OF inv] Release_ok [OF inv] Acquire_alone [OF inv] limiter_invD(4) [OF inv] assms(2,3)
    by auto
qed

text \<open>One resource and two threads: the first gets it, the second is refused and is about to add its
  one back.\<close>

lemma limiter_run_example:
  "(limiter_step 2)\<^sup>*\<^sup>* (limiter_start \<lparr>max_acquires = 1, acquires_allowed = 1\<rparr>)
     \<lparr>lim = \<lparr>max_acquires = 1, acquires_allowed = - 1\<rparr>, held = 1, failing = {1}\<rparr>"
proof -
  let ?a = "limiter_start \<lparr>max_acquires = 1, acquires_allowed = 1\<rparr>"
  let ?c = "\<lparr>lim = \<lparr>max_acquires = 1, acquires_allowed = - 1\<rparr>, held = 1, failing = {1}\<rparr> :: limiter_run"
  let ?b = "\<lparr>lim = \<lparr>max_acquires = 1, acquires_allowed = 0\<rparr>, held = 1, failing = {}\<rparr> :: limiter_run"
  have "limiter_step 2 ?a ?b"
    using limiter_step.grant [of 0 2 ?a "\<lparr>max_acquires = 1, acquires_allowed = 0\<rparr>"]
    by (simp add: limiter_start_def Acquire_sub_def Let_def)
  moreover have "limiter_step 2 ?b ?c"
    using limiter_step.refuse [of 1 2 ?b "\<lparr>max_acquires = 1, acquires_allowed = - 1\<rparr>"]
    by (simp add: Acquire_sub_def Let_def)
  ultimately show ?thesis
    by (rule converse_rtranclp_into_rtranclp [OF _ r_into_rtranclp])
qed

theorem Limiter_bounds_holders_witness:
  "\<exists>l'. Acquire_add \<lparr>max_acquires = 1, acquires_allowed = - 1\<rparr> = Some l'"
  using Limiter_bounds_holders [OF _ _ _ limiter_run_example, of 1] by (simp add: new_Limiter_def)

end
