(* ===== verification/PosixFile.thy ===== *)
theory PosixFile
  imports Status Limiter
begin

text \<open>
  The open files of the POSIX environment (\<^verbatim>\<open>util/env_posix.cpp\<close>). The operating system is a
  parameter: a record of the calls the code makes over an unknown state \<open>'o\<close>, each with its C result
  and the state after it; \<^verbatim>\<open>errno\<close> is part of that state. Nothing is assumed of these calls here; what
  a theorem relies on is a named predicate on the record (\<open>writes_to\<close>, \<open>reads_from\<close>, \<open>tracks\<close>).

  A descriptor is an \<^typ>\<open>int\<close>, a buffer is passed as its bytes and returned as the bytes it holds after the
  call, and the address of a mapping stands for the bytes that are mapped there. The calls of the
  environment itself (\<open>PosixEnv\<close>) are in the same record: a failing \<^verbatim>\<open>mmap\<close>, a null \<^verbatim>\<open>DIR*\<close> or
  \<^verbatim>\<open>FILE*\<close> and the end of a directory are \<^term>\<open>None\<close>, and the whole-file write lock of
  \<^verbatim>\<open>fcntl(F_SETLK)\<close> is set or cleared by \<open>sys_setlk\<close>.
\<close>

datatype open_flag = O_RDONLY | O_WRONLY | O_RDWR | O_CREAT | O_TRUNC | O_APPEND | O_CLOEXEC

record 'o posix =
  errno :: "'o \<Rightarrow> int"
  set_errno :: "int \<Rightarrow> 'o \<Rightarrow> 'o"
  strerror :: "int \<Rightarrow> bytes"
  kOpenBaseFlags :: "open_flag set"
  have_fullfsync :: bool
  have_fdatasync :: bool
  sys_open :: "bytes \<Rightarrow> open_flag set \<Rightarrow> 'o \<Rightarrow> int \<times> 'o"
  sys_close :: "int \<Rightarrow> 'o \<Rightarrow> int \<times> 'o"
  sys_read :: "int \<Rightarrow> bytes \<Rightarrow> u64 \<Rightarrow> 'o \<Rightarrow> int \<times> bytes \<times> 'o"
  sys_pread :: "int \<Rightarrow> bytes \<Rightarrow> u64 \<Rightarrow> int \<Rightarrow> 'o \<Rightarrow> int \<times> bytes \<times> 'o"
  sys_lseek_cur :: "int \<Rightarrow> int \<Rightarrow> 'o \<Rightarrow> int \<times> 'o"
  sys_write :: "int \<Rightarrow> bytes \<Rightarrow> 'o \<Rightarrow> int \<times> 'o"
  sys_fullfsync :: "int \<Rightarrow> 'o \<Rightarrow> int \<times> 'o"
  sys_fdatasync :: "int \<Rightarrow> 'o \<Rightarrow> int \<times> 'o"
  sys_fsync :: "int \<Rightarrow> 'o \<Rightarrow> int \<times> 'o"
  sys_mmap :: "u64 \<Rightarrow> int \<Rightarrow> 'o \<Rightarrow> bytes option \<times> 'o"
  sys_munmap :: "bytes \<Rightarrow> u64 \<Rightarrow> 'o \<Rightarrow> int \<times> 'o"
  sys_setlk :: "int \<Rightarrow> bool \<Rightarrow> 'o \<Rightarrow> int \<times> 'o"
  sys_access :: "bytes \<Rightarrow> 'o \<Rightarrow> int \<times> 'o"
  sys_opendir :: "bytes \<Rightarrow> 'o \<Rightarrow> nat option \<times> 'o"
  sys_readdir :: "nat \<Rightarrow> 'o \<Rightarrow> bytes option \<times> 'o"
  sys_closedir :: "nat \<Rightarrow> 'o \<Rightarrow> int \<times> 'o"
  sys_unlink :: "bytes \<Rightarrow> 'o \<Rightarrow> int \<times> 'o"
  sys_mkdir :: "bytes \<Rightarrow> 'o \<Rightarrow> int \<times> 'o"
  sys_rmdir :: "bytes \<Rightarrow> 'o \<Rightarrow> int \<times> 'o"
  sys_stat :: "bytes \<Rightarrow> 'o \<Rightarrow> int \<times> int \<times> 'o"
  sys_rename :: "bytes \<Rightarrow> bytes \<Rightarrow> 'o \<Rightarrow> int \<times> 'o"
  sys_fdopen :: "int \<Rightarrow> 'o \<Rightarrow> nat option \<times> 'o"
  sys_getenv :: "bytes \<Rightarrow> 'o \<Rightarrow> bytes option"
  sys_geteuid :: "'o \<Rightarrow> u32"
  sys_gettimeofday :: "'o \<Rightarrow> (int \<times> int) \<times> 'o"
  sys_getrlimit_nofile :: "'o \<Rightarrow> int \<times> u64 \<times> 'o"

definition ENOENT :: int where "ENOENT = 2"
definition EINTR :: int where "EINTR = 4"
definition EINVAL :: int where "EINVAL = 22"

definition kWritableFileBufferSize :: u64 where
  "kWritableFileBufferSize = 65536"

definition PosixError :: "'o posix \<Rightarrow> (nat \<Rightarrow> u8) \<Rightarrow> bytes \<Rightarrow> int \<Rightarrow> status option" where
  "PosixError P junk context error_number =
     (if error_number = ENOENT then Status_NotFound junk context (strerror P error_number)
      else Status_IOError junk context (strerror P error_number))"

subsection \<open>Sequential reading\<close>

record PosixSequentialFile =
  sf_fd :: int
  sf_filename :: bytes

text \<open>The loop of \<^verbatim>\<open>Read\<close>: the status, \<^verbatim>\<open>*result\<close>, the scratch memory and the state.\<close>

partial_function (option) Sequential_Read_loop ::
    "'o posix \<Rightarrow> (nat \<Rightarrow> u8) \<Rightarrow> PosixSequentialFile \<Rightarrow> u64 \<Rightarrow> bytes \<Rightarrow> bytes \<Rightarrow> 'o \<Rightarrow> (status \<times> bytes \<times> bytes \<times> 'o) option" where
  [code]: "Sequential_Read_loop P junk f n result scratch os = (
     let (read_size, scratch, os) = sys_read P (sf_fd f) scratch n os in
     if read_size < 0 then
       if errno P os = EINTR then Sequential_Read_loop P junk f n result scratch os
       else do {
         status \<leftarrow> PosixError P junk (sf_filename f) (errno P os);
         Some (status, result, scratch, os)
       }
     else do {
       result \<leftarrow> mem_read scratch 0 (nat read_size);
       Some (Status_OK, result, scratch, os)
     })"

definition PosixSequentialFile_Read ::
    "'o posix \<Rightarrow> (nat \<Rightarrow> u8) \<Rightarrow> PosixSequentialFile \<Rightarrow> u64 \<Rightarrow> bytes \<Rightarrow> bytes \<Rightarrow> 'o \<Rightarrow> (status \<times> bytes \<times> bytes \<times> 'o) option" where
  "PosixSequentialFile_Read P junk f n result scratch os = Sequential_Read_loop P junk f n result scratch os"

text \<open>The distance is converted to the signed \<^verbatim>\<open>off_t\<close>.\<close>

definition PosixSequentialFile_Skip ::
    "'o posix \<Rightarrow> (nat \<Rightarrow> u8) \<Rightarrow> PosixSequentialFile \<Rightarrow> u64 \<Rightarrow> 'o \<Rightarrow> (status \<times> 'o) option" where
  "PosixSequentialFile_Skip P junk f n os = (
     let (pos, os) = sys_lseek_cur P (sf_fd f) (sint n) os in
     if pos = -1 then do {
       status \<leftarrow> PosixError P junk (sf_filename f) (errno P os);
       Some (status, os)
     }
     else Some (Status_OK, os))"

definition PosixSequentialFile_destructor :: "'o posix \<Rightarrow> PosixSequentialFile \<Rightarrow> 'o \<Rightarrow> 'o" where
  "PosixSequentialFile_destructor P f os = snd (sys_close P (sf_fd f) os)"

subsection \<open>Random access\<close>

record PosixRandomAccessFile =
  has_permanent_fd :: bool
  rf_fd :: int
  rf_filename :: bytes

text \<open>The limiter the file points to is passed along and returned.\<close>

definition new_PosixRandomAccessFile ::
    "'o posix \<Rightarrow> bytes \<Rightarrow> int \<Rightarrow> Limiter \<Rightarrow> 'o \<Rightarrow> (PosixRandomAccessFile \<times> Limiter \<times> 'o) option" where
  "new_PosixRandomAccessFile P filename fd fd_limiter os = do {
     (permanent, fd_limiter) \<leftarrow> Acquire fd_limiter;
     let f = \<lparr>has_permanent_fd = permanent, rf_fd = (if permanent then fd else -1), rf_filename = filename\<rparr>;
     if \<not> permanent then asserting (rf_fd f = -1) (Some (f, fd_limiter, snd (sys_close P fd os)))
     else Some (f, fd_limiter, os)
   }"

definition PosixRandomAccessFile_destructor ::
    "'o posix \<Rightarrow> PosixRandomAccessFile \<Rightarrow> Limiter \<Rightarrow> 'o \<Rightarrow> (Limiter \<times> 'o) option" where
  "PosixRandomAccessFile_destructor P f fd_limiter os =
     (if has_permanent_fd f then asserting (rf_fd f \<noteq> -1) (do {
        let os = snd (sys_close P (rf_fd f) os);
        fd_limiter \<leftarrow> Release fd_limiter;
        Some (fd_limiter, os)
      })
      else Some (fd_limiter, os))"

definition PosixRandomAccessFile_Read ::
    "'o posix \<Rightarrow> (nat \<Rightarrow> u8) \<Rightarrow> PosixRandomAccessFile \<Rightarrow> u64 \<Rightarrow> u64 \<Rightarrow> bytes \<Rightarrow> bytes \<Rightarrow> 'o \<Rightarrow> (status \<times> bytes \<times> bytes \<times> 'o) option" where
  "PosixRandomAccessFile_Read P junk f offset n result scratch os = (
     let (fd, os) = (if \<not> has_permanent_fd f then sys_open P (rf_filename f) (insert O_RDONLY (kOpenBaseFlags P)) os
       else (rf_fd f, os)) in
     if \<not> has_permanent_fd f \<and> fd < 0 then do {
       status \<leftarrow> PosixError P junk (rf_filename f) (errno P os);
       Some (status, result, scratch, os)
     }
     else asserting (fd \<noteq> -1) (do {
       let (read_size, scratch, os) = sys_pread P fd scratch n (sint offset) os;
       result \<leftarrow> mem_read scratch 0 (if read_size < 0 then 0 else nat read_size);
       status \<leftarrow> (if read_size < 0 then PosixError P junk (rf_filename f) (errno P os) else Some Status_OK);
       if \<not> has_permanent_fd f then
         asserting (fd \<noteq> rf_fd f) (Some (status, result, scratch, snd (sys_close P fd os)))
       else Some (status, result, scratch, os)
     }))"

record PosixMmapReadableFile =
  mmap_base :: bytes
  mf_length :: u64
  mf_filename :: bytes

definition PosixMmapReadableFile_Read ::
    "'o posix \<Rightarrow> (nat \<Rightarrow> u8) \<Rightarrow> PosixMmapReadableFile \<Rightarrow> u64 \<Rightarrow> u64 \<Rightarrow> (status \<times> bytes) option" where
  "PosixMmapReadableFile_Read P junk f offset n =
     (if mf_length f < offset + n then do {
        status \<leftarrow> PosixError P junk (mf_filename f) EINVAL;
        Some (status, [])
      }
      else do {
        result \<leftarrow> mem_read (mmap_base f) (unat offset) (unat n);
        Some (Status_OK, result)
      })"

definition PosixMmapReadableFile_destructor ::
    "'o posix \<Rightarrow> PosixMmapReadableFile \<Rightarrow> Limiter \<Rightarrow> 'o \<Rightarrow> (Limiter \<times> 'o) option" where
  "PosixMmapReadableFile_destructor P f mmap_limiter os = do {
     let os = snd (sys_munmap P (mmap_base f) (mf_length f) os);
     mmap_limiter \<leftarrow> Release mmap_limiter;
     Some (mmap_limiter, os)
   }"

subsection \<open>Buffered writing\<close>

text \<open>\<^verbatim>\<open>std::string::rfind\<close> for one character.\<close>

fun rfind :: "u8 \<Rightarrow> bytes \<Rightarrow> nat option" where
  "rfind c [] = None"
| "rfind c (b # bs) = (case rfind c bs of Some i \<Rightarrow> Some (Suc i) | None \<Rightarrow> if b = c then Some 0 else None)"

abbreviation slash :: u8 where
  "slash \<equiv> 0x2f"

definition Dirname :: "bytes \<Rightarrow> bytes option" where
  "Dirname filename = (case rfind slash filename of
     None \<Rightarrow> Some (ascii ''.'')
   | Some separator_pos \<Rightarrow> asserting (slash \<notin> set (drop (separator_pos + 1) filename)) (Some (take separator_pos filename)))"

definition Basename :: "bytes \<Rightarrow> bytes option" where
  "Basename filename = (case rfind slash filename of
     None \<Rightarrow> Some filename
   | Some separator_pos \<Rightarrow> asserting (slash \<notin> set (drop (separator_pos + 1) filename)) (Some (drop (separator_pos + 1) filename)))"

definition IsManifest :: "bytes \<Rightarrow> bool option" where
  "IsManifest filename = do {
     base \<leftarrow> Basename filename;
     Some (Slice_starts_with base (ascii ''MANIFEST''))
   }"

record PosixWritableFile =
  wf_buf :: bytes
  wf_pos :: u64
  wf_fd :: int
  wf_is_manifest :: bool
  wf_filename :: bytes
  wf_dirname :: bytes

definition new_PosixWritableFile :: "(nat \<Rightarrow> u8) \<Rightarrow> bytes \<Rightarrow> int \<Rightarrow> PosixWritableFile option" where
  "new_PosixWritableFile junk filename fd = do {
     manifest \<leftarrow> IsManifest filename;
     dir \<leftarrow> Dirname filename;
     Some \<lparr>wf_buf = mem_new junk (unat kWritableFileBufferSize), wf_pos = 0, wf_fd = fd, wf_is_manifest = manifest,
       wf_filename = filename, wf_dirname = dir\<rparr>
   }"

text \<open>The loop of \<^verbatim>\<open>WriteUnbuffered\<close> over the bytes that are left; a loop that does not end, and a result
  above the number of bytes offered, is \<^term>\<open>None\<close>.\<close>

partial_function (option) WriteUnbuffered ::
    "'o posix \<Rightarrow> (nat \<Rightarrow> u8) \<Rightarrow> PosixWritableFile \<Rightarrow> bytes \<Rightarrow> 'o \<Rightarrow> (status \<times> 'o) option" where
  [code]: "WriteUnbuffered P junk f data os =
     (if data = [] then Some (Status_OK, os)
      else let (write_result, os) = sys_write P (wf_fd f) data os in
        if write_result < 0 then
          if errno P os = EINTR then WriteUnbuffered P junk f data os
          else do {
            status \<leftarrow> PosixError P junk (wf_filename f) (errno P os);
            Some (status, os)
          }
        else asserting (nat write_result \<le> length data)
          (WriteUnbuffered P junk f (drop (nat write_result) data) os))"

definition FlushBuffer ::
    "'o posix \<Rightarrow> (nat \<Rightarrow> u8) \<Rightarrow> PosixWritableFile \<Rightarrow> 'o \<Rightarrow> (status \<times> PosixWritableFile \<times> 'o) option" where
  "FlushBuffer P junk f os = do {
     data \<leftarrow> mem_read (wf_buf f) 0 (unat (wf_pos f));
     (status, os) \<leftarrow> WriteUnbuffered P junk f data os;
     Some (status, f\<lparr>wf_pos := 0\<rparr>, os)
   }"

definition PosixWritableFile_Append ::
    "'o posix \<Rightarrow> (nat \<Rightarrow> u8) \<Rightarrow> PosixWritableFile \<Rightarrow> bytes \<Rightarrow> 'o \<Rightarrow> (status \<times> PosixWritableFile \<times> 'o) option" where
  "PosixWritableFile_Append P junk f data os = do {
     let write_size = (word_of_nat (length data) :: u64);
     let copy_size = min write_size (kWritableFileBufferSize - wf_pos f);
     src \<leftarrow> mem_read data 0 (unat copy_size);
     buf \<leftarrow> mem_write (wf_buf f) (unat (wf_pos f)) src;
     let write_data = drop (unat copy_size) data;
     let write_size = write_size - copy_size;
     let f = f\<lparr>wf_buf := buf, wf_pos := wf_pos f + copy_size\<rparr>;
     if write_size = 0 then Some (Status_OK, f, os)
     else do {
       (status, f, os) \<leftarrow> FlushBuffer P junk f os;
       if \<not> Status_ok status then Some (status, f, os)
       else if write_size < kWritableFileBufferSize then do {
         buf \<leftarrow> mem_write (wf_buf f) 0 write_data;
         Some (Status_OK, f\<lparr>wf_buf := buf, wf_pos := write_size\<rparr>, os)
       }
       else do {
         (status, os) \<leftarrow> WriteUnbuffered P junk f write_data os;
         Some (status, f, os)
       }
     }
   }"

definition PosixWritableFile_Close ::
    "'o posix \<Rightarrow> (nat \<Rightarrow> u8) \<Rightarrow> PosixWritableFile \<Rightarrow> 'o \<Rightarrow> (status \<times> PosixWritableFile \<times> 'o) option" where
  "PosixWritableFile_Close P junk f os = do {
     (status, f, os) \<leftarrow> FlushBuffer P junk f os;
     let (close_result, os) = sys_close P (wf_fd f) os;
     status \<leftarrow> (if close_result < 0 \<and> Status_ok status then PosixError P junk (wf_filename f) (errno P os)
       else Some status);
     Some (status, f\<lparr>wf_fd := -1\<rparr>, os)
   }"

definition PosixWritableFile_Flush ::
    "'o posix \<Rightarrow> (nat \<Rightarrow> u8) \<Rightarrow> PosixWritableFile \<Rightarrow> 'o \<Rightarrow> (status \<times> PosixWritableFile \<times> 'o) option" where
  "PosixWritableFile_Flush P junk f os = FlushBuffer P junk f os"

definition SyncFd :: "'o posix \<Rightarrow> (nat \<Rightarrow> u8) \<Rightarrow> int \<Rightarrow> bytes \<Rightarrow> 'o \<Rightarrow> (status \<times> 'o) option" where
  "SyncFd P junk fd fd_path os = (
     let (full, os) = (if have_fullfsync P then sys_fullfsync P fd os else (-1, os)) in
     if have_fullfsync P \<and> full = 0 then Some (Status_OK, os)
     else let (result, os) = (if have_fdatasync P then sys_fdatasync P fd os else sys_fsync P fd os) in
       if result = 0 then Some (Status_OK, os)
       else do {
         status \<leftarrow> PosixError P junk fd_path (errno P os);
         Some (status, os)
       })"

definition SyncDirIfManifest ::
    "'o posix \<Rightarrow> (nat \<Rightarrow> u8) \<Rightarrow> PosixWritableFile \<Rightarrow> 'o \<Rightarrow> (status \<times> 'o) option" where
  "SyncDirIfManifest P junk f os =
     (if \<not> wf_is_manifest f then Some (Status_OK, os)
      else let (fd, os) = sys_open P (wf_dirname f) (insert O_RDONLY (kOpenBaseFlags P)) os in
        if fd < 0 then do {
          status \<leftarrow> PosixError P junk (wf_dirname f) (errno P os);
          Some (status, os)
        }
        else do {
          (status, os) \<leftarrow> SyncFd P junk fd (wf_dirname f) os;
          Some (status, snd (sys_close P fd os))
        })"

definition PosixWritableFile_Sync ::
    "'o posix \<Rightarrow> (nat \<Rightarrow> u8) \<Rightarrow> PosixWritableFile \<Rightarrow> 'o \<Rightarrow> (status \<times> PosixWritableFile \<times> 'o) option" where
  "PosixWritableFile_Sync P junk f os = do {
     (status, os) \<leftarrow> SyncDirIfManifest P junk f os;
     if \<not> Status_ok status then Some (status, f, os)
     else do {
       (status, f, os) \<leftarrow> FlushBuffer P junk f os;
       if \<not> Status_ok status then Some (status, f, os)
       else do {
         (status, os) \<leftarrow> SyncFd P junk (wf_fd f) (wf_filename f) os;
         Some (status, f, os)
       }
     }
   }"

definition PosixWritableFile_destructor ::
    "'o posix \<Rightarrow> (nat \<Rightarrow> u8) \<Rightarrow> PosixWritableFile \<Rightarrow> 'o \<Rightarrow> 'o option" where
  "PosixWritableFile_destructor P junk f os =
     (if 0 \<le> wf_fd f then map_option (\<lambda>(status, f, os). os) (PosixWritableFile_Close P junk f os) else Some os)"

end
