(* ===== verification/PosixWrites.thy ===== *)
theory PosixWrites
  imports PosixFile "HOL-Library.Sublist"
begin

text \<open>
  What the files of the POSIX environment do, under what the calls they make document. \<open>writes_to\<close> is
  the documented behaviour of \<^verbatim>\<open>write\<close>, \<^verbatim>\<open>fsync\<close> and \<^verbatim>\<open>close\<close> for one descriptor: \<^verbatim>\<open>write\<close> appends a
  part of the bytes it is offered and returns its length, a failing call writes nothing, and a
  successful \<^verbatim>\<open>fsync\<close> makes the content durable. Calls that are interrupted or write nothing do not
  repeat forever (\<open>stall\<close> bounds them).
\<close>

subsection \<open>Error texts\<close>

definition error_texts :: "'o posix \<Rightarrow> bytes \<Rightarrow> bool" where
  "error_texts P path \<longleftrightarrow> (\<forall>e. length path + length (strerror P e) + 7 < 2 ^ 32)"

lemma PosixError_eq:
  assumes "error_texts P path"
  shows "PosixError P junk path e =
    Some (Some (status_block (if e = ENOENT then kNotFound else kIOError) (status_message path (strerror P e))))"
  using assms unfolding PosixError_def Status_NotFound_def Status_IOError_def error_texts_def
  by (auto simp: new_Status_eq)

lemma PosixErrorE:
  assumes "error_texts P path"
  obtains s where "PosixError P junk path e = Some s" and "\<not> Status_ok s"
  using PosixError_eq [OF assms] by (auto simp: Status_ok_def)

subsection \<open>Path names\<close>

lemma rfind_None: "rfind c bs = None \<longleftrightarrow> c \<notin> set bs"
  by (induction bs) (auto split: option.splits)

lemma rfind_Some: "rfind c bs = Some i \<Longrightarrow> i < length bs \<and> bs ! i = c \<and> c \<notin> set (drop (Suc i) bs)"
  by (induction bs arbitrary: i) (auto simp: rfind_None split: option.splits if_splits)

lemma Dirname_Basename:
  obtains "slash \<notin> set filename" and "Dirname filename = Some (ascii ''.'')" and "Basename filename = Some filename"
  | d b where "filename = d @ [slash] @ b" and "slash \<notin> set b" and "Dirname filename = Some d" and "Basename filename = Some b"
proof (cases "rfind slash filename")
  case None
  then show ?thesis
    using that(1) rfind_None [of slash filename] by (simp add: Dirname_def Basename_def)
next
  case (Some i)
  note i = rfind_Some [OF Some]
  have "filename = take i filename @ [slash] @ drop (Suc i) filename"
    using i id_take_nth_drop [of i filename] by simp
  then show ?thesis
    using that(2) [of "take i filename" "drop (Suc i) filename"] i Some by (simp add: Dirname_def Basename_def)
qed

lemma new_PosixWritableFileE:
  obtains f where "new_PosixWritableFile junk filename fd = Some f" and "wf_fd f = fd" and "wf_filename f = filename"
    and "wf_pos f = 0" and "length (wf_buf f) = 65536" and "length (wf_dirname f) \<le> Suc (length filename)"
  by (cases rule: Dirname_Basename [of filename])
    (auto simp: new_PosixWritableFile_def IsManifest_def kWritableFileBufferSize_def)

subsection \<open>The calls a writable file makes\<close>

definition write_appends :: "'o posix \<Rightarrow> int \<Rightarrow> ('o \<Rightarrow> bool) \<Rightarrow> ('o \<Rightarrow> bytes) \<Rightarrow> ('o \<Rightarrow> nat) \<Rightarrow> bool" where
  "write_appends P fd opened content stall \<longleftrightarrow>
     (\<forall>data os r os'. opened os \<longrightarrow> data \<noteq> [] \<longrightarrow> sys_write P fd data os = (r, os') \<longrightarrow> opened os' \<and>
        (if r < 0 then content os' = content os \<and> (errno P os' = EINTR \<longrightarrow> stall os' < stall os)
         else nat r \<le> length data \<and> content os' = content os @ take (nat r) data \<and> (r = 0 \<longrightarrow> stall os' < stall os)))"

definition open_keeps :: "'o posix \<Rightarrow> int \<Rightarrow> ('o \<Rightarrow> bool) \<Rightarrow> ('o \<Rightarrow> bytes) \<Rightarrow> bool" where
  "open_keeps P fd opened content \<longleftrightarrow>
     (\<forall>path os r os'. opened os \<longrightarrow> sys_open P path (insert O_RDONLY (kOpenBaseFlags P)) os = (r, os') \<longrightarrow>
        r \<noteq> fd \<and> opened os' \<and> content os' = content os)"

definition close_keeps :: "'o posix \<Rightarrow> int \<Rightarrow> ('o \<Rightarrow> bool) \<Rightarrow> ('o \<Rightarrow> bytes) \<Rightarrow> bool" where
  "close_keeps P fd opened content \<longleftrightarrow>
     (\<forall>fd' os r os'. opened os \<longrightarrow> sys_close P fd' os = (r, os') \<longrightarrow> (fd' \<noteq> fd \<longrightarrow> opened os') \<and> content os' = content os)"

definition sync_makes_durable ::
    "(int \<Rightarrow> 'o \<Rightarrow> int \<times> 'o) \<Rightarrow> int \<Rightarrow> ('o \<Rightarrow> bool) \<Rightarrow> ('o \<Rightarrow> bytes) \<Rightarrow> ('o \<Rightarrow> bytes) \<Rightarrow> bool" where
  "sync_makes_durable sync fd opened content durable \<longleftrightarrow>
     (\<forall>fd' os r os'. opened os \<longrightarrow> sync fd' os = (r, os') \<longrightarrow>
        opened os' \<and> content os' = content os \<and> (r = 0 \<and> fd' = fd \<longrightarrow> durable os' = content os))"

definition writes_to ::
    "'o posix \<Rightarrow> int \<Rightarrow> ('o \<Rightarrow> bool) \<Rightarrow> ('o \<Rightarrow> bytes) \<Rightarrow> ('o \<Rightarrow> bytes) \<Rightarrow> ('o \<Rightarrow> nat) \<Rightarrow> bool" where
  "writes_to P fd opened content durable stall \<longleftrightarrow>
     write_appends P fd opened content stall \<and> open_keeps P fd opened content \<and> close_keeps P fd opened content \<and>
     sync_makes_durable (sys_fullfsync P) fd opened content durable \<and>
     sync_makes_durable (sys_fdatasync P) fd opened content durable \<and>
     sync_makes_durable (sys_fsync P) fd opened content durable"

lemma write_appendsD:
  assumes "write_appends P fd opened content stall" and "opened os" and "data \<noteq> []" and "sys_write P fd data os = (r, os')"
  shows "opened os'"
    and "r < 0 \<Longrightarrow> content os' = content os" and "r < 0 \<Longrightarrow> errno P os' = EINTR \<Longrightarrow> stall os' < stall os"
    and "0 \<le> r \<Longrightarrow> nat r \<le> length data" and "0 \<le> r \<Longrightarrow> content os' = content os @ take (nat r) data"
    and "r = 0 \<Longrightarrow> stall os' < stall os"
proof -
  have *: "opened os' \<and> (if r < 0 then content os' = content os \<and> (errno P os' = EINTR \<longrightarrow> stall os' < stall os)
      else nat r \<le> length data \<and> content os' = content os @ take (nat r) data \<and> (r = 0 \<longrightarrow> stall os' < stall os))"
    using assms unfolding write_appends_def by blast
  then show "opened os'"
    and "r < 0 \<Longrightarrow> content os' = content os" and "r < 0 \<Longrightarrow> errno P os' = EINTR \<Longrightarrow> stall os' < stall os"
    and "0 \<le> r \<Longrightarrow> nat r \<le> length data" and "0 \<le> r \<Longrightarrow> content os' = content os @ take (nat r) data"
    and "r = 0 \<Longrightarrow> stall os' < stall os"
    by (simp_all split: if_splits)
qed

lemma WriteUnbuffered_spec:
  assumes w: "write_appends P (wf_fd f) opened content stall" and t: "error_texts P (wf_filename f)" and "opened os"
  obtains s os' n where "WriteUnbuffered P junk f data os = Some (s, os')" and "opened os'"
    and "content os' = content os @ take n data" and "Status_ok s \<Longrightarrow> n = length data"
proof -
  have "\<exists>s os' n. WriteUnbuffered P junk f data os = Some (s, os') \<and> opened os' \<and>
      content os' = content os @ take n data \<and> (Status_ok s \<longrightarrow> n = length data)"
    using assms(3)
  proof (induction "(length data, stall os)" arbitrary: data os
      rule: wf_induct_rule [OF wf_lex_prod [OF wf_less_than wf_less_than]])
    case (1 data os)
    show ?case
    proof (cases "data = []")
      case True
      then show ?thesis
        using 1(2) by (subst WriteUnbuffered.simps) auto
    next
      case False
      obtain r os1 where r: "sys_write P (wf_fd f) data os = (r, os1)"
        by force
      note d = write_appendsD [OF w 1(2) False r]
      note open1 = d(1)
      show ?thesis
      proof (cases "r < 0")
        case neg: True
        note dn = d(2,3) [OF neg]
        show ?thesis
        proof (cases "errno P os1 = EINTR")
          case True
          then have "((length data, stall os1), (length data, stall os)) \<in> less_than <*lex*> less_than"
            using dn by simp
          from 1(1) [OF this open1] show ?thesis
            using dn r False neg True by (subst WriteUnbuffered.simps) simp
        next
          case no: False
          obtain s where "PosixError P junk (wf_filename f) (errno P os1) = Some s" "\<not> Status_ok s"
            by (rule PosixErrorE [OF t])
          then show ?thesis
            using dn r False neg no open1
            by (subst WriteUnbuffered.simps) (auto intro!: exI [of _ 0])
        qed
      next
        case pos: False
        then have dp: "nat r \<le> length data" "content os1 = content os @ take (nat r) data" "r = 0 \<Longrightarrow> stall os1 < stall os"
          using d(4-6) by auto
        have "((length (drop (nat r) data), stall os1), (length data, stall os)) \<in> less_than <*lex*> less_than"
          using dp False pos by (cases "r = 0") auto
        from 1(1) [OF this open1] obtain s os' n where
          2: "WriteUnbuffered P junk f (drop (nat r) data) os1 = Some (s, os')" "opened os'"
          "content os' = content os1 @ take n (drop (nat r) data)" "Status_ok s \<longrightarrow> n = length (drop (nat r) data)"
          by blast
        have "content os' = content os @ take (nat r + n) data"
          using 2(3) dp by (simp add: take_add)
        then show ?thesis
          using 2 r False pos dp by (subst WriteUnbuffered.simps) (auto intro!: exI [of _ "nat r + n"])
      qed
    qed
  qed
  then show ?thesis
    using that by blast
qed

subsection \<open>The buffer\<close>

definition wfile_ok :: "PosixWritableFile \<Rightarrow> bool" where
  "wfile_ok f \<longleftrightarrow> length (wf_buf f) = 65536 \<and> unat (wf_pos f) \<le> 65536"

text \<open>The bytes that were accepted and not yet offered to \<^verbatim>\<open>write\<close>.\<close>

definition pending :: "PosixWritableFile \<Rightarrow> bytes" where
  "pending f = take (unat (wf_pos f)) (wf_buf f)"

definition same_file :: "PosixWritableFile \<Rightarrow> PosixWritableFile \<Rightarrow> bool" where
  "same_file f f' \<longleftrightarrow> wf_fd f' = wf_fd f \<and> wf_filename f' = wf_filename f \<and> wf_dirname f' = wf_dirname f \<and>
     wf_is_manifest f' = wf_is_manifest f"

text \<open>An operation that was given \<open>data\<close> has kept all of it if it succeeds, and whatever happens nothing but
  a beginning of what it was to write is in the file.\<close>

definition accepted :: "('o \<Rightarrow> bytes) \<Rightarrow> PosixWritableFile \<Rightarrow> 'o \<Rightarrow> bytes \<Rightarrow> status \<Rightarrow> PosixWritableFile \<Rightarrow> 'o \<Rightarrow> bool" where
  "accepted content f os data s f' os' \<longleftrightarrow> same_file f f' \<and> wfile_ok f' \<and> prefix (content os) (content os') \<and>
     prefix (content os' @ pending f') (content os @ pending f @ data) \<and>
     (Status_ok s \<longrightarrow> content os' @ pending f' = content os @ pending f @ data)"

lemma take_prefix: "prefix (xs @ take n ys) (xs @ ys)"
  by (simp add: take_is_prefix)

lemma FlushBuffer_spec:
  assumes w: "write_appends P (wf_fd f) opened content stall" and t: "error_texts P (wf_filename f)"
    and "opened os" and f: "wfile_ok f"
  obtains s os' where "FlushBuffer P junk f os = Some (s, f\<lparr>wf_pos := 0\<rparr>, os')" and "opened os'"
    and "accepted content f os [] s (f\<lparr>wf_pos := 0\<rparr>) os'" and "Status_ok s \<Longrightarrow> content os' = content os @ pending f"
proof -
  obtain s os' n where 1: "WriteUnbuffered P junk f (pending f) os = Some (s, os')" "opened os'"
    "content os' = content os @ take n (pending f)" "Status_ok s \<Longrightarrow> n = length (pending f)"
    by (rule WriteUnbuffered_spec [OF w t assms(3), of junk "pending f"]) blast
  moreover have "mem_read (wf_buf f) 0 (unat (wf_pos f)) = Some (pending f)"
    using f by (simp add: mem_read_def wfile_ok_def pending_def)
  moreover have "pending (f\<lparr>wf_pos := 0\<rparr>) = []"
    by (simp add: pending_def)
  ultimately show ?thesis
    using that f by (auto simp: FlushBuffer_def accepted_def same_file_def wfile_ok_def take_is_prefix)
qed

lemma Append_room:
  fixes pos :: u64
  assumes "unat pos \<le> 65536" and "n < 2 ^ 64"
  defines "copy \<equiv> min (word_of_nat n) (kWritableFileBufferSize - pos)"
  shows "unat copy = min n (65536 - unat pos)" and "unat (pos + copy) = unat pos + unat copy"
    and "unat (word_of_nat n - copy) = n - unat copy"
proof -
  have n: "unat (word_of_nat n :: u64) = n"
    using assms(2) by (simp add: unsigned_of_nat take_bit_nat_eq_self)
  have "pos \<le> kWritableFileBufferSize"
    using assms(1) by (simp add: word_le_nat_alt kWritableFileBufferSize_def)
  then have room: "unat (kWritableFileBufferSize - pos) = 65536 - unat pos"
    by (simp add: unat_sub kWritableFileBufferSize_def)
  show copy: "unat copy = min n (65536 - unat pos)"
    using n room by (auto simp: copy_def min_def word_le_nat_alt)
  show "unat (pos + copy) = unat pos + unat copy"
    using copy assms(1) by (simp add: unat_word_ariths)
  show "unat (word_of_nat n - copy) = n - unat copy"
    using copy n by (simp add: unat_sub word_le_nat_alt)
qed

lemma mem_write_pending:
  assumes "wfile_ok f" and "unat (wf_pos f) + length d \<le> 65536" and "unat pos' = unat (wf_pos f) + length d"
  obtains b where "mem_write (wf_buf f) (unat (wf_pos f)) d = Some b"
    and "wfile_ok (f\<lparr>wf_buf := b, wf_pos := pos'\<rparr>)" and "pending (f\<lparr>wf_buf := b, wf_pos := pos'\<rparr>) = pending f @ d"
  using assms by (auto simp: mem_write_def wfile_ok_def pending_def)

text \<open>What \<^verbatim>\<open>Append\<close> does once the buffer is full.\<close>

lemma Append_overflow:
  assumes w: "write_appends P (wf_fd f) opened content stall" and t: "error_texts P (wf_filename f)"
    and o: "opened os" and f: "wfile_ok f" and n: "unat n = length d"
  obtains s f' os' where "do {
       (status, f, os) \<leftarrow> FlushBuffer P junk f os;
       if \<not> Status_ok status then Some (status, f, os)
       else if n < kWritableFileBufferSize then do {
         buf \<leftarrow> mem_write (wf_buf f) 0 d;
         Some (Status_OK, f\<lparr>wf_buf := buf, wf_pos := n\<rparr>, os)
       }
       else do {
         (status, os) \<leftarrow> WriteUnbuffered P junk f d os;
         Some (status, f, os)
       }
     } = Some (s, f', os')" and "opened os'" and "accepted content f os d s f' os'"
proof -
  let ?h = "f\<lparr>wf_pos := 0\<rparr>"
  obtain s os1 where 1: "FlushBuffer P junk f os = Some (s, ?h, os1)" "opened os1"
    "accepted content f os [] s ?h os1" "Status_ok s \<Longrightarrow> content os1 = content os @ pending f"
    by (rule FlushBuffer_spec [OF w t o f, of junk]) blast
  have h: "wfile_ok ?h" "pending ?h = []" "same_file f ?h"
    using f by (auto simp: wfile_ok_def pending_def same_file_def)
  consider "\<not> Status_ok s" | "Status_ok s" "length d < 65536" | "Status_ok s" "\<not> length d < 65536"
    by blast
  then show ?thesis
  proof cases
    case bad: 1
    then show ?thesis
      using 1 by (intro that [of s ?h os1]) (auto simp: accepted_def intro: prefix_order.trans)
  next
    case small: 2
    obtain b where "mem_write (wf_buf f) 0 d = Some b" "wfile_ok (f\<lparr>wf_buf := b, wf_pos := n\<rparr>)"
      "pending (f\<lparr>wf_buf := b, wf_pos := n\<rparr>) = d"
      by (rule mem_write_pending [OF h(1), of d n]) (use small n h(2) in auto)
    then show ?thesis
      using 1 small n
      by (intro that [of Status_OK "f\<lparr>wf_buf := b, wf_pos := n\<rparr>" os1])
        (auto simp: accepted_def same_file_def word_less_nat_alt kWritableFileBufferSize_def)
  next
    case large: 3
    have w': "write_appends P (wf_fd ?h) opened content stall" and t': "error_texts P (wf_filename ?h)"
      using w t by simp_all
    obtain s' os' m where 2: "WriteUnbuffered P junk ?h d os1 = Some (s', os')" "opened os'"
      "content os' = content os1 @ take m d" "Status_ok s' \<Longrightarrow> m = length d"
      by (rule WriteUnbuffered_spec [OF w' t' 1(2), of junk d]) blast
    then show ?thesis
      using 1 large n h
      by (intro that [of s' ?h os'])
        (auto simp: accepted_def word_less_nat_alt kWritableFileBufferSize_def take_is_prefix)
  qed
qed

lemma PosixWritableFile_Append_spec:
  assumes w: "write_appends P (wf_fd f) opened content stall" and t: "error_texts P (wf_filename f)"
    and o: "opened os" and f: "wfile_ok f" and len: "length data < 2 ^ 64"
  obtains s f' os' where "PosixWritableFile_Append P junk f data os = Some (s, f', os')" and "opened os'"
    and "accepted content f os data s f' os'"
proof -
  let ?n = "word_of_nat (length data) :: u64"
  define copy where "copy = min ?n (kWritableFileBufferSize - wf_pos f)"
  define k where "k = unat copy"
  have room: "k = min (length data) (65536 - unat (wf_pos f))" "unat (wf_pos f + copy) = unat (wf_pos f) + k"
    "unat (?n - copy) = length data - k"
    using Append_room [of "wf_pos f" "length data"] f len by (simp_all add: wfile_ok_def copy_def k_def)
  obtain b where b: "mem_write (wf_buf f) (unat (wf_pos f)) (take k data) = Some b"
    "wfile_ok (f\<lparr>wf_buf := b, wf_pos := wf_pos f + copy\<rparr>)"
    "pending (f\<lparr>wf_buf := b, wf_pos := wf_pos f + copy\<rparr>) = pending f @ take k data"
    by (rule mem_write_pending [OF f, of "take k data" "wf_pos f + copy"])
      (use room f in \<open>auto simp: wfile_ok_def\<close>)
  define g where "g = f\<lparr>wf_buf := b, wf_pos := wf_pos f + copy\<rparr>"
  have g: "wfile_ok g" "pending g = pending f @ take k data" "same_file f g" "wf_fd g = wf_fd f" "wf_filename g = wf_filename f"
    using b by (auto simp: g_def same_file_def)
  have zero: "?n - copy = 0 \<longleftrightarrow> length data \<le> k"
    using room(3) by (metis diff_is_0_eq unat_eq_zero)
  have src: "mem_read data 0 k = Some (take k data)"
    using room(1) by (simp add: mem_read_def)
  note app = PosixWritableFile_Append_def Let_def copy_def [symmetric] k_def [symmetric]
  show ?thesis
  proof (cases "length data \<le> k")
    case True
    then have "PosixWritableFile_Append P junk f data os = Some (Status_OK, g, os)"
      unfolding app using zero src b(1) by (simp add: g_def)
    then show ?thesis
      using that [of Status_OK g os] g o True by (simp add: accepted_def)
  next
    case False
    have eq: "PosixWritableFile_Append P junk f data os = do {
         (status, f, os) \<leftarrow> FlushBuffer P junk g os;
         if \<not> Status_ok status then Some (status, f, os)
         else if ?n - copy < kWritableFileBufferSize then do {
           buf \<leftarrow> mem_write (wf_buf f) 0 (drop k data);
           Some (Status_OK, f\<lparr>wf_buf := buf, wf_pos := ?n - copy\<rparr>, os)
         }
         else do {
           (status, os) \<leftarrow> WriteUnbuffered P junk f (drop k data) os;
           Some (status, f, os)
         }
       }"
      unfolding app using False zero src b(1) by (simp add: g_def)
    have "unat (?n - copy) = length (drop k data)"
      using room(3) by simp
    from Append_overflow [OF w [folded g(4)] t [folded g(5)] o g(1) this, of junk]
    obtain s f' os' where "PosixWritableFile_Append P junk f data os = Some (s, f', os')" "opened os'"
      "accepted content g os (drop k data) s f' os'"
      unfolding eq by blast
    then show ?thesis
      using that g by (auto simp: accepted_def same_file_def)
  qed
qed

subsection \<open>Syncing and closing\<close>

lemma SyncFd_spec:
  assumes w: "writes_to P fd opened content durable stall" and t: "error_texts P path" and o: "opened os"
  obtains s os' where "SyncFd P junk fd' path os = Some (s, os')" and "opened os'" and "content os' = content os"
    and "Status_ok s \<Longrightarrow> fd' = fd \<Longrightarrow> durable os' = content os"
proof -
  have sync: "opened os2 \<and> content os2 = content os1 \<and> (r = 0 \<and> fd' = fd \<longrightarrow> durable os2 = content os1)"
    if "opened os1" "sys_fullfsync P fd' os1 = (r, os2) \<or> sys_fdatasync P fd' os1 = (r, os2) \<or> sys_fsync P fd' os1 = (r, os2)"
    for os1 os2 r
    using w that unfolding writes_to_def sync_makes_durable_def by metis
  obtain r os1 where 1: "(if have_fullfsync P then sys_fullfsync P fd' os else (-1, os)) = (r, os1)"
    by force
  then have 2: "opened os1" "content os1 = content os" "have_fullfsync P \<Longrightarrow> r = 0 \<Longrightarrow> fd' = fd \<Longrightarrow> durable os1 = content os"
    using sync [OF o] o by (auto split: if_splits)
  obtain q os2 where 3: "(if have_fdatasync P then sys_fdatasync P fd' os1 else sys_fsync P fd' os1) = (q, os2)"
    by force
  then have 4: "opened os2" "content os2 = content os" "q = 0 \<Longrightarrow> fd' = fd \<Longrightarrow> durable os2 = content os"
    using sync [OF 2(1)] 2(2) by (auto split: if_splits)
  obtain e where e: "PosixError P junk path (errno P os2) = Some e" "\<not> Status_ok e"
    by (rule PosixErrorE [OF t])
  consider "have_fullfsync P \<and> r = 0" | "\<not> (have_fullfsync P \<and> r = 0)" "q = 0" | "\<not> (have_fullfsync P \<and> r = 0)" "q \<noteq> 0"
    by blast
  then show ?thesis
    by cases (use 1 2 3 4 e that [of Status_OK os1] that [of Status_OK os2] that [of e os2] in
      \<open>auto simp: SyncFd_def Let_def simp del: if_split\<close>)
qed

lemma SyncDirIfManifest_spec:
  assumes w: "writes_to P (wf_fd f) opened content durable stall" and t: "error_texts P (wf_dirname f)" and o: "opened os"
  obtains s os' where "SyncDirIfManifest P junk f os = Some (s, os')" and "opened os'" and "content os' = content os"
proof (cases "wf_is_manifest f")
  case True
  obtain fd os1 where 1: "sys_open P (wf_dirname f) (insert O_RDONLY (kOpenBaseFlags P)) os = (fd, os1)"
    by force
  then have 2: "fd \<noteq> wf_fd f" "opened os1" "content os1 = content os"
    using w o by (auto simp: writes_to_def open_keeps_def)
  obtain e where e: "PosixError P junk (wf_dirname f) (errno P os1) = Some e"
    by (rule PosixErrorE [OF t])
  obtain s os2 where 3: "SyncFd P junk fd (wf_dirname f) os1 = Some (s, os2)" "opened os2" "content os2 = content os1"
    by (rule SyncFd_spec [OF w t 2(2), of junk fd])
  obtain r os3 where 4: "sys_close P fd os2 = (r, os3)"
    by force
  then have "opened os3" "content os3 = content os"
    using w 2 3 by (auto simp: writes_to_def close_keeps_def)
  then show ?thesis
    using that [of e os1] that [of s os3] True 1 2 e 3 4 by (cases "fd < 0") (auto simp: SyncDirIfManifest_def)
qed (use that o in \<open>simp add: SyncDirIfManifest_def\<close>)

lemma PosixWritableFile_Sync_spec:
  assumes w: "writes_to P (wf_fd f) opened content durable stall" and t: "error_texts P (wf_filename f)"
    and t': "error_texts P (wf_dirname f)" and o: "opened os" and f: "wfile_ok f"
  obtains s f' os' where "PosixWritableFile_Sync P junk f os = Some (s, f', os')" and "opened os'"
    and "accepted content f os [] s f' os'" and "Status_ok s \<Longrightarrow> durable os' = content os' \<and> pending f' = []"
proof -
  have a: "write_appends P (wf_fd f) opened content stall"
    using w by (simp add: writes_to_def)
  obtain s1 os1 where 1: "SyncDirIfManifest P junk f os = Some (s1, os1)" "opened os1" "content os1 = content os"
    by (rule SyncDirIfManifest_spec [OF w t' o])
  let ?h = "f\<lparr>wf_pos := 0\<rparr>"
  obtain s2 os2 where 2: "FlushBuffer P junk f os1 = Some (s2, ?h, os2)" "opened os2" "accepted content f os1 [] s2 ?h os2"
    by (rule FlushBuffer_spec [OF a t 1(2) f, of junk]) blast
  obtain s3 os3 where 3: "SyncFd P junk (wf_fd f) (wf_filename f) os2 = Some (s3, os3)" "opened os3" "content os3 = content os2"
    "Status_ok s3 \<Longrightarrow> durable os3 = content os2"
    by (rule SyncFd_spec [OF w t 2(2), of junk "wf_fd f"]) blast
  have h: "pending ?h = []"
    by (simp add: pending_def)
  consider "\<not> Status_ok s1" | "Status_ok s1" "\<not> Status_ok s2" | "Status_ok s1" "Status_ok s2"
    by blast
  then show ?thesis
  proof cases
    case bad: 1
    then show ?thesis
      using 1 f by (intro that [of s1 f os1]) (simp_all add: PosixWritableFile_Sync_def accepted_def same_file_def)
  next
    case bad: 2
    then show ?thesis
      using 1 2 by (intro that [of s2 ?h os2]) (simp_all add: PosixWritableFile_Sync_def accepted_def)
  next
    case ok: 3
    then show ?thesis
      using 1 2 3 h by (intro that [of s3 ?h os3]) (simp_all add: PosixWritableFile_Sync_def accepted_def)
  qed
qed

lemma PosixWritableFile_Close_spec:
  assumes w: "writes_to P (wf_fd f) opened content durable stall" and t: "error_texts P (wf_filename f)"
    and o: "opened os" and f: "wfile_ok f"
  obtains s f' os' where "PosixWritableFile_Close P junk f os = Some (s, f', os')" and "wf_fd f' = -1"
    and "prefix (content os') (content os @ pending f)" and "Status_ok s \<Longrightarrow> content os' = content os @ pending f"
proof -
  have a: "write_appends P (wf_fd f) opened content stall"
    using w by (simp add: writes_to_def)
  let ?h = "f\<lparr>wf_pos := 0\<rparr>"
  obtain s1 os1 where 1: "FlushBuffer P junk f os = Some (s1, ?h, os1)" "opened os1" "accepted content f os [] s1 ?h os1"
    "Status_ok s1 \<Longrightarrow> content os1 = content os @ pending f"
    by (rule FlushBuffer_spec [OF a t o f, of junk]) blast
  obtain r os2 where 2: "sys_close P (wf_fd f) os1 = (r, os2)"
    by force
  then have 3: "content os2 = content os1"
    using w 1(2) by (auto simp: writes_to_def close_keeps_def)
  obtain e where e: "PosixError P junk (wf_filename f) (errno P os2) = Some e" "\<not> Status_ok e"
    by (rule PosixErrorE [OF t])
  have p: "prefix (content os2) (content os @ pending f)"
    using 1(3) 3 by (auto simp: accepted_def dest: append_prefixD)
  show ?thesis
  proof (cases "r < 0 \<and> Status_ok s1")
    case True
    then show ?thesis
      using 1 2 e p by (intro that [of e "f\<lparr>wf_pos := 0, wf_fd := -1\<rparr>" os2]) (simp_all add: PosixWritableFile_Close_def)
  next
    case False
    then show ?thesis
      using 1 2 3 p by (intro that [of s1 "f\<lparr>wf_pos := 0, wf_fd := -1\<rparr>" os2])
        (auto simp: PosixWritableFile_Close_def)
  qed
qed

subsection \<open>Sequences of operations\<close>

datatype write_op = Op_Append bytes | Op_Flush | Op_Sync

fun op_data :: "write_op \<Rightarrow> bytes" where
  "op_data (Op_Append data) = data"
| "op_data _ = []"

fun do_write ::
    "'o posix \<Rightarrow> (nat \<Rightarrow> u8) \<Rightarrow> write_op \<Rightarrow> PosixWritableFile \<Rightarrow> 'o \<Rightarrow> (status \<times> PosixWritableFile \<times> 'o) option" where
  "do_write P junk (Op_Append data) f os = PosixWritableFile_Append P junk f data os"
| "do_write P junk Op_Flush f os = PosixWritableFile_Flush P junk f os"
| "do_write P junk Op_Sync f os = PosixWritableFile_Sync P junk f os"

fun write_ops ::
    "'o posix \<Rightarrow> (nat \<Rightarrow> u8) \<Rightarrow> write_op list \<Rightarrow> PosixWritableFile \<Rightarrow> 'o \<Rightarrow> (status list \<times> PosixWritableFile \<times> 'o) option" where
  "write_ops P junk [] f os = Some ([], f, os)"
| "write_ops P junk (op # ops) f os = do {
     (s, f, os) \<leftarrow> do_write P junk op f os;
     (ss, f, os) \<leftarrow> write_ops P junk ops f os;
     Some (s # ss, f, os)
   }"

lemma do_write_spec:
  assumes w: "writes_to P (wf_fd f) opened content durable stall" and t: "error_texts P (wf_filename f)"
    and t': "error_texts P (wf_dirname f)" and o: "opened os" and f: "wfile_ok f" and len: "length (op_data op) < 2 ^ 64"
  obtains s f' os' where "do_write P junk op f os = Some (s, f', os')" and "opened os'"
    and "accepted content f os (op_data op) s f' os'"
    and "op = Op_Sync \<Longrightarrow> Status_ok s \<Longrightarrow> durable os' = content os' \<and> pending f' = []"
proof (cases op)
  case (Op_Append d)
  have a: "write_appends P (wf_fd f) opened content stall"
    using w by (simp add: writes_to_def)
  show ?thesis
    by (rule PosixWritableFile_Append_spec [OF a t o f, of d junk]) (use that len Op_Append in auto)
next
  case Op_Flush
  have a: "write_appends P (wf_fd f) opened content stall"
    using w by (simp add: writes_to_def)
  show ?thesis
    by (rule FlushBuffer_spec [OF a t o f, of junk]) (use that Op_Flush in \<open>auto simp: PosixWritableFile_Flush_def\<close>)
next
  case Op_Sync
  show ?thesis
    by (rule PosixWritableFile_Sync_spec [OF w t t' o f, of junk]) (use that Op_Sync in auto)
qed

lemma write_ops_spec:
  assumes "writes_to P (wf_fd f) opened content durable stall" and "error_texts P (wf_filename f)"
    and "error_texts P (wf_dirname f)" and "opened os" and "wfile_ok f" and "\<forall>op \<in> set ops. length (op_data op) < 2 ^ 64"
  obtains ss f' os' where "write_ops P junk ops f os = Some (ss, f', os')" and "opened os'" and "same_file f f'" and "wfile_ok f'"
    and "\<forall>s \<in> set ss. Status_ok s \<Longrightarrow> content os' @ pending f' = content os @ pending f @ concat (map op_data ops)"
    and "\<forall>s \<in> set ss. Status_ok s \<Longrightarrow> ops \<noteq> [] \<Longrightarrow> last ops = Op_Sync \<Longrightarrow> durable os' = content os' \<and> pending f' = []"
  using assms
proof (induction ops arbitrary: f os thesis)
  case Nil
  then show ?case
    by (simp add: same_file_def)
next
  case (Cons op ops)
  obtain s f1 os1 where 1: "do_write P junk op f os = Some (s, f1, os1)" "opened os1"
    "accepted content f os (op_data op) s f1 os1"
    "op = Op_Sync \<Longrightarrow> Status_ok s \<Longrightarrow> durable os1 = content os1 \<and> pending f1 = []"
    by (rule do_write_spec [OF Cons.prems(2-6), of op junk]) (use Cons.prems(7) in auto)
  have same: "wf_fd f1 = wf_fd f" "wf_filename f1 = wf_filename f" "wf_dirname f1 = wf_dirname f" "wfile_ok f1"
    using 1(3) by (auto simp: accepted_def same_file_def)
  obtain ss f' os' where 2: "write_ops P junk ops f1 os1 = Some (ss, f', os')" "opened os'" "same_file f1 f'" "wfile_ok f'"
    "\<forall>s \<in> set ss. Status_ok s \<Longrightarrow> content os' @ pending f' = content os1 @ pending f1 @ concat (map op_data ops)"
    "\<forall>s \<in> set ss. Status_ok s \<Longrightarrow> ops \<noteq> [] \<Longrightarrow> last ops = Op_Sync \<Longrightarrow> durable os' = content os' \<and> pending f' = []"
    by (rule Cons.IH [of f1 os1]) (use Cons.prems same 1(2) in auto)
  have "same_file f f'"
    using 1(3) 2(3) by (simp add: accepted_def same_file_def)
  moreover have "content os' @ pending f' = content os @ pending f @ concat (map op_data (op # ops))"
    if "\<forall>s \<in> set (s # ss). Status_ok s"
    using 2(5) 1(3) that by (simp add: accepted_def)
  moreover have "durable os' = content os' \<and> pending f' = []"
    if "\<forall>s \<in> set (s # ss). Status_ok s" "last (op # ops) = Op_Sync"
    using 1(4) 2(1,6) that by (cases "ops = []") auto
  ultimately show ?case
    using 1 2 by (intro Cons.prems(1) [of "s # ss" f' os']) auto
qed

subsection \<open>Properties\<close>

text \<open>C18: a writable file loses nothing while its operations report success. Whatever sequence of
  \<^verbatim>\<open>Append\<close>, \<^verbatim>\<open>Flush\<close> and \<^verbatim>\<open>Sync\<close> is called on a new file, every call returns, in spite of short and
  interrupted writes; if all report success, the bytes in the file followed by those in the buffer
  are exactly the bytes appended, in order; a \<^verbatim>\<open>Sync\<close> at the end has made all of them durable; and
  closing then leaves a beginning of them in the file, all of them if \<^verbatim>\<open>Close\<close> reports success.\<close>

theorem PosixWritableFile_writes_all:
  assumes w: "writes_to P fd opened content durable stall" and o: "opened os"
    and texts: "\<forall>e. length filename + length (strerror P e) + 8 < 2 ^ 32"
    and len: "\<forall>op \<in> set ops. length (op_data op) < 2 ^ 64"
  shows "\<exists>f ss f' os' s f'' os''. new_PosixWritableFile junk filename fd = Some f \<and>
    write_ops P junk ops f os = Some (ss, f', os') \<and>
    PosixWritableFile_Close P junk f' os' = Some (s, f'', os'') \<and> wf_fd f'' = -1 \<and>
    ((\<forall>s \<in> set ss. Status_ok s) \<longrightarrow>
      content os' @ pending f' = content os @ concat (map op_data ops) \<and>
      (ops \<noteq> [] \<and> last ops = Op_Sync \<longrightarrow> durable os' = content os @ concat (map op_data ops)) \<and>
      prefix (content os'') (content os @ concat (map op_data ops)) \<and>
      (Status_ok s \<longrightarrow> content os'' = content os @ concat (map op_data ops)))"
proof -
  obtain f where f: "new_PosixWritableFile junk filename fd = Some f" "wf_fd f = fd" "wf_filename f = filename"
    "wf_pos f = 0" "length (wf_buf f) = 65536" "length (wf_dirname f) \<le> Suc (length filename)"
    by (rule new_PosixWritableFileE)
  have ok: "wfile_ok f" "pending f = []"
    using f by (simp_all add: wfile_ok_def pending_def)
  have near: "error_texts P path" if "length path \<le> Suc (length filename)" for path
    unfolding error_texts_def
  proof
    fix e
    show "length path + length (strerror P e) + 7 < 2 ^ 32"
      using texts [rule_format, of e] that by linarith
  qed
  have t: "error_texts P (wf_filename f)" "error_texts P (wf_dirname f)"
    using f(3,6) by (auto intro: near)
  obtain ss f' os' where 1: "write_ops P junk ops f os = Some (ss, f', os')" "opened os'" "same_file f f'" "wfile_ok f'"
    "\<forall>s \<in> set ss. Status_ok s \<Longrightarrow> content os' @ pending f' = content os @ pending f @ concat (map op_data ops)"
    "\<forall>s \<in> set ss. Status_ok s \<Longrightarrow> ops \<noteq> [] \<Longrightarrow> last ops = Op_Sync \<Longrightarrow> durable os' = content os' \<and> pending f' = []"
    by (rule write_ops_spec [OF w [folded f(2)] t o ok(1) len, of junk]) blast
  obtain s f'' os'' where 2: "PosixWritableFile_Close P junk f' os' = Some (s, f'', os'')" "wf_fd f'' = -1"
    "prefix (content os'') (content os' @ pending f')" "Status_ok s \<Longrightarrow> content os'' = content os' @ pending f'"
    by (rule PosixWritableFile_Close_spec [of P f' opened content durable stall os' junk])
      (use w t 1(2-4) f in \<open>auto simp: same_file_def\<close>)
  show ?thesis
    using f(1) 1 2 ok(2) by (intro exI conjI impI; (rule refl | assumption)?) auto
qed

text \<open>Calls that succeed and do nothing, from which the examples are made: an operating system with one
  file, whose \<^verbatim>\<open>write\<close> takes at most three bytes at a time and is interrupted before every second
  call.\<close>

definition null_posix :: "'o posix" where
  "null_posix = \<lparr>errno = (\<lambda>os. EINTR), set_errno = (\<lambda>e os. os), strerror = (\<lambda>e. ascii ''error''), kOpenBaseFlags = {},
     have_fullfsync = False, have_fdatasync = True,
     sys_open = (\<lambda>path flags os. (4, os)), sys_close = (\<lambda>fd os. (0, os)),
     sys_read = (\<lambda>fd buf n os. (0, buf, os)), sys_pread = (\<lambda>fd buf n off os. (0, buf, os)),
     sys_lseek_cur = (\<lambda>fd n os. (0, os)), sys_write = (\<lambda>fd data os. (int (length data), os)),
     sys_fullfsync = (\<lambda>fd os. (0, os)), sys_fdatasync = (\<lambda>fd os. (0, os)), sys_fsync = (\<lambda>fd os. (0, os)),
     sys_mmap = (\<lambda>n fd os. (Some [], os)), sys_munmap = (\<lambda>base n os. (0, os)), sys_setlk = (\<lambda>fd l os. (0, os)),
     sys_access = (\<lambda>path os. (0, os)), sys_opendir = (\<lambda>path os. (None, os)), sys_readdir = (\<lambda>d os. (None, os)),
     sys_closedir = (\<lambda>d os. (0, os)), sys_unlink = (\<lambda>path os. (0, os)), sys_mkdir = (\<lambda>path os. (0, os)),
     sys_rmdir = (\<lambda>path os. (0, os)), sys_stat = (\<lambda>path os. (0, 0, os)),
     sys_rename = (\<lambda>from to os. (0, os)), sys_fdopen = (\<lambda>fd os. (None, os)), sys_getenv = (\<lambda>name os. None),
     sys_geteuid = (\<lambda>os. 0), sys_gettimeofday = (\<lambda>os. ((0, 0), os)), sys_getrlimit_nofile = (\<lambda>os. (0, 1024, os))\<rparr>"

definition slow_posix :: "(bytes \<times> bool) posix" where
  "slow_posix = null_posix\<lparr>sys_write := (\<lambda>fd data (c, interrupt).
     if interrupt then (-1, c, False) else (int (min 3 (length data)), c @ take (min 3 (length data)) data, True))\<rparr>"

lemma slow_posix_writes: "writes_to slow_posix 3 (\<lambda>os. True) fst fst (\<lambda>(c, interrupt). if interrupt then 1 else 0)"
  by (auto simp: writes_to_def write_appends_def open_keeps_def close_keeps_def sync_makes_durable_def slow_posix_def null_posix_def
      split: if_splits prod.splits)

text \<open>With it the calls do report success.\<close>

lemma slow_posix_run:
  "\<exists>f f' os'. new_PosixWritableFile (\<lambda>_. 0) (ascii ''db/MANIFEST'') 3 = Some f \<and>
    write_ops slow_posix (\<lambda>_. 0) [Op_Append (ascii ''hello''), Op_Sync] f ([], True) = Some ([Status_OK, Status_OK], f', os')"
  by (simp add: new_PosixWritableFile_def IsManifest_def Basename_def Dirname_def PosixWritableFile_Append_def
      PosixWritableFile_Sync_def SyncDirIfManifest_def SyncFd_def FlushBuffer_def mem_write_def mem_read_def
      kWritableFileBufferSize_def slow_posix_def null_posix_def Status_ok_def Status_OK_def WriteUnbuffered.simps unat_sub
      Let_def Slice_starts_with_def min_def word_le_nat_alt) (rule exI, rule TrueI)

theorem PosixWritableFile_writes_all_witness:
  "\<exists>f ss f' os' s f'' os''. new_PosixWritableFile (\<lambda>_. 0) (ascii ''db/MANIFEST'') 3 = Some f \<and>
    write_ops slow_posix (\<lambda>_. 0) [Op_Append (ascii ''hello''), Op_Sync] f ([], True) = Some (ss, f', os') \<and>
    (\<forall>s \<in> set ss. Status_ok s) \<and> fst os' = ascii ''hello''"
proof -
  have texts: "\<forall>e. length (ascii ''db/MANIFEST'') + length (strerror slow_posix e) + 8 < 2 ^ 32"
    by (simp add: slow_posix_def null_posix_def)
  have len: "\<forall>op \<in> set [Op_Append (ascii ''hello''), Op_Sync]. length (op_data op) < 2 ^ 64"
    by simp
  show ?thesis
    using PosixWritableFile_writes_all [OF slow_posix_writes TrueI texts len, where os = "([], True)" and junk = "\<lambda>_. 0"]
      slow_posix_run
    by (auto simp: Status_ok_def Status_OK_def simp del: ascii_simps write_ops.simps)
qed

end
