(* ===== verification/PosixReads.thy ===== *)
theory PosixReads
  imports PosixWrites "HOL-Library.Multiset"
begin

text \<open>
  Reading through the POSIX environment: the two implementations of \<^verbatim>\<open>RandomAccessFile\<close>, one on
  \<^verbatim>\<open>pread\<close> and one on a mapping of the file, and the sequential reader; and the descriptors and mappings
  a process holds while it uses them.
\<close>

subsection \<open>Mapped files\<close>

lemma unat_plus_wrap: "unat ((a :: u64) + b) = (if unat a + unat b < 2 ^ 64 then unat a + unat b else unat a + unat b - 2 ^ 64)"
  using unat_u64_less [of a] unat_u64_less [of b] by (auto simp: unat_word_ariths le_mod_geq)

lemma Mmap_Read_eq:
  assumes "unat (mf_length f) = length (mmap_base f)" and "error_texts P (mf_filename f)"
  shows "PosixMmapReadableFile_Read P junk f offset n =
    (if unat offset + unat n \<le> length (mmap_base f) then Some (Status_OK, take (unat n) (drop (unat offset) (mmap_base f)))
     else if 2 ^ 64 \<le> unat offset + unat n \<and> unat offset + unat n - 2 ^ 64 \<le> length (mmap_base f) then None
     else Some (Some (status_block kIOError (status_message (mf_filename f) (strerror P EINVAL))), []))"
proof -
  have "length (mmap_base f) < 2 ^ 64"
    using assms(1) unat_u64_less [of "mf_length f"] by simp
  then show ?thesis
    using assms(1) PosixError_eq [OF assms(2), of junk EINVAL]
    by (auto simp: PosixMmapReadableFile_Read_def word_less_nat_alt unat_plus_wrap mem_read_def EINVAL_def ENOENT_def)
qed

subsection \<open>Positioned reads\<close>

text \<open>What POSIX documents of \<^verbatim>\<open>open\<close> and \<^verbatim>\<open>pread\<close> for a regular file that is not being changed:
  \<open>opened os fd\<close> says that a descriptor refers to the file. An \<^verbatim>\<open>open\<close> that does not fail makes one. A
  \<^verbatim>\<open>pread\<close> may fail, and does at a negative offset; otherwise it copies bytes from the offset into the
  buffer, at most as many as asked for, but possibly fewer, and none at all only at the end of
  the file.\<close>

definition reads_from ::
    "'o posix \<Rightarrow> bytes \<Rightarrow> bytes \<Rightarrow> ('o \<Rightarrow> int \<Rightarrow> bool) \<Rightarrow> bool" where
  "reads_from P filename content opened \<longleftrightarrow>
     (\<forall>os fd os'. sys_open P filename (insert O_RDONLY (kOpenBaseFlags P)) os = (fd, os') \<longrightarrow> 0 \<le> fd \<longrightarrow> opened os' fd) \<and>
     (\<forall>fd buf n off os r buf' os'. opened os fd \<longrightarrow> unat n \<le> length buf \<longrightarrow> sys_pread P fd buf n off os = (r, buf', os') \<longrightarrow>
        length buf' = length buf \<and> (off < 0 \<longrightarrow> r < 0) \<and>
        (0 \<le> r \<longrightarrow> nat r \<le> unat n \<and> nat off + nat r \<le> max (nat off) (length content) \<and>
           take (nat r) buf' = take (nat r) (drop (nat off) content) \<and> (r = 0 \<longrightarrow> n = 0 \<or> length content \<le> nat off)))"

text \<open>What a process holds: \<open>fds os\<close> are its open descriptors and \<open>maps os\<close> its mappings, each with its
  bytes and the length it was mapped with. \<^verbatim>\<open>open\<close> returns a descriptor that is not in use, \<^verbatim>\<open>close\<close>
  releases the descriptor whatever it returns (as Linux documents it), \<^verbatim>\<open>mmap\<close> adds a mapping if it
  succeeds and \<^verbatim>\<open>munmap\<close> removes one; the other calls on a random access file change neither.\<close>

definition tracks ::
    "'o posix \<Rightarrow> ('o \<Rightarrow> int set) \<Rightarrow> ('o \<Rightarrow> (bytes \<times> u64) multiset) \<Rightarrow> bool" where
  "tracks P fds maps \<longleftrightarrow>
     (\<forall>name flags os fd os'. sys_open P name flags os = (fd, os') \<longrightarrow> maps os' = maps os \<and>
        (if fd < 0 then fds os' = fds os else fd \<notin> fds os \<and> fds os' = insert fd (fds os))) \<and>
     (\<forall>fd os r os'. sys_close P fd os = (r, os') \<longrightarrow> fds os' = fds os - {fd} \<and> maps os' = maps os) \<and>
     (\<forall>fd buf n off os r buf' os'. sys_pread P fd buf n off os = (r, buf', os') \<longrightarrow> fds os' = fds os \<and> maps os' = maps os) \<and>
     (\<forall>name os r sz os'. sys_stat P name os = (r, sz, os') \<longrightarrow> fds os' = fds os \<and> maps os' = maps os) \<and>
     (\<forall>len fd os base os'. sys_mmap P len fd os = (base, os') \<longrightarrow> fds os' = fds os \<and>
        maps os' = (case base of None \<Rightarrow> maps os | Some b \<Rightarrow> add_mset (b, len) (maps os))) \<and>
     (\<forall>base len os r os'. sys_munmap P base len os = (r, os') \<longrightarrow> fds os' = fds os \<and>
        ((base, len) \<in># maps os \<longrightarrow> maps os' = maps os - {#(base, len)#}))"

lemma tracks_calls:
  assumes "tracks P fds maps"
  shows tracks_open: "sys_open P name flags os = (fd, os') \<Longrightarrow> maps os' = maps os \<and>
        (if fd < 0 then fds os' = fds os else fd \<notin> fds os \<and> fds os' = insert fd (fds os))"
    and tracks_close: "fds (snd (sys_close P fd os)) = fds os - {fd} \<and> maps (snd (sys_close P fd os)) = maps os"
    and tracks_pread: "sys_pread P fd buf n off os = (r, buf', os') \<Longrightarrow> fds os' = fds os \<and> maps os' = maps os"
    and tracks_stat: "sys_stat P name os = (r, sz, os') \<Longrightarrow> fds os' = fds os \<and> maps os' = maps os"
    and tracks_mmap: "sys_mmap P len fd os = (base, os') \<Longrightarrow> fds os' = fds os \<and>
        maps os' = (case base of None \<Rightarrow> maps os | Some b \<Rightarrow> add_mset (b, len) (maps os))"
    and tracks_munmap: "fds (snd (sys_munmap P b len os)) = fds os \<and>
        ((b, len) \<in># maps os \<longrightarrow> maps (snd (sys_munmap P b len os)) = maps os - {#(b, len)#})"
proof -
  note d = assms [unfolded tracks_def]
  show "sys_open P name flags os = (fd, os') \<Longrightarrow> maps os' = maps os \<and>
        (if fd < 0 then fds os' = fds os else fd \<notin> fds os \<and> fds os' = insert fd (fds os))"
    using d [THEN conjunct1] by simp
  show "fds (snd (sys_close P fd os)) = fds os - {fd} \<and> maps (snd (sys_close P fd os)) = maps os"
    using d [THEN conjunct2, THEN conjunct1] by (cases "sys_close P fd os") simp
  show "sys_pread P fd buf n off os = (r, buf', os') \<Longrightarrow> fds os' = fds os \<and> maps os' = maps os"
    and "sys_stat P name os = (r, sz, os') \<Longrightarrow> fds os' = fds os \<and> maps os' = maps os"
    using d [THEN conjunct2, THEN conjunct2] by metis+
  show "sys_mmap P len fd os = (base, os') \<Longrightarrow> fds os' = fds os \<and>
        maps os' = (case base of None \<Rightarrow> maps os | Some b \<Rightarrow> add_mset (b, len) (maps os))"
    using d [THEN conjunct2, THEN conjunct2, THEN conjunct2, THEN conjunct2, THEN conjunct1] by simp
  show "fds (snd (sys_munmap P b len os)) = fds os \<and>
        ((b, len) \<in># maps os \<longrightarrow> maps (snd (sys_munmap P b len os)) = maps os - {#(b, len)#})"
    using d [THEN conjunct2, THEN conjunct2, THEN conjunct2, THEN conjunct2, THEN conjunct2] by (cases "sys_munmap P b len os") simp
qed

text \<open>A read opens nothing it does not close.\<close>

lemma RandomAccess_Read_holds:
  assumes t: "tracks P fds maps" and "PosixRandomAccessFile_Read P junk f offset n result scratch os = Some (s, res, scratch', os')"
  shows "fds os' = fds os \<and> maps os' = maps os"
proof -
  obtain fd os1 where 1: "sys_open P (rf_filename f) (insert O_RDONLY (kOpenBaseFlags P)) os = (fd, os1)"
    by force
  let ?fd = "if has_permanent_fd f then rf_fd f else fd" and ?os = "if has_permanent_fd f then os else os1"
  obtain r buf os2 where 2: "sys_pread P ?fd scratch n (sint offset) ?os = (r, buf, os2)"
    by (metis prod_cases3)
  show ?thesis
    using assms(2) 1 2 tracks_open [OF t 1] tracks_pread [OF t 2] tracks_close [OF t, of fd os2]
    by (auto simp: PosixRandomAccessFile_Read_def Let_def bind_eq_Some_conv asserting_def split: if_splits)
qed

lemma nat_sint_unat:
  assumes "0 \<le> sint (off :: u64)"
  shows "nat (sint off) = unat off"
proof -
  have "sint off < 2 ^ 63"
    using sint_lt [of off] by simp
  then have "uint off = sint off"
    using assms uint_sint [of off] by (simp add: take_bit_int_eq_self)
  then show ?thesis
    by (metis unat_eq_nat_uint)
qed

lemma RandomAccess_Read_spec:
  assumes r: "reads_from P (rf_filename f) content opened" and t: "error_texts P (rf_filename f)"
    and perm: "if has_permanent_fd f then opened os (rf_fd f) \<and> 0 \<le> rf_fd f else rf_fd f = -1"
    and len: "length content < 2 ^ 63" and n: "unat n \<le> length scratch"
  shows "\<exists>s res scratch' os'. PosixRandomAccessFile_Read P junk f offset n result scratch os = Some (s, res, scratch', os') \<and>
    length scratch' = length scratch \<and>
    (Status_ok s \<longrightarrow> res = take (length res) (drop (unat offset) content) \<and> length res \<le> unat n \<and>
       (res = [] \<longrightarrow> n = 0 \<or> length content \<le> unat offset)) \<and>
    (\<not> Status_ok s \<longrightarrow> res = [] \<or> res = result)"
proof -
  obtain fd os1 where 1: "(if \<not> has_permanent_fd f then sys_open P (rf_filename f) (insert O_RDONLY (kOpenBaseFlags P)) os
      else (rf_fd f, os)) = (fd, os1)"
    by force
  obtain e1 where e1: "PosixError P junk (rf_filename f) (errno P os1) = Some e1" "\<not> Status_ok e1"
    by (rule PosixErrorE [OF t])
  obtain k buf os2 where k: "sys_pread P fd scratch n (sint offset) os1 = (k, buf, os2)"
    by (metis prod_cases3)
  obtain e2 where e2: "PosixError P junk (rf_filename f) (errno P os2) = Some e2" "\<not> Status_ok e2"
    by (rule PosixErrorE [OF t])
  show ?thesis
  proof (cases "fd < 0")
    case True
    then show ?thesis
      using 1 e1 perm by (auto simp: PosixRandomAccessFile_Read_def Let_def split: if_splits)
  next
    case False
    then have "opened os1 fd"
      using 1 perm r unfolding reads_from_def by (metis not_less prod.inject)
    then have d: "length buf = length scratch" "sint offset < 0 \<Longrightarrow> k < 0"
      "0 \<le> k \<Longrightarrow> nat k \<le> unat n \<and> nat (sint offset) + nat k \<le> max (nat (sint offset)) (length content) \<and>
         take (nat k) buf = take (nat k) (drop (nat (sint offset)) content) \<and> (k = 0 \<longrightarrow> n = 0 \<or> length content \<le> nat (sint offset))"
      using r n k unfolding reads_from_def by blast+
    show ?thesis
    proof (cases "k < 0")
      case True
      then show ?thesis
        using False 1 k e2 d(1) perm
        by (auto simp: PosixRandomAccessFile_Read_def Let_def mem_read_def asserting_def split: if_splits)
    next
      case got: False
      then have "0 \<le> sint offset"
        using d(2) by fastforce
      then have off: "nat (sint offset) = unat offset"
        by (rule nat_sint_unat)
      have "mem_read buf 0 (nat k) = Some (take (nat k) (drop (unat offset) content))"
        "length (take (nat k) (drop (unat offset) content)) = nat k" "nat k \<le> unat n" "k = 0 \<longrightarrow> n = 0 \<or> length content \<le> unat offset"
        using d got n off by (auto simp: mem_read_def)
      then show ?thesis
        using False got 1 k d(1) perm
        by (auto simp: PosixRandomAccessFile_Read_def Let_def asserting_def Status_ok_def Status_OK_def split: if_splits)
    qed
  qed
qed

subsection \<open>Sequential reads\<close>

text \<open>\<^verbatim>\<open>read\<close> from the current position of one descriptor, as long as it is open; an interrupted call reads
  nothing, and \<open>stall\<close> bounds how often that happens in a row.\<close>

definition reads_on ::
    "'o posix \<Rightarrow> int \<Rightarrow> ('o \<Rightarrow> bool) \<Rightarrow> ('o \<Rightarrow> bytes) \<Rightarrow> ('o \<Rightarrow> nat) \<Rightarrow> ('o \<Rightarrow> nat) \<Rightarrow> bool" where
  "reads_on P fd opened content pos stall \<longleftrightarrow>
     (\<forall>buf n os r buf' os'. opened os \<longrightarrow> unat n \<le> length buf \<longrightarrow> sys_read P fd buf n os = (r, buf', os') \<longrightarrow>
        opened os' \<and> content os' = content os \<and> length buf' = length buf \<and>
        (if r < 0 then pos os' = pos os \<and> (errno P os' = EINTR \<longrightarrow> stall os' < stall os)
         else (let got = take (nat r) (drop (pos os) (content os)) in
           nat r \<le> unat n \<and> length got = nat r \<and> (r = 0 \<longrightarrow> n = 0 \<or> length (content os) \<le> pos os) \<and>
           take (nat r) buf' = got \<and> pos os' = pos os + nat r)))"

lemma Sequential_Read_spec:
  assumes r: "reads_on P (sf_fd f) opened content pos stall" and t: "error_texts P (sf_filename f)"
    and "opened os" and "unat n \<le> length scratch"
  shows "\<exists>s res scratch' os'. PosixSequentialFile_Read P junk f n result scratch os = Some (s, res, scratch', os') \<and>
    opened os' \<and> content os' = content os \<and> length scratch' = length scratch \<and>
    (Status_ok s \<longrightarrow> res = take (length res) (drop (pos os) (content os)) \<and> length res \<le> unat n \<and>
         pos os' = pos os + length res \<and> (res = [] \<longrightarrow> n = 0 \<or> length (content os) \<le> pos os)) \<and>
    (\<not> Status_ok s \<longrightarrow> res = result \<and> pos os' = pos os)"
  unfolding PosixSequentialFile_Read_def using assms(3,4)
proof (induction "stall os" arbitrary: scratch os rule: less_induct)
  case less
  obtain k buf os1 where k: "sys_read P (sf_fd f) scratch n os = (k, buf, os1)"
    by (metis prod_cases3)
  have d: "opened os1 \<and> content os1 = content os \<and> length buf = length scratch \<and>
        (if k < 0 then pos os1 = pos os \<and> (errno P os1 = EINTR \<longrightarrow> stall os1 < stall os)
         else (let got = take (nat k) (drop (pos os) (content os)) in
           nat k \<le> unat n \<and> length got = nat k \<and> (k = 0 \<longrightarrow> n = 0 \<or> length (content os) \<le> pos os) \<and>
           take (nat k) buf = got \<and> pos os1 = pos os + nat k))"
    using r less.prems k unfolding reads_on_def by blast
  consider "k < 0" "errno P os1 = EINTR" | "k < 0" "errno P os1 \<noteq> EINTR" | "0 \<le> k"
    by linarith
  then show ?case
  proof cases
    case 1
    then show ?thesis
      using less.hyps [of os1 buf] d less.prems k by (subst Sequential_Read_loop.simps) (simp add: Let_def)
  next
    case 2
    obtain e where "PosixError P junk (sf_filename f) (errno P os1) = Some e" "\<not> Status_ok e"
      by (rule PosixErrorE [OF t])
    then show ?thesis
      using 2 d k by (subst Sequential_Read_loop.simps) (simp add: Let_def)
  next
    case 3
    then have "mem_read buf 0 (nat k) = Some (take (nat k) (drop (pos os) (content os)))"
      using d less.prems by (simp add: mem_read_def Let_def)
    then show ?thesis
      using 3 d k by (subst Sequential_Read_loop.simps) (auto simp: Let_def Status_ok_def Status_OK_def)
  qed
qed

subsection \<open>Properties\<close>

text \<open>C25: what \<^verbatim>\<open>Read\<close> of a mapped file does for every offset and length: inside the file it returns the
  bytes there, and beyond the end it returns an error and an empty slice, unless the 64-bit sum of
  offset and length wraps around to a number within the file: then the check passes and the
  slice it would return lies outside the mapping.\<close>

theorem PosixMmapReadableFile_Read_exact:
  assumes "unat (mf_length f) = length (mmap_base f)" and "error_texts P (mf_filename f)"
  shows "PosixMmapReadableFile_Read P junk f offset n =
    (if unat offset + unat n \<le> length (mmap_base f) then Some (Status_OK, take (unat n) (drop (unat offset) (mmap_base f)))
     else if 2 ^ 64 \<le> unat offset + unat n \<and> unat offset + unat n - 2 ^ 64 \<le> length (mmap_base f) then None
     else Some (Some (status_block kIOError (status_message (mf_filename f) (strerror P EINVAL))), []))"
  using Mmap_Read_eq [OF assms] .

theorem PosixMmapReadableFile_Read_exact_witness:
  "PosixMmapReadableFile_Read slow_posix (\<lambda>_. 0) \<lparr>mmap_base = [7, 8, 9], mf_length = 3, mf_filename = []\<rparr> 1 2 = Some (Status_OK, [8, 9]) \<and>
   PosixMmapReadableFile_Read slow_posix (\<lambda>_. 0) \<lparr>mmap_base = [7, 8, 9], mf_length = 3, mf_filename = []\<rparr> (2 ^ 64 - 1) 2 = None"
  using PosixMmapReadableFile_Read_exact [of "\<lparr>mmap_base = [7, 8, 9], mf_length = 3, mf_filename = []\<rparr>" slow_posix "\<lambda>_. 0"]
  by (simp add: error_texts_def slow_posix_def null_posix_def)

text \<open>C26: reading a random access file with \<^verbatim>\<open>pread\<close>, whether or not it keeps its descriptor, whatever calls
  fail and however short the reads are, for every offset and length. \<^verbatim>\<open>Read\<close> returns and leaves the
  process with the descriptors and mappings it had. If it succeeds, the result is the bytes of the
  file at the offset, at most as many as asked for, and empty only for an empty request or at
  the end of the file; if it fails, the result is empty or untouched. Of a mapping of the same file,
  which returns all the bytes or an error, it returns a prefix.\<close>

theorem Posix_random_reads:
  assumes "reads_from P filename content opened" and "tracks P fds maps" and "error_texts P filename"
    and "rf_filename f = filename" and "if has_permanent_fd f then opened os (rf_fd f) \<and> 0 \<le> rf_fd f else rf_fd f = -1"
    and "length content < 2 ^ 63" and "unat n \<le> length scratch"
  shows "\<exists>s res scratch' os'. PosixRandomAccessFile_Read P junk f offset n result scratch os = Some (s, res, scratch', os') \<and>
    fds os' = fds os \<and> maps os' = maps os \<and> length scratch' = length scratch \<and>
    (Status_ok s \<longrightarrow> res = take (length res) (drop (unat offset) content) \<and> length res \<le> unat n \<and>
       (res = [] \<longrightarrow> n = 0 \<or> length content \<le> unat offset)) \<and>
    (\<not> Status_ok s \<longrightarrow> res = [] \<or> res = result) \<and>
    (\<forall>res'. PosixMmapReadableFile_Read P junk \<lparr>mmap_base = content, mf_length = word_of_nat (length content), mf_filename = filename\<rparr>
         offset n = Some (Status_OK, res') \<longrightarrow> length res' = unat n \<and> (Status_ok s \<longrightarrow> res = take (length res) res'))"
proof -
  let ?m = "\<lparr>mmap_base = content, mf_length = word_of_nat (length content), mf_filename = filename\<rparr>"
  obtain s res scratch' os' where 1: "PosixRandomAccessFile_Read P junk f offset n result scratch os = Some (s, res, scratch', os')"
    "length scratch' = length scratch" "\<not> Status_ok s \<longrightarrow> res = [] \<or> res = result"
    "Status_ok s \<longrightarrow> res = take (length res) (drop (unat offset) content) \<and> length res \<le> unat n \<and>
       (res = [] \<longrightarrow> n = 0 \<or> length content \<le> unat offset)"
    using RandomAccess_Read_spec [of P f content opened os n scratch junk offset result] assms by auto
  have "unat (mf_length ?m) = length content"
    using assms(6) by (simp add: unsigned_of_nat take_bit_nat_eq_self)
  then have m: "PosixMmapReadableFile_Read P junk ?m offset n = Some (Status_OK, res') \<Longrightarrow>
      unat offset + unat n \<le> length content \<and> res' = take (unat n) (drop (unat offset) content)" for res'
    using assms(3) Mmap_Read_eq [of ?m P junk offset n] by (auto simp: Status_OK_def split: if_splits)
  have "length res' = unat n \<and> (Status_ok s \<longrightarrow> res = take (length res) res')"
    if "PosixMmapReadableFile_Read P junk ?m offset n = Some (Status_OK, res')" for res'
    using m [OF that] 1(4) by (auto simp: min_def)
  then show ?thesis
    using 1 RandomAccess_Read_holds [OF assms(2) 1(1)] by blast
qed

text \<open>A process that can have two descriptors open, above the three standard ones, and reads one byte
  at a time of a file of three bytes.\<close>

definition table_posix :: "(int list \<times> (bytes \<times> u64) multiset) posix" where
  "table_posix = null_posix\<lparr>
     sys_open := (\<lambda>name flags (fds, maps). let fd = foldr max fds 2 + 1 in
       if length fds < 2 then (fd, fd # fds, maps) else (-1, fds, maps)),
     sys_close := (\<lambda>fd (fds, maps). (0, removeAll fd fds, maps)),
     sys_pread := (\<lambda>fd buf n off os. if off < 0 then (-1, buf, os)
       else let got = take (if n = 0 then 0 else 1) (drop (nat off) [7, 8, 9]) in (int (length got), got @ drop (length got) buf, os)),
     sys_stat := (\<lambda>name os. (0, 3, os)),
     sys_mmap := (\<lambda>len fd (fds, maps). if len = 3 then (Some [7, 8, 9], fds, add_mset ([7, 8, 9], len) maps) else (None, fds, maps)),
     sys_munmap := (\<lambda>base len (fds, maps). (0, fds, maps - {#(base, len)#}))\<rparr>"

lemma foldr_max_less: "x \<in> set xs \<Longrightarrow> x < foldr max xs a + (1 :: int)"
  by (induction xs) auto

lemma foldr_max_ge: "a \<le> foldr max xs (a :: int)"
  by (induction xs) auto

lemma table_posix_tracks: "tracks table_posix (set \<circ> fst) snd"
proof -
  have "\<not> foldr max fds 2 + 1 < 0" "foldr max fds 2 + 1 \<notin> set fds" for fds :: "int list"
    using foldr_max_ge [of 2 fds] foldr_max_less [of "foldr max fds 2 + 1" fds 2] by auto
  then show ?thesis
    by (auto simp: tracks_def table_posix_def Let_def split: if_splits)
qed

lemma table_posix_reads: "reads_from table_posix name [7, 8, 9] (\<lambda>os fd. 0 \<le> fd)"
proof -
  have "Suc 0 \<le> unat n" if "n \<noteq> 0" for n :: u64
    using that by (simp add: Suc_le_eq unat_gt_0)
  then have "Suc 0 \<le> unat n" "Suc 0 \<le> length buf" if "n \<noteq> 0" "unat n \<le> length buf" for n :: u64 and buf :: bytes
    using that by (meson le_trans)+
  then show ?thesis
    by (fastforce simp: reads_from_def table_posix_def Let_def split: if_splits)
qed

lemma table_posix_texts: "length name < 1000 \<Longrightarrow> error_texts table_posix name"
  by (simp add: error_texts_def table_posix_def null_posix_def)

theorem Posix_random_reads_witness:
  "\<exists>scratch'. PosixRandomAccessFile_Read table_posix (\<lambda>_. 0) \<lparr>has_permanent_fd = False, rf_fd = -1, rf_filename = []\<rparr>
     1 2 [] [0, 0] ([3], {#}) = Some (Status_OK, [8], scratch', [3], {#}) \<and> length scratch' = 2"
  using Posix_random_reads [OF table_posix_reads table_posix_tracks table_posix_texts, where os = "([3], {#})" and offset = 1 and n = 2
      and f = "\<lparr>has_permanent_fd = False, rf_fd = -1, rf_filename = []\<rparr>" and scratch = "[0, 0]" and junk = "\<lambda>_. 0" and result = "[]"]
  by (simp add: PosixRandomAccessFile_Read_def table_posix_def mem_read_def)

end
