(* ===== verification/PosixEnv.thy ===== *)
theory PosixEnv
  imports PosixReads
begin

text \<open>
  The environment \<^verbatim>\<open>PosixEnv\<close> of \<^verbatim>\<open>util/env_posix.cpp\<close>: opening and naming files, file locks, and the
  limits on open files. Its background thread is the theory \<open>Background\<close>.
\<close>

subsection \<open>Limits\<close>

text \<open>A build for 64-bit pointers, whose mapping limit is not changed.\<close>

definition kDefaultMmapLimit :: u32 where
  "kDefaultMmapLimit = 1000"

definition MaxMmaps :: "u32 \<Rightarrow> u32" where
  "MaxMmaps g_mmap_limit = g_mmap_limit"

definition RLIM_INFINITY :: u64 where
  "RLIM_INFINITY = - 1"

text \<open>The result, and the global limit after the call.\<close>

definition MaxOpenFiles :: "'o posix \<Rightarrow> u32 \<Rightarrow> 'o \<Rightarrow> u32 \<times> u32 \<times> 'o" where
  "MaxOpenFiles P g_open_read_only_file_limit os =
     (if 0 \<le> sint g_open_read_only_file_limit then (g_open_read_only_file_limit, g_open_read_only_file_limit, os)
      else let
        (failed, rlim_cur, os) = sys_getrlimit_nofile P os;
        g_open_read_only_file_limit =
          (if failed \<noteq> 0 then 50 else if rlim_cur = RLIM_INFINITY then 0x7fffffff else ucast (rlim_cur div 5))
      in (g_open_read_only_file_limit, g_open_read_only_file_limit, os))"

subsection \<open>The environment\<close>

record PosixFileLock =
  lock_fd :: int
  lock_filename :: bytes

type_synonym PosixLockTable = "bytes set"

record PosixEnv =
  locks :: PosixLockTable
  mmap_limiter :: Limiter
  fd_limiter :: Limiter

definition new_PosixEnv :: "u32 \<Rightarrow> u32 \<Rightarrow> PosixEnv option" where
  "new_PosixEnv max_mmaps max_open_files = do {
     ml \<leftarrow> new_Limiter max_mmaps;
     fl \<leftarrow> new_Limiter max_open_files;
     Some \<lparr>locks = {}, mmap_limiter = ml, fd_limiter = fl\<rparr>
   }"

definition LockTable_Insert :: "bytes \<Rightarrow> PosixLockTable \<Rightarrow> bool \<times> PosixLockTable" where
  "LockTable_Insert fname t = (fname \<notin> t, insert fname t)"

definition LockTable_Remove :: "bytes \<Rightarrow> PosixLockTable \<Rightarrow> PosixLockTable" where
  "LockTable_Remove fname t = t - {fname}"

definition LockOrUnlock :: "'o posix \<Rightarrow> int \<Rightarrow> bool \<Rightarrow> 'o \<Rightarrow> int \<times> 'o" where
  "LockOrUnlock P fd l os = sys_setlk P fd l (set_errno P 0 os)"

text \<open>A call that reports success by its result, as most calls on names do.\<close>

definition posix_call :: "'o posix \<Rightarrow> (nat \<Rightarrow> u8) \<Rightarrow> bytes \<Rightarrow> int \<times> 'o \<Rightarrow> (status \<times> 'o) option" where
  "posix_call P junk context result = (case result of (r, os) \<Rightarrow>
     if r \<noteq> 0 then do {
       status \<leftarrow> PosixError P junk context (errno P os);
       Some (status, os)
     }
     else Some (Status_OK, os))"

definition PosixEnv_NewSequentialFile ::
    "'o posix \<Rightarrow> (nat \<Rightarrow> u8) \<Rightarrow> bytes \<Rightarrow> 'o \<Rightarrow> (status \<times> PosixSequentialFile option \<times> 'o) option" where
  "PosixEnv_NewSequentialFile P junk filename os = (
     let (fd, os) = sys_open P filename (insert O_RDONLY (kOpenBaseFlags P)) os in
     if fd < 0 then do {
       status \<leftarrow> PosixError P junk filename (errno P os);
       Some (status, None, os)
     }
     else Some (Status_OK, Some \<lparr>sf_fd = fd, sf_filename = filename\<rparr>, os))"

definition PosixEnv_GetFileSize :: "'o posix \<Rightarrow> (nat \<Rightarrow> u8) \<Rightarrow> bytes \<Rightarrow> 'o \<Rightarrow> (status \<times> u64 \<times> 'o) option" where
  "PosixEnv_GetFileSize P junk filename os = (
     let (r, st_size, os) = sys_stat P filename os in
     if r \<noteq> 0 then do {
       status \<leftarrow> PosixError P junk filename (errno P os);
       Some (status, 0, os)
     }
     else Some (Status_OK, word_of_int st_size, os))"

datatype RandomAccessFile = Pread PosixRandomAccessFile | Mapped PosixMmapReadableFile

definition PosixEnv_NewRandomAccessFile ::
    "'o posix \<Rightarrow> (nat \<Rightarrow> u8) \<Rightarrow> bytes \<Rightarrow> PosixEnv \<Rightarrow> 'o \<Rightarrow> (status \<times> RandomAccessFile option \<times> PosixEnv \<times> 'o) option" where
  "PosixEnv_NewRandomAccessFile P junk filename env os = (
     let (fd, os) = sys_open P filename (insert O_RDONLY (kOpenBaseFlags P)) os in
     if fd < 0 then do {
       status \<leftarrow> PosixError P junk filename (errno P os);
       Some (status, None, env, os)
     }
     else do {
       (granted, ml) \<leftarrow> Acquire (mmap_limiter env);
       let env = env\<lparr>mmap_limiter := ml\<rparr>;
       if \<not> granted then do {
         (f, fl, os) \<leftarrow> new_PosixRandomAccessFile P filename fd (fd_limiter env) os;
         Some (Status_OK, Some (Pread f), env\<lparr>fd_limiter := fl\<rparr>, os)
       }
       else do {
         (status, file_size, os) \<leftarrow> PosixEnv_GetFileSize P junk filename os;
         (status, result, os) \<leftarrow> (if Status_ok status then
             case sys_mmap P file_size fd os of
               (Some base, os) \<Rightarrow> Some (status, Some (Mapped \<lparr>mmap_base = base, mf_length = file_size, mf_filename = filename\<rparr>), os)
             | (None, os) \<Rightarrow> do {
                 status \<leftarrow> PosixError P junk filename (errno P os);
                 Some (status, None, os)
               }
           else Some (status, None, os));
         let os = snd (sys_close P fd os);
         env \<leftarrow> (if \<not> Status_ok status then map_option (\<lambda>ml. env\<lparr>mmap_limiter := ml\<rparr>) (Release (mmap_limiter env)) else Some env);
         Some (status, result, env, os)
       }
     })"

text \<open>\<^verbatim>\<open>delete\<close> of a random access file.\<close>

fun RandomAccessFile_destroy ::
    "'o posix \<Rightarrow> RandomAccessFile \<Rightarrow> PosixEnv \<Rightarrow> 'o \<Rightarrow> (PosixEnv \<times> 'o) option" where
  "RandomAccessFile_destroy P (Pread f) env os = do {
     (fl, os) \<leftarrow> PosixRandomAccessFile_destructor P f (fd_limiter env) os;
     Some (env\<lparr>fd_limiter := fl\<rparr>, os)
   }"
| "RandomAccessFile_destroy P (Mapped f) env os = do {
     (ml, os) \<leftarrow> PosixMmapReadableFile_destructor P f (mmap_limiter env) os;
     Some (env\<lparr>mmap_limiter := ml\<rparr>, os)
   }"

definition PosixEnv_NewWritableFile ::
    "'o posix \<Rightarrow> (nat \<Rightarrow> u8) \<Rightarrow> bytes \<Rightarrow> 'o \<Rightarrow> (status \<times> PosixWritableFile option \<times> 'o) option" where
  "PosixEnv_NewWritableFile P junk filename os = (
     let (fd, os) = sys_open P filename ({O_TRUNC, O_WRONLY, O_CREAT} \<union> kOpenBaseFlags P) os in
     if fd < 0 then do {
       status \<leftarrow> PosixError P junk filename (errno P os);
       Some (status, None, os)
     }
     else do {
       f \<leftarrow> new_PosixWritableFile junk filename fd;
       Some (Status_OK, Some f, os)
     })"

definition PosixEnv_NewAppendableFile ::
    "'o posix \<Rightarrow> (nat \<Rightarrow> u8) \<Rightarrow> bytes \<Rightarrow> 'o \<Rightarrow> (status \<times> PosixWritableFile option \<times> 'o) option" where
  "PosixEnv_NewAppendableFile P junk filename os = (
     let (fd, os) = sys_open P filename ({O_APPEND, O_WRONLY, O_CREAT} \<union> kOpenBaseFlags P) os in
     if fd < 0 then do {
       status \<leftarrow> PosixError P junk filename (errno P os);
       Some (status, None, os)
     }
     else do {
       f \<leftarrow> new_PosixWritableFile junk filename fd;
       Some (Status_OK, Some f, os)
     })"

definition PosixEnv_FileExists :: "'o posix \<Rightarrow> bytes \<Rightarrow> 'o \<Rightarrow> bool \<times> 'o" where
  "PosixEnv_FileExists P filename os = (let (r, os) = sys_access P filename os in (r = 0, os))"

text \<open>The loop over the entries of an open directory; \<^term>\<open>None\<close> for a directory without end.\<close>

partial_function (option) readdir_loop :: "'o posix \<Rightarrow> nat \<Rightarrow> bytes list \<Rightarrow> 'o \<Rightarrow> (bytes list \<times> 'o) option" where
  [code]: "readdir_loop P dir result os = (case sys_readdir P dir os of
     (None, os) \<Rightarrow> Some (result, os)
   | (Some d_name, os) \<Rightarrow> readdir_loop P dir (result @ [d_name]) os)"

definition PosixEnv_GetChildren ::
    "'o posix \<Rightarrow> (nat \<Rightarrow> u8) \<Rightarrow> bytes \<Rightarrow> 'o \<Rightarrow> (status \<times> bytes list \<times> 'o) option" where
  "PosixEnv_GetChildren P junk directory_path os = (case sys_opendir P directory_path os of
     (None, os) \<Rightarrow> do {
       status \<leftarrow> PosixError P junk directory_path (errno P os);
       Some (status, [], os)
     }
   | (Some dir, os) \<Rightarrow> do {
       (result, os) \<leftarrow> readdir_loop P dir [] os;
       Some (Status_OK, result, snd (sys_closedir P dir os))
     })"

definition PosixEnv_RemoveFile :: "'o posix \<Rightarrow> (nat \<Rightarrow> u8) \<Rightarrow> bytes \<Rightarrow> 'o \<Rightarrow> (status \<times> 'o) option" where
  "PosixEnv_RemoveFile P junk filename os = posix_call P junk filename (sys_unlink P filename os)"

definition PosixEnv_CreateDir :: "'o posix \<Rightarrow> (nat \<Rightarrow> u8) \<Rightarrow> bytes \<Rightarrow> 'o \<Rightarrow> (status \<times> 'o) option" where
  "PosixEnv_CreateDir P junk dirname os = posix_call P junk dirname (sys_mkdir P dirname os)"

definition PosixEnv_RemoveDir :: "'o posix \<Rightarrow> (nat \<Rightarrow> u8) \<Rightarrow> bytes \<Rightarrow> 'o \<Rightarrow> (status \<times> 'o) option" where
  "PosixEnv_RemoveDir P junk dirname os = posix_call P junk dirname (sys_rmdir P dirname os)"

definition PosixEnv_RenameFile :: "'o posix \<Rightarrow> (nat \<Rightarrow> u8) \<Rightarrow> bytes \<Rightarrow> bytes \<Rightarrow> 'o \<Rightarrow> (status \<times> 'o) option" where
  "PosixEnv_RenameFile P junk from to os = posix_call P junk from (sys_rename P from to os)"

definition PosixEnv_LockFile ::
    "'o posix \<Rightarrow> (nat \<Rightarrow> u8) \<Rightarrow> bytes \<Rightarrow> PosixEnv \<Rightarrow> 'o \<Rightarrow> (status \<times> PosixFileLock option \<times> PosixEnv \<times> 'o) option" where
  "PosixEnv_LockFile P junk filename env os = (
     let (fd, os) = sys_open P filename ({O_RDWR, O_CREAT} \<union> kOpenBaseFlags P) os in
     if fd < 0 then do {
       status \<leftarrow> PosixError P junk filename (errno P os);
       Some (status, None, env, os)
     }
     else let (inserted, t) = LockTable_Insert filename (locks env); env = env\<lparr>locks := t\<rparr> in
       if \<not> inserted then do {
         let os = snd (sys_close P fd os);
         status \<leftarrow> Status_IOError junk (ascii ''lock '' @ filename) (ascii ''already held by process'');
         Some (status, None, env, os)
       }
       else let (r, os) = LockOrUnlock P fd True os in
         if r = -1 then do {
           let lock_errno = errno P os;
           let os = snd (sys_close P fd os);
           let env = env\<lparr>locks := LockTable_Remove filename (locks env)\<rparr>;
           status \<leftarrow> PosixError P junk (ascii ''lock '' @ filename) lock_errno;
           Some (status, None, env, os)
         }
         else Some (Status_OK, Some \<lparr>lock_fd = fd, lock_filename = filename\<rparr>, env, os))"

definition PosixEnv_UnlockFile ::
    "'o posix \<Rightarrow> (nat \<Rightarrow> u8) \<Rightarrow> PosixFileLock \<Rightarrow> PosixEnv \<Rightarrow> 'o \<Rightarrow> (status \<times> PosixEnv \<times> 'o) option" where
  "PosixEnv_UnlockFile P junk lk env os = (
     let (r, os) = LockOrUnlock P (lock_fd lk) False os in
     if r = -1 then do {
       status \<leftarrow> PosixError P junk (ascii ''unlock '' @ lock_filename lk) (errno P os);
       Some (status, env, os)
     }
     else Some (Status_OK, env\<lparr>locks := LockTable_Remove (lock_filename lk) (locks env)\<rparr>, snd (sys_close P (lock_fd lk) os)))"

text \<open>\<^verbatim>\<open>%d\<close> of a 32-bit integer; \<^verbatim>\<open>snprintf\<close> into a buffer of 100 bytes.\<close>

definition decimal_int :: "u32 \<Rightarrow> bytes" where
  "decimal_int i = (if sint i < 0 then ascii ''-'' else []) @ decimal (nat \<bar>sint i\<bar>)"

definition PosixEnv_GetTestDirectory :: "'o posix \<Rightarrow> (nat \<Rightarrow> u8) \<Rightarrow> 'o \<Rightarrow> (status \<times> bytes \<times> 'o) option" where
  "PosixEnv_GetTestDirectory P junk os = do {
     let result = (case sys_getenv P (ascii ''TEST_TMPDIR'') os of
       Some env \<Rightarrow> if env \<noteq> [] then env else take 99 (ascii ''/tmp/lldbtest-'' @ decimal_int (sys_geteuid P os))
     | None \<Rightarrow> take 99 (ascii ''/tmp/lldbtest-'' @ decimal_int (sys_geteuid P os)));
     (_, os) \<leftarrow> PosixEnv_CreateDir P junk result os;
     Some (Status_OK, result, os)
   }"

text \<open>The \<^verbatim>\<open>FILE*\<close> a logger is made from.\<close>

definition PosixEnv_NewLogger :: "'o posix \<Rightarrow> (nat \<Rightarrow> u8) \<Rightarrow> bytes \<Rightarrow> 'o \<Rightarrow> (status \<times> nat option \<times> 'o) option" where
  "PosixEnv_NewLogger P junk filename os = (
     let (fd, os) = sys_open P filename ({O_APPEND, O_WRONLY, O_CREAT} \<union> kOpenBaseFlags P) os in
     if fd < 0 then do {
       status \<leftarrow> PosixError P junk filename (errno P os);
       Some (status, None, os)
     }
     else case sys_fdopen P fd os of
       (None, os) \<Rightarrow> do {
         let os = snd (sys_close P fd os);
         status \<leftarrow> PosixError P junk filename (errno P os);
         Some (status, None, os)
       }
     | (Some fp, os) \<Rightarrow> Some (Status_OK, Some fp, os))"

definition PosixEnv_NowMicros :: "'o posix \<Rightarrow> 'o \<Rightarrow> u64 \<times> 'o" where
  "PosixEnv_NowMicros P os = (let ((tv_sec, tv_usec), os) = sys_gettimeofday P os in
     (word_of_int tv_sec * 1000000 + word_of_int tv_usec, os))"

text \<open>The limit is not negative, as the constructor of the limiter asserts, unless a fifth of the
  descriptors the process may open does not fit into an \<^verbatim>\<open>int\<close>.\<close>

lemma MaxOpenFiles_nonneg:
  assumes "MaxOpenFiles P g os = (limit, g', os')" and "\<And>r cur os''. sys_getrlimit_nofile P os = (r, cur, os'') \<Longrightarrow> unat cur < 5 * 2 ^ 31 \<or> cur = RLIM_INFINITY"
  shows "0 \<le> sint limit \<and> g' = limit"
proof -
  obtain r cur os1 where 1: "sys_getrlimit_nofile P os = (r, cur, os1)"
    by (metis prod_cases3)
  have "0 \<le> sint (ucast (cur div 5) :: u32)" if "cur \<noteq> RLIM_INFINITY"
  proof -
    have d: "unat (cur div 5) < 2 ^ 31"
      using assms(2) [OF 1] that by (simp add: unat_div less_mult_imp_div_less)
    then have "unat (ucast (cur div 5) :: u32) < 2 ^ 31"
      by (simp add: unsigned_ucast_eq take_bit_nat_eq_self)
    then show ?thesis
      using not_bit_if_less_pow [of "ucast (cur div 5) :: u32" 31 31] bit_last_iff [of "ucast (cur div 5) :: u32"] by simp
  qed
  then show ?thesis
    using assms(1) 1 by (auto simp: MaxOpenFiles_def Let_def split: if_splits)
qed

lemma MaxOpenFiles_negative:
  "MaxOpenFiles (null_posix\<lparr>sys_getrlimit_nofile := (\<lambda>os. (0, 5 * 2 ^ 31, os))\<rparr>) (- 1) () = (2 ^ 31, 2 ^ 31, ()) \<and> new_Limiter (2 ^ 31) = None"
  by (simp add: MaxOpenFiles_def RLIM_INFINITY_def new_Limiter_def)

subsection \<open>Open files and their limits\<close>

text \<open>The random access files a process has open, the descriptors and mappings they keep, and what the
  process can do with them: open another one, read one, delete one.\<close>

fun kept_fd :: "RandomAccessFile \<Rightarrow> int list" where
  "kept_fd (Mapped f) = []"
| "kept_fd (Pread f) = (if has_permanent_fd f then [rf_fd f] else [])"

fun kept_map :: "RandomAccessFile \<Rightarrow> (bytes \<times> u64) list" where
  "kept_map (Mapped f) = [(mmap_base f, mf_length f)]"
| "kept_map (Pread f) = []"

abbreviation kept_fds :: "RandomAccessFile list \<Rightarrow> int list" where
  "kept_fds fs \<equiv> concat (map kept_fd fs)"

abbreviation kept_maps :: "RandomAccessFile list \<Rightarrow> (bytes \<times> u64) list" where
  "kept_maps fs \<equiv> concat (map kept_map fs)"

record 'o env_files =
  e_env :: PosixEnv
  e_files :: "RandomAccessFile list"
  e_os :: 'o

inductive files_step :: "'o posix \<Rightarrow> (nat \<Rightarrow> u8) \<Rightarrow> 'o env_files \<Rightarrow> 'o env_files \<Rightarrow> bool" for P junk where
  open_file: "files_step P junk s \<lparr>e_env = env, e_files = (case result of Some f \<Rightarrow> f # e_files s | None \<Rightarrow> e_files s), e_os = os\<rparr>"
    if "PosixEnv_NewRandomAccessFile P junk filename (e_env s) (e_os s) = Some (status, result, env, os)"
      and "error_texts P filename"
| read_file: "files_step P junk s (s\<lparr>e_os := os\<rparr>)"
    if "Pread f \<in> set (e_files s)" and "PosixRandomAccessFile_Read P junk f offset n result scratch (e_os s) = Some (status, res, scratch', os)"
| delete_file: "files_step P junk s \<lparr>e_env = env, e_files = xs @ ys, e_os = os\<rparr>"
    if "e_files s = xs @ f # ys" and "RandomAccessFile_destroy P f (e_env s) (e_os s) = Some (env, os)"

text \<open>The limiters count what the files keep, and the process holds that and what it held before.\<close>

definition files_ok :: "u32 \<Rightarrow> u32 \<Rightarrow> PosixEnv \<Rightarrow> RandomAccessFile list \<Rightarrow> bool" where
  "files_ok m n env fs \<longleftrightarrow> lim_used m (length (kept_maps fs)) (mmap_limiter env) \<and>
     lim_used n (length (kept_fds fs)) (fd_limiter env) \<and> (\<forall>fd \<in> set (kept_fds fs). 0 \<le> fd)"

definition files_held :: "int set \<Rightarrow> (bytes \<times> u64) multiset \<Rightarrow> int set \<Rightarrow> (bytes \<times> u64) multiset \<Rightarrow> RandomAccessFile list \<Rightarrow> bool" where
  "files_held F0 M0 F M fs \<longleftrightarrow> distinct (kept_fds fs) \<and> set (kept_fds fs) \<inter> F0 = {} \<and> F = F0 \<union> set (kept_fds fs) \<and>
     M = M0 + mset (kept_maps fs)"

lemma new_PosixRandomAccessFile_used:
  assumes "lim_used n k l" and "0 \<le> fd" and "tracks P fds maps"
  obtains f l' os' where "new_PosixRandomAccessFile P filename fd l os = Some (f, l', os')"
    and "lim_used n (k + length (kept_fd (Pread f))) l'"
    and "kept_fd (Pread f) = [] \<and> fds os' = fds os - {fd} \<or> kept_fd (Pread f) = [fd] \<and> fds os' = fds os" and "maps os' = maps os"
  using assms(2) tracks_close [OF assms(3), of fd os] by (cases rule: Acquire_used [OF assms(1)])
    (auto simp: new_PosixRandomAccessFile_def split: if_splits)

lemma GetFileSizeE:
  assumes "error_texts P filename" and "tracks P fds maps"
  obtains s size os' where "PosixEnv_GetFileSize P junk filename os = Some (s, size, os')" and "fds os' = fds os" and "maps os' = maps os"
proof -
  obtain r z os1 where 1: "sys_stat P filename os = (r, z, os1)"
    by (metis prod_cases3)
  moreover obtain e where "PosixError P junk filename (errno P os1) = Some e"
    by (rule PosixErrorE [OF assms(1)])
  ultimately show ?thesis
    using that tracks_stat [OF assms(2) 1] by (cases "r = 0") (auto simp: PosixEnv_GetFileSize_def)
qed

text \<open>The descriptor of the call is closed, except for a file that keeps it, and is new.\<close>

lemma NewRandomAccessFile_ok:
  assumes ok: "files_ok m n env fs" and t: "error_texts P filename" and tr: "tracks P fds maps"
  obtains status result env' os' where "PosixEnv_NewRandomAccessFile P junk filename env os = Some (status, result, env', os')"
    and "files_ok m n env' (case result of Some f \<Rightarrow> f # fs | None \<Rightarrow> fs)" and "result = None \<longleftrightarrow> \<not> Status_ok status"
    and "fds os' = fds os \<union> set (case result of Some f \<Rightarrow> kept_fd f | None \<Rightarrow> [])"
    and "set (case result of Some f \<Rightarrow> kept_fd f | None \<Rightarrow> []) \<inter> fds os = {}"
    and "maps os' = maps os + mset (case result of Some f \<Rightarrow> kept_map f | None \<Rightarrow> [])"
proof -
  obtain fd os1 where 1: "sys_open P filename (insert O_RDONLY (kOpenBaseFlags P)) os = (fd, os1)"
    by force
  note opened = tracks_open [OF tr 1] and closed = tracks_close [OF tr, of fd]
  let ?k = "length (kept_maps fs)"
  obtain ml where ml: "Acquire (mmap_limiter env) = Some (int ?k < sint m, ml)"
    "lim_used m (if int ?k < sint m then ?k + 1 else ?k) ml"
    using ok Acquire_used [of m ?k "mmap_limiter env"] by (auto simp: files_ok_def)
  consider "fd < 0" | "0 \<le> fd" "\<not> int ?k < sint m" | "0 \<le> fd" "int ?k < sint m"
    by linarith
  then show ?thesis
  proof cases
    case bad: 1
    obtain e where "PosixError P junk filename (errno P os1) = Some e" "\<not> Status_ok e"
      by (rule PosixErrorE [OF t])
    then show ?thesis
      using that [of e None env os1] bad 1 ok opened by (simp add: PosixEnv_NewRandomAccessFile_def)
  next
    case full: 2
    obtain f l' os' where f: "new_PosixRandomAccessFile P filename fd (fd_limiter env) os1 = Some (f, l', os')"
      "lim_used n (length (kept_fds fs) + length (kept_fd (Pread f))) l'"
      "kept_fd (Pread f) = [] \<and> fds os' = fds os1 - {fd} \<or> kept_fd (Pread f) = [fd] \<and> fds os' = fds os1" "maps os' = maps os1"
      using new_PosixRandomAccessFile_used [of n "length (kept_fds fs)" "fd_limiter env" fd P fds maps filename os1] ok full tr
      by (auto simp: files_ok_def)
    then have "files_ok m n (env\<lparr>mmap_limiter := ml, fd_limiter := l'\<rparr>) (Pread f # fs)"
      using ok ml full by (auto simp: files_ok_def add.commute simp del: kept_fd.simps)
    then show ?thesis
      using that [of Status_OK "Some (Pread f)" "env\<lparr>mmap_limiter := ml, fd_limiter := l'\<rparr>" os'] full 1 ml f opened
      by (auto simp: PosixEnv_NewRandomAccessFile_def Status_ok_def Status_OK_def simp del: kept_fd.simps)
  next
    case room: 3
    obtain s size os2 where 2: "PosixEnv_GetFileSize P junk filename os1 = Some (s, size, os2)" "fds os2 = fds os1" "maps os2 = maps os1"
      by (rule GetFileSizeE [OF t tr])
    obtain base os3 where 3: "sys_mmap P size fd os2 = (base, os3)"
      by force
    note mapped = tracks_mmap [OF tr 3]
    obtain e where e: "PosixError P junk filename (errno P os3) = Some e" "\<not> Status_ok e"
      by (rule PosixErrorE [OF t])
    obtain ml' where ml': "Release ml = Some ml'" "lim_used m ?k ml'"
      using Release_used [of m "?k + 1" ml] ml(2) room by auto
    let ?env = "env\<lparr>mmap_limiter := ml\<rparr>" and ?env' = "env\<lparr>mmap_limiter := ml'\<rparr>"
    have restored: "files_ok m n ?env' fs"
      using ok ml' by (simp add: files_ok_def)
    show ?thesis
    proof (cases "Status_ok s")
      case False
      then show ?thesis
        using that [of s None ?env' "snd (sys_close P fd os2)"] room 1 2 ml ml' restored opened closed
        by (simp add: PosixEnv_NewRandomAccessFile_def)
    next
      case True
      show ?thesis
      proof (cases base)
        case None
        then show ?thesis
          using that [of e None ?env' "snd (sys_close P fd os3)"] True room 1 2 3 ml ml' restored e opened closed mapped
          by (simp add: PosixEnv_NewRandomAccessFile_def)
      next
        case (Some b)
        let ?f = "Mapped \<lparr>mmap_base = b, mf_length = size, mf_filename = filename\<rparr>"
        have "files_ok m n ?env (?f # fs)"
          using ok ml room by (simp add: files_ok_def)
        then show ?thesis
          using that [of s "Some ?f" ?env "snd (sys_close P fd os3)"] Some True room 1 2 3 ml opened closed mapped
          by (simp add: PosixEnv_NewRandomAccessFile_def)
      qed
    qed
  qed
qed

lemma RandomAccessFile_destroy_ok:
  assumes ok: "files_ok m n env (xs @ f # ys)" and tr: "tracks P fds maps" and held: "set_mset (mset (kept_map f)) \<subseteq> set_mset (maps os)"
  obtains env' os' where "RandomAccessFile_destroy P f env os = Some (env', os')" and "files_ok m n env' (xs @ ys)"
    and "fds os' = fds os - set (kept_fd f)" and "maps os' = maps os - mset (kept_map f)"
proof (cases f)
  case (Mapped g)
  let ?k = "length (kept_maps (xs @ f # ys))"
  obtain l where "Release (mmap_limiter env) = Some l" "lim_used m (?k - 1) l"
    using ok Mapped Release_used [of m ?k "mmap_limiter env"] by (auto simp: files_ok_def)
  then show ?thesis
    using that [of "env\<lparr>mmap_limiter := l\<rparr>"] ok Mapped held tracks_munmap [OF tr, of "mmap_base g" "mf_length g" os]
    by (auto simp: PosixMmapReadableFile_destructor_def files_ok_def)
next
  case (Pread g)
  show ?thesis
  proof (cases "has_permanent_fd g")
    case True
    let ?k = "length (kept_fds (xs @ f # ys))"
    obtain l where "Release (fd_limiter env) = Some l" "lim_used n (?k - 1) l"
      using ok Pread True Release_used [of n ?k "fd_limiter env"] by (auto simp: files_ok_def)
    moreover have "rf_fd g \<noteq> -1"
      using ok Pread True by (auto simp: files_ok_def)
    ultimately show ?thesis
      using that [of "env\<lparr>fd_limiter := l\<rparr>"] ok Pread True tracks_close [OF tr, of "rf_fd g" os]
      by (auto simp: PosixRandomAccessFile_destructor_def files_ok_def)
  next
    case False
    then show ?thesis
      using that [of env os] ok Pread by (auto simp: PosixRandomAccessFile_destructor_def files_ok_def)
  qed
qed

lemma files_held_insert:
  assumes "files_held F0 M0 F M fs" and "F' = F \<union> set (kept_fd f)" and "set (kept_fd f) \<inter> F = {}" and "M' = M + mset (kept_map f)"
  shows "files_held F0 M0 F' M' (f # fs)"
  using assms by (cases f) (auto simp: files_held_def)

lemma files_held_remove:
  assumes "files_held F0 M0 F M (xs @ f # ys)" and "F' = F - set (kept_fd f)" and "M' = M - mset (kept_map f)"
  shows "files_held F0 M0 F' M' (xs @ ys)"
  using assms by (auto simp: files_held_def)

lemma files_step_ok:
  assumes "files_step P junk s s'" and tr: "tracks P fds maps" and ok: "files_ok m n (e_env s) (e_files s)"
    and held: "files_held F0 M0 (fds (e_os s)) (maps (e_os s)) (e_files s)"
  shows "files_ok m n (e_env s') (e_files s') \<and> files_held F0 M0 (fds (e_os s')) (maps (e_os s')) (e_files s')"
  using assms(1)
proof cases
  case (open_file filename status result env os)
  have "files_ok m n env (case result of Some f \<Rightarrow> f # e_files s | None \<Rightarrow> e_files s)"
    "fds os = fds (e_os s) \<union> set (case result of Some f \<Rightarrow> kept_fd f | None \<Rightarrow> [])"
    "set (case result of Some f \<Rightarrow> kept_fd f | None \<Rightarrow> []) \<inter> fds (e_os s) = {}"
    "maps os = maps (e_os s) + mset (case result of Some f \<Rightarrow> kept_map f | None \<Rightarrow> [])"
    by (rule NewRandomAccessFile_ok [OF ok open_file(3) tr, of junk "e_os s"], use open_file(2) in simp)+
  then show ?thesis
    using open_file(1) held files_held_insert [OF held] by (cases result) auto
next
  case (read_file f offset n result scratch status res scratch' os)
  then show ?thesis
    using RandomAccess_Read_holds [OF tr read_file(3)] ok held by simp
next
  case (delete_file xs f ys env os)
  have "set_mset (mset (kept_map f)) \<subseteq> set_mset (maps (e_os s))"
    using held delete_file(2) by (auto simp: files_held_def)
  then obtain env' os' where "RandomAccessFile_destroy P f (e_env s) (e_os s) = Some (env', os')" "files_ok m n env' (xs @ ys)"
    "fds os' = fds (e_os s) - set (kept_fd f)" "maps os' = maps (e_os s) - mset (kept_map f)"
    using RandomAccessFile_destroy_ok [of m n "e_env s" xs f ys P fds maps "e_os s"] ok tr delete_file(2) by metis
  then show ?thesis
    using held delete_file files_held_remove [of F0 M0 "fds (e_os s)" "maps (e_os s)" xs f ys] by simp
qed

lemma files_reachable_ok:
  assumes "(files_step P junk)\<^sup>*\<^sup>* \<lparr>e_env = env, e_files = [], e_os = os\<rparr> s" and "new_PosixEnv m n = Some env" and "tracks P fds maps"
  shows "files_ok m n (e_env s) (e_files s) \<and> files_held (fds os) (maps os) (fds (e_os s)) (maps (e_os s)) (e_files s)"
  using assms(1)
proof (induction rule: rtranclp_induct)
  case base
  then show ?case
    using assms(2) new_Limiter_used by (auto simp: new_PosixEnv_def files_ok_def files_held_def bind_eq_Some_conv)
next
  case (step s s')
  then show ?case
    using files_step_ok assms(3) by blast
qed

subsection \<open>Locks\<close>

lemma lock_texts:
  assumes "\<forall>e. length filename + length (strerror P e) + 60 < 2 ^ 32"
  shows "error_texts P filename" and "error_texts P (ascii ''lock '' @ filename)" and "error_texts P (ascii ''unlock '' @ filename)"
    and "length filename + 60 < 2 ^ 32"
proof -
  have near: "error_texts P (pre @ filename)" if "length pre \<le> 7" for pre
    unfolding error_texts_def
  proof
    fix e
    show "length (pre @ filename) + length (strerror P e) + 7 < 2 ^ 32"
      using assms [rule_format, of e] that unfolding length_append by linarith
  qed
  show "error_texts P filename" "error_texts P (ascii ''lock '' @ filename)" "error_texts P (ascii ''unlock '' @ filename)"
    using near [of "[]"] near [of "ascii ''lock ''"] near [of "ascii ''unlock ''"] by simp_all
  show "length filename + 60 < 2 ^ 32"
    using assms [rule_format, of 0] by linarith
qed

lemma LockFile_cases:
  assumes "\<forall>e. length filename + length (strerror P e) + 60 < 2 ^ 32"
  obtains (refused) s os' where "PosixEnv_LockFile P junk filename env os = Some (s, None, env, os')" and "\<not> Status_ok s"
  | (locked) fd os' where "PosixEnv_LockFile P junk filename env os =
      Some (Status_OK, Some \<lparr>lock_fd = fd, lock_filename = filename\<rparr>, env\<lparr>locks := insert filename (locks env)\<rparr>, os')"
    and "0 \<le> fd" and "filename \<notin> locks env"
proof -
  note t = lock_texts [OF assms]
  obtain fd os1 where 1: "sys_open P filename ({O_RDWR, O_CREAT} \<union> kOpenBaseFlags P) os = (fd, os1)"
    by force
  obtain r os2 where 2: "LockOrUnlock P fd True os1 = (r, os2)"
    by force
  consider "fd < 0" | "0 \<le> fd" "filename \<in> locks env" | "0 \<le> fd" "filename \<notin> locks env" "r = -1" |
    "0 \<le> fd" "filename \<notin> locks env" "r \<noteq> -1"
    by linarith
  then show ?thesis
  proof cases
    case bad: 1
    obtain e where "PosixError P junk filename (errno P os1) = Some e" "\<not> Status_ok e"
      by (rule PosixErrorE [OF t(1)])
    then show ?thesis
      using refused [of e os1] bad 1 by (simp add: PosixEnv_LockFile_def)
  next
    case held: 2
    have "Status_IOError junk (ascii ''lock '' @ filename) (ascii ''already held by process'') =
        Some (Some (status_block kIOError (status_message (ascii ''lock '' @ filename) (ascii ''already held by process''))))"
      unfolding Status_IOError_def using t(4) by (intro new_Status_eq) simp_all
    then show ?thesis
      using refused [of _ "snd (sys_close P fd os1)"] held 1
      by (simp add: PosixEnv_LockFile_def LockTable_Insert_def insert_absorb Status_ok_def del: ascii_simps)
  next
    case failed: 3
    obtain e where "PosixError P junk (ascii ''lock '' @ filename) (errno P os2) = Some e" "\<not> Status_ok e"
      by (rule PosixErrorE [OF t(2)])
    then show ?thesis
      using refused [of e "snd (sys_close P fd os2)"] failed 1 2
      by (simp add: PosixEnv_LockFile_def LockTable_Insert_def LockTable_Remove_def del: ascii_simps)
  next
    case ok: 4
    then show ?thesis
      using locked [of fd os2] 1 2 by (simp add: PosixEnv_LockFile_def LockTable_Insert_def)
  qed
qed

lemma UnlockFile_cases:
  assumes "\<forall>e. length (lock_filename lk) + length (strerror P e) + 60 < 2 ^ 32"
  obtains (kept) s os' where "PosixEnv_UnlockFile P junk lk env os = Some (s, env, os')" and "\<not> Status_ok s"
  | (released) os' where "PosixEnv_UnlockFile P junk lk env os =
      Some (Status_OK, env\<lparr>locks := locks env - {lock_filename lk}\<rparr>, os')"
proof -
  obtain r os1 where 1: "LockOrUnlock P (lock_fd lk) False os = (r, os1)"
    by force
  obtain e where "PosixError P junk (ascii ''unlock '' @ lock_filename lk) (errno P os1) = Some e" "\<not> Status_ok e"
    by (rule PosixErrorE [OF lock_texts(3) [OF assms]])
  then show ?thesis
    using kept [of e os1] released [of "snd (sys_close P (lock_fd lk) os1)"] 1
    by (cases "r = -1") (simp_all add: PosixEnv_UnlockFile_def LockTable_Remove_def del: ascii_simps)
qed

text \<open>The locks a process holds, and what it can do with them.\<close>

record 'o env_locks =
  k_env :: PosixEnv
  k_locks :: "PosixFileLock list"
  k_os :: 'o

inductive locks_step :: "'o posix \<Rightarrow> (nat \<Rightarrow> u8) \<Rightarrow> 'o env_locks \<Rightarrow> 'o env_locks \<Rightarrow> bool" for P junk where
  lock_file: "locks_step P junk s \<lparr>k_env = env, k_locks = (case lk of Some l \<Rightarrow> l # k_locks s | None \<Rightarrow> k_locks s), k_os = os\<rparr>"
    if "PosixEnv_LockFile P junk filename (k_env s) (k_os s) = Some (status, lk, env, os)"
      and "\<forall>e. length filename + length (strerror P e) + 60 < 2 ^ 32"
| unlock_file: "locks_step P junk s \<lparr>k_env = env, k_locks = (if Status_ok status then xs @ ys else k_locks s), k_os = os\<rparr>"
    if "k_locks s = xs @ l # ys" and "PosixEnv_UnlockFile P junk l (k_env s) (k_os s) = Some (status, env, os)"

definition locks_ok :: "'o posix \<Rightarrow> 'o env_locks \<Rightarrow> bool" where
  "locks_ok P s \<longleftrightarrow> distinct (map lock_filename (k_locks s)) \<and> locks (k_env s) = lock_filename ` set (k_locks s) \<and>
     (\<forall>l \<in> set (k_locks s). \<forall>e. length (lock_filename l) + length (strerror P e) + 60 < 2 ^ 32)"

lemma locks_step_ok:
  assumes "locks_step P junk s s'" and ok: "locks_ok P s"
  shows "locks_ok P s'"
  using assms(1)
proof cases
  case (lock_file filename status lk env os)
  then show ?thesis
    using ok by (cases rule: LockFile_cases [OF lock_file(3), of junk "k_env s" "k_os s"]) (auto simp: locks_ok_def)
next
  case (unlock_file xs l ys status env os)
  have t: "\<forall>e. length (lock_filename l) + length (strerror P e) + 60 < 2 ^ 32"
    using ok unlock_file(2) by (simp add: locks_ok_def)
  show ?thesis
    using unlock_file ok by (cases rule: UnlockFile_cases [OF t, of junk "k_env s" "k_os s"])
      ((auto simp: locks_ok_def Status_ok_def Status_OK_def)[1], auto simp: locks_ok_def Status_ok_def Status_OK_def, (metis image_eqI)+)
qed

lemma locks_reachable_ok:
  assumes "(locks_step P junk)\<^sup>*\<^sup>* \<lparr>k_env = env, k_locks = [], k_os = os\<rparr> s" and "locks env = {}"
  shows "locks_ok P s"
  using assms(1)
proof (induction rule: rtranclp_induct)
  case base
  then show ?case
    using assms(2) by (simp add: locks_ok_def)
next
  case (step s s')
  then show ?case
    using locks_step_ok by blast
qed

subsection \<open>Record locks\<close>

text \<open>What POSIX says of \<^verbatim>\<open>fcntl\<close> locks: \<open>path os fd\<close> is the file an open descriptor refers to and
  \<open>klocks os\<close> the files this process has locked. Closing any descriptor of a file releases the
  process's lock on it.\<close>

definition record_locks :: "'o posix \<Rightarrow> ('o \<Rightarrow> int \<Rightarrow> bytes option) \<Rightarrow> ('o \<Rightarrow> bytes set) \<Rightarrow> bool" where
  "record_locks P path klocks \<longleftrightarrow>
     (\<forall>name flags os fd os'. sys_open P name flags os = (fd, os') \<longrightarrow> 0 \<le> fd \<longrightarrow> path os' fd = Some name \<and> klocks os' = klocks os) \<and>
     (\<forall>fd os r os' name. sys_close P fd os = (r, os') \<longrightarrow> path os fd = Some name \<longrightarrow> klocks os' = klocks os - {name}) \<and>
     (\<forall>fd os os' r name. sys_setlk P fd True os = (r, os') \<longrightarrow> path os fd = Some name \<longrightarrow> r \<noteq> -1 \<longrightarrow> klocks os' = insert name (klocks os)) \<and>
     (\<forall>e os. path (set_errno P e os) = path os \<and> klocks (set_errno P e os) = klocks os)"

lemma LockFile_takes_kernel_lock:
  assumes k: "record_locks P path klocks" and lk: "PosixEnv_LockFile P junk filename env os = Some (s, Some l, env', os')"
  shows "filename \<in> klocks os'" and "filename \<in> locks env'"
proof -
  obtain fd os1 where 1: "sys_open P filename ({O_RDWR, O_CREAT} \<union> kOpenBaseFlags P) os = (fd, os1)"
    by force
  obtain r os2 where 2: "LockOrUnlock P fd True os1 = (r, os2)"
    by force
  have "0 \<le> fd" "r \<noteq> -1" "os' = os2" "locks env' = insert filename (locks env)"
    using lk 1 2 by (auto simp: PosixEnv_LockFile_def LockTable_Insert_def Let_def bind_eq_Some_conv split: if_splits)
  moreover have "path (set_errno P 0 os1) fd = Some filename"
    using k 1 calculation(1) unfolding record_locks_def by metis
  ultimately show "filename \<in> klocks os'" and "filename \<in> locks env'"
    using k 2 unfolding record_locks_def LockOrUnlock_def by (metis insertI1)+
qed

lemma LockFile_again:
  assumes k: "record_locks P path klocks" and t: "\<forall>e. length filename + length (strerror P e) + 60 < 2 ^ 32"
    and "filename \<in> locks env" and "0 \<le> fst (sys_open P filename ({O_RDWR, O_CREAT} \<union> kOpenBaseFlags P) os)"
  obtains s os' where "PosixEnv_LockFile P junk filename env os = Some (s, None, env, os')" and "\<not> Status_ok s"
    and "filename \<notin> klocks os'"
proof -
  obtain fd os1 where 1: "sys_open P filename ({O_RDWR, O_CREAT} \<union> kOpenBaseFlags P) os = (fd, os1)"
    by force
  then have "0 \<le> fd" "path os1 fd = Some filename"
    using assms(4) k unfolding record_locks_def by (simp, metis fst_conv)
  then have gone: "filename \<notin> klocks (snd (sys_close P fd os1))"
    using k unfolding record_locks_def by (metis Diff_iff insertI1 prod.collapse)
  show ?thesis
  proof (cases rule: LockFile_cases [OF t, of junk env os])
    case held: (1 s os')
    moreover have "os' = snd (sys_close P fd os1)"
      using held(1) 1 \<open>0 \<le> fd\<close> assms(3)
      by (auto simp: PosixEnv_LockFile_def LockTable_Insert_def Let_def bind_eq_Some_conv)
    ultimately show ?thesis
      using that gone by blast
  next
    case (2 fd os')
    then show ?thesis
      using assms(3) by simp
  qed
qed

subsection \<open>Properties\<close>



text \<open>C23: within the process a file lock is exclusive. In every sequence of \<^verbatim>\<open>LockFile\<close> and \<^verbatim>\<open>UnlockFile\<close>
  calls, whatever the operating system answers, no two of the locks held are on the same file;
  \<^verbatim>\<open>LockFile\<close> always returns, with a lock exactly if it reports success, never for a file that is
  already locked, and a call that fails leaves the environment's table of locks and its limiters as they
  were (of the lock the kernel holds nothing is said here, see the next property); \<^verbatim>\<open>UnlockFile\<close> makes
  the file available again exactly if it reports success.\<close>

theorem PosixEnv_LockFile_exclusive:
  assumes "new_PosixEnv max_mmaps max_open_files = Some env"
    and "(locks_step P junk)\<^sup>*\<^sup>* \<lparr>k_env = env, k_locks = [], k_os = os\<rparr> s"
    and "\<forall>e. length filename + length (strerror P e) + 60 < 2 ^ 32"
  shows "distinct (map lock_filename (k_locks s)) \<and>
    (\<exists>status lk env' os'. PosixEnv_LockFile P junk filename (k_env s) (k_os s) = Some (status, lk, env', os') \<and>
      (Status_ok status \<longleftrightarrow> lk \<noteq> None) \<and> (lk = None \<longrightarrow> env' = k_env s) \<and>
      (filename \<in> lock_filename ` set (k_locks s) \<longrightarrow> lk = None)) \<and>
    (\<forall>l \<in> set (k_locks s). \<exists>status env' os'. PosixEnv_UnlockFile P junk l (k_env s) (k_os s) = Some (status, env', os') \<and>
      (Status_ok status \<longleftrightarrow> lock_filename l \<notin> locks env') \<and> locks env' \<subseteq> locks (k_env s))"
proof (intro conjI ballI)
  have ok: "locks_ok P s"
    using assms(1) by (intro locks_reachable_ok [OF assms(2)]) (auto simp: new_PosixEnv_def bind_eq_Some_conv)
  then show "distinct (map lock_filename (k_locks s))"
    by (simp add: locks_ok_def)
  show "\<exists>status lk env' os'. PosixEnv_LockFile P junk filename (k_env s) (k_os s) = Some (status, lk, env', os') \<and>
      (Status_ok status \<longleftrightarrow> lk \<noteq> None) \<and> (lk = None \<longrightarrow> env' = k_env s) \<and>
      (filename \<in> lock_filename ` set (k_locks s) \<longrightarrow> lk = None)"
    by (cases rule: LockFile_cases [OF assms(3), of junk "k_env s" "k_os s"])
      (use ok in \<open>auto simp: locks_ok_def Status_ok_def Status_OK_def\<close>)
  fix l
  assume l: "l \<in> set (k_locks s)"
  then have t: "\<forall>e. length (lock_filename l) + length (strerror P e) + 60 < 2 ^ 32" and "lock_filename l \<in> locks (k_env s)"
    using ok by (auto simp: locks_ok_def)
  then show "\<exists>status env' os'. PosixEnv_UnlockFile P junk l (k_env s) (k_os s) = Some (status, env', os') \<and>
      (Status_ok status \<longleftrightarrow> lock_filename l \<notin> locks env') \<and> locks env' \<subseteq> locks (k_env s)"
    by (cases rule: UnlockFile_cases [OF t, of junk "k_env s" "k_os s"]) (auto simp: Status_ok_def Status_OK_def)
qed

theorem PosixEnv_LockFile_exclusive_witness:
  "\<exists>s status os'. (locks_step null_posix (\<lambda>_. 0))\<^sup>*\<^sup>*
     \<lparr>k_env = \<lparr>locks = {}, mmap_limiter = \<lparr>max_acquires = 0, acquires_allowed = 0\<rparr>, fd_limiter = \<lparr>max_acquires = 0, acquires_allowed = 0\<rparr>\<rparr>,
      k_locks = [], k_os = ()\<rparr> s \<and>
     k_locks s = [\<lparr>lock_fd = 4, lock_filename = ascii ''LOCK''\<rparr>] \<and>
     PosixEnv_LockFile null_posix (\<lambda>_. 0) (ascii ''LOCK'') (k_env s) () = Some (status, None, k_env s, os') \<and> \<not> Status_ok status"
proof -
  let ?env = "\<lparr>locks = {}, mmap_limiter = \<lparr>max_acquires = 0, acquires_allowed = 0\<rparr>, fd_limiter = \<lparr>max_acquires = 0, acquires_allowed = 0\<rparr>\<rparr>"
  let ?lk = "\<lparr>lock_fd = 4, lock_filename = ascii ''LOCK''\<rparr>"
  let ?s = "\<lparr>k_env = ?env\<lparr>locks := {ascii ''LOCK''}\<rparr>, k_locks = [?lk], k_os = ()\<rparr>"
  have t: "\<forall>e. length (ascii ''LOCK'') + length (strerror (null_posix :: unit posix) e) + 60 < 2 ^ 32"
    by (simp add: null_posix_def)
  have "PosixEnv_LockFile null_posix (\<lambda>_. 0) (ascii ''LOCK'') ?env () = Some (Status_OK, Some ?lk, ?env\<lparr>locks := {ascii ''LOCK''}\<rparr>, ())"
    by (simp add: PosixEnv_LockFile_def LockTable_Insert_def LockOrUnlock_def null_posix_def del: ascii_simps)
  then have step: "(locks_step null_posix (\<lambda>_. 0))\<^sup>*\<^sup>* \<lparr>k_env = ?env, k_locks = [], k_os = ()\<rparr> ?s"
    using locks_step.lock_file [of null_posix "\<lambda>_. 0" "ascii ''LOCK''" "\<lparr>k_env = ?env, k_locks = [], k_os = ()\<rparr>" Status_OK "Some ?lk"] t
    by (intro r_into_rtranclp) (simp del: ascii_simps)
  have "new_PosixEnv 0 0 = Some ?env"
    by (simp add: new_PosixEnv_def new_Limiter_def)
  from PosixEnv_LockFile_exclusive [OF this step t] step show ?thesis
    by (intro exI [of _ ?s]) (auto simp del: ascii_simps)
qed

text \<open>C24: a second \<^verbatim>\<open>LockFile\<close> of the same process on a file it has locked fails, as it should, but it has
  opened and closed the file before it found that out, and under POSIX closing the descriptor
  releases the lock the process holds: the environment goes on believing in a lock that other
  processes no longer see.\<close>

theorem PosixEnv_LockFile_again_drops_kernel_lock:
  assumes "record_locks P path klocks" and "\<forall>e. length filename + length (strerror P e) + 60 < 2 ^ 32"
    and "PosixEnv_LockFile P junk filename env os = Some (s, Some lk, env', os')"
    and "0 \<le> fst (sys_open P filename ({O_RDWR, O_CREAT} \<union> kOpenBaseFlags P) os')"
  shows "filename \<in> klocks os' \<and>
    (\<exists>s' os''. PosixEnv_LockFile P junk filename env' os' = Some (s', None, env', os'') \<and> \<not> Status_ok s' \<and>
       filename \<in> locks env' \<and> filename \<notin> klocks os'')"
  using LockFile_takes_kernel_lock [OF assms(1,3)] LockFile_again [OF assms(1,2) _ assms(4), of env' junk] by metis

definition lock_posix :: "((int \<Rightarrow> bytes option) \<times> bytes set \<times> int) posix" where
  "lock_posix = null_posix\<lparr>sys_open := (\<lambda>name flags (fds, ls, next). (next, fds(next \<mapsto> name), ls, next + 1)),
     sys_close := (\<lambda>fd (fds, ls, next). (0, fds(fd := None), ls - {name. fds fd = Some name}, next)),
     sys_setlk := (\<lambda>fd l (fds, ls, next). (0, fds, if l then ls \<union> {name. fds fd = Some name} else ls - {name. fds fd = Some name}, next))\<rparr>"

lemma lock_posix_record_locks: "record_locks lock_posix (\<lambda>(fds, ls, next). fds) (\<lambda>(fds, ls, next). ls)"
  by (auto simp: record_locks_def lock_posix_def null_posix_def)

theorem PosixEnv_LockFile_again_drops_kernel_lock_witness:
  "\<exists>s lk env' os' s' os''. PosixEnv_LockFile lock_posix (\<lambda>_. 0) (ascii ''LOCK'')
      \<lparr>locks = {}, mmap_limiter = \<lparr>max_acquires = 0, acquires_allowed = 0\<rparr>, fd_limiter = \<lparr>max_acquires = 0, acquires_allowed = 0\<rparr>\<rparr>
      (\<lambda>_. None, {}, 3) = Some (s, Some lk, env', os') \<and>
    PosixEnv_LockFile lock_posix (\<lambda>_. 0) (ascii ''LOCK'') env' os' = Some (s', None, env', os'') \<and>
    ascii ''LOCK'' \<in> fst (snd os') \<and> ascii ''LOCK'' \<notin> fst (snd os'')"
proof -
  let ?env = "\<lparr>locks = {}, mmap_limiter = \<lparr>max_acquires = 0, acquires_allowed = 0\<rparr>, fd_limiter = \<lparr>max_acquires = 0, acquires_allowed = 0\<rparr>\<rparr>"
  have t: "\<forall>e. length (ascii ''LOCK'') + length (strerror lock_posix e) + 60 < 2 ^ 32"
    by (simp add: lock_posix_def null_posix_def)
  have 1: "PosixEnv_LockFile lock_posix (\<lambda>_. 0) (ascii ''LOCK'') ?env (\<lambda>_. None, {}, 3) =
      Some (Status_OK, Some \<lparr>lock_fd = 3, lock_filename = ascii ''LOCK''\<rparr>, ?env\<lparr>locks := {ascii ''LOCK''}\<rparr>,
        [3 \<mapsto> ascii ''LOCK''], {ascii ''LOCK''}, 4)"
    by (simp add: PosixEnv_LockFile_def LockTable_Insert_def LockOrUnlock_def lock_posix_def null_posix_def del: ascii_simps)
  show ?thesis
    using PosixEnv_LockFile_again_drops_kernel_lock [OF lock_posix_record_locks t 1] 1
    by (auto simp: lock_posix_def null_posix_def simp del: ascii_simps)
qed

end
