(* ===== verification/PosixWholeFile.thy ===== *)
theory PosixWholeFile
  imports PosixEnv EnvInterface
begin

text \<open>
  \<^verbatim>\<open>PosixEnv\<close> as an implementation of the interface of theory \<open>EnvInterface\<close>, and the whole-file
  routines of \<^verbatim>\<open>util/env.cpp\<close> on it: what \<^verbatim>\<open>WriteStringToFile\<close> wrote with success is what
  \<^verbatim>\<open>ReadFileToString\<close> reads with success, in spite of short and interrupted system calls.
\<close>

subsection \<open>The methods\<close>

text \<open>A call that changes only the state of the operating system.\<close>

definition on_os :: "('o \<Rightarrow> ('a \<times> 'o) option) \<Rightarrow> PosixEnv \<times> 'o \<Rightarrow> ('a \<times> PosixEnv \<times> 'o) option" where
  "on_os f e = (case e of (env, os) \<Rightarrow> map_option (\<lambda>(r, os). (r, env, os)) (f os))"

definition on_os2 :: "('o \<Rightarrow> ('a \<times> 'b \<times> 'o) option) \<Rightarrow> PosixEnv \<times> 'o \<Rightarrow> ('a \<times> 'b \<times> PosixEnv \<times> 'o) option" where
  "on_os2 f e = (case e of (env, os) \<Rightarrow> map_option (\<lambda>(r, x, os). (r, x, env, os)) (f os))"

fun RandomAccessFile_read ::
    "'o posix \<Rightarrow> (nat \<Rightarrow> u8) \<Rightarrow> RandomAccessFile \<Rightarrow> u64 \<Rightarrow> u64 \<Rightarrow> bytes \<Rightarrow> bytes \<Rightarrow> PosixEnv \<times> 'o \<Rightarrow>
     (status \<times> bytes \<times> bytes \<times> PosixEnv \<times> 'o) option" where
  "RandomAccessFile_read P junk (Pread f) offset n result scratch (env, os) =
     map_option (\<lambda>(s, result, scratch, os). (s, result, scratch, env, os))
       (PosixRandomAccessFile_Read P junk f offset n result scratch os)"
| "RandomAccessFile_read P junk (Mapped f) offset n result scratch e =
     map_option (\<lambda>(s, result). (s, result, scratch, e)) (PosixMmapReadableFile_Read P junk f offset n)"

definition PosixEnv_methods ::
    "'o posix \<Rightarrow> (nat \<Rightarrow> u8) \<Rightarrow> (PosixEnv \<times> 'o, PosixSequentialFile, RandomAccessFile, PosixWritableFile) Env" where
  "PosixEnv_methods P junk = \<lparr>
     NewSequentialFile = (\<lambda>f. on_os2 (PosixEnv_NewSequentialFile P junk f)),
     NewRandomAccessFile = (\<lambda>f (env, os). PosixEnv_NewRandomAccessFile P junk f env os),
     NewWritableFile = (\<lambda>f. on_os2 (PosixEnv_NewWritableFile P junk f)),
     NewAppendableFile = (\<lambda>f. on_os2 (PosixEnv_NewAppendableFile P junk f)),
     FileExists = (\<lambda>f (env, os). let (r, os) = PosixEnv_FileExists P f os in (r, env, os)),
     GetChildren = (\<lambda>dir. on_os2 (PosixEnv_GetChildren P junk dir)),
     RemoveFile = (\<lambda>f. on_os (PosixEnv_RemoveFile P junk f)),
     CreateDir = (\<lambda>d. on_os (PosixEnv_CreateDir P junk d)),
     RemoveDir = (\<lambda>d. on_os (PosixEnv_RemoveDir P junk d)),
     GetFileSize = (\<lambda>f size. on_os2 (PosixEnv_GetFileSize P junk f)),
     RenameFile = (\<lambda>from to. on_os (PosixEnv_RenameFile P junk from to)),
     GetTestDirectory = on_os2 (PosixEnv_GetTestDirectory P junk),
     SequentialFile_Read = (\<lambda>f n result scratch (env, os).
       map_option (\<lambda>(s, result, scratch, os). (s, result, scratch, f, env, os))
         (PosixSequentialFile_Read P junk f n result scratch os)),
     SequentialFile_Skip = (\<lambda>f n (env, os). map_option (\<lambda>(s, os). (s, f, env, os)) (PosixSequentialFile_Skip P junk f n os)),
     SequentialFile_delete = (\<lambda>f (env, os). Some (env, PosixSequentialFile_destructor P f os)),
     RandomAccessFile_Read = RandomAccessFile_read P junk,
     RandomAccessFile_delete = (\<lambda>f (env, os). RandomAccessFile_destroy P f env os),
     WritableFile_Append = (\<lambda>f d. on_os2 (PosixWritableFile_Append P junk f d)),
     WritableFile_Close = (\<lambda>f. on_os2 (PosixWritableFile_Close P junk f)),
     WritableFile_Flush = (\<lambda>f. on_os2 (PosixWritableFile_Flush P junk f)),
     WritableFile_Sync = (\<lambda>f. on_os2 (PosixWritableFile_Sync P junk f)),
     WritableFile_delete = (\<lambda>f (env, os). map_option (Pair env) (PosixWritableFile_destructor P junk f os)) \<rparr>"

subsection \<open>One file of the operating system\<close>

text \<open>
  What is relied on for the file with one name: \<open>content os\<close> is what it holds and \<open>durable os\<close> what of it is
  on the disk. Opening it for writing truncates it and gives a descriptor that writes to it; opening it
  for reading gives one that reads it from its beginning; closing changes nothing.
\<close>

definition file_written ::
    "'o posix \<Rightarrow> bytes \<Rightarrow> (int \<Rightarrow> 'o \<Rightarrow> bool) \<Rightarrow> ('o \<Rightarrow> bytes) \<Rightarrow> ('o \<Rightarrow> bytes) \<Rightarrow> ('o \<Rightarrow> nat) \<Rightarrow> bool" where
  "file_written P fname opened content durable stall \<longleftrightarrow>
     (\<forall>os fd os'. sys_open P fname ({O_TRUNC, O_WRONLY, O_CREAT} \<union> kOpenBaseFlags P) os = (fd, os') \<longrightarrow> 0 \<le> fd \<longrightarrow>
        opened fd os' \<and> content os' = [] \<and> writes_to P fd (opened fd) content durable stall \<and>
        close_keeps P fd (opened fd) durable)"

definition file_read ::
    "'o posix \<Rightarrow> bytes \<Rightarrow> (int \<Rightarrow> 'o \<Rightarrow> bool) \<Rightarrow> ('o \<Rightarrow> bytes) \<Rightarrow> (int \<Rightarrow> 'o \<Rightarrow> nat) \<Rightarrow> ('o \<Rightarrow> nat) \<Rightarrow> bool" where
  "file_read P fname opened content pos stall \<longleftrightarrow>
     (\<forall>os fd os'. sys_open P fname (insert O_RDONLY (kOpenBaseFlags P)) os = (fd, os') \<longrightarrow>
        content os' = content os \<and>
        (0 \<le> fd \<longrightarrow> opened fd os' \<and> pos fd os' = 0 \<and> reads_on P fd (opened fd) content (pos fd) stall \<and>
          close_keeps P fd (opened fd) content))"

subsection \<open>Writing\<close>

lemma pending_read: "wfile_ok f \<Longrightarrow> mem_read (wf_buf f) 0 (unat (wf_pos f)) = Some (pending f)"
  by (simp add: wfile_ok_def pending_def mem_read_def)

text \<open>Closing a file with an empty buffer only calls \<^verbatim>\<open>close\<close>.\<close>

lemma Close_flushed:
  assumes "wfile_ok f" and "pending f = []" and "close_keeps P (wf_fd f) opened durable" and "opened os"
    and "PosixWritableFile_Close P junk f os = Some (s, f', os')"
  shows "durable os' = durable os"
proof -
  obtain r os1 where close: "sys_close P (wf_fd f) os = (r, os1)"
    by force
  have "FlushBuffer P junk f os = Some (Status_OK, f\<lparr>wf_pos := 0\<rparr>, os)"
    using pending_read [OF assms(1)] assms(2) by (simp add: FlushBuffer_def WriteUnbuffered.simps)
  then have "os' = os1"
    using assms(5) close by (auto simp: PosixWritableFile_Close_def bind_eq_Some_conv)
  then show ?thesis
    using assms(3,4) close by (auto simp: close_keeps_def)
qed

lemma destructor_returns:
  assumes "writes_to P (wf_fd f) opened content durable stall" and "error_texts P (wf_filename f)"
    and "opened os" and "wfile_ok f"
  shows "\<exists>os'. PosixWritableFile_destructor P junk f os = Some os'"
  by (rule PosixWritableFile_Close_spec [OF assms, of junk]) (simp add: PosixWritableFile_destructor_def)

lemma RemoveFile_returns:
  assumes "error_texts P fname"
  shows "\<exists>s os'. PosixEnv_RemoveFile P junk fname os = Some (s, os')"
proof -
  obtain r os1 where "sys_unlink P fname os = (r, os1)"
    by force
  moreover obtain s where "PosixError P junk fname (errno P os1) = Some s"
    by (rule PosixErrorE [OF assms])
  ultimately show ?thesis
    by (simp add: PosixEnv_RemoveFile_def posix_call_def)
qed

text \<open>The operations on an open file in the order of \<^verbatim>\<open>DoWriteStringToFile\<close>: the status, the file and the state
  before it is deleted.\<close>

lemma write_open_file:
  assumes w: "writes_to P fd opened content durable stall" and keep: "close_keeps P fd opened durable"
    and t: "error_texts P fname" "error_texts P (wf_dirname f)" and o: "opened os" "content os = []"
    and f: "wf_fd f = fd" "wf_filename f = fname" "wfile_ok f" "pending f = []" and len: "length d < 2 ^ 64"
  obtains s1 f1 os1 s2 f2 os2 s f' os' where "PosixWritableFile_Append P junk f d os = Some (s1, f1, os1)"
    and "(if Status_ok s1 \<and> should_sync then PosixWritableFile_Sync P junk f1 os1 else Some (s1, f1, os1)) = Some (s2, f2, os2)"
    and "(if Status_ok s2 then PosixWritableFile_Close P junk f2 os2 else Some (s2, f2, os2)) = Some (s, f', os')"
    and "Status_ok s \<Longrightarrow> wf_fd f' = -1 \<and> content os' = d \<and> (should_sync \<longrightarrow> durable os' = d)"
    and "\<exists>os''. PosixWritableFile_destructor P junk f' os' = Some os''"
proof -
  have a: "write_appends P (wf_fd f) opened content stall"
    using w f(1) by (simp add: writes_to_def)
  obtain s1 f1 os1 where 1: "PosixWritableFile_Append P junk f d os = Some (s1, f1, os1)" "opened os1"
    "accepted content f os d s1 f1 os1"
    by (rule PosixWritableFile_Append_spec [OF a t(1) [folded f(2)] o(1) f(3) len, of junk]) blast
  have f1: "wf_fd f1 = fd" "wf_filename f1 = fname" "wf_dirname f1 = wf_dirname f" "wfile_ok f1"
    using 1(3) f by (auto simp: accepted_def same_file_def)
  obtain s2 f2 os2 where 2: "(if Status_ok s1 \<and> should_sync then PosixWritableFile_Sync P junk f1 os1 else Some (s1, f1, os1)) =
      Some (s2, f2, os2)" "opened os2" "wf_fd f2 = fd" "wf_filename f2 = fname" "wfile_ok f2"
    "Status_ok s2 \<Longrightarrow> content os2 @ pending f2 = d"
    "Status_ok s2 \<Longrightarrow> should_sync \<Longrightarrow> durable os2 = content os2 \<and> pending f2 = []"
  proof (cases "Status_ok s1 \<and> should_sync")
    case True
    obtain s2 f2 os2 where "PosixWritableFile_Sync P junk f1 os1 = Some (s2, f2, os2)" "opened os2"
      "accepted content f1 os1 [] s2 f2 os2" "Status_ok s2 \<Longrightarrow> durable os2 = content os2 \<and> pending f2 = []"
      by (rule PosixWritableFile_Sync_spec [OF w [folded f1(1)] t(1) [folded f1(2)] t(2) [folded f1(3)] 1(2) f1(4), of junk]) blast
    then show ?thesis
      using True f1 1(3) o(2) f(4) by (intro that [of s2 f2 os2]) (auto simp: accepted_def same_file_def)
  next
    case False
    then show ?thesis
      using f1 1(2,3) o(2) f(4) by (intro that [of s1 f1 os1]) (auto simp: accepted_def)
  qed
  note w2 = w [folded 2(3)] and t2 = t(1) [folded 2(4)]
  show ?thesis
  proof (cases "Status_ok s2")
    case False
    then show ?thesis
      using destructor_returns [OF w2 t2 2(2,5)] by (intro that [OF 1(1) 2(1), of s2 f2 os2]) simp_all
  next
    case True
    obtain s3 f3 os3 where 3: "PosixWritableFile_Close P junk f2 os2 = Some (s3, f3, os3)" "wf_fd f3 = -1"
      "Status_ok s3 \<Longrightarrow> content os3 = content os2 @ pending f2"
      by (rule PosixWritableFile_Close_spec [OF w2 t2 2(2,5), of junk]) blast
    have "durable os3 = d" if "Status_ok s3" should_sync
      using Close_flushed [OF 2(5) _ keep [folded 2(3)] 2(2) 3(1)] 2(6,7) True that by simp
    then show ?thesis
      using 2(6) 3 True by (intro that [OF 1(1) 2(1), of s3 f3 os3]) (simp_all add: PosixWritableFile_destructor_def)
  qed
qed

text \<open>The environment besides the operating system passes through.\<close>

lemma on_os2_bind: "on_os2 g (env, os) \<bind> (\<lambda>(s, f, e). k s f e) = g os \<bind> (\<lambda>(s, f, os). k s f (env, os))"
  by (cases "g os") (auto simp: on_os2_def)

lemma on_os2_if:
  "(if b then on_os2 g (env, os) else Some (s, f, env, os)) \<bind> (\<lambda>(s, f, e). k s f e) =
   (if b then g os else Some (s, f, os)) \<bind> (\<lambda>(s, f, os). k s f (env, os))"
  by (simp add: on_os2_bind)

lemma on_os_snd:
  "(if b then map_option snd (on_os g (env, os)) else Some (env, os)) \<bind> k =
   (if b then map_option snd (g os) else Some os) \<bind> (\<lambda>os. k (env, os))"
  by (cases "g os") (auto simp: on_os_def)

lemma delete_bind: "map_option (Pair env) m \<bind> k = m \<bind> (\<lambda>os. k (env, os))"
  by (cases m) auto

text \<open>The methods that \<^verbatim>\<open>DoWriteStringToFile\<close> calls once the file is open.\<close>

lemma DoWriteStringToFile_opened:
  assumes "PosixEnv_NewWritableFile P junk fname os = Some (Status_OK, Some f, os0)"
  shows "DoWriteStringToFile (PosixEnv_methods P junk) d fname should_sync (env, os) = (do {
      (s, f, os) \<leftarrow> PosixWritableFile_Append P junk f d os0;
      (s, f, os) \<leftarrow> (if Status_ok s \<and> should_sync then PosixWritableFile_Sync P junk f os else Some (s, f, os));
      (s, f, os) \<leftarrow> (if Status_ok s then PosixWritableFile_Close P junk f os else Some (s, f, os));
      os \<leftarrow> PosixWritableFile_destructor P junk f os;
      os \<leftarrow> (if \<not> Status_ok s then map_option snd (PosixEnv_RemoveFile P junk fname os) else Some os);
      Some (s, env, os)
    })"
proof -
  have "NewWritableFile (PosixEnv_methods P junk) fname (env, os) = Some (Status_OK, Some f, env, os0)"
    using assms by (simp add: PosixEnv_methods_def on_os2_def)
  then show ?thesis
    unfolding DoWriteStringToFile_def
    by (simp add: PosixEnv_methods_def on_os2_bind on_os2_if on_os_snd delete_bind Status_ok_def Status_OK_def cong: if_cong)
qed

lemma Posix_write_file:
  assumes wr: "file_written P fname opened content durable stall"
    and texts: "\<forall>e. length fname + length (strerror P e) + 8 < 2 ^ 32" and len: "length d < 2 ^ 64"
  obtains s e' where "DoWriteStringToFile (PosixEnv_methods P junk) d fname should_sync (env, os) = Some (s, e')"
    and "Status_ok s \<Longrightarrow> content (snd e') = d \<and> (should_sync \<longrightarrow> durable (snd e') = d)"
proof -
  have near: "error_texts P path" if "length path \<le> Suc (length fname)" for path
    unfolding error_texts_def
  proof
    fix e
    show "length path + length (strerror P e) + 7 < 2 ^ 32"
      using texts [rule_format, of e] that by linarith
  qed
  obtain fd os0 where op: "sys_open P fname ({O_TRUNC, O_WRONLY, O_CREAT} \<union> kOpenBaseFlags P) os = (fd, os0)"
    by force
  obtain bad where bad: "PosixError P junk fname (errno P os0) = Some bad" "\<not> Status_ok bad"
    by (rule PosixErrorE [OF near [of fname]]) simp_all
  obtain f where f: "new_PosixWritableFile junk fname fd = Some f" "wf_fd f = fd" "wf_filename f = fname"
    "wf_pos f = 0" "length (wf_buf f) = 65536" "length (wf_dirname f) \<le> Suc (length fname)"
    by (rule new_PosixWritableFileE)
  show ?thesis
  proof (cases "fd < 0")
    case True
    then show ?thesis
      using op bad by (intro that [of bad "(env, os0)"])
        (simp_all add: DoWriteStringToFile_def PosixEnv_methods_def on_os2_def PosixEnv_NewWritableFile_def)
  next
    case False
    then have os0: "opened fd os0" "content os0 = []" "writes_to P fd (opened fd) content durable stall"
      "close_keeps P fd (opened fd) durable"
      using wr op unfolding file_written_def by (metis linorder_not_less)+
    have ok: "wfile_ok f" "pending f = []"
      using f by (simp_all add: wfile_ok_def pending_def)
    obtain s1 f1 os1 s2 f2 os2' s f' os' where run: "PosixWritableFile_Append P junk f d os0 = Some (s1, f1, os1)"
      "(if Status_ok s1 \<and> should_sync then PosixWritableFile_Sync P junk f1 os1 else Some (s1, f1, os1)) = Some (s2, f2, os2')"
      "(if Status_ok s2 then PosixWritableFile_Close P junk f2 os2' else Some (s2, f2, os2')) = Some (s, f', os')"
      and ok': "Status_ok s \<Longrightarrow> wf_fd f' = -1 \<and> content os' = d \<and> (should_sync \<longrightarrow> durable os' = d)"
      and returns: "\<exists>os''. PosixWritableFile_destructor P junk f' os' = Some os''"
      by (rule write_open_file [OF os0(3,4) near [of fname] near [OF f(6)] os0(1,2) f(2,3) ok len,
            of junk should_sync]) (simp, blast)
    obtain os2 where del: "PosixWritableFile_destructor P junk f' os' = Some os2"
      using returns by blast
    have same: "os2 = os'" if "Status_ok s"
      using del ok' [OF that] by (simp add: PosixWritableFile_destructor_def)
    obtain r os3 where rm: "PosixEnv_RemoveFile P junk fname os2 = Some (r, os3)"
      using RemoveFile_returns [OF near [of fname]] by fastforce
    have "PosixEnv_NewWritableFile P junk fname os = Some (Status_OK, Some f, os0)"
      using op False f(1) by (simp add: PosixEnv_NewWritableFile_def)
    from DoWriteStringToFile_opened [OF this, of d should_sync env]
    have "DoWriteStringToFile (PosixEnv_methods P junk) d fname should_sync (env, os) =
        Some (s, env, if Status_ok s then os2 else os3)"
      by (simp add: run del rm)
    then show ?thesis
      using ok' same by (intro that) auto
  qed
qed

subsection \<open>Reading\<close>

lemma Posix_read_loop:
  assumes r: "reads_on P (sf_fd f) opened content pos stall" and t: "error_texts P (sf_filename f)"
    and "opened os" and "pos os \<le> length (content os)" and "length space = 8192"
  shows "\<exists>s data os'. ReadFile_loop (PosixEnv_methods P junk) f space acc (env, os) = Some (s, data, f, env, os') \<and>
    opened os' \<and> content os' = content os \<and> (Status_ok s \<longrightarrow> data = acc @ drop (pos os) (content os))"
  using assms(3-)
proof (induction "length (content os) - pos os" arbitrary: os space acc rule: less_induct)
  case less
  obtain s res space1 os1 where read: "PosixSequentialFile_Read P junk f kBufferSize [] space os = Some (s, res, space1, os1)"
    and os1: "opened os1" "content os1 = content os" "length space1 = 8192"
    and good: "Status_ok s \<Longrightarrow> res = take (length res) (drop (pos os) (content os)) \<and> pos os1 = pos os + length res \<and>
      (res = [] \<longrightarrow> length (content os) \<le> pos os)"
    using Sequential_Read_spec [OF r t less.prems(1), of kBufferSize space junk "[]"] less.prems(3)
    by (auto simp: kBufferSize_def)
  have step: "SequentialFile_Read (PosixEnv_methods P junk) f kBufferSize [] space (env, os) =
      Some (s, res, space1, f, env, os1)"
    using read by (simp add: PosixEnv_methods_def)
  consider "\<not> Status_ok s" | "Status_ok s" "res = []" | "Status_ok s" "res \<noteq> []"
    by blast
  then show ?case
  proof cases
    case 1
    then show ?thesis
      using os1 step by (subst ReadFile_loop.simps) simp
  next
    case 2
    then show ?thesis
      using os1 step good by (subst ReadFile_loop.simps) (simp add: Slice_empty_def)
  next
    case 3
    have res: "res = take (length res) (drop (pos os) (content os))" and pos1: "pos os1 = pos os + length res"
      using good [OF 3(1)] by blast+
    have len: "length res \<le> length (content os) - pos os"
      using arg_cong [OF res, of length] by simp
    have some: "0 < length res"
      using 3(2) by simp
    have "\<exists>s data os'. ReadFile_loop (PosixEnv_methods P junk) f space1 (acc @ res) (env, os1) = Some (s, data, f, env, os') \<and>
        opened os' \<and> content os' = content os1 \<and> (Status_ok s \<longrightarrow> data = (acc @ res) @ drop (pos os1) (content os1))"
      using len some less.prems(2) os1 pos1 by (intro less.hyps) (simp_all del: length_greater_0_conv)
    moreover have "res @ drop (pos os1) (content os1) = drop (pos os) (content os)"
      using append_take_drop_id [of "length res" "drop (pos os) (content os)"] res pos1 os1(2) by (simp add: add.commute)
    ultimately show ?thesis
      using 3 os1 step by (subst ReadFile_loop.simps) (simp add: Slice_empty_def)
  qed
qed

lemma Posix_read_file:
  assumes rd: "file_read P fname opened content pos stall" and t: "error_texts P fname"
  obtains s data e' where "ReadFileToString junk' (PosixEnv_methods P junk) fname (env, os) = Some (s, data, e')"
    and "content (snd e') = content os" and "Status_ok s \<Longrightarrow> data = content os"
proof -
  obtain fd os0 where op: "sys_open P fname (insert O_RDONLY (kOpenBaseFlags P)) os = (fd, os0)"
    by force
  then have os0: "content os0 = content os"
    using rd unfolding file_read_def by blast
  show ?thesis
  proof (cases "fd < 0")
    case True
    obtain bad where "PosixError P junk fname (errno P os0) = Some bad" "\<not> Status_ok bad"
      by (rule PosixErrorE [OF t])
    then show ?thesis
      using True op os0 by (intro that [of bad "[]" "(env, os0)"])
        (simp_all add: ReadFileToString_def PosixEnv_methods_def on_os2_def PosixEnv_NewSequentialFile_def)
  next
    case False
    then have o: "opened fd os0" "pos fd os0 = 0" "reads_on P fd (opened fd) content (pos fd) stall"
      "close_keeps P fd (opened fd) content"
      using rd op unfolding file_read_def by (metis linorder_not_less)+
    let ?f = "\<lparr>sf_fd = fd, sf_filename = fname\<rparr>"
    obtain s data os1 where loop: "ReadFile_loop (PosixEnv_methods P junk) ?f (mem_new junk' (unat kBufferSize)) [] (env, os0) =
        Some (s, data, ?f, env, os1)" "opened fd os1" "content os1 = content os0" "Status_ok s \<Longrightarrow> data = content os0"
      using Posix_read_loop [of P ?f "opened fd" content "pos fd" stall os0 "mem_new junk' (unat kBufferSize)" junk "[]" env] o t
      by (auto simp: kBufferSize_def)
    have "content (snd (sys_close P fd os1)) = content os1"
      using o(4) loop(2) unfolding close_keeps_def by (metis prod.collapse)
    then show ?thesis
      using False op os0 loop by (intro that [of s data "(env, PosixSequentialFile_destructor P ?f os1)"])
        (simp_all add: ReadFileToString_def PosixEnv_methods_def on_os2_def PosixEnv_NewSequentialFile_def
          PosixSequentialFile_destructor_def Status_ok_def Status_OK_def)
  qed
qed

subsection \<open>Properties\<close>

text \<open>C14: on \<^verbatim>\<open>PosixEnv\<close>, \<^verbatim>\<open>WriteStringToFile\<close> and \<^verbatim>\<open>ReadFileToString\<close> always return, in spite of short and
  interrupted system calls. When writing reports success the file holds exactly the string, on the disk if
  it was to be synchronised; reading it back leaves it so, and returns exactly the string when it reports
  success.\<close>

theorem Posix_write_read:
  assumes "file_written P fname wopen content durable stall" and "file_read P fname ropen content pos stall'"
    and "\<forall>e. length fname + length (strerror P e) + 8 < 2 ^ 32" and "length d < 2 ^ 64"
  shows "\<exists>s e1. DoWriteStringToFile (PosixEnv_methods P junk) d fname should_sync (env, os) = Some (s, e1) \<and>
    (Status_ok s \<longrightarrow> content (snd e1) = d \<and> (should_sync \<longrightarrow> durable (snd e1) = d) \<and>
      (\<exists>s2 d2 e2. ReadFileToString junk' (PosixEnv_methods P junk) fname e1 = Some (s2, d2, e2) \<and>
         content (snd e2) = d \<and> (Status_ok s2 \<longrightarrow> d2 = d)))"
proof -
  obtain s e1 where w: "DoWriteStringToFile (PosixEnv_methods P junk) d fname should_sync (env, os) = Some (s, e1)"
    "Status_ok s \<Longrightarrow> content (snd e1) = d \<and> (should_sync \<longrightarrow> durable (snd e1) = d)"
    by (rule Posix_write_file [OF assms(1,3,4), of junk should_sync env os]) blast
  have t: "error_texts P fname"
    unfolding error_texts_def
  proof
    fix e
    show "length fname + length (strerror P e) + 7 < 2 ^ 32"
      using assms(3) [rule_format, of e] by linarith
  qed
  obtain s2 d2 e2 where r: "ReadFileToString junk' (PosixEnv_methods P junk) fname e1 = Some (s2, d2, e2)"
    "content (snd e2) = content (snd e1)" "Status_ok s2 \<Longrightarrow> d2 = content (snd e1)"
    by (rule Posix_read_file [OF assms(2) t, of junk' junk "fst e1" "snd e1"]) (use prod.collapse in simp)
  show ?thesis
    by (intro exI [of _ s] exI [of _ e1] conjI impI exI [of _ s2] exI [of _ d2] exI [of _ e2]) (use w r in auto)
qed

text \<open>An operating system with one file, which writes at most three and reads at most two bytes at a time and is
  interrupted before every second write.\<close>

definition one_file :: "(bytes \<times> bool \<times> nat) posix" where
  "one_file = null_posix\<lparr>
     sys_open := (\<lambda>path flags (c, i, p). if O_TRUNC \<in> flags then (3, [], i, p) else (4, c, i, 0)),
     sys_write := (\<lambda>fd data (c, interrupt, p).
       if interrupt then (-1, c, False, p) else (int (min 3 (length data)), c @ take (min 3 (length data)) data, True, p)),
     sys_read := (\<lambda>fd buf n (c, i, p). let got = take (min 2 (unat n)) (drop p c) in
       (int (length got), got @ drop (length got) buf, c, i, p + length got))\<rparr>"

lemma one_file_written:
  "file_written one_file fname (\<lambda>fd os. fd = 3) fst fst (\<lambda>(c, interrupt, p). if interrupt then 1 else 0)"
  by (auto simp: file_written_def one_file_def null_posix_def writes_to_def write_appends_def open_keeps_def close_keeps_def
      sync_makes_durable_def split: if_splits prod.splits)

lemma one_file_read:
  "file_read one_file fname (\<lambda>fd os. True) fst (\<lambda>fd (c, i, p). p) (\<lambda>_. 0)"
proof -
  have "take (length got) (got @ drop (length got) buf) = got" for got buf :: bytes
    by simp
  then have "reads_on one_file fd (\<lambda>os. True) fst (\<lambda>(c, i, p). p) (\<lambda>_. 0)" for fd
    by (auto simp: reads_on_def one_file_def null_posix_def Let_def min_def unat_eq_zero split: prod.splits if_splits)
  then show ?thesis
    by (auto simp: file_read_def one_file_def null_posix_def close_keeps_def split: prod.splits)
qed

text \<open>On it writing does report success.\<close>

lemma one_file_run:
  "\<exists>e1. DoWriteStringToFile (PosixEnv_methods one_file (\<lambda>_. 0)) (ascii ''hello'') (ascii ''db/CURRENT'') True
      (env, [], True, 0) = Some (Status_OK, e1)"
proof -
  have "\<exists>f. PosixEnv_NewWritableFile one_file (\<lambda>_. 0) (ascii ''db/CURRENT'') ([], True, 0) =
      Some (Status_OK, Some f, [], True, 0) \<and> wf_buf f = mem_new (\<lambda>_. 0) 65536 \<and> wf_pos f = 0 \<and> wf_fd f = 3 \<and> \<not> wf_is_manifest f"
    by (simp add: PosixEnv_NewWritableFile_def one_file_def null_posix_def new_PosixWritableFile_def IsManifest_def
        Basename_def Dirname_def kWritableFileBufferSize_def Slice_starts_with_def)
  then obtain f where f: "PosixEnv_NewWritableFile one_file (\<lambda>_. 0) (ascii ''db/CURRENT'') ([], True, 0) =
      Some (Status_OK, Some f, [], True, 0)" "wf_buf f = mem_new (\<lambda>_. 0) 65536" "wf_pos f = 0" "wf_fd f = 3" "\<not> wf_is_manifest f"
    by blast
  show ?thesis
    using f(2-) unfolding DoWriteStringToFile_opened [OF f(1)]
    by (simp add: PosixWritableFile_Append_def PosixWritableFile_Close_def PosixWritableFile_destructor_def
      PosixWritableFile_Sync_def SyncDirIfManifest_def SyncFd_def FlushBuffer_def mem_write_def mem_read_def
      kWritableFileBufferSize_def one_file_def null_posix_def Status_ok_def Status_OK_def WriteUnbuffered.simps unat_sub
      Let_def min_def word_le_nat_alt) (rule exI, rule TrueI)
qed

theorem Posix_write_read_witness:
  "\<exists>env e1 s2 d2 e2. DoWriteStringToFile (PosixEnv_methods one_file (\<lambda>_. 0)) (ascii ''hello'') (ascii ''db/CURRENT'') True
      (env, [], True, 0) = Some (Status_OK, e1) \<and> fst (snd e1) = ascii ''hello'' \<and>
    ReadFileToString (\<lambda>_. 0) (PosixEnv_methods one_file (\<lambda>_. 0)) (ascii ''db/CURRENT'') e1 = Some (s2, d2, e2) \<and>
    fst (snd e2) = ascii ''hello'' \<and> (Status_ok s2 \<longrightarrow> d2 = ascii ''hello'')"
proof -
  have texts: "\<forall>e. length (ascii ''db/CURRENT'') + length (strerror one_file e) + 8 < 2 ^ 32"
    by (simp add: one_file_def null_posix_def)
  have len: "length (ascii ''hello'') < 2 ^ 64"
    by simp
  have ok: "Status_ok Status_OK"
    by (simp add: Status_ok_def Status_OK_def)
  show ?thesis
    using Posix_write_read [OF one_file_written one_file_read texts len, where os = "([], True, 0)" and junk = "\<lambda>_. 0"
        and should_sync = True and junk' = "\<lambda>_. 0"] one_file_run ok
    by (metis option.inject prod.inject)
qed

end
