(* ===== verification/Singletons.thy ===== *)
theory Singletons
  imports PosixEnv Comparator
begin

text \<open>
  The objects that exist once in a process and are never destroyed: \<^verbatim>\<open>NoDestructor\<close>
  (\<^verbatim>\<open>util/no_destructor.h\<close>) behind \<^verbatim>\<open>BytewiseComparator\<close>, and \<^verbatim>\<open>SingletonEnv\<close> behind \<^verbatim>\<open>Env::Default\<close>
  (\<^verbatim>\<open>util/env_posix.cpp\<close>) with the global limits from which the environment is constructed. A local static variable is
  constructed by the first call that reaches it; the alignment and size checks of the storage are resolved by the compiler.
\<close>

subsection \<open>Storage\<close>

text \<open>The storage of an instance, without a destructor that would end its life.\<close>

record 'a NoDestructor =
  instance_storage :: 'a

definition new_NoDestructor :: "'a \<Rightarrow> 'a NoDestructor" where
  "new_NoDestructor inst = \<lparr>instance_storage = inst\<rparr>"

definition NoDestructor_get :: "'a NoDestructor \<Rightarrow> 'a" where
  "NoDestructor_get s = instance_storage s"

text \<open>\<^verbatim>\<open>static T x = \<dots>\<close> in a function: \<^term>\<open>None\<close> is a variable that no call has constructed yet.\<close>

definition static_local :: "('s \<Rightarrow> ('a \<times> 's) option) \<Rightarrow> 'a option \<Rightarrow> 's \<Rightarrow> ('a \<times> 'a option \<times> 's) option" where
  "static_local construct x s = (case x of
     Some a \<Rightarrow> Some (a, x, s)
   | None \<Rightarrow> map_option (\<lambda>(a, s). (a, Some a, s)) (construct s))"

definition BytewiseComparator_singleton ::
    "Comparator NoDestructor option \<Rightarrow> Comparator \<times> Comparator NoDestructor option" where
  "BytewiseComparator_singleton x =
     (case x of Some s \<Rightarrow> (NoDestructor_get s, x)
      | None \<Rightarrow> (let s = new_NoDestructor BytewiseComparator in (NoDestructor_get s, Some s)))"

subsection \<open>The default environment\<close>

text \<open>The variables with static storage of \<^verbatim>\<open>util/env_posix.cpp\<close>.\<close>

record posix_globals =
  g_open_read_only_file_limit :: u32
  g_mmap_limit :: u32
  env_initialized :: bool
  env_container :: "PosixEnv option"

definition new_posix_globals :: posix_globals where
  "new_posix_globals = \<lparr>g_open_read_only_file_limit = - 1, g_mmap_limit = kDefaultMmapLimit, env_initialized = False,
     env_container = None\<rparr>"

text \<open>The constructor of \<^verbatim>\<open>SingletonEnv\<close> with that of \<^verbatim>\<open>PosixEnv\<close>, which reads the limits.\<close>

definition new_SingletonEnv ::
    "'o posix \<Rightarrow> posix_globals \<times> 'o \<Rightarrow> (PosixEnv \<times> posix_globals \<times> 'o) option" where
  "new_SingletonEnv P = (\<lambda>(g, os). do {
     let g = g\<lparr>env_initialized := True\<rparr>;
     let max_mmaps = MaxMmaps (g_mmap_limit g);
     let (max_open_files, limit, os) = MaxOpenFiles P (g_open_read_only_file_limit g) os;
     let g = g\<lparr>g_open_read_only_file_limit := limit\<rparr>;
     env \<leftarrow> new_PosixEnv max_mmaps max_open_files;
     Some (env, g, os)
   })"

text \<open>The destructor of \<^verbatim>\<open>PosixEnv\<close> aborts the process, which the storage keeps from happening.\<close>

definition PosixEnv_destructor :: "PosixEnv \<Rightarrow> unit option" where
  "PosixEnv_destructor env = None"

definition AssertEnvNotInitialized :: "posix_globals \<Rightarrow> unit option" where
  "AssertEnvNotInitialized g = asserting (\<not> env_initialized g) (Some ())"

definition Env_Default :: "'o posix \<Rightarrow> posix_globals \<Rightarrow> 'o \<Rightarrow> (PosixEnv \<times> posix_globals \<times> 'o) option" where
  "Env_Default P g os = do {
     (env, container, g, os) \<leftarrow> static_local (new_SingletonEnv P) (env_container g) (g, os);
     Some (env, g\<lparr>env_container := container\<rparr>, os)
   }"

subsection \<open>What a process sees\<close>

lemma BytewiseComparator_singleton_same:
  "\<exists>s. BytewiseComparator_singleton None = (BytewiseComparator, Some s) \<and>
    BytewiseComparator_singleton (Some s) = (BytewiseComparator, Some s)"
  by (simp add: BytewiseComparator_singleton_def new_NoDestructor_def NoDestructor_get_def)

lemma new_Limiter_nonneg: "0 \<le> sint n \<Longrightarrow> \<exists>l. new_Limiter n = Some l"
  by (simp add: new_Limiter_def asserting_def)

lemma Env_Default_again:
  assumes "env_container g = Some env"
  shows "Env_Default P g os = Some (env, g, os)"
  using assms by (simp add: Env_Default_def static_local_def)

text \<open>The environment is constructed by the first call, with both limits from the globals; from then on every
  call returns it without a system call, and the configuration can no longer be changed.\<close>

lemma Env_Default_once:
  assumes "\<And>r cur os'. sys_getrlimit_nofile P os = (r, cur, os') \<Longrightarrow> unat cur < 5 * 2 ^ 31 \<or> cur = RLIM_INFINITY"
  obtains env g os' where "AssertEnvNotInitialized new_posix_globals = Some ()"
    and "Env_Default P new_posix_globals os = Some (env, g, os')"
    and "new_PosixEnv 1000 (g_open_read_only_file_limit g) = Some env"
    and "\<And>os. Env_Default P g os = Some (env, g, os)" and "AssertEnvNotInitialized g = None"
proof -
  obtain m limit os' where lim: "MaxOpenFiles P (- 1) os = (m, limit, os')"
    by (metis prod_cases3)
  then have m: "0 \<le> sint m" "limit = m"
    using MaxOpenFiles_nonneg [OF lim] assms by auto
  obtain env where env: "new_PosixEnv 1000 m = Some env"
    using new_Limiter_nonneg [of m] new_Limiter_nonneg [of 1000] m by (auto simp: new_PosixEnv_def)
  let ?g = "new_posix_globals\<lparr>env_initialized := True, g_open_read_only_file_limit := limit, env_container := Some env\<rparr>"
  have "Env_Default P new_posix_globals os = Some (env, ?g, os')"
    using lim env m(2) by (simp add: Env_Default_def static_local_def new_SingletonEnv_def new_posix_globals_def MaxMmaps_def
        kDefaultMmapLimit_def)
  then show ?thesis
    using env m by (intro that [of env ?g os'] Env_Default_again)
      (simp_all add: AssertEnvNotInitialized_def new_posix_globals_def asserting_def)
qed

end
