(* ===== verification/Background.thy ===== *)
theory Background
  imports Prelude
begin

text \<open>
  The background thread of \<^verbatim>\<open>PosixEnv\<close> (\<^verbatim>\<open>util/env_posix.cpp\<close>): \<^verbatim>\<open>Schedule\<close> puts a work item into
  a queue that \<^verbatim>\<open>BackgroundThreadMain\<close> empties, under one mutex and one condition variable
  (\<^verbatim>\<open>port/port.h\<close>). Every statement of the two functions is one atomic step. A step function returns
  \<^term>\<open>None\<close> for a thread that is blocked (or, for a caller, has no call under way);
  \<open>background_step\<close> interleaves the steps of all threads, including wake-ups without a signal.

  A work item that calls \<^verbatim>\<open>Schedule\<close> itself is covered: its call is one of the callers, and the steps
  that the model allows for a caller include those where the background thread is in the item.
\<close>

record ('f, 'a) BackgroundWorkItem =
  work_function :: 'f
  work_arg :: 'a

text \<open>The next statement of a call of \<^verbatim>\<open>Schedule\<close>.\<close>

datatype 'w caller = Idle | Locking 'w | Starting 'w | Signalling 'w | Pushing 'w | Unlocking

text \<open>The next statement of the background thread; \<open>Waiting\<close> is inside \<^verbatim>\<open>Wait\<close>, \<open>Woken\<close> is still inside
  it but about to take the mutex again, \<open>Aborted\<close> is a failed assertion.\<close>

datatype 'w thread_main =
    Not_started | Main_locking | Testing | Waiting | Woken | Popping | Main_unlocking 'w | Calling 'w | Aborted

datatype thread = Caller nat | Background_thread

text \<open>\<open>scheduled\<close> and \<open>executed\<close> record the items put into the queue and the items whose function
  has returned.\<close>

record 'w background =
  background_work_mutex :: "thread option"
  started_background_thread :: bool
  background_work_queue :: "'w list"
  main :: "'w thread_main"
  callers :: "nat \<Rightarrow> 'w caller"
  scheduled :: "'w list"
  executed :: "'w list"

text \<open>The state of the environment, whose items are pairs of a function and its argument; nothing below depends
  on what an item is.\<close>

type_synonym ('f, 'a) posix_background = "('f, 'a) BackgroundWorkItem background"

definition new_background :: "'w background" where
  "new_background = \<lparr>background_work_mutex = None, started_background_thread = False, background_work_queue = [],
     main = Not_started, callers = (\<lambda>_. Idle), scheduled = [], executed = []\<rparr>"

subsection \<open>Mutex and condition variable\<close>

definition Mutex_Lock :: "thread \<Rightarrow> 'w background \<Rightarrow> 'w background option" where
  "Mutex_Lock t s = (case background_work_mutex s of
     None \<Rightarrow> Some (s\<lparr>background_work_mutex := Some t\<rparr>)
   | Some _ \<Rightarrow> None)"

definition Mutex_Unlock :: "'w background \<Rightarrow> 'w background" where
  "Mutex_Unlock s = s\<lparr>background_work_mutex := None\<rparr>"

text \<open>Only the background thread ever waits.\<close>

definition CondVar_Wait :: "'w background \<Rightarrow> 'w background" where
  "CondVar_Wait s = (Mutex_Unlock s)\<lparr>main := Waiting\<rparr>"

definition CondVar_Signal :: "'w background \<Rightarrow> 'w background" where
  "CondVar_Signal s = (case main s of Waiting \<Rightarrow> s\<lparr>main := Woken\<rparr> | _ \<Rightarrow> s)"

subsection \<open>The two functions\<close>

definition go :: "nat \<Rightarrow> 'w caller \<Rightarrow> 'w background \<Rightarrow> 'w background" where
  "go t pc s = s\<lparr>callers := (callers s)(t := pc)\<rparr>"

definition Schedule :: "nat \<Rightarrow> 'w background \<Rightarrow> 'w background option" where
  "Schedule t s = (case callers s t of
     Idle \<Rightarrow> None
   | Locking w \<Rightarrow> map_option (go t (Starting w)) (Mutex_Lock (Caller t) s)
   | Starting w \<Rightarrow> Some (go t (Signalling w)
       (if \<not> started_background_thread s then s\<lparr>started_background_thread := True, main := Main_locking\<rparr> else s))
   | Signalling w \<Rightarrow> Some (go t (Pushing w) (if background_work_queue s = [] then CondVar_Signal s else s))
   | Pushing w \<Rightarrow> Some (go t Unlocking
       (s\<lparr>background_work_queue := background_work_queue s @ [w], scheduled := scheduled s @ [w]\<rparr>))
   | Unlocking \<Rightarrow> Some (go t Idle (Mutex_Unlock s)))"

definition BackgroundThreadMain :: "'w background \<Rightarrow> 'w background option" where
  "BackgroundThreadMain s = (case main s of
     Not_started \<Rightarrow> None
   | Main_locking \<Rightarrow> map_option (main_update (\<lambda>_. Testing)) (Mutex_Lock Background_thread s)
   | Testing \<Rightarrow> Some (if background_work_queue s = [] then CondVar_Wait s else s\<lparr>main := Popping\<rparr>)
   | Waiting \<Rightarrow> None
   | Woken \<Rightarrow> map_option (main_update (\<lambda>_. Testing)) (Mutex_Lock Background_thread s)
   | Popping \<Rightarrow> Some (case background_work_queue s of
       [] \<Rightarrow> s\<lparr>main := Aborted\<rparr>
     | w # ws \<Rightarrow> s\<lparr>background_work_queue := ws, main := Main_unlocking w\<rparr>)
   | Main_unlocking w \<Rightarrow> Some ((Mutex_Unlock s)\<lparr>main := Calling w\<rparr>)
   | Calling w \<Rightarrow> Some (s\<lparr>executed := executed s @ [w], main := Main_locking\<rparr>)
   | Aborted \<Rightarrow> None)"

inductive background_step :: "'w background \<Rightarrow> 'w background \<Rightarrow> bool" where
  call: "callers s t = Idle \<Longrightarrow> background_step s (go t (Locking w) s)"
| caller: "Schedule t s = Some s' \<Longrightarrow> background_step s s'"
| thread_main: "BackgroundThreadMain s = Some s' \<Longrightarrow> background_step s s'"
| spurious: "main s = Waiting \<Longrightarrow> background_step s (s\<lparr>main := Woken\<rparr>)"

subsection \<open>The invariant\<close>

fun inside :: "'w caller \<Rightarrow> bool" where
  "inside Idle = False"
| "inside (Locking w) = False"
| "inside _ = True"

fun main_inside :: "'w thread_main \<Rightarrow> bool" where
  "main_inside Testing = True"
| "main_inside Popping = True"
| "main_inside (Main_unlocking w) = True"
| "main_inside _ = False"

text \<open>The item the background thread has taken and not finished.\<close>

fun taken :: "'w thread_main \<Rightarrow> 'w list" where
  "taken (Main_unlocking w) = [w]"
| "taken (Calling w) = [w]"
| "taken _ = []"

text \<open>What the holder of the mutex may rely on at each statement.\<close>

fun caller_ok :: "'w background \<Rightarrow> 'w caller \<Rightarrow> bool" where
  "caller_ok s (Signalling w) \<longleftrightarrow> started_background_thread s"
| "caller_ok s (Pushing w) \<longleftrightarrow> started_background_thread s \<and> main s \<noteq> Waiting"
| "caller_ok s _ \<longleftrightarrow> True"

definition background_inv :: "'w background \<Rightarrow> bool" where
  "background_inv s \<longleftrightarrow>
     (\<forall>t. inside (callers s t) \<longleftrightarrow> background_work_mutex s = Some (Caller t)) \<and>
     (main_inside (main s) \<longleftrightarrow> background_work_mutex s = Some Background_thread) \<and>
     (\<forall>t. caller_ok s (callers s t)) \<and>
     (main s = Not_started \<longleftrightarrow> \<not> started_background_thread s) \<and>
     (main s = Not_started \<or> main s = Waiting \<longrightarrow> background_work_queue s = []) \<and>
     (main s = Popping \<longrightarrow> background_work_queue s \<noteq> []) \<and>
     main s \<noteq> Aborted \<and>
     executed s @ taken (main s) @ background_work_queue s = scheduled s"

lemmas background_defs = background_inv_def Mutex_Lock_def Mutex_Unlock_def CondVar_Wait_def CondVar_Signal_def go_def

lemma new_background_inv: "background_inv new_background"
  by (simp add: background_inv_def new_background_def)

lemma caller_ok_cong:
  "started_background_thread s' = started_background_thread s \<Longrightarrow> main s' \<noteq> Waiting \<or> main s' = main s \<Longrightarrow>
   caller_ok s pc \<Longrightarrow> caller_ok s' pc"
  by (cases pc) auto

lemma outside_ok: "\<not> inside pc \<Longrightarrow> caller_ok s pc"
  by (cases pc) simp_all

lemma others_outside: "background_inv s \<Longrightarrow> inside (callers s t) \<Longrightarrow> t' \<noteq> t \<Longrightarrow> \<not> inside (callers s t')"
  by (auto simp: background_inv_def)

lemma background_invI:
  assumes "\<And>t. inside (callers s t) \<longleftrightarrow> background_work_mutex s = Some (Caller t)"
    and "main_inside (main s) \<longleftrightarrow> background_work_mutex s = Some Background_thread"
    and "\<And>t. caller_ok s (callers s t)"
    and "main s = Not_started \<longleftrightarrow> \<not> started_background_thread s"
    and "main s = Not_started \<or> main s = Waiting \<Longrightarrow> background_work_queue s = []"
    and "main s = Popping \<Longrightarrow> background_work_queue s \<noteq> []"
    and "main s \<noteq> Aborted"
    and "executed s @ taken (main s) @ background_work_queue s = scheduled s"
  shows "background_inv s"
  unfolding background_inv_def using assms by blast

lemma background_invD:
  assumes "background_inv s"
  shows "inside (callers s t) \<longleftrightarrow> background_work_mutex s = Some (Caller t)"
    and "main_inside (main s) \<longleftrightarrow> background_work_mutex s = Some Background_thread"
    and "caller_ok s (callers s t)"
    and "main s = Not_started \<longleftrightarrow> \<not> started_background_thread s"
    and "main s = Not_started \<or> main s = Waiting \<longrightarrow> background_work_queue s = []"
    and "main s = Popping \<longrightarrow> background_work_queue s \<noteq> []"
    and "main s \<noteq> Aborted"
    and "executed s @ taken (main s) @ background_work_queue s = scheduled s"
  using assms unfolding background_inv_def by blast+

lemma go_simps [simp]:
  "callers (go t pc s) t' = (if t' = t then pc else callers s t')"
  "background_work_mutex (go t pc s) = background_work_mutex s"
  "started_background_thread (go t pc s) = started_background_thread s"
  "background_work_queue (go t pc s) = background_work_queue s"
  "main (go t pc s) = main s"
  "scheduled (go t pc s) = scheduled s"
  "executed (go t pc s) = executed s"
  by (simp_all add: go_def)

lemma Signal_simps [simp]:
  "callers (CondVar_Signal s) = callers s"
  "background_work_mutex (CondVar_Signal s) = background_work_mutex s"
  "started_background_thread (CondVar_Signal s) = started_background_thread s"
  "background_work_queue (CondVar_Signal s) = background_work_queue s"
  "main (CondVar_Signal s) = (if main s = Waiting then Woken else main s)"
  "scheduled (CondVar_Signal s) = scheduled s"
  "executed (CondVar_Signal s) = executed s"
  by (simp_all add: CondVar_Signal_def split: thread_main.splits)

lemma Mutex_Lock_eq_Some: "Mutex_Lock t s = Some s' \<longleftrightarrow>
    background_work_mutex s = None \<and> s' = s\<lparr>background_work_mutex := Some t\<rparr>"
  by (auto simp: Mutex_Lock_def split: option.splits)

lemma Schedule_inv:
  assumes inv: "background_inv s" and step: "Schedule t s = Some s'"
  shows "background_inv s'"
proof (cases "callers s t")
  case (Locking w)
  note d = background_invD [OF inv]
  have "background_work_mutex s = None" "s' = go t (Starting w) (s\<lparr>background_work_mutex := Some (Caller t)\<rparr>)"
    using step Locking by (auto simp: Schedule_def Mutex_Lock_eq_Some)
  then show ?thesis
    using d by (intro background_invI) (auto intro: caller_ok_cong)
next
  case (Starting w)
  note d = background_invD [OF inv]
  have others: "t' \<noteq> t \<Longrightarrow> \<not> inside (callers s t')" for t'
    using others_outside [OF inv, of t] Starting by simp
  have "s' = go t (Signalling w)
      (if \<not> started_background_thread s then s\<lparr>started_background_thread := True, main := Main_locking\<rparr> else s)"
    using step Starting by (simp add: Schedule_def)
  then show ?thesis
    using d others d(1) [of t] Starting by (intro background_invI) (auto intro: outside_ok)
next
  case (Signalling w)
  note d = background_invD [OF inv]
  have others: "t' \<noteq> t \<Longrightarrow> \<not> inside (callers s t')" for t'
    using others_outside [OF inv, of t] Signalling by simp
  have "s' = go t (Pushing w) (if background_work_queue s = [] then CondVar_Signal s else s)"
    using step Signalling by (simp add: Schedule_def)
  then show ?thesis
    using d others d(1,3) [of t] Signalling
    by (intro background_invI) (auto split: if_splits intro: outside_ok)
next
  case (Pushing w)
  note d = background_invD [OF inv]
  have "s' = go t Unlocking
      (s\<lparr>background_work_queue := background_work_queue s @ [w], scheduled := scheduled s @ [w]\<rparr>)"
    using step Pushing by (simp add: Schedule_def)
  then show ?thesis
    using d d(1,3) [of t] Pushing by (intro background_invI) (auto intro: caller_ok_cong)
next
  case Unlocking
  note d = background_invD [OF inv]
  have "s' = go t Idle (s\<lparr>background_work_mutex := None\<rparr>)"
    using step Unlocking by (simp add: Schedule_def Mutex_Unlock_def)
  then show ?thesis
    using d d(1) [of t] Unlocking by (intro background_invI) (auto intro: caller_ok_cong)
qed (use step in \<open>simp add: Schedule_def\<close>)

lemma BackgroundThreadMain_inv:
  assumes inv: "background_inv s" and step: "BackgroundThreadMain s = Some s'"
  shows "background_inv s'"
proof -
  note d = background_invD [OF inv]
  have lock: "background_inv s'" if "Mutex_Lock Background_thread s = Some r" "s' = r\<lparr>main := Testing\<rparr>"
    "main s = Main_locking \<or> main s = Woken" for r
    using that d by (intro background_invI) (auto simp: Mutex_Lock_eq_Some intro: caller_ok_cong)
  have free: "\<not> inside (callers s t)" if "main_inside (main s)" for t
    using d(1) [of t] d(2) that by simp
  show ?thesis
  proof (cases "main s")
    case Testing
    then show ?thesis
      using step d free by (intro background_invI)
        (auto simp: BackgroundThreadMain_def CondVar_Wait_def Mutex_Unlock_def split: if_splits intro: outside_ok)
  next
    case Popping
    then obtain w ws where "background_work_queue s = w # ws"
      using d(6) by (cases "background_work_queue s") auto
    then show ?thesis
      using Popping step d free by (intro background_invI) (auto simp: BackgroundThreadMain_def intro: outside_ok)
  next
    case (Main_unlocking w)
    then show ?thesis
      using step d free by (intro background_invI)
        (auto simp: BackgroundThreadMain_def Mutex_Unlock_def intro: outside_ok)
  next
    case (Calling w)
    then show ?thesis
      using step d by (intro background_invI) (auto simp: BackgroundThreadMain_def intro: caller_ok_cong)
  qed (use step lock in \<open>auto simp: BackgroundThreadMain_def\<close>)
qed

lemma background_step_inv:
  assumes "background_step s s'" and inv: "background_inv s"
  shows "background_inv s'"
  using assms(1)
proof cases
  case (call t w)
  note d = background_invD [OF inv]
  show ?thesis
    unfolding call(1) using call(2) d d(1) [of t] by (intro background_invI) (auto intro: caller_ok_cong)
next
  case spurious
  note d = background_invD [OF inv]
  show ?thesis
    unfolding spurious(1) using spurious(2) d by (intro background_invI) (auto intro: caller_ok_cong)
qed (use inv Schedule_inv BackgroundThreadMain_inv in blast)+

lemma background_reachable_inv: "background_step\<^sup>*\<^sup>* new_background s \<Longrightarrow> background_inv s"
  by (induction rule: rtranclp_induct) (auto intro: new_background_inv background_step_inv)

subsection \<open>Progress\<close>

text \<open>A caller that holds the mutex is never blocked.\<close>

lemma Schedule_progress: "inside (callers s t) \<Longrightarrow> \<exists>s'. Schedule t s = Some s'"
  by (cases "callers s t") (auto simp: Schedule_def)

lemma main_progress:
  assumes "background_inv s" and "background_work_queue s \<noteq> []" and "\<And>t. background_work_mutex s \<noteq> Some (Caller t)"
  shows "\<exists>s'. BackgroundThreadMain s = Some s'"
proof -
  note d = background_invD [OF assms(1)]
  have "background_work_mutex s = None" if "\<not> main_inside (main s)"
    using d(2) that assms(3) by (metis option.exhaust thread.exhaust)
  then show ?thesis
    using d(5,7) assms(2) by (cases "main s") (auto simp: BackgroundThreadMain_def Mutex_Lock_def)
qed

abbreviation main_steps :: "'w background \<Rightarrow> 'w background \<Rightarrow> bool" where
  "main_steps \<equiv> (\<lambda>s s'. BackgroundThreadMain s = Some s')\<^sup>*\<^sup>*"

text \<open>The number of statements the background thread is away from waiting on an empty queue.\<close>

fun main_rank :: "'w thread_main \<Rightarrow> nat" where
  "main_rank (Main_unlocking w) = 6"
| "main_rank (Calling w) = 5"
| "main_rank Main_locking = 4"
| "main_rank Woken = 4"
| "main_rank Testing = 3"
| "main_rank Popping = 2"
| "main_rank _ = 0"

definition main_distance :: "'w background \<Rightarrow> nat" where
  "main_distance s = 10 * length (background_work_queue s) + main_rank (main s)"

lemma main_closer:
  assumes "background_inv s" and "BackgroundThreadMain s = Some s'"
  shows "main_distance s' < main_distance s" and "scheduled s' = scheduled s" and "callers s' = callers s"
    and "started_background_thread s' = started_background_thread s"
  using assms background_invD(6) [OF assms(1)]
  by (auto simp: BackgroundThreadMain_def main_distance_def CondVar_Wait_def Mutex_Unlock_def Mutex_Lock_eq_Some
      split: thread_main.splits list.splits if_splits)

lemma main_drains:
  assumes "background_inv s" and "started_background_thread s" and "\<And>t. \<not> inside (callers s t)"
  shows "\<exists>s'. main_steps s s' \<and> main s' = Waiting \<and> scheduled s' = scheduled s \<and> executed s' = scheduled s"
  using assms
proof (induction "main_distance s" arbitrary: s rule: less_induct)
  case less
  note d = background_invD [OF less.prems(1)]
  show ?case
  proof (cases "main s = Waiting")
    case True
    then show ?thesis
      using d(5,8) by auto
  next
    case False
    have "background_work_mutex s \<noteq> Some (Caller t)" for t
      using d(1) less.prems(3) by blast
    then have "background_work_mutex s = None" if "\<not> main_inside (main s)"
      using d(2) that by (metis option.exhaust thread.exhaust)
    then obtain s1 where 1: "BackgroundThreadMain s = Some s1"
      using False d(4,7) less.prems(2) by (cases "main s") (auto simp: BackgroundThreadMain_def Mutex_Lock_def)
    obtain s' where "main_steps s1 s'" "main s' = Waiting" "scheduled s' = scheduled s1" "executed s' = scheduled s1"
      using less.hyps [of s1] main_closer [OF less.prems(1) 1] BackgroundThreadMain_inv [OF less.prems(1) 1] less.prems
      by auto
    then show ?thesis
      using 1 main_closer(2) [OF less.prems(1) 1] by (auto intro: converse_rtranclp_into_rtranclp)
  qed
qed

text \<open>A call that nobody disturbs runs to its end.\<close>

lemma Schedule_whole:
  assumes "callers s t = Idle" and "background_work_mutex s = None"
  shows "\<exists>s'. background_step\<^sup>*\<^sup>* s s' \<and> background_work_mutex s' = None \<and> callers s' = callers s \<and>
    started_background_thread s' \<and> scheduled s' = scheduled s @ [w]"
proof -
  let ?a = "go t (Locking w) s"
  let ?b = "go t (Starting w) (?a\<lparr>background_work_mutex := Some (Caller t)\<rparr>)"
  let ?c = "go t (Signalling w)
    (if \<not> started_background_thread ?b then ?b\<lparr>started_background_thread := True, main := Main_locking\<rparr> else ?b)"
  let ?d = "go t (Pushing w) (if background_work_queue ?c = [] then CondVar_Signal ?c else ?c)"
  let ?e = "go t Unlocking
    (?d\<lparr>background_work_queue := background_work_queue ?d @ [w], scheduled := scheduled ?d @ [w]\<rparr>)"
  let ?f = "go t Idle (Mutex_Unlock ?e)"
  have "background_step s ?a"
    using assms(1) by (rule background_step.call)
  moreover have "background_step ?a ?b"
    using assms by (intro background_step.caller [of t]) (simp add: Schedule_def Mutex_Lock_def)
  moreover have "background_step ?b ?c"
    by (rule background_step.caller [of t]) (simp add: Schedule_def)
  moreover have "background_step ?c ?d"
    by (rule background_step.caller [of t]) (simp add: Schedule_def)
  moreover have "background_step ?d ?e"
    by (rule background_step.caller [of t]) (simp add: Schedule_def)
  moreover have "background_step ?e ?f"
    by (rule background_step.caller [of t]) (simp add: Schedule_def)
  ultimately have "background_step\<^sup>*\<^sup>* s ?f"
    by (meson converse_rtranclp_into_rtranclp rtranclp.rtrancl_refl)
  moreover have "callers ?f = callers s"
    using assms(1) by (auto simp: Mutex_Unlock_def fun_eq_iff)
  ultimately show ?thesis
    by (intro exI [of _ ?f]) (auto simp: Mutex_Unlock_def)
qed

lemma main_steps_are_steps: "main_steps s s' \<Longrightarrow> background_step\<^sup>*\<^sup>* s s'"
  by (erule mono_rtranclp [rule_format, rotated]) (rule background_step.thread_main)

subsection \<open>Properties\<close>

text \<open>C19: in every interleaving of callers and the background thread, with or without spurious
  wake-ups, the items are run in the order they were put into the queue, each exactly once: those
  run, the one being run and those queued make up everything scheduled. The mutex has at most one
  holder, the assertion of the background thread never fails, and it never sleeps on a queue that
  holds work: no wake-up is lost.\<close>

theorem Background_runs_in_order:
  assumes "background_step\<^sup>*\<^sup>* new_background s"
  shows "executed s @ taken (main s) @ background_work_queue s = scheduled s \<and> main s \<noteq> Aborted \<and>
    (main s = Waiting \<longrightarrow> executed s = scheduled s) \<and>
    (\<forall>t t'. inside (callers s t) \<and> inside (callers s t') \<longrightarrow> t = t') \<and>
    (\<forall>t. inside (callers s t) \<longrightarrow> \<not> main_inside (main s))"
proof -
  note d = background_invD [OF background_reachable_inv [OF assms]]
  show ?thesis
    using d(1,2,5,7,8) by auto
qed

theorem Background_runs_in_order_witness:
  "\<exists>s. background_step\<^sup>*\<^sup>* new_background s \<and> scheduled s = [''compact''] \<and>
     executed s @ taken (main s) @ background_work_queue s = [''compact'']"
proof -
  obtain s where "background_step\<^sup>*\<^sup>* new_background s" "scheduled s = [''compact'']"
    using Schedule_whole [of new_background 0 "''compact''"] by (auto simp: new_background_def)
  then show ?thesis
    using Background_runs_in_order [of s] by auto
qed

text \<open>C20: scheduled work is run. While the queue holds work, the caller that holds the mutex or else
  the background thread can take its next step; and once the mutex is in no caller's hands, the
  background thread alone gets through everything scheduled so far and then waits.\<close>

theorem Background_drains:
  assumes "background_step\<^sup>*\<^sup>* new_background s"
  shows "(background_work_queue s \<noteq> [] \<longrightarrow>
      (\<exists>t s'. inside (callers s t) \<and> Schedule t s = Some s') \<or> (\<exists>s'. BackgroundThreadMain s = Some s')) \<and>
    (started_background_thread s \<and> (\<forall>t. \<not> inside (callers s t)) \<longrightarrow>
      (\<exists>s'. main_steps s s' \<and> main s' = Waiting \<and> executed s' = scheduled s))"
proof -
  have inv: "background_inv s"
    using assms by (rule background_reachable_inv)
  have "\<exists>s'. BackgroundThreadMain s = Some s'"
    if "background_work_queue s \<noteq> []" and none: "\<nexists>t s'. inside (callers s t) \<and> Schedule t s = Some s'"
    using main_progress [OF inv that(1)] background_invD(1) [OF inv] Schedule_progress [of s] none by blast
  then show ?thesis
    using main_drains [OF inv] by blast
qed

theorem Background_drains_witness:
  "\<exists>s. background_step\<^sup>*\<^sup>* new_background s \<and> executed s = [''flush'', ''compact'']"
proof -
  obtain s where s: "background_step\<^sup>*\<^sup>* new_background s" "background_work_mutex s = None"
      "callers s = (\<lambda>_. Idle)" "scheduled s = [''flush'']"
    using Schedule_whole [of new_background 0 "''flush''"] by (auto simp: new_background_def)
  obtain r where r: "background_step\<^sup>*\<^sup>* s r" "callers r = (\<lambda>_. Idle)" "started_background_thread r"
      "scheduled r = [''flush'', ''compact'']"
    using Schedule_whole [of s 1 "''compact''"] s(2-4) by auto
  have run: "background_step\<^sup>*\<^sup>* new_background r"
    using s(1) r(1) by (rule rtranclp_trans)
  then obtain s' where "main_steps r s'" "executed s' = [''flush'', ''compact'']"
    using Background_drains [OF run] r(2-4) by auto
  then show ?thesis
    using rtranclp_trans [OF run main_steps_are_steps] by blast
qed

end
