(* ===== verification/PosixLogger.thy ===== *)
theory PosixLogger
  imports Logging "HOL-Library.Monad_Syntax"
begin

text \<open>
  \<^verbatim>\<open>PosixLogger::Logv\<close> (\<^verbatim>\<open>util/posix_logger.h\<close>): a log line is printed into a buffer on the stack and, if
  it does not fit, printed again into one of the right size. Given are the time, the text of the
  thread id and the text that the format and its arguments make; the result is the bytes handed to
  \<^verbatim>\<open>fwrite\<close> and the buffers on the heap, by their sizes. An overflow of \<^verbatim>\<open>int\<close>, an access outside a
  buffer and, in a build without \<^verbatim>\<open>NDEBUG\<close>, a failed assertion are \<^term>\<open>None\<close>. Of
  \<^verbatim>\<open>snprintf\<close> the model has what the C standard says: it writes as much of the text as fits, with a
  terminating zero, and returns the length of the whole text. A format that fails to encode is not modelled.
\<close>

subsection \<open>Formatting\<close>

definition c_int :: "int \<Rightarrow> int option" where
  "c_int i = asserting (- (2 ^ 31) \<le> i \<and> i < 2 ^ 31) (Some i)"

text \<open>\<^verbatim>\<open>%0wd\<close>.\<close>

definition zero_padded :: "nat \<Rightarrow> int \<Rightarrow> bytes" where
  "zero_padded w i =
     (let sign = (if i < 0 then ascii ''-'' else []); digits = decimal (nat \<bar>i\<bar>) in
      sign @ replicate (w - length sign - length digits) 0x30 @ digits)"

definition snprintf_into :: "bytes \<Rightarrow> nat \<Rightarrow> nat \<Rightarrow> bytes \<Rightarrow> bytes option" where
  "snprintf_into buf off n txt = (if n = 0 then Some buf else mem_write buf off (take (n - 1) txt @ [0]))"

record tm =
  tm_year :: int
  tm_mon :: int
  tm_mday :: int
  tm_hour :: int
  tm_min :: int
  tm_sec :: int

definition kMaxThreadIdSize :: nat where
  "kMaxThreadIdSize = 32"

definition kStackBufferSize :: int where
  "kStackBufferSize = 512"

definition Logv_header :: "tm \<Rightarrow> int \<Rightarrow> bytes \<Rightarrow> bytes" where
  "Logv_header now tv_usec thread_id =
     zero_padded 4 (tm_year now + 1900) @ ascii ''/'' @ zero_padded 2 (tm_mon now + 1) @ ascii ''/'' @
     zero_padded 2 (tm_mday now) @ ascii ''-'' @ zero_padded 2 (tm_hour now) @ ascii '':'' @ zero_padded 2 (tm_min now) @ ascii '':'' @
     zero_padded 2 (tm_sec now) @ ascii ''.'' @ zero_padded 6 tv_usec @ ascii '' '' @ thread_id @ ascii '' ''"

subsection \<open>The two attempts\<close>

text \<open>An assertion that is compiled away with \<^verbatim>\<open>NDEBUG\<close>.\<close>

definition debug_assert :: "bool \<Rightarrow> bool \<Rightarrow> 'a option \<Rightarrow> 'a option" where
  "debug_assert ndebug b r = (if ndebug then r else asserting b r)"

text \<open>One iteration of the loop: \<^term>\<open>Inl\<close> the size of the buffer that is needed, or \<^term>\<open>Inr\<close> the bytes written.
  A header that does not fit is an error in every build, since the size passed to \<^verbatim>\<open>vsnprintf\<close> would
  then wrap around.\<close>

definition Logv_iteration :: "bool \<Rightarrow> bool \<Rightarrow> bytes \<Rightarrow> int \<Rightarrow> bytes \<Rightarrow> bytes \<Rightarrow> (int + bytes) option" where
  "Logv_iteration ndebug first buffer buffer_size header message = do {
     buffer \<leftarrow> snprintf_into buffer 0 (nat buffer_size) header;
     let buffer_offset = int (length header);
     debug_assert ndebug (buffer_offset \<le> 28 + int kMaxThreadIdSize) (asserting (buffer_offset < buffer_size) (do {
       buffer \<leftarrow> snprintf_into buffer (nat buffer_offset) (nat (buffer_size - buffer_offset)) message;
       buffer_offset \<leftarrow> c_int (buffer_offset + int (length message));
       fits \<leftarrow> (if buffer_offset \<ge> buffer_size - 1 then
           if first then do {
             dynamic_buffer_size \<leftarrow> c_int (buffer_offset + 2);
             Some (Inl dynamic_buffer_size)
           }
           else debug_assert ndebug False (Some (Inr (buffer_size - 1)))
         else Some (Inr buffer_offset));
       case fits of
         Inl dynamic_buffer_size \<Rightarrow> Some (Inl dynamic_buffer_size)
       | Inr buffer_offset \<Rightarrow> asserting (1 \<le> buffer_offset) (do {
           last \<leftarrow> mem_read buffer (nat (buffer_offset - 1)) 1;
           (buffer, buffer_offset) \<leftarrow> (if last \<noteq> [0x0a] then do {
               buffer \<leftarrow> mem_write buffer (nat buffer_offset) [0x0a];
               Some (buffer, buffer_offset + 1)
             }
             else Some (buffer, buffer_offset));
           debug_assert ndebug (buffer_offset \<le> buffer_size) (do {
             out \<leftarrow> mem_read buffer 0 (nat buffer_offset);
             Some (Inr out)
           })
         })
     }))
   }"

text \<open>The second buffer is added to the heap by \<^verbatim>\<open>new\<close> and removed by \<^verbatim>\<open>delete[]\<close>.\<close>

definition Logv :: "bool \<Rightarrow> (nat \<Rightarrow> u8) \<Rightarrow> tm \<Rightarrow> int \<Rightarrow> bytes \<Rightarrow> bytes \<Rightarrow> int list \<Rightarrow> (bytes \<times> int list) option" where
  "Logv ndebug junk now tv_usec thread_id message heap = do {
     let thread_id = (if length thread_id > kMaxThreadIdSize then take kMaxThreadIdSize thread_id else thread_id);
     let header = Logv_header now tv_usec thread_id;
     r \<leftarrow> Logv_iteration ndebug True (mem_new junk (nat kStackBufferSize)) kStackBufferSize header message;
     case r of
       Inr out \<Rightarrow> Some (out, heap)
     | Inl dynamic_buffer_size \<Rightarrow> do {
         let heap = dynamic_buffer_size # heap;
         r \<leftarrow> Logv_iteration ndebug False (mem_new junk (nat dynamic_buffer_size)) dynamic_buffer_size header message;
         case r of Inr out \<Rightarrow> Some (out, remove1 dynamic_buffer_size heap) | Inl _ \<Rightarrow> None
       }
   }"

subsection \<open>The header\<close>

lemma length_decimal: "n < 10 ^ Suc k \<Longrightarrow> length (decimal n) \<le> Suc k"
proof (induction k arbitrary: n)
  case 0
  then show ?case
    by (simp add: decimal.simps)
next
  case (Suc k)
  show ?case
  proof (cases "n < 10")
    case False
    have "n div 10 < 10 ^ Suc k"
      using Suc.prems by (simp add: less_mult_imp_div_less mult.commute)
    then show ?thesis
      using Suc.IH [of "n div 10"] False by (subst decimal.simps) simp
  qed (simp add: decimal.simps)
qed

lemma length_zero_padded: "0 \<le> i \<Longrightarrow> i < 10 ^ Suc k \<Longrightarrow> length (zero_padded (Suc k) i) = Suc k"
  using length_decimal [of "nat i" k] by (simp add: zero_padded_def nat_less_iff Let_def)

definition tm_ok :: "tm \<Rightarrow> bool" where
  "tm_ok t \<longleftrightarrow> 0 \<le> tm_year t + 1900 \<and> tm_year t + 1900 \<le> 9999 \<and> 0 \<le> tm_mon t \<and> tm_mon t \<le> 11 \<and> 1 \<le> tm_mday t \<and> tm_mday t \<le> 31 \<and>
     0 \<le> tm_hour t \<and> tm_hour t \<le> 23 \<and> 0 \<le> tm_min t \<and> tm_min t \<le> 59 \<and> 0 \<le> tm_sec t \<and> tm_sec t \<le> 60"

lemma length_Logv_header:
  assumes "tm_ok now" and "0 \<le> usec" and "usec < 1000000"
  shows "length (Logv_header now usec thread_id) = 28 + length thread_id"
proof -
  have "length (zero_padded 4 (tm_year now + 1900)) = 4" "length (zero_padded 2 (tm_mon now + 1)) = 2"
    "length (zero_padded 2 (tm_mday now)) = 2" "length (zero_padded 2 (tm_hour now)) = 2" "length (zero_padded 2 (tm_min now)) = 2"
    "length (zero_padded 2 (tm_sec now)) = 2" "length (zero_padded 6 usec) = 6"
    using assms length_zero_padded [of _ 3] length_zero_padded [of _ 1] length_zero_padded [of _ 5]
    by (simp_all add: tm_ok_def eval_nat_numeral)
  then show ?thesis
    by (simp add: Logv_header_def)
qed

lemma Logv_header_nonempty: "Logv_header now usec thread_id = h \<Longrightarrow> h \<noteq> [] \<and> last h = 0x20"
  by (auto simp: Logv_header_def)

subsection \<open>Printing\<close>

text \<open>The line a message makes.\<close>

definition log_line :: "bytes \<Rightarrow> bytes" where
  "log_line txt = txt @ (if last txt = 0x0a then [] else [0x0a])"

lemma snprintf_twice:
  assumes "h < n" and "h = length header" and "length buf = n"
  obtains b1 b2 where "snprintf_into buf 0 n header = Some b1" and "snprintf_into b1 h (n - h) message = Some b2"
    and "length b2 = n" and "h + length message < n \<Longrightarrow> take (h + length message) b2 = header @ message"
proof -
  define b1 where "b1 = take (n - 1) header @ [0] @ drop (length (take (n - 1) header @ [0])) buf"
  have 1: "snprintf_into buf 0 n header = Some b1" "length b1 = n" "take h b1 = header"
    using assms by (auto simp: snprintf_into_def mem_write_def b1_def min_def)
  define m where "m = take (n - h - 1) message @ [0]"
  have m: "h + length m \<le> n"
    using assms by (simp add: m_def)
  then have "snprintf_into b1 h (n - h) message = Some (take h b1 @ m @ drop (h + length m) b1)"
    using assms 1 by (simp add: snprintf_into_def mem_write_def m_def)
  then show ?thesis
    using that 1 m assms by (auto simp: m_def)
qed

lemma Logv_iteration_retry:
  assumes "length header \<le> 60" and "int (length header) < n" and "length buf = nat n"
    and "n - 1 \<le> int (length header + length message)" and "int (length header + length message) + 2 < 2 ^ 31"
  shows "Logv_iteration ndebug True buf n header message = Some (Inl (int (length header + length message) + 2))"
proof -
  obtain b1 b2 where b: "snprintf_into buf 0 (nat n) header = Some b1"
    "snprintf_into b1 (length header) (nat n - length header) message = Some b2"
    by (rule snprintf_twice [of "length header" "nat n" header buf message]) (use assms in auto)
  have "nat (n - int (length header)) = nat n - length header"
    by simp
  then show ?thesis
    using assms b by (simp add: Logv_iteration_def debug_assert_def Let_def kMaxThreadIdSize_def c_int_def)
qed

lemma Logv_iteration_fits:
  assumes "length header \<le> 60" and "header \<noteq> []" and "length buf = nat n"
    and "int (length header + length message) < n - 1" and "int (length header + length message) < 2 ^ 31"
  shows "Logv_iteration ndebug first buf n header message = Some (Inr (log_line (header @ message)))"
proof -
  define k where "k = length header + length message"
  obtain b1 b2 where b: "snprintf_into buf 0 (nat n) header = Some b1"
    "snprintf_into b1 (length header) (nat n - length header) message = Some b2" "length b2 = nat n"
    "take k b2 = header @ message"
    by (rule snprintf_twice [of "length header" "nat n" header buf message]) (use assms in \<open>auto simp: k_def\<close>)
  have k: "0 < k" "Suc k < nat n"
    using assms by (auto simp: k_def)
  have at: "b2 ! (k - 1) = (header @ message) ! (k - 1)"
    using b(4) k by (metis diff_less nth_take zero_less_one)
  have "take 1 (drop (k - 1) b2) = [b2 ! (k - 1)]"
    using b(3) k by (subst Cons_nth_drop_Suc [symmetric]) simp_all
  then have last: "mem_read b2 (k - 1) 1 = Some [last (header @ message)]"
    using at b(3) k assms(2) by (simp add: mem_read_def last_conv_nth k_def)
  have newline: "mem_write b2 k [0x0a] = Some (header @ message @ [0x0a] @ drop (Suc k) b2)"
    using b(3,4) k by (simp add: mem_write_def)
  have text_read: "mem_read b2 0 k = Some (header @ message)"
    "mem_read (header @ message @ [0x0a] @ drop (Suc k) b2) 0 (Suc k) = Some (header @ message @ [0x0a])"
    using b(3,4) k by (simp_all add: mem_read_def k_def)
  have off: "int (length header) + int (length message) = int k" "nat (int k - 1) = k - 1" "nat (int k + 1) = Suc k"
    "nat (n - int (length header)) = nat n - length header"
    by (simp_all add: k_def nat_add_distrib nat_diff_distrib)
  have "1 \<le> int k"
    using k(1) by simp
  then have bounds: "int (length header) < n" "int k < n - 1" "int k < 2 ^ 31" "1 \<le> int k" "int k + 1 \<le> n" "int k \<le> n"
    using assms(4,5) by (auto simp: k_def)
  show ?thesis
    unfolding Logv_iteration_def Let_def
    using assms(1) bounds b(1,2) last newline text_read
    by (simp add: debug_assert_def kMaxThreadIdSize_def c_int_def off log_line_def)
qed

subsection \<open>Properties\<close>

text \<open>C27: a log call writes exactly its line: the header with time and thread, the whole message however
  long, and a newline at the end unless the message brings one. Both attempts stay inside their
  buffers, the second one always fits, no assertion fails and the second buffer is deleted, for every
  time that the calendar allows and every message short enough for the lengths to be an \<^verbatim>\<open>int\<close>. A build
  with \<^verbatim>\<open>NDEBUG\<close> does the same: it never truncates a message.\<close>

theorem Logv_writes_line:
  assumes "tm_ok now" and "0 \<le> usec" and "usec < 1000000" and "length message + 62 < 2 ^ 31"
  shows "Logv ndebug junk now usec thread_id message heap = Some (log_line (Logv_header now usec (take 32 thread_id) @ message), heap)"
proof -
  define h where "h = Logv_header now usec (take 32 thread_id)"
  have tid: "(if length thread_id > kMaxThreadIdSize then take kMaxThreadIdSize thread_id else thread_id) = take 32 thread_id"
    by (simp add: kMaxThreadIdSize_def)
  have len: "length h \<le> 60" "h \<noteq> []"
    using length_Logv_header [OF assms(1-3), of "take 32 thread_id"] by (auto simp: h_def)
  let ?k = "int (length h + length message)"
  have k: "?k + 2 < 2 ^ 31"
    using len assms(4) by simp
  have def: "Logv ndebug junk now usec thread_id message heap = do {
     r \<leftarrow> Logv_iteration ndebug True (mem_new junk 512) 512 h message;
     case r of
       Inr out \<Rightarrow> Some (out, heap)
     | Inl d \<Rightarrow> do {
         r \<leftarrow> Logv_iteration ndebug False (mem_new junk (nat d)) d h message;
         case r of Inr out \<Rightarrow> Some (out, heap) | Inl _ \<Rightarrow> None
       }
   }"
    unfolding Logv_def Let_def tid h_def [symmetric] by (simp add: kStackBufferSize_def)
  show ?thesis
  proof (cases "?k < 511")
    case True
    then show ?thesis
      unfolding def h_def [symmetric] using Logv_iteration_fits [of h "mem_new junk 512" 512 message ndebug True] len k by simp
  next
    case False
    then have "Logv_iteration ndebug True (mem_new junk 512) 512 h message = Some (Inl (?k + 2))"
      using Logv_iteration_retry [of h 512 "mem_new junk 512" message ndebug] len k by simp
    moreover have "Logv_iteration ndebug False (mem_new junk (nat (?k + 2))) (?k + 2) h message = Some (Inr (log_line (h @ message)))"
      using Logv_iteration_fits [of h "mem_new junk (nat (?k + 2))" "?k + 2" message ndebug False] len k by simp
    ultimately show ?thesis
      unfolding def h_def [symmetric] by simp
  qed
qed

theorem Logv_writes_line_witness:
  "Logv False (\<lambda>_. 0) \<lparr>tm_year = 124, tm_mon = 0, tm_mday = 2, tm_hour = 3, tm_min = 4, tm_sec = 5\<rparr> 6 (ascii ''7'') (ascii ''hi'') [] =
     Some (ascii ''2024/01/02-03:04:05.000006 7 hi'' @ [0x0a], [])"
proof -
  let ?now = "\<lparr>tm_year = 124, tm_mon = 0, tm_mday = 2, tm_hour = 3, tm_min = 4, tm_sec = 5\<rparr>"
  have "Logv False (\<lambda>_. 0) ?now 6 (ascii ''7'') (ascii ''hi'') [] =
      Some (log_line (Logv_header ?now 6 (take 32 (ascii ''7'')) @ ascii ''hi''), [])"
    by (rule Logv_writes_line) (simp_all add: tm_ok_def)
  also have "log_line (Logv_header ?now 6 (take 32 (ascii ''7'')) @ ascii ''hi'') = ascii ''2024/01/02-03:04:05.000006 7 hi'' @ [0x0a]"
    by code_simp
  finally show ?thesis .
qed

end
