(* ===== verification/Histogram.thy ===== *)
theory Histogram
  imports Prelude "HOL-Library.Multiset" "HOL-Library.Monad_Syntax"
begin

text \<open>
  The histogram of \<^verbatim>\<open>util/histogram.h\<close> and \<^verbatim>\<open>util/histogram.cpp\<close>. Its numbers are floating-point numbers,
  which are a parameter here: a type \<open>'d\<close> with a record of the operations the code uses on it.
  \<open>doubles_ok\<close> states what is relied on: comparisons order the numbers other than NaN, the limits
  of the buckets are distinct numbers in their order, and counting by ones is exact up to \<open>2 ^ 53\<close>. Nothing
  is assumed of sums of values, products, quotients and roots. \<^verbatim>\<open>ToString\<close> has the formatting of
  floating-point numbers and their conversion to \<^verbatim>\<open>int\<close> as parameters too.
\<close>

subsection \<open>Definitions\<close>

text \<open>The value of an integer literal, arithmetic, and the comparisons.\<close>

record 'd double =
  d_num :: "int \<Rightarrow> 'd"
  d_add :: "'d \<Rightarrow> 'd \<Rightarrow> 'd"
  d_sub :: "'d \<Rightarrow> 'd \<Rightarrow> 'd"
  d_mul :: "'d \<Rightarrow> 'd \<Rightarrow> 'd"
  d_div :: "'d \<Rightarrow> 'd \<Rightarrow> 'd"
  d_sqrt :: "'d \<Rightarrow> 'd"
  d_eq :: "'d \<Rightarrow> 'd \<Rightarrow> bool"
  d_less :: "'d \<Rightarrow> 'd \<Rightarrow> bool"
  d_le :: "'d \<Rightarrow> 'd \<Rightarrow> bool"

definition kNumBuckets :: nat where
  "kNumBuckets = 154"

definition kBucketLimit :: "int list" where
  "kBucketLimit = [
    1, 2, 3, 4, 5, 6, 7, 8, 9, 10, 12, 14, 16, 18, 20, 25, 30, 35, 40, 45, 50, 60, 70, 80, 90, 100, 120, 140,
    160, 180, 200, 250, 300, 350, 400, 450, 500, 600, 700, 800, 900, 1000, 1200, 1400, 1600, 1800, 2000,
    2500, 3000, 3500, 4000, 4500, 5000, 6000, 7000, 8000, 9000, 10000, 12000, 14000, 16000, 18000, 20000,
    25000, 30000, 35000, 40000, 45000, 50000, 60000, 70000, 80000, 90000, 100000, 120000, 140000, 160000,
    180000, 200000, 250000, 300000, 350000, 400000, 450000, 500000, 600000, 700000, 800000, 900000, 1000000,
    1200000, 1400000, 1600000, 1800000, 2000000, 2500000, 3000000, 3500000, 4000000, 4500000, 5000000,
    6000000, 7000000, 8000000, 9000000, 10000000, 12000000, 14000000, 16000000, 18000000, 20000000, 25000000,
    30000000, 35000000, 40000000, 45000000, 50000000, 60000000, 70000000, 80000000, 90000000, 100000000,
    120000000, 140000000, 160000000, 180000000, 200000000, 250000000, 300000000, 350000000, 400000000,
    450000000, 500000000, 600000000, 700000000, 800000000, 900000000, 1000000000, 1200000000, 1400000000,
    1600000000, 1800000000, 2000000000, 2500000000, 3000000000, 3500000000, 4000000000, 4500000000,
    5000000000, 6000000000, 7000000000, 8000000000, 9000000000, 10 ^ 200]"

definition bucket_limit :: "'d double \<Rightarrow> nat \<Rightarrow> 'd" where
  "bucket_limit D b = d_num D (kBucketLimit ! b)"

record 'd Histogram =
  h_min :: 'd
  h_max :: 'd
  h_num :: 'd
  h_sum :: 'd
  h_sum_squares :: 'd
  h_buckets :: "'d list"

definition Histogram_Clear :: "'d double \<Rightarrow> 'd Histogram \<Rightarrow> 'd Histogram" where
  "Histogram_Clear D h = h\<lparr>h_min := bucket_limit D (kNumBuckets - 1), h_max := d_num D 0, h_num := d_num D 0, h_sum := d_num D 0,
     h_sum_squares := d_num D 0, h_buckets := map (\<lambda>i. d_num D 0) [0..<kNumBuckets]\<rparr>"

function find_bucket :: "'d double \<Rightarrow> 'd \<Rightarrow> nat \<Rightarrow> nat" where
  "find_bucket D v b = (if b < kNumBuckets - 1 \<and> d_le D (bucket_limit D b) v then find_bucket D v (b + 1) else b)"
  by pat_completeness auto
termination
  by (relation "measure (\<lambda>(D, v, b). kNumBuckets - b)") auto

declare find_bucket.simps [simp del]

definition Histogram_Add :: "'d double \<Rightarrow> 'd \<Rightarrow> 'd Histogram \<Rightarrow> 'd Histogram" where
  "Histogram_Add D v h = (
     let b = find_bucket D v 0;
         h = h\<lparr>h_buckets := (h_buckets h)[b := d_add D (h_buckets h ! b) (d_num D 1)]\<rparr>;
         h = (if d_less D v (h_min h) then h\<lparr>h_min := v\<rparr> else h);
         h = (if d_less D (h_max h) v then h\<lparr>h_max := v\<rparr> else h) in
     h\<lparr>h_num := d_add D (h_num h) (d_num D 1), h_sum := d_add D (h_sum h) v,
       h_sum_squares := d_add D (h_sum_squares h) (d_mul D v v)\<rparr>)"

definition Histogram_Merge :: "'d double \<Rightarrow> 'd Histogram \<Rightarrow> 'd Histogram \<Rightarrow> 'd Histogram" where
  "Histogram_Merge D other h = (
     let h = (if d_less D (h_min other) (h_min h) then h\<lparr>h_min := h_min other\<rparr> else h);
         h = (if d_less D (h_max h) (h_max other) then h\<lparr>h_max := h_max other\<rparr> else h) in
     h\<lparr>h_num := d_add D (h_num h) (h_num other), h_sum := d_add D (h_sum h) (h_sum other),
       h_sum_squares := d_add D (h_sum_squares h) (h_sum_squares other),
       h_buckets := map (\<lambda>b. d_add D (h_buckets h ! b) (h_buckets other ! b)) [0..<kNumBuckets]\<rparr>)"

text \<open>The loop of \<^verbatim>\<open>Percentile\<close> from bucket \<open>b\<close> on, with the count of the buckets before it.\<close>

function Percentile_loop :: "'d double \<Rightarrow> 'd Histogram \<Rightarrow> 'd \<Rightarrow> 'd \<Rightarrow> nat \<Rightarrow> 'd" where
  "Percentile_loop D h threshold s b =
     (if b < kNumBuckets then
        let s = d_add D s (h_buckets h ! b) in
        if d_le D threshold s then
          let left_point = (if b = 0 then d_num D 0 else bucket_limit D (b - 1));
              right_point = bucket_limit D b;
              left_sum = d_sub D s (h_buckets h ! b);
              right_sum = s;
              pos = d_div D (d_sub D threshold left_sum) (d_sub D right_sum left_sum);
              r = d_add D left_point (d_mul D (d_sub D right_point left_point) pos);
              r = (if d_less D r (h_min h) then h_min h else r) in
          if d_less D (h_max h) r then h_max h else r
        else Percentile_loop D h threshold s (b + 1)
      else h_max h)"
  by pat_completeness auto
termination
  by (relation "measure (\<lambda>(D, h, t, s, b). kNumBuckets - b)") auto

declare Percentile_loop.simps [simp del]

definition Histogram_Percentile :: "'d double \<Rightarrow> 'd Histogram \<Rightarrow> 'd \<Rightarrow> 'd" where
  "Histogram_Percentile D h p = Percentile_loop D h (d_mul D (h_num h) (d_div D p (d_num D 100))) (d_num D 0) 0"

definition Histogram_Median :: "'d double \<Rightarrow> 'd Histogram \<Rightarrow> 'd" where
  "Histogram_Median D h = Histogram_Percentile D h (d_num D 50)"

definition Histogram_Average :: "'d double \<Rightarrow> 'd Histogram \<Rightarrow> 'd" where
  "Histogram_Average D h = (if d_eq D (h_num h) (d_num D 0) then d_num D 0 else d_div D (h_sum h) (h_num h))"

definition Histogram_StandardDeviation :: "'d double \<Rightarrow> 'd Histogram \<Rightarrow> 'd" where
  "Histogram_StandardDeviation D h =
     (if d_eq D (h_num h) (d_num D 0) then d_num D 0
      else let variance = d_div D (d_sub D (d_mul D (h_sum_squares h) (h_num h)) (d_mul D (h_sum h) (h_sum h)))
                 (d_mul D (h_num h) (h_num h)) in
        d_sqrt D variance)"

text \<open>
  What \<^verbatim>\<open>ToString\<close> uses besides: \<^verbatim>\<open>%w.pf\<close> for a width \<open>w\<close> and a precision \<open>p\<close>, the literal \<^verbatim>\<open>0.5\<close>, and the
  conversion to \<^verbatim>\<open>int\<close>, \<^term>\<open>None\<close> where it is undefined.
\<close>

record 'd formatting =
  f_fixed :: "nat \<Rightarrow> nat \<Rightarrow> 'd \<Rightarrow> string"
  f_half :: 'd
  f_int :: "'d \<Rightarrow> int option"

text \<open>\<^verbatim>\<open>snprintf\<close> into a buffer of 200 characters, the last of which ends the string.\<close>

definition buf_text :: "string \<Rightarrow> string" where
  "buf_text text = take 199 text"

definition left_limit :: "'d double \<Rightarrow> nat \<Rightarrow> 'd" where
  "left_limit D b = (if b = 0 then d_num D 0 else bucket_limit D (b - 1))"

definition bucket_text :: "'d double \<Rightarrow> 'd formatting \<Rightarrow> 'd \<Rightarrow> nat \<Rightarrow> 'd \<Rightarrow> 'd \<Rightarrow> string" where
  "bucket_text D F mlt b cnt s = buf_text (
     ''[ '' @ f_fixed F 7 0 (left_limit D b) @ '', '' @ f_fixed F 7 0 (bucket_limit D b) @ '' ) '' @
     f_fixed F 7 0 cnt @ '' '' @ f_fixed F 7 3 (d_mul D mlt cnt) @ ''% '' @
     f_fixed F 7 3 (d_mul D mlt s) @ ''% '')"

definition hash_marks :: "'d double \<Rightarrow> 'd formatting \<Rightarrow> 'd \<Rightarrow> 'd \<Rightarrow> int option" where
  "hash_marks D F cnt n = f_int F (d_add D (d_mul D (d_num D 20) (d_div D cnt n)) (f_half F))"

text \<open>A negative number of hash marks would become a huge size, for which \<^verbatim>\<open>append\<close> throws.\<close>

fun ToString_loop ::
    "'d double \<Rightarrow> 'd formatting \<Rightarrow> 'd Histogram \<Rightarrow> 'd \<Rightarrow> 'd \<Rightarrow> nat list \<Rightarrow> string \<Rightarrow> string option" where
  "ToString_loop D F h mlt s [] r = Some r"
| "ToString_loop D F h mlt s (b # bs) r =
     (if d_le D (h_buckets h ! b) (d_num D 0) then ToString_loop D F h mlt s bs r
      else do {
        let s = d_add D s (h_buckets h ! b);
        let r = r @ bucket_text D F mlt b (h_buckets h ! b) s;
        marks \<leftarrow> hash_marks D F (h_buckets h ! b) (h_num h);
        asserting (0 \<le> marks) (ToString_loop D F h mlt s bs (r @ replicate (nat marks) CHR 0x23 @ [CHR 0x0A]))
      })"

definition Histogram_ToString :: "'d double \<Rightarrow> 'd formatting \<Rightarrow> 'd Histogram \<Rightarrow> string option" where
  "Histogram_ToString D F h = (
     let r = buf_text (''Count: '' @ f_fixed F 0 0 (h_num h) @ ''  Average: '' @ f_fixed F 0 4 (Histogram_Average D h) @
               ''  StdDev: '' @ f_fixed F 0 2 (Histogram_StandardDeviation D h) @ [CHR 0x0A]);
         r = r @ buf_text (''Min: '' @ f_fixed F 0 4 (if d_eq D (h_num h) (d_num D 0) then d_num D 0 else h_min h) @
               ''  Median: '' @ f_fixed F 0 4 (Histogram_Median D h) @ ''  Max: '' @ f_fixed F 0 4 (h_max h) @ [CHR 0x0A]);
         r = r @ ''------------------------------------------------------'' @ [CHR 0x0A];
         mlt = d_div D (d_num D 100) (h_num h) in
     ToString_loop D F h mlt (d_num D 0) [0..<kNumBuckets] r)"

subsection \<open>The numbers\<close>

text \<open>\<open>number\<close> holds of the values that are not NaN.\<close>

definition doubles_ok :: "'d double \<Rightarrow> ('d \<Rightarrow> bool) \<Rightarrow> bool" where
  "doubles_ok D number \<longleftrightarrow>
     (\<forall>x y. number x \<longrightarrow> number y \<longrightarrow> (d_less D x y \<longleftrightarrow> \<not> d_le D y x)) \<and>
     (\<forall>x. number x \<longrightarrow> d_le D x x) \<and>
     (\<forall>x y z. number x \<longrightarrow> number y \<longrightarrow> number z \<longrightarrow> d_le D x y \<longrightarrow> d_le D y z \<longrightarrow> d_le D x z) \<and>
     (\<forall>x y. number x \<longrightarrow> number y \<longrightarrow> d_le D x y \<or> d_le D y x) \<and>
     (\<forall>i. number (d_num D i)) \<and>
     (\<forall>i \<in> set kBucketLimit. \<forall>j \<in> set kBucketLimit. i < j \<longrightarrow> d_less D (d_num D i) (d_num D j)) \<and>
     (\<forall>m n. m + n \<le> 2 ^ 53 \<longrightarrow> d_add D (d_num D (int m)) (d_num D (int n)) = d_num D (int (m + n)))"

lemma length_kBucketLimit: "length kBucketLimit = kNumBuckets"
  by (simp add: kBucketLimit_def kNumBuckets_def)

lemma kBucketLimit_sorted: "sorted_wrt (<) kBucketLimit"
proof -
  have "successively (<) kBucketLimit"
    unfolding kBucketLimit_def by simp
  then show ?thesis
    by (subst successively_conv_sorted_wrt [symmetric]) (auto intro: transpI)
qed

lemma doubles_okD:
  assumes "doubles_ok D number"
  shows "number x \<Longrightarrow> number y \<Longrightarrow> d_less D x y \<longleftrightarrow> \<not> d_le D y x" and "number x \<Longrightarrow> d_le D x x"
    and "number x \<Longrightarrow> number y \<Longrightarrow> number z \<Longrightarrow> d_le D x y \<Longrightarrow> d_le D y z \<Longrightarrow> d_le D x z"
    and "number x \<Longrightarrow> number y \<Longrightarrow> d_le D x y \<or> d_le D y x" and "number (d_num D i)"
    and "i \<in> set kBucketLimit \<Longrightarrow> j \<in> set kBucketLimit \<Longrightarrow> i < j \<Longrightarrow> d_less D (d_num D i) (d_num D j)"
    and "m + n \<le> 2 ^ 53 \<Longrightarrow> d_add D (d_num D (int m)) (d_num D (int n)) = d_num D (int (m + n))"
  using assms unfolding doubles_ok_def by blast+

lemma bucket_limit_less:
  assumes "doubles_ok D number" and "i < j" and "j < kNumBuckets"
  shows "d_less D (bucket_limit D i) (bucket_limit D j)"
proof -
  have "kBucketLimit ! i < kBucketLimit ! j"
    using sorted_wrt_nth_less [OF kBucketLimit_sorted assms(2)] assms(3) by (simp add: length_kBucketLimit)
  then show ?thesis
    unfolding bucket_limit_def using assms by (intro doubles_okD(6) [OF assms(1)]) (simp_all add: length_kBucketLimit)
qed

lemma bucket_limit_le:
  assumes "doubles_ok D number" and "i \<le> j" and "j < kNumBuckets"
  shows "d_le D (bucket_limit D i) (bucket_limit D j)"
proof (cases "i = j")
  case False
  have n: "number (bucket_limit D b)" for b
    unfolding bucket_limit_def by (rule doubles_okD(5) [OF assms(1)])
  then show ?thesis
    using bucket_limit_less [OF assms(1), of i j] doubles_okD(1,4) [OF assms(1) n n] False assms(2,3) by force
qed (simp add: bucket_limit_def doubles_okD(2,5) [OF assms(1)])

subsection \<open>Buckets\<close>

text \<open>The values a bucket is meant for.\<close>

definition in_bucket :: "'d double \<Rightarrow> nat \<Rightarrow> 'd \<Rightarrow> bool" where
  "in_bucket D b v \<longleftrightarrow> (b = 0 \<or> d_le D (bucket_limit D (b - 1)) v) \<and> (b = kNumBuckets - 1 \<or> \<not> d_le D (bucket_limit D b) v)"

lemma find_bucket_in:
  assumes "b < kNumBuckets" and "b = 0 \<or> d_le D (bucket_limit D (b - 1)) v"
  shows "find_bucket D v b < kNumBuckets \<and> in_bucket D (find_bucket D v b) v"
  using assms
proof (induction D v b rule: find_bucket.induct)
  case (1 D v b)
  show ?case
  proof (cases "b < kNumBuckets - 1 \<and> d_le D (bucket_limit D b) v")
    case True
    then show ?thesis
      using 1 by (subst (1 2) find_bucket.simps) auto
  next
    case False
    then show ?thesis
      using 1(2,3) by (subst (1 2) find_bucket.simps) (auto simp: in_bucket_def)
  qed
qed

lemma in_bucket_unique:
  assumes ok: "doubles_ok D number" and v: "number v" and "in_bucket D b v" and "in_bucket D c v"
    and "b < kNumBuckets" and "c < kNumBuckets"
  shows "b = c"
proof -
  have n: "number (bucket_limit D b)" for b
    unfolding bucket_limit_def by (rule doubles_okD(5) [OF ok])
  have "\<not> b < c" if "in_bucket D b v" "in_bucket D c v" "c < kNumBuckets" for b c
  proof
    assume "b < c"
    then have "d_le D (bucket_limit D b) (bucket_limit D (c - 1))" "d_le D (bucket_limit D (c - 1)) v" "\<not> d_le D (bucket_limit D b) v"
      using bucket_limit_le [OF ok, of b "c - 1"] that by (auto simp: in_bucket_def)
    then show False
      using doubles_okD(3) [OF ok n n v] by blast
  qed
  then show ?thesis
    using assms(3-) by (metis linorder_neqE_nat)
qed

lemma find_bucket_iff:
  assumes "doubles_ok D number" and "number v" and "b < kNumBuckets"
  shows "find_bucket D v 0 = b \<longleftrightarrow> in_bucket D b v"
  using find_bucket_in [of 0 D v] in_bucket_unique [OF assms(1,2)] assms(3) by (auto simp: kNumBuckets_def)

subsection \<open>What a histogram stands for\<close>

text \<open>A histogram of the values \<open>vs\<close>: every bucket holds the number of values it is meant for, and the extremes
  bound the values and are attained, up to the initial values of the two fields.\<close>

definition histogram_of :: "'d double \<Rightarrow> ('d \<Rightarrow> bool) \<Rightarrow> 'd list \<Rightarrow> 'd Histogram \<Rightarrow> bool" where
  "histogram_of D number vs h \<longleftrightarrow> length (h_buckets h) = kNumBuckets \<and>
     (\<forall>b < kNumBuckets. h_buckets h ! b = d_num D (int (length (filter (in_bucket D b) vs)))) \<and>
     h_num h = d_num D (int (length vs)) \<and>
     (\<forall>v \<in> set vs. d_le D (h_min h) v) \<and> (h_min h = bucket_limit D (kNumBuckets - 1) \<or> h_min h \<in> set vs) \<and>
     (\<forall>v \<in> set vs. d_le D v (h_max h)) \<and> (h_max h = d_num D 0 \<or> h_max h \<in> set vs)"

lemma histogram_of_numbers:
  assumes "doubles_ok D number" and "histogram_of D number vs h" and "\<forall>v \<in> set vs. number v"
  shows "number (h_min h)" and "number (h_max h)"
  using assms by (auto simp: histogram_of_def bucket_limit_def intro: doubles_okD(5))

lemma Histogram_Clear_of: "histogram_of D number [] (Histogram_Clear D h)"
  by (simp add: histogram_of_def Histogram_Clear_def)

text \<open>Taking the smaller of two lower bounds, and the larger of two upper bounds.\<close>

lemma lower_bound_merge:
  assumes ok: "doubles_ok D number" and "number m" and "number m'" and "\<forall>v \<in> A \<union> B. number v"
    and "\<forall>v \<in> A. d_le D m v" and "\<forall>v \<in> B. d_le D m' v"
  shows "\<forall>v \<in> A \<union> B. d_le D (if d_less D m' m then m' else m) v"
  using assms(2-) doubles_okD(1,3,4) [OF ok] by (smt (verit, best) Un_iff)

lemma upper_bound_merge:
  assumes ok: "doubles_ok D number" and "number m" and "number m'" and "\<forall>v \<in> A \<union> B. number v"
    and "\<forall>v \<in> A. d_le D v m" and "\<forall>v \<in> B. d_le D v m'"
  shows "\<forall>v \<in> A \<union> B. d_le D v (if d_less D m m' then m' else m)"
  using assms(2-) doubles_okD(1,3,4) [OF ok] by (smt (verit, best) Un_iff)

lemma Histogram_Add_fields:
  "h_buckets (Histogram_Add D v h) = (h_buckets h)[find_bucket D v 0 := d_add D (h_buckets h ! find_bucket D v 0) (d_num D 1)]"
  "h_num (Histogram_Add D v h) = d_add D (h_num h) (d_num D 1)"
  "h_min (Histogram_Add D v h) = (if d_less D v (h_min h) then v else h_min h)"
  "h_max (Histogram_Add D v h) = (if d_less D (h_max h) v then v else h_max h)"
  by (simp_all add: Histogram_Add_def Let_def)

lemma Histogram_Merge_fields:
  "h_buckets (Histogram_Merge D other h) = map (\<lambda>b. d_add D (h_buckets h ! b) (h_buckets other ! b)) [0..<kNumBuckets]"
  "h_num (Histogram_Merge D other h) = d_add D (h_num h) (h_num other)"
  "h_min (Histogram_Merge D other h) = (if d_less D (h_min other) (h_min h) then h_min other else h_min h)"
  "h_max (Histogram_Merge D other h) = (if d_less D (h_max h) (h_max other) then h_max other else h_max h)"
  by (simp_all add: Histogram_Merge_def Let_def)

lemma Histogram_Add_of:
  assumes ok: "doubles_ok D number" and h: "histogram_of D number vs h" and vs: "\<forall>v \<in> set vs. number v" and v: "number v"
    and len: "length vs < 2 ^ 53"
  shows "histogram_of D number (v # vs) (Histogram_Add D v h)"
proof -
  note n = histogram_of_numbers [OF ok h vs]
  have add1: "d_add D (d_num D (int m)) (d_num D 1) = d_num D (int (Suc m))" if "m \<le> length vs" for m
    using doubles_okD(7) [OF ok, of m 1] that len by simp
  have "h_buckets (Histogram_Add D v h) ! b = d_num D (int (length (filter (in_bucket D b) (v # vs))))" if "b < kNumBuckets" for b
    using h that find_bucket_iff [OF ok v that] add1 [OF length_filter_le [of "in_bucket D b" vs]]
    by (auto simp: Histogram_Add_fields histogram_of_def nth_list_update)
  moreover have "h_num (Histogram_Add D v h) = d_num D (int (length (v # vs)))"
    using h add1 [of "length vs"] by (simp add: Histogram_Add_fields histogram_of_def)
  moreover have "\<forall>x \<in> set (v # vs). d_le D (h_min (Histogram_Add D v h)) x"
    using lower_bound_merge [OF ok n(1) v, of "set vs" "{v}"] h vs v doubles_okD(2) [OF ok v]
    by (auto simp: Histogram_Add_fields histogram_of_def)
  moreover have "\<forall>x \<in> set (v # vs). d_le D x (h_max (Histogram_Add D v h))"
    using upper_bound_merge [OF ok n(2) v, of "set vs" "{v}"] h vs v doubles_okD(2) [OF ok v]
    by (auto simp: Histogram_Add_fields histogram_of_def)
  ultimately show ?thesis
    using h unfolding histogram_of_def by (auto simp: Histogram_Add_fields)
qed

lemma Histogram_Merge_of:
  assumes ok: "doubles_ok D number" and g: "histogram_of D number ws g" and h: "histogram_of D number vs h"
    and ws: "\<forall>v \<in> set ws. number v" and vs: "\<forall>v \<in> set vs. number v" and len: "length vs + length ws \<le> 2 ^ 53"
  shows "histogram_of D number (vs @ ws) (Histogram_Merge D g h)"
proof -
  note n = histogram_of_numbers [OF ok h vs] and m = histogram_of_numbers [OF ok g ws]
  have sum: "d_add D (d_num D (int i)) (d_num D (int j)) = d_num D (int (i + j))" if "i \<le> length vs" "j \<le> length ws" for i j
    using doubles_okD(7) [OF ok, of i j] that len by simp
  have "h_buckets (Histogram_Merge D g h) ! b = d_num D (int (length (filter (in_bucket D b) (vs @ ws))))" if "b < kNumBuckets" for b
    using g h that sum [OF length_filter_le [of "in_bucket D b" vs] length_filter_le [of "in_bucket D b" ws]]
    by (simp add: Histogram_Merge_fields histogram_of_def)
  moreover have "h_num (Histogram_Merge D g h) = d_num D (int (length (vs @ ws)))"
    using g h sum [of "length vs" "length ws"] by (simp add: Histogram_Merge_fields histogram_of_def)
  moreover have "\<forall>x \<in> set (vs @ ws). d_le D (h_min (Histogram_Merge D g h)) x"
    unfolding Histogram_Merge_fields set_append
    by (rule lower_bound_merge [OF ok n(1) m(1)]) (use vs ws g h in \<open>auto simp: histogram_of_def\<close>)
  moreover have "\<forall>x \<in> set (vs @ ws). d_le D x (h_max (Histogram_Merge D g h))"
    unfolding Histogram_Merge_fields set_append
    by (rule upper_bound_merge [OF ok n(2) m(2)]) (use vs ws g h in \<open>auto simp: histogram_of_def\<close>)
  moreover have "h_min (Histogram_Merge D g h) = bucket_limit D (kNumBuckets - 1) \<or> h_min (Histogram_Merge D g h) \<in> set (vs @ ws)"
    "h_max (Histogram_Merge D g h) = d_num D 0 \<or> h_max (Histogram_Merge D g h) \<in> set (vs @ ws)"
    using g h unfolding histogram_of_def Histogram_Merge_fields by (simp_all only: set_append Un_iff split: if_split) blast+
  moreover have "length (h_buckets (Histogram_Merge D g h)) = kNumBuckets"
    by (simp add: Histogram_Merge_fields)
  ultimately show ?thesis
    unfolding histogram_of_def by blast
qed

lemma Histogram_fold_of:
  assumes "doubles_ok D number" and "\<forall>v \<in> set vs. number v" and "length vs \<le> 2 ^ 53"
  shows "histogram_of D number (rev vs) (fold (Histogram_Add D) vs (Histogram_Clear D h))"
  using assms(2,3)
proof (induction vs rule: rev_induct)
  case Nil
  then show ?case
    by (simp add: Histogram_Clear_of)
next
  case (snoc v vs)
  then show ?case
    using Histogram_Add_of [OF assms(1), of "rev vs" "fold (Histogram_Add D) vs (Histogram_Clear D h)" v] by simp
qed

lemma histogram_of_mset:
  assumes "histogram_of D number vs h" and "mset vs = mset ws"
  shows "histogram_of D number ws h"
proof -
  have "set vs = set ws" "length vs = length ws"
    using assms(2) by (auto dest: mset_eq_setD mset_eq_length)
  moreover have "length (filter P vs) = length (filter P ws)" for P
    using assms(2) by (metis mset_filter size_mset)
  ultimately show ?thesis
    using assms(1) by (simp add: histogram_of_def)
qed

subsection \<open>The table of \<^verbatim>\<open>ToString\<close>\<close>

text \<open>The counts are ordered as integers are.\<close>

definition counts_ordered :: "'d double \<Rightarrow> bool" where
  "counts_ordered D \<longleftrightarrow> (\<forall>n \<le> 2 ^ 53. d_le D (d_num D (int n)) (d_num D 0) \<longleftrightarrow> n = 0)"

definition count_in :: "'d double \<Rightarrow> 'd list \<Rightarrow> nat \<Rightarrow> nat" where
  "count_in D vs b = length (filter (in_bucket D b) vs)"

definition table_line :: "'d double \<Rightarrow> 'd formatting \<Rightarrow> 'd \<Rightarrow> 'd \<Rightarrow> 'd list \<Rightarrow> nat \<Rightarrow> string" where
  "table_line D F mlt n vs b =
     bucket_text D F mlt b (d_num D (int (count_in D vs b))) (d_num D (int (\<Sum>i \<le> b. count_in D vs i))) @
     replicate (nat (the (hash_marks D F (d_num D (int (count_in D vs b))) n))) CHR 0x23 @ [CHR 0x0A]"

lemma count_in_le: "count_in D vs b \<le> length vs"
  by (simp add: count_in_def)

text \<open>A value is in one bucket only.\<close>

lemma sum_count_in:
  assumes "doubles_ok D number" and "\<forall>v \<in> set vs. number v" and "n \<le> kNumBuckets"
  shows "(\<Sum>i < n. count_in D vs i) \<le> length vs"
  using assms(2)
proof (induction vs)
  case (Cons v vs)
  have one: "(\<Sum>i < n. if in_bucket D i v then 1 else 0 :: nat) \<le> 1"
  proof -
    have "(\<Sum>i < n. if in_bucket D i v then 1 else 0 :: nat) = card {i \<in> {..<n}. in_bucket D i v}"
      by (simp add: sum.If_cases Int_def)
    also have "find_bucket D v 0 = i" if "i < n" "in_bucket D i v" for i
      using find_bucket_iff [OF assms(1), of v i] that assms(3) Cons.prems by simp
    then have "{i \<in> {..<n}. in_bucket D i v} \<subseteq> {find_bucket D v 0}" by auto
    then have "card {i \<in> {..<n}. in_bucket D i v} \<le> card {find_bucket D v 0}"
      by (intro card_mono) auto
    finally show ?thesis by simp
  qed
  have "(\<Sum>i < n. count_in D (v # vs) i) = (\<Sum>i < n. (if in_bucket D i v then 1 else 0) + count_in D vs i)"
    by (intro sum.cong) (simp_all add: count_in_def)
  then show ?case
    using one Cons by (simp add: sum.distrib)
qed (simp add: count_in_def)

lemma ToString_loop_table:
  assumes ok: "doubles_ok D number" and ord: "counts_ordered D" and h: "histogram_of D number vs h"
    and vs: "\<forall>v \<in> set vs. number v" and len: "length vs \<le> 2 ^ 53"
    and marks: "\<forall>c. 0 < c \<and> c \<le> length vs \<longrightarrow> (\<exists>m. hash_marks D F (d_num D (int c)) (h_num h) = Some (int m))"
    and "k \<le> kNumBuckets"
  shows "ToString_loop D F h mlt (d_num D (int (\<Sum>i < k. count_in D vs i))) [k..<kNumBuckets] r =
    Some (r @ concat (map (table_line D F mlt (h_num h) vs) (filter (\<lambda>b. 0 < count_in D vs b) [k..<kNumBuckets])))"
  using \<open>k \<le> kNumBuckets\<close>
proof (induction "kNumBuckets - k" arbitrary: k r)
  case (Suc n)
  let ?c = "count_in D vs k" and ?s = "\<lambda>k. \<Sum>i < k. count_in D vs i"
  have k: "k < kNumBuckets" "[k..<kNumBuckets] = k # [Suc k..<kNumBuckets]"
    using Suc.hyps(2) by (simp_all add: upt_conv_Cons)
  have bucket: "h_buckets h ! k = d_num D (int ?c)"
    using h k(1) by (simp add: histogram_of_def count_in_def)
  have zero: "d_le D (d_num D (int ?c)) (d_num D 0) \<longleftrightarrow> ?c = 0"
    using ord count_in_le [of D vs k] len by (simp add: counts_ordered_def)
  have rest: "ToString_loop D F h mlt (d_num D (int (?s (Suc k)))) [Suc k..<kNumBuckets] r =
      Some (r @ concat (map (table_line D F mlt (h_num h) vs) (filter (\<lambda>b. 0 < count_in D vs b) [Suc k..<kNumBuckets])))" for r
    using Suc.hyps k(1) by (intro Suc.hyps(1)) auto
  show ?case
  proof (cases "?c = 0")
    case True
    then show ?thesis
      using rest [of r] zero bucket k(2) by simp
  next
    case False
    then obtain m where m: "hash_marks D F (d_num D (int ?c)) (h_num h) = Some (int m)"
      using marks count_in_le [of D vs k] by auto
    have "?s k + ?c \<le> 2 ^ 53"
      using sum_count_in [OF ok vs, of "Suc k"] k(1) len by simp
    then have add: "d_add D (d_num D (int (?s k))) (d_num D (int ?c)) = d_num D (int (?s (Suc k)))"
      using doubles_okD(7) [OF ok, of "?s k" ?c] by (simp only: sum.lessThan_Suc)
    have "table_line D F mlt (h_num h) vs k =
        bucket_text D F mlt k (d_num D (int ?c)) (d_num D (int (?s (Suc k)))) @ replicate m CHR 0x23 @ [CHR 0x0A]"
      by (simp add: table_line_def m lessThan_Suc_atMost)
    then show ?thesis
      using False zero add m rest by (simp add: bucket k(2) del: sum.lessThan_Suc)
  qed
qed simp

subsection \<open>Properties\<close>

text \<open>C28: a histogram counts. After a clear and any sequence of additions, every bucket holds the number of
  values from its lower limit, included, to its upper limit, excluded (the first bucket takes all
  below and the last all above), the total is their number and the extremes bound them; and merging a second
  histogram gives a histogram of the values of both.\<close>

theorem Histogram_counts_and_merges:
  assumes "doubles_ok D number" and "\<forall>v \<in> set vs \<union> set ws. number v" and "length vs + length ws \<le> 2 ^ 53"
    and "h = fold (Histogram_Add D) vs (Histogram_Clear D h0)" and "g = fold (Histogram_Add D) ws (Histogram_Clear D g0)"
  shows "histogram_of D number vs h \<and> histogram_of D number (vs @ ws) (Histogram_Merge D g h)"
proof -
  have h: "histogram_of D number vs h" and g: "histogram_of D number ws g"
    using Histogram_fold_of [OF assms(1), of vs h0] Histogram_fold_of [OF assms(1), of ws g0] assms(2-)
    by (auto elim: histogram_of_mset)
  then show ?thesis
    using Histogram_Merge_of [OF assms(1) g h] assms(2,3) by simp
qed

text \<open>The table that \<^verbatim>\<open>ToString\<close> prints under its three lines of totals has one line for each bucket that is
  not empty, in order, with the limits of the bucket, the number of values in it and the number of values in the
  buckets up to it, both exact, also as percentages, and a bar of hash marks; empty buckets are left out.\<close>

theorem Histogram_ToString_table:
  assumes "doubles_ok D number" and "counts_ordered D" and "histogram_of D number vs h"
    and "\<forall>v \<in> set vs. number v" and "length vs \<le> 2 ^ 53"
    and "\<forall>c. 0 < c \<and> c \<le> length vs \<longrightarrow> (\<exists>m. hash_marks D F (d_num D (int c)) (h_num h) = Some (int m))"
  shows "\<exists>totals. Histogram_ToString D F h = Some (totals @
      concat (map (\<lambda>b. bucket_text D F (d_div D (d_num D 100) (h_num h)) b
          (d_num D (int (count_in D vs b))) (d_num D (int (\<Sum>i \<le> b. count_in D vs i))) @
        replicate (nat (the (hash_marks D F (d_num D (int (count_in D vs b))) (h_num h)))) CHR 0x23 @ [CHR 0x0A])
        (filter (\<lambda>b. 0 < count_in D vs b) [0..<kNumBuckets])))"
proof -
  have "ToString_loop D F h mlt (d_num D 0) [0..<kNumBuckets] r =
      Some (r @ concat (map (table_line D F mlt (h_num h) vs) (filter (\<lambda>b. 0 < count_in D vs b) [0..<kNumBuckets])))" for mlt r
    using ToString_loop_table [OF assms, of 0 mlt r] by simp
  then show ?thesis
    unfolding Histogram_ToString_def Let_def table_line_def by blast
qed

text \<open>The integers are such numbers.\<close>

definition int_double :: "int double" where
  "int_double = \<lparr>d_num = (\<lambda>i. i), d_add = (+), d_sub = (-), d_mul = (*), d_div = (div), d_sqrt = (\<lambda>x. x), d_eq = (=),
     d_less = (<), d_le = (\<le>)\<rparr>"

definition no_histogram :: "int Histogram" where
  "no_histogram = \<lparr>h_min = 0, h_max = 0, h_num = 0, h_sum = 0, h_sum_squares = 0, h_buckets = []\<rparr>"

lemma int_doubles_ok: "doubles_ok int_double (\<lambda>_. True)"
  by (auto simp: doubles_ok_def int_double_def)

theorem Histogram_counts_and_merges_witness:
  "histogram_of int_double (\<lambda>_. True) [3, 11, 11]
     (Histogram_Merge int_double (fold (Histogram_Add int_double) [11] (Histogram_Clear int_double no_histogram))
        (fold (Histogram_Add int_double) [3, 11] (Histogram_Clear int_double no_histogram)))"
  using Histogram_counts_and_merges [OF int_doubles_ok _ _ refl refl, of "[3, 11]" "[11]" no_histogram no_histogram] by simp

definition int_formatting :: "int formatting" where
  "int_formatting = \<lparr>f_fixed = (\<lambda>w p x. if x = 1 then ''1'' else if x = 2 then ''2'' else ''100''), f_half = 0, f_int = Some\<rparr>"

theorem Histogram_ToString_table_witness:
  "\<exists>totals. Histogram_ToString int_double int_formatting
      (fold (Histogram_Add int_double) [1, 1] (Histogram_Clear int_double no_histogram)) =
    Some (totals @ ''[ 1, 2 ) 2 100% 100% '' @ replicate 20 CHR 0x23 @ [CHR 0x0A])"
proof -
  let ?D = int_double and ?F = int_formatting and ?vs = "[1, 1] :: int list"
  let ?h = "fold (Histogram_Add ?D) ?vs (Histogram_Clear ?D no_histogram)"
  have h: "histogram_of ?D (\<lambda>_. True) ?vs ?h"
    using Histogram_fold_of [OF int_doubles_ok, of ?vs no_histogram] by simp
  then have num: "h_num ?h = 2"
    by (simp add: histogram_of_def int_double_def)
  have "in_bucket ?D 1 1"
    by (simp add: in_bucket_def int_double_def bucket_limit_def kBucketLimit_def kNumBuckets_def)
  then have "in_bucket ?D b 1 \<longleftrightarrow> b = 1" if "b < kNumBuckets" for b
    using in_bucket_unique [OF int_doubles_ok, where v = 1 and b = b and c = 1] that by (auto simp: kNumBuckets_def)
  then have cnt: "count_in ?D ?vs b = (if b = 1 then 2 else 0)" if "b < kNumBuckets" for b
    using that by (simp add: count_in_def)
  have "filter (\<lambda>b. 0 < count_in ?D ?vs b) [0..<kNumBuckets] = filter (\<lambda>b. b = 1) [0..<kNumBuckets]"
    using cnt by (intro filter_cong) auto
  also have "\<dots> = [1]"
    by (simp add: kNumBuckets_def upt_rec)
  finally have buckets: "filter (\<lambda>b. 0 < count_in ?D ?vs b) [0..<kNumBuckets] = [1]" .
  have "hash_marks ?D ?F (d_num ?D (int c)) (h_num ?h) = Some (int (20 * (c div 2)))" for c
    unfolding num by (simp add: hash_marks_def int_formatting_def int_double_def zdiv_int)
  then have marks: "\<forall>c. 0 < c \<and> c \<le> length ?vs \<longrightarrow> (\<exists>m. hash_marks ?D ?F (d_num ?D (int c)) (h_num ?h) = Some (int m))"
    by blast
  have "counts_ordered ?D"
    by (simp add: counts_ordered_def int_double_def)
  have total: "(\<Sum>i \<le> 1. count_in ?D ?vs i) = 2"
    using cnt [of 0] cnt [of 1] by (simp add: kNumBuckets_def atMost_Suc)
  have row: "bucket_text ?D ?F (d_div ?D (d_num ?D 100) 2) 1 (d_num ?D (int 2)) (d_num ?D (int 2)) = ''[ 1, 2 ) 2 100% 100% ''"
    by (simp add: bucket_text_def buf_text_def left_limit_def bucket_limit_def kBucketLimit_def
        int_formatting_def int_double_def)
  have bar: "hash_marks ?D ?F (d_num ?D (int 2)) 2 = Some 20"
    by (simp add: hash_marks_def int_formatting_def int_double_def)
  have two: "count_in ?D ?vs 1 = 2"
    using cnt [of 1] by (simp add: kNumBuckets_def)
  from Histogram_ToString_table [OF int_doubles_ok \<open>counts_ordered ?D\<close> h _ _ marks]
  obtain totals where "Histogram_ToString ?D ?F ?h = Some (totals @ ''[ 1, 2 ) 2 100% 100% '' @ replicate (nat 20) CHR 0x23 @ [CHR 0x0A])"
    unfolding buckets num list.map concat.simps two total row bar option.sel append_assoc append_Nil2 by auto
  then show ?thesis
    by (intro exI [of _ totals]) simp
qed

end
