(* ===== verification/Options.thy ===== *)
theory Options
  imports Comparator FilterPolicy
begin

text \<open>
  The options of \<^verbatim>\<open>include/lldb/options.h\<close> and their defaults (\<^verbatim>\<open>util/options.cpp\<close>). A pointer that may
  be null is an option; the environment, the logger, the cache and the snapshot are opaque here, and
  \<^verbatim>\<open>Env::Default()\<close> is an argument.
\<close>

datatype CompressionType = kNoCompression | kSnappyCompression | kZstdCompression

fun CompressionType_code :: "CompressionType \<Rightarrow> u8" where
  "CompressionType_code kNoCompression = 0x0"
| "CompressionType_code kSnappyCompression = 0x1"
| "CompressionType_code kZstdCompression = 0x2"

record ('env, 'logger, 'cache) Options =
  opt_comparator :: Comparator
  create_if_missing :: bool
  error_if_exists :: bool
  paranoid_checks :: bool
  opt_env :: 'env
  info_log :: "'logger option"
  write_buffer_size :: u64
  max_open_files :: u32
  block_cache :: "'cache option"
  block_size :: u64
  block_restart_interval :: u32
  max_file_size :: u64
  compression :: CompressionType
  zstd_compression_level :: u32
  reuse_logs :: bool
  opt_filter_policy :: "FilterPolicy option"

definition new_Options :: "'env \<Rightarrow> ('env, 'logger, 'cache) Options" where
  "new_Options default_env = \<lparr>opt_comparator = BytewiseComparator, create_if_missing = False, error_if_exists = False,
     paranoid_checks = False, opt_env = default_env, info_log = None, write_buffer_size = 4 * 1024 * 1024,
     max_open_files = 1000, block_cache = None, block_size = 4 * 1024, block_restart_interval = 16,
     max_file_size = 2 * 1024 * 1024, compression = kSnappyCompression, zstd_compression_level = 1, reuse_logs = False,
     opt_filter_policy = None\<rparr>"

record 'snapshot ReadOptions =
  verify_checksums :: bool
  fill_cache :: bool
  snapshot :: "'snapshot option"

definition new_ReadOptions :: "'snapshot ReadOptions" where
  "new_ReadOptions = \<lparr>verify_checksums = False, fill_cache = True, snapshot = None\<rparr>"

record WriteOptions =
  sync :: bool

definition new_WriteOptions :: WriteOptions where
  "new_WriteOptions = \<lparr>sync = False\<rparr>"

text \<open>The codes are part of the format on disk: no two methods share one.\<close>

lemma CompressionType_code_inj: "CompressionType_code a = CompressionType_code b \<longleftrightarrow> a = b"
  by (cases a; cases b) simp_all

end
