(* ===== verification/Spec2Isabelle.thy ===== *)
theory Spec2Isabelle
  imports DBFormat Bloom Status SkipListReaders RandomPeriod Crc32c MergeScan CacheInterface GuardedObjects MemEnv PosixWholeFile Singletons
    Background PosixLogger Histogram Options
begin

text \<open>
  This library models the C++ repository in \<^verbatim>\<open>src/\<close>, a LevelDB-style storage engine (``lldb''), and proves what its
  components promise. The repository holds the building blocks of the engine: keys and their orders, encodings,
  the memtable's skip list and its arena, Bloom filters, the block cache, iterators and their merge, checksums,
  and two environments, one in memory and one on POSIX, on which files are written and background work is run.

  \<^bold>\<open>How the code is modelled.\<close> Every theory opens with what it models. A class is a record of its fields, an enumeration a
  datatype, a method a function from the object to its result and the object after it, composed as in the source. Machine
  integers are words of their width. A failed \<^verbatim>\<open>assert\<close>, an access outside a block of memory and a use of freed memory are the
  value \<^term>\<open>None\<close>, so a theorem that a call returns \<^term>\<open>Some\<close> also says that none of these happens. Loops are
  recursive functions with a termination proof, or \<^verbatim>\<open>partial_function (option)\<close> where they need not end (chains of
  pointers, retries of interrupted calls): then \<^term>\<open>None\<close> also stands for not returning, and the theorems show that the call returns.
  No fuel is used anywhere. Pointer structures live on explicit heaps: maps from addresses to nodes.

  \<^bold>\<open>Parameters.\<close> Code outside the repository is an argument of the definitions that use it: the allocators behind
  \<^verbatim>\<open>new\<close> (fresh addresses, \<^verbatim>\<open>fresh_alloc\<close>), the content of uninitialised memory (\<^verbatim>\<open>junk\<close>, arbitrary), the operating
  system (the record \<^verbatim>\<open>posix\<close> of its calls) and floating-point arithmetic (the record \<^verbatim>\<open>double\<close>). What a theorem
  needs of them is a named predicate with a concrete instance in the theorem's witness.

  \<^bold>\<open>Bytes and keys.\<close> \<open>Prelude\<close>: machine types, memory blocks, assertions. \<open>Slice\<close> (\<^verbatim>\<open>include/lldb/slice.h\<close>): a slice is the bytes
  it refers to; comparison is lexicographic. \<open>Comparator\<close> (\<^verbatim>\<open>include/lldb/comparator.h\<close>, \<^verbatim>\<open>util/comparator.cpp\<close>): the interface as a
  locale, the bytewise comparator as its instance, with separators and successors. \<open>Coding\<close> (\<^verbatim>\<open>util/coding.*\<close>): fixed and
  variable-length integers; writers and readers are inverse, and which inputs the readers accept. \<open>Logging\<close>
  (\<^verbatim>\<open>util/logging.*\<close>): printing and reading of decimal numbers with the overflow check. \<open>DBFormat\<close>
  (\<^verbatim>\<open>db/dbformat.*\<close>): internal keys, their comparator as an instance of the comparator locale over any user comparator, lookup keys.
  \<open>Hash\<close>, \<open>Crc32cTables\<close>, \<open>Crc32c\<close> (\<^verbatim>\<open>util/hash.*\<close>, \<^verbatim>\<open>util/crc32c.*\<close>): the strided table-driven checksum equals
  polynomial division bit by bit. \<open>FilterPolicy\<close>, \<open>Bloom\<close> (\<^verbatim>\<open>util/bloom.*\<close>): what a filter answers, and below its
  composition with internal keys. \<open>Status\<close> (\<^verbatim>\<open>util/status.cpp\<close>): the in-memory representation of errors. \<open>RandomGen\<close>,
  \<open>RandomPeriod\<close> (\<^verbatim>\<open>util/random.h\<close>): the generator visits every state. \<open>Options\<close> (\<^verbatim>\<open>include/lldb/options.h\<close>): the defaults.

  \<^bold>\<open>Memtable.\<close> \<open>Arena\<close> (\<^verbatim>\<open>util/arena.*\<close>): allocations are disjoint, aligned and inside owned blocks. \<open>SkipList\<close>
  (\<^verbatim>\<open>memtable/skiplist.h\<close>): nodes and links on a heap taken from the arena, random heights; insertion refines sorted insertion,
  iterators refine positions in the sorted list. \<open>SkipListConc\<close>, \<open>SkipListReaders\<close>: one writer and many readers that are not
  synchronised, interleaved at single loads and stores, with stale values of \<^verbatim>\<open>max_height_\<close>: searches answer as at one
  instant between their start and their end, and end in spite of the writer.

  \<^bold>\<open>Iterators.\<close> \<open>Iterator\<close>, \<open>VectorIterator\<close>, \<open>Merger\<close> (\<^verbatim>\<open>include/lldb/iterator.h\<close>, \<^verbatim>\<open>table/\<close>): the contract of an
  iterator as a locale, over entries with distinct keys; the merge of iterators that keep it and share no key keeps it, over the union of
  their entries, in both directions. \<open>MergeScan\<close>: with keys in several children a forward scan still delivers every entry of every
  child once and in order (what changes of direction do to equal keys is left open).

  \<^bold>\<open>Cache.\<close> \<open>HandleTable\<close>, \<open>LRUCache\<close>, \<open>LRUProperties\<close>, \<open>CacheFrame\<close>, \<open>ShardedCache\<close>, \<open>ShardedProperties\<close>
  (\<^verbatim>\<open>util/cache.cpp\<close>, \<^verbatim>\<open>util/cache_impl.h\<close>): the chained hash table is a map; a shard with its two circular lists and
  reference counts refines an abstract cache; sixteen shards share a heap without touching each other's
  handles, and every value is deleted exactly once. \<open>CacheInterface\<close> (\<^verbatim>\<open>include/lldb/cache.h\<close>): the abstract class, and what its
  users rely on as the locale \<open>pinning_cache\<close>: an entry whose handle is held stays and is found.

  \<^bold>\<open>Threads and mutexes.\<close> \<open>Guarded\<close> (\<^verbatim>\<open>util/mutexlock.h\<close>): scopes under \<^verbatim>\<open>MutexLock\<close>, run by any number of threads statement by
  statement, are atomic: what has happened is what the finished calls do one after the other (locale \<open>guarded_class\<close>). \<open>GuardedObjects\<close>: the
  counters of \<^verbatim>\<open>NewId\<close> and of the references to an in-memory file, with loads and stores apart. In the other theories a call under a
  mutex is one step, which this justifies.

  \<^bold>\<open>Environments.\<close> \<open>EnvInterface\<close> (\<^verbatim>\<open>include/lldb/env.h\<close>, \<^verbatim>\<open>util/env.cpp\<close>): the abstract class as two records of methods, its contract for
  named files as the locale \<open>file_env\<close>, the whole-file routines proved from it, the forwarding class, the default methods and \<^verbatim>\<open>Log\<close>. \<open>MemFile\<close>, \<open>MemEnv\<close> (\<^verbatim>\<open>helper/memenv/\<close>):
  files in blocks with reference counts, an instance of the locale. \<open>Limiter\<close>, \<open>PosixFile\<close>, \<open>PosixWrites\<close>, \<open>PosixReads\<close>,
  \<open>PosixEnv\<close> (\<^verbatim>\<open>util/env_posix.cpp\<close>): the resource counter under any interleaving of threads; buffered writing through
  short and interrupted writes; the two random access files, when system calls fail or fall short; file locks; and limits: the
  descriptors and mappings a process holds are those of its open files, and none leaks. \<open>PosixWholeFile\<close>: the class as an implementation of
  the interface; whole files written and read back. \<open>Singletons\<close> (\<^verbatim>\<open>util/no_destructor.h\<close>, \<^verbatim>\<open>Env::Default\<close>): objects constructed once. \<open>Background\<close>: the background
  thread with its mutex and condition variable (\<^verbatim>\<open>port/port.h\<close>), statement by statement. \<open>PosixLogger\<close>
  (\<^verbatim>\<open>util/posix_logger.h\<close>): the two attempts at formatting a line, with and without \<^verbatim>\<open>NDEBUG\<close>. \<open>Histogram\<close> (\<^verbatim>\<open>util/histogram.*\<close>): counting, merging and the printed table.

  \<^bold>\<open>Not modelled.\<close> The tests; starting threads and sleeping on POSIX, which only call the standard library; the static
  assertions on the layout of objects, which the compiler resolves; memory orders weaker than sequential consistency; declarations
  without behaviour (deleted copy operations, empty destructors, the constants of namespace \<^verbatim>\<open>config\<close>, which no code uses).
\<close>

subsection \<open>Bloom filters over internal keys\<close>

interpretation bloom_user: user_filter_policy "bloom_admissible b" "NewBloomFilterPolicy b" for b
  by unfold_locales

text \<open>C34: a Bloom policy wrapped for internal keys rejects no internal key whose user key was
  among the user keys of the internal keys the filter was created from, whatever its sequence
  number and type.\<close>

theorem internal_filter_no_false_negatives:
  assumes "length keys < 2 ^ 31" and "b < 2 ^ 31" and "\<forall>k \<in> set keys. 8 \<le> length k"
    and "k \<in> set keys" and "8 \<le> length k'" and "ExtractUserKey k' = ExtractUserKey k"
  shows "\<exists>f. CreateFilter (InternalFilterPolicy (NewBloomFilterPolicy b)) keys dst = Some (dst @ f) \<and>
    KeyMayMatch (InternalFilterPolicy (NewBloomFilterPolicy b)) k' f = Some True"
proof -
  have "(\<forall>k \<in> set keys. wf_ikey k) \<and> bloom_admissible b (map ikey_user keys)"
    using assms(1-3) by (auto simp: wf_ikey_def bloom_admissible_def)
  then obtain f where f: "CreateFilter (InternalFilterPolicy (NewBloomFilterPolicy b)) keys dst = Some (dst @ f)"
    "KeyMayMatch (InternalFilterPolicy (NewBloomFilterPolicy b)) k f = Some True"
    using bloom_user.internal.create_matches assms(4) by metis
  moreover have "KeyMayMatch (InternalFilterPolicy P) k' f = KeyMayMatch (InternalFilterPolicy P) k f" for P
    using assms(6) by (simp add: InternalFilterPolicy_def InternalFilterPolicy_KeyMayMatch_def)
  ultimately show ?thesis
    by auto
qed

theorem internal_filter_no_false_negatives_witness:
  "\<exists>f. CreateFilter (InternalFilterPolicy (NewBloomFilterPolicy 10)) [ikey (ascii ''a'') 7 kTypeValue] [] = Some f \<and>
    KeyMayMatch (InternalFilterPolicy (NewBloomFilterPolicy 10)) (ikey (ascii ''a'') 9 kTypeDeletion) f = Some True"
  using internal_filter_no_false_negatives [of "[ikey (ascii ''a'') 7 kTypeValue]" 10
      "ikey (ascii ''a'') 7 kTypeValue" "ikey (ascii ''a'') 9 kTypeDeletion" "[]"]
  by (simp add: ExtractUserKey_eq ikey_def PutFixed64_def flip: ikey_simps)
    (simp add: ExtractUserKey_eq ikey_user_def wf_ikey_def)

end
